(* ===== verification/Prelude.thy ===== *)
theory Prelude
  imports Main "HOL-Library.Word" "HOL-Library.Multiset"
begin

text \<open>
  What the component theories share: the machine types of the C sources, the ways a C routine
  can fail, little-endian storage of 32-bit words in byte arrays, C loops over index ranges,
  and the collections of rewrite rules the component proofs use.
\<close>

unbundle bit_operations_syntax

section \<open>Machine types and failures\<close>

type_synonym byte = "8 word"
type_synonym u16 = "16 word"
type_synonym u32 = "32 word"
type_synonym u64 = "64 word"

text \<open>
  The ways a routine of the sources ends other than by delivering its result: it hands back
  a null pointer, it dereferences one, it writes or reads past the end of an array, it divides
  by zero, an assertion fails, it uses an object it has freed, it reads a variable that was never
  set, or a loop is still running when the bound given to its model is reached.
\<close>

datatype cfail = NullResult | NullDeref | OutOfBounds | DivByZero | AssertFail | Dangling | Uninit | Diverges

type_synonym 'a cres = "cfail + 'a"

definition bind_res :: "'a cres \<Rightarrow> ('a \<Rightarrow> 'b cres) \<Rightarrow> 'b cres" where
  "bind_res r f = (case r of Inl e \<Rightarrow> Inl e | Inr a \<Rightarrow> f a)"

text \<open>Subtraction of \<open>size_t\<close> values, below \<open>2 ^ 64\<close>, wraps around.\<close>

definition size_sub :: "nat \<Rightarrow> nat \<Rightarrow> nat" where
  "size_sub a b = (if b \<le> a then a - b else a + 2 ^ 64 - b)"

named_theorems len_simps \<open>lengths of the arrays the operations return\<close>
named_theorems codec_simps \<open>encoders and decoders that undo one another\<close>

lemma bind_res_simps [simp]:
  "bind_res (Inr a) f = f a"
  "bind_res (Inl e) f = Inl e"
  by (simp_all add: bind_res_def)

lemma bind_res_eq_Inr:
  "bind_res r f = Inr b \<longleftrightarrow> (\<exists>a. r = Inr a \<and> f a = Inr b)"
  by (cases r) (auto simp: bind_res_def)

lemma size_sub_le: "b \<le> a \<Longrightarrow> size_sub a b = a - b"
  by (simp add: size_sub_def)

lemma size_sub_word:
  assumes "a < 2 ^ 64" and "b < 2 ^ 64"
  shows "size_sub a b = unat (of_nat a - of_nat b :: u64)"
proof (cases "b \<le> a")
  case True
  then have "of_nat a - of_nat b = (of_nat (a - b) :: u64)" by simp
  with True assms show ?thesis by (simp only: size_sub_def unat_of_nat) simp
next
  case False
  then have "(of_nat (a + 2 ^ 64 - b) :: u64) = of_nat (a + 2 ^ 64) - of_nat b" using assms(2)
    by (intro of_nat_diff) simp
  then have "of_nat a - of_nat b = (of_nat (a + 2 ^ 64 - b) :: u64)" by simp
  with False assms show ?thesis by (simp only: size_sub_def unat_of_nat) simp
qed

lemma bind_res_cong:
  "r = r' \<Longrightarrow> (\<And>a. r' = Inr a \<Longrightarrow> f a = g a) \<Longrightarrow> bind_res r f = bind_res r' g"
  by (cases r') (auto simp: bind_res_def)

section \<open>Arrays and loops that can fail\<close>

definition aget :: "'a list \<Rightarrow> nat \<Rightarrow> 'a cres" where
  "aget xs i = (if i < length xs then Inr (xs ! i) else Inl OutOfBounds)"

definition aset :: "'a list \<Rightarrow> nat \<Rightarrow> 'a \<Rightarrow> 'a list cres" where
  "aset xs i v = (if i < length xs then Inr (xs[i := v]) else Inl OutOfBounds)"

primrec for_res :: "('i \<Rightarrow> 's \<Rightarrow> 's cres) \<Rightarrow> 'i list \<Rightarrow> 's \<Rightarrow> 's cres" where
  "for_res f [] s = Inr s"
| "for_res f (i # is) s = bind_res (f i s) (for_res f is)"

lemma aget_in [simp]: "i < length xs \<Longrightarrow> aget xs i = Inr (xs ! i)"
  by (simp add: aget_def)

lemma aset_in [simp]: "i < length xs \<Longrightarrow> aset xs i v = Inr (xs[i := v])"
  by (simp add: aset_def)

lemma aget_eq_Inr: "aget xs i = Inr v \<longleftrightarrow> i < length xs \<and> v = xs ! i"
  by (auto simp: aget_def)

lemma aset_eq_Inr: "aset xs i v = Inr ys \<longleftrightarrow> i < length xs \<and> ys = xs[i := v]"
  by (auto simp: aset_def)

lemma nth_update_if: "xs[i := x] ! j = (if j = i \<and> i < length xs then x else xs ! j)"
  by (cases "i < length xs") (auto simp: nth_list_update not_less list_update_beyond)

lemma for_res_append: "for_res f (xs @ ys) s = bind_res (for_res f xs s) (for_res f ys)"
  by (induction xs arbitrary: s) (auto simp: bind_res_def split: sum.splits)

text \<open>A loop whose body succeeds and keeps an invariant succeeds and keeps it.\<close>

lemma for_res_upt_invariant:
  assumes "P a s" and "a \<le> b"
    and "\<And>i s. a \<le> i \<Longrightarrow> i < b \<Longrightarrow> P i s \<Longrightarrow> \<exists>s'. f i s = Inr s' \<and> P (Suc i) s'"
  shows "\<exists>s'. for_res f [a..<b] s = Inr s' \<and> P b s'"
proof -
  have "a + k \<le> b \<Longrightarrow> \<exists>s'. for_res f [a..<a + k] s = Inr s' \<and> P (a + k) s'" for k
  proof (induction k)
    case 0
    then show ?case using assms(1) by simp
  next
    case (Suc k)
    then obtain s' where s': "for_res f [a..<a + k] s = Inr s'" "P (a + k) s'" by auto
    with assms(3) [of "a + k" s'] Suc.prems obtain t where "f (a + k) s' = Inr t" "P (Suc (a + k)) t" by auto
    with s' show ?case by (simp add: upt_Suc_append for_res_append)
  qed
  from this [of "b - a"] show ?thesis using assms(2) by simp
qed

section \<open>Linked lists\<close>

text \<open>The cells \<open>xs\<close> are what is reached from \<open>n\<close> through the links; a cell without an entry has been freed.\<close>

fun chain :: "('a \<Rightarrow> 'a option option) \<Rightarrow> 'a option \<Rightarrow> 'a list \<Rightarrow> bool" where
  "chain nx n [] \<longleftrightarrow> n = None"
| "chain nx n (x # xs) \<longleftrightarrow> n = Some x \<and> (\<exists>m. nx x = Some m \<and> chain nx m xs)"

lemma chain_cong: "(\<And>a. a \<in> set xs \<Longrightarrow> nx' a = nx a) \<Longrightarrow> chain nx' n xs = chain nx n xs"
  by (induction xs arbitrary: n) auto

lemma chain_snoc:
  assumes "chain nx n (xs @ [t])" "t \<notin> set xs" "a \<notin> set (xs @ [t])"
    and "nx' t = Some (Some a)" "nx' a = Some None" "\<And>b. b \<in> set xs \<Longrightarrow> nx' b = nx b"
  shows "chain nx' n (xs @ [t, a])"
  using assms by (induction xs arbitrary: n) auto

section \<open>Little-endian words in byte arrays\<close>

definition bytes32 :: "u32 \<Rightarrow> byte list" where
  "bytes32 w = [ucast w, ucast (drop_bit 8 w), ucast (drop_bit 16 w), ucast (drop_bit 24 w)]"

definition word32 :: "byte \<Rightarrow> byte \<Rightarrow> byte \<Rightarrow> byte \<Rightarrow> u32" where
  "word32 a b c d =
     ucast a OR push_bit 8 (ucast b) OR push_bit 16 (ucast c) OR push_bit 24 (ucast d)"

fun le32 :: "byte list \<Rightarrow> u32" where
  "le32 (a # b # c # d # _) = word32 a b c d"
| "le32 [a, b, c] = word32 a b c 0"
| "le32 [a, b] = word32 a b 0 0"
| "le32 [a] = word32 a 0 0 0"
| "le32 [] = 0"

text \<open>The words of a byte array; bytes missing from the last word are zero.\<close>

fun le_words :: "byte list \<Rightarrow> u32 list" where
  "le_words (a # b # c # d # r) = word32 a b c d # le_words r"
| "le_words [] = []"
| "le_words r = [le32 r]"

definition le_bytes :: "u32 list \<Rightarrow> byte list" where
  "le_bytes ws = concat (map bytes32 ws)"

lemma word32_bytes32 [codec_simps]:
  "word32 (ucast w) (ucast (drop_bit 8 w)) (ucast (drop_bit 16 w)) (ucast (drop_bit 24 w)) = w"
  unfolding word32_def
proof (rule bit_word_eqI)
  fix n assume "n < LENGTH(32)"
  then consider "n < 8" | "8 \<le> n" "n < 16" | "16 \<le> n" "n < 24" | "24 \<le> n" "n < 32" by force
  then show "bit (ucast (ucast w :: byte) OR push_bit 8 (ucast (ucast (drop_bit 8 w) :: byte))
      OR push_bit 16 (ucast (ucast (drop_bit 16 w) :: byte))
      OR push_bit 24 (ucast (ucast (drop_bit 24 w) :: byte)) :: u32) n = bit w n"
    by cases (auto simp: bit_simps)
qed

lemma bit_byte_high: "8 \<le> n \<Longrightarrow> \<not> bit (a :: byte) n"
  by (auto dest: bit_imp_le_length)

lemma bytes32_word32 [codec_simps]: "bytes32 (word32 a b c d) = [a, b, c, d]"
  unfolding word32_def bytes32_def
  by (auto intro!: bit_word_eqI simp: bit_simps bit_byte_high)

lemma length_bytes32 [simp, len_simps]: "length (bytes32 w) = 4"
  by (simp add: bytes32_def)

lemma length_le_bytes [simp, len_simps]: "length (le_bytes ws) = 4 * length ws"
  by (induction ws) (auto simp: le_bytes_def)

lemma le_bytes_Nil [simp]: "le_bytes [] = []"
  and le_bytes_Cons [simp]: "le_bytes (w # ws) = bytes32 w @ le_bytes ws"
  by (simp_all add: le_bytes_def)

lemma le_words_bytes32 [codec_simps]: "le_words (bytes32 w @ r) = w # le_words r"
  by (simp add: bytes32_def codec_simps)

lemma le_words_le_bytes [codec_simps]: "le_words (le_bytes ws) = ws"
  by (induction ws) (auto simp: codec_simps)

lemma length_le_words [len_simps]: "length (le_words bs) = (length bs + 3) div 4"
  by (induction bs rule: le_words.induct) auto

lemma le_bytes_le_words_aligned [codec_simps]:
  "length bs mod 4 = 0 \<Longrightarrow> le_bytes (le_words bs) = bs"
  by (induction bs rule: le_words.induct) (auto simp: codec_simps)

lemma le_bytes_le_words [codec_simps]: "take (length bs) (le_bytes (le_words bs)) = bs"
  by (induction bs rule: le_words.induct) (auto simp: codec_simps)

lemma le_words_append_aligned:
  "length bs mod 4 = 0 \<Longrightarrow> le_words (bs @ cs) = le_words bs @ le_words cs"
  by (induction bs rule: le_words.induct) auto

lemma le_words_pad_zero:
  "(length bs + k) mod 4 = 0 \<Longrightarrow> k < 4 \<Longrightarrow> le_words (bs @ replicate k 0) = le_words bs"
proof (induction bs rule: le_words.induct)
  case (1 a b c d r)
  then show ?case by simp
next
  case 2
  then show ?case by simp
next
  case "3_1"
  then have "k = 3" by simp presburger
  then show ?case by (simp add: eval_nat_numeral)
next
  case "3_2"
  then have "k = 2" by simp presburger
  then show ?case by (simp add: eval_nat_numeral)
next
  case "3_3"
  then have "k = 1" by simp presburger
  then show ?case by simp
qed

section \<open>Loops over index ranges\<close>

lemma fold_upt_Suc_right:
  "m \<le> n \<Longrightarrow> fold f [m..<Suc n] s = f n (fold f [m..<n] s)"
  by (simp add: upt_Suc_append)

lemma fold_upt_invariant:
  assumes "P a s" and "a \<le> b"
    and "\<And>i s. a \<le> i \<Longrightarrow> i < b \<Longrightarrow> P i s \<Longrightarrow> P (Suc i) (f i s)"
  shows "P b (fold f [a..<b] s)"
proof -
  have "a + k \<le> b \<Longrightarrow> P (a + k) (fold f [a..<a + k] s)" for k
  proof (induction k)
    case 0
    then show ?case using assms(1) by simp
  next
    case (Suc k)
    then show ?case using assms(3) [of "a + k"] by (simp add: fold_upt_Suc_right)
  qed
  from this [of "b - a"] show ?thesis using assms(2) by simp
qed

section \<open>Steps that undo one another\<close>

text \<open>
  Two families of steps over the same indices, where the second undoes the first on the states
  that satisfy an invariant. A run of the first family is undone by the run of the second family
  over the reversed indices.
\<close>

locale undo_steps =
  fixes f g :: "'i \<Rightarrow> 's \<Rightarrow> 's"
    and I :: "'i set"
    and P :: "'s \<Rightarrow> bool"
  assumes keep: "i \<in> I \<Longrightarrow> P s \<Longrightarrow> P (f i s)"
    and undo: "i \<in> I \<Longrightarrow> P s \<Longrightarrow> g i (f i s) = s"
begin

lemma fold_keep: "set xs \<subseteq> I \<Longrightarrow> P s \<Longrightarrow> P (fold f xs s)"
  by (induction xs arbitrary: s) (auto intro: keep)

lemma fold_undo: "set xs \<subseteq> I \<Longrightarrow> P s \<Longrightarrow> fold g (rev xs) (fold f xs s) = s"
  by (induction xs arbitrary: s) (auto simp: keep undo)

end

end
