(* ===== verification/Xxtea.thy ===== *)
theory Xxtea
  imports Prelude
begin

text \<open>
  The XXTEA block cipher of \<open>xxtea/xxtea.c\<close>, as compiled on a little-endian machine. The
  arrays of the code are lists of bytes or of 32-bit words; the arithmetic is that of
  \<open>uint32_t\<close>. The three heap allocations of an encryption or a decryption (the words of the
  data, the words of the key, the bytes of the result) are numbered 0, 1, 2, and an argument
  \<open>ok\<close> says which of them succeed. Encryption and decryption are shown to undo one another, by
  showing it for the change of one word, then for a pass over the array, then for all passes.
\<close>

section \<open>The code\<close>

definition DELTA :: u32 where
  "DELTA = 0x9e3779b9"

definition MX :: "u32 \<Rightarrow> u32 \<Rightarrow> u32 \<Rightarrow> u32 list \<Rightarrow> nat \<Rightarrow> u32 \<Rightarrow> u32" where
  "MX z y sm key p e =
     ((drop_bit 5 z XOR push_bit 2 y) + (drop_bit 3 y XOR push_bit 4 z)) XOR
     ((sm XOR y) + (key ! unat ((of_nat p AND 3) XOR e) XOR z))"

function key_end :: "byte list \<Rightarrow> nat \<Rightarrow> nat" where
  "key_end k i = (if i < 16 \<and> k ! i \<noteq> 0 then key_end k (Suc i) else i)"
  by pat_completeness auto
termination
  by (relation "measure (\<lambda>(k, i). 16 - i)") auto

definition FIXED_KEY :: "byte list \<Rightarrow> byte list" where
  "FIXED_KEY key =
     (let fixed_key = take 16 key
      in fold (\<lambda>i k. k[i := 0]) [Suc (key_end fixed_key 0)..<16] fixed_key)"

text \<open>\<open>memcpy\<close> of bytes over the front of an array of words, in little-endian memory.\<close>

definition memcpy_words :: "u32 list \<Rightarrow> byte list \<Rightarrow> u32 list" where
  "memcpy_words out bs = le_words (bs @ drop (length bs) (le_bytes out))"

definition xxtea_to_uint_array :: "bool \<Rightarrow> byte list \<Rightarrow> bool \<Rightarrow> u32 list cres" where
  "xxtea_to_uint_array ok data inc_len =
     (let len = length data;
          n = (if len mod 4 = 0 then len div 4 else len div 4 + 1)
      in if \<not> ok then Inl NullResult
         else if inc_len then Inr (memcpy_words (replicate n 0 @ [of_nat len]) data)
         else Inr (memcpy_words (replicate n 0) data))"

definition xxtea_to_ubyte_array :: "bool \<Rightarrow> u32 list \<Rightarrow> bool \<Rightarrow> (byte list \<times> nat) cres" where
  "xxtea_to_ubyte_array ok data inc_len =
     (let len = length data;
          copy = (\<lambda>n. if \<not> ok then Inl NullDeref else Inr (take n (le_bytes data) @ [0], n));
          n = 4 * len
      in if inc_len
         then if len = 0 then Inl OutOfBounds
              else let m = unat (data ! (len - 1)); n = size_sub n 4
                   in if m < size_sub n 3 \<or> m > n then Inl NullResult else copy m
         else copy n)"

definition enc_step ::
  "u32 list \<Rightarrow> u32 \<Rightarrow> u32 \<Rightarrow> nat \<Rightarrow> nat \<Rightarrow> u32 list \<times> u32 \<Rightarrow> u32 list \<times> u32" where
  "enc_step key sm e j p = (\<lambda>(data, z).
     let y = data ! j; v = data ! p + MX z y sm key p e in (data[p := v], v))"

definition enc_round :: "u32 list \<Rightarrow> u32 \<Rightarrow> nat \<Rightarrow> u32 list \<times> u32 \<Rightarrow> u32 list \<times> u32" where
  "enc_round key sm n s =
     (let e = drop_bit 2 sm AND 3
      in enc_step key sm e 0 n (fold (\<lambda>p. enc_step key sm e (p + 1) p) [0..<n] s))"

fun enc_while :: "u32 list \<Rightarrow> nat \<Rightarrow> nat \<Rightarrow> u32 \<Rightarrow> u32 list \<times> u32 \<Rightarrow> u32 list \<times> u32" where
  "enc_while key n 0 sm s = s"
| "enc_while key n (Suc q) sm s = enc_while key n q (sm + DELTA) (enc_round key (sm + DELTA) n s)"

definition xxtea_uint_encrypt :: "u32 list \<Rightarrow> u32 list \<Rightarrow> u32 list cres" where
  "xxtea_uint_encrypt data key =
     (let n = of_nat (length data) - 1 :: u32
      in if n + 1 = 0 then Inl DivByZero
         else let q = 6 + 52 div (n + 1)
              in if n < 1 then Inr data
                 else Inr (fst (enc_while key (unat n) (unat q) 0 (data, data ! unat n))))"

definition dec_step ::
  "u32 list \<Rightarrow> u32 \<Rightarrow> u32 \<Rightarrow> nat \<Rightarrow> nat \<Rightarrow> u32 list \<times> u32 \<Rightarrow> u32 list \<times> u32" where
  "dec_step key sm e j p = (\<lambda>(data, y).
     let z = data ! j; v = data ! p - MX z y sm key p e in (data[p := v], v))"

definition dec_round :: "u32 list \<Rightarrow> u32 \<Rightarrow> nat \<Rightarrow> u32 list \<times> u32 \<Rightarrow> u32 list \<times> u32" where
  "dec_round key sm n s =
     (let e = drop_bit 2 sm AND 3
      in dec_step key sm e n 0 (fold (\<lambda>p. dec_step key sm e (p - 1) p) (rev [1..<Suc n]) s))"

text \<open>
  The loop of the decryption runs until \<open>sum\<close> is 0. It ends for every start value, because
  \<open>DELTA\<close> is odd and so has an inverse modulo \<open>2 ^ 32\<close>: each pass lowers \<open>sum\<close> times that
  inverse by one.
\<close>

definition DELTA_INV :: u32 where
  "DELTA_INV = 0x144cbc89"

lemma DELTA_INV: "DELTA * DELTA_INV = 1"
  by (simp add: DELTA_def DELTA_INV_def)

lemma DELTA_measure:
  assumes "sm \<noteq> 0"
  shows "unat ((sm - DELTA) * DELTA_INV) < unat (sm * DELTA_INV)"
proof -
  have "(sm * DELTA_INV) * DELTA = sm * (DELTA * DELTA_INV)" by (simp only: ac_simps)
  then have "(sm * DELTA_INV) * DELTA = sm" by (simp only: DELTA_INV mult_1_right)
  with assms have nz: "sm * DELTA_INV \<noteq> 0" by auto
  have "(sm - DELTA) * DELTA_INV = sm * DELTA_INV - 1"
    using DELTA_INV by (simp add: left_diff_distrib)
  moreover have "unat (sm * DELTA_INV) \<noteq> 0" using nz by (simp add: unat_eq_0)
  ultimately show ?thesis using nz by (simp add: unat_minus_one)
qed

function dec_while :: "u32 list \<Rightarrow> nat \<Rightarrow> u32 \<Rightarrow> u32 list \<times> u32 \<Rightarrow> u32 list \<times> u32" where
  "dec_while key n sm s =
     (if sm \<noteq> 0 then dec_while key n (sm - DELTA) (dec_round key sm n s) else s)"
  by pat_completeness auto
termination
  by (relation "measure (\<lambda>(key, n, sm, s). unat (sm * DELTA_INV))") (auto simp: DELTA_measure)

declare dec_while.simps [simp del] key_end.simps [simp del]

definition xxtea_uint_decrypt :: "u32 list \<Rightarrow> u32 list \<Rightarrow> u32 list cres" where
  "xxtea_uint_decrypt data key =
     (let n = of_nat (length data) - 1 :: u32
      in if n + 1 = 0 then Inl DivByZero
         else let q = 6 + 52 div (n + 1)
              in if n < 1 then Inr data
                 else Inr (fst (dec_while key (unat n) (q * DELTA) (data, data ! 0))))"

definition xxtea_ubyte_encrypt ::
  "(nat \<Rightarrow> bool) \<Rightarrow> byte list \<Rightarrow> byte list \<Rightarrow> (byte list \<times> nat) cres" where
  "xxtea_ubyte_encrypt ok data key =
     (if length data = 0 then Inl NullResult
      else bind_res (xxtea_to_uint_array (ok 0) data True) (\<lambda>data_array.
           bind_res (xxtea_to_uint_array (ok 1) (take 16 key) False) (\<lambda>key_array.
           bind_res (xxtea_uint_encrypt data_array key_array) (\<lambda>c.
           xxtea_to_ubyte_array (ok 2) c False))))"

definition xxtea_ubyte_decrypt ::
  "(nat \<Rightarrow> bool) \<Rightarrow> byte list \<Rightarrow> byte list \<Rightarrow> (byte list \<times> nat) cres" where
  "xxtea_ubyte_decrypt ok data key =
     (if length data = 0 then Inl NullResult
      else bind_res (xxtea_to_uint_array (ok 0) data False) (\<lambda>data_array.
           bind_res (xxtea_to_uint_array (ok 1) (take 16 key) False) (\<lambda>key_array.
           bind_res (xxtea_uint_decrypt data_array key_array) (\<lambda>p.
           xxtea_to_ubyte_array (ok 2) p True))))"

text \<open>
  The public functions. They copy 16 bytes of the key, so a shorter key is read past its end.
\<close>

definition xxtea_encrypt ::
  "(nat \<Rightarrow> bool) \<Rightarrow> byte list \<Rightarrow> byte list \<Rightarrow> (byte list \<times> nat) cres" where
  "xxtea_encrypt ok data key =
     (if length key < 16 then Inl OutOfBounds else xxtea_ubyte_encrypt ok data (FIXED_KEY key))"

definition xxtea_decrypt ::
  "(nat \<Rightarrow> bool) \<Rightarrow> byte list \<Rightarrow> byte list \<Rightarrow> (byte list \<times> nat) cres" where
  "xxtea_decrypt ok data key =
     (if length key < 16 then Inl OutOfBounds else xxtea_ubyte_decrypt ok data (FIXED_KEY key))"

section \<open>Decryption undoes encryption\<close>

text \<open>
  One word of the array changes as a function of its cyclic neighbours. The running variables
  \<open>z\<close> and \<open>y\<close> of the loops always hold the neighbour just changed, so a pass is a sequence of
  such changes.
\<close>

definition prev_ix :: "nat \<Rightarrow> nat \<Rightarrow> nat" where
  "prev_ix n p = (if p = 0 then n else p - 1)"

definition next_ix :: "nat \<Rightarrow> nat \<Rightarrow> nat" where
  "next_ix n p = (if p = n then 0 else p + 1)"

definition mix :: "u32 list \<Rightarrow> u32 \<Rightarrow> nat \<Rightarrow> nat \<Rightarrow> u32 list \<Rightarrow> u32" where
  "mix key sm n p d =
     MX (d ! prev_ix n p) (d ! next_ix n p) sm key p (drop_bit 2 sm AND 3)"

definition enc_word :: "u32 list \<Rightarrow> u32 \<Rightarrow> nat \<Rightarrow> nat \<Rightarrow> u32 list \<Rightarrow> u32 list" where
  "enc_word key sm n p d = d[p := d ! p + mix key sm n p d]"

definition dec_word :: "u32 list \<Rightarrow> u32 \<Rightarrow> nat \<Rightarrow> nat \<Rightarrow> u32 list \<Rightarrow> u32 list" where
  "dec_word key sm n p d = d[p := d ! p - mix key sm n p d]"

abbreviation block_ok :: "nat \<Rightarrow> u32 list \<Rightarrow> bool" where
  "block_ok n d \<equiv> 1 \<le> n \<and> length d = Suc n"

lemma neighbours_differ:
  assumes "1 \<le> n" and "p \<le> n"
  shows "prev_ix n p \<noteq> p" and "next_ix n p \<noteq> p"
  using assms by (auto simp: prev_ix_def next_ix_def)

lemma mix_update_same:
  "1 \<le> n \<Longrightarrow> p \<le> n \<Longrightarrow> mix key sm n p (d[p := v]) = mix key sm n p d"
  using neighbours_differ [of n p] by (simp add: mix_def)

interpretation enc_dec: undo_steps "enc_word key sm n" "dec_word key sm n" "{0..n}" "block_ok n"
  for key sm n
  by unfold_locales (auto simp: enc_word_def dec_word_def mix_update_same)

lemma length_enc_word [simp, len_simps]: "length (enc_word key sm n p d) = length d"
  and length_dec_word [simp, len_simps]: "length (dec_word key sm n p d) = length d"
  by (simp_all add: enc_word_def dec_word_def)

lemma length_fold_words [simp, len_simps]:
  "length (fold (enc_word key sm n) ps d) = length d"
  "length (fold (dec_word key sm n) ps d) = length d"
  by (induction ps arbitrary: d) auto

lemma enc_step_word:
  assumes "block_ok n d" and "p \<le> n" and "j = next_ix n p"
  shows "enc_step key sm (drop_bit 2 sm AND 3) j p (d, d ! prev_ix n p) =
    (let d' = enc_word key sm n p d in (d', d' ! p))"
  using assms by (simp add: enc_step_def enc_word_def mix_def Let_def)

lemma dec_step_word:
  assumes "block_ok n d" and "p \<le> n" and "j = prev_ix n p"
  shows "dec_step key sm (drop_bit 2 sm AND 3) j p (d, d ! next_ix n p) =
    (let d' = dec_word key sm n p d in (d', d' ! p))"
  using assms by (simp add: dec_step_def dec_word_def mix_def Let_def)

lemma enc_fold:
  assumes "block_ok n d" and "k \<le> n"
  shows "fold (\<lambda>p. enc_step key sm (drop_bit 2 sm AND 3) (p + 1) p) [0..<k] (d, d ! n) =
    (let d' = fold (enc_word key sm n) [0..<k] d in (d', d' ! prev_ix n k))"
  using assms(2)
proof (induction k)
  case 0
  then show ?case by (simp add: prev_ix_def)
next
  case (Suc k)
  let ?d = "fold (enc_word key sm n) [0..<k] d"
  have "enc_step key sm (drop_bit 2 sm AND 3) (k + 1) k (?d, ?d ! prev_ix n k) =
      (let d' = enc_word key sm n k ?d in (d', d' ! k))"
    by (rule enc_step_word) (use assms(1) Suc.prems in \<open>simp_all add: next_ix_def\<close>)
  moreover have "prev_ix n (Suc k) = k" by (simp add: prev_ix_def)
  ultimately show ?case using Suc by (simp add: Let_def)
qed

lemma enc_round_words:
  assumes "block_ok n d"
  shows "enc_round key sm n (d, d ! n) =
    (let d' = fold (enc_word key sm n) [0..<Suc n] d in (d', d' ! n))"
  using enc_step_word [of n "fold (enc_word key sm n) [0..<n] d" n 0 key sm] assms
    enc_fold [OF assms order.refl, of key sm]
  by (simp add: enc_round_def next_ix_def Let_def)

lemma dec_fold:
  assumes "block_ok n d" and "k \<le> n"
  shows "fold (\<lambda>p. dec_step key sm (drop_bit 2 sm AND 3) (p - 1) p)
      (rev [Suc n - k..<Suc n]) (d, d ! 0) =
    (let d' = fold (dec_word key sm n) (rev [Suc n - k..<Suc n]) d
     in (d', d' ! next_ix n (n - k)))"
  using assms(2)
proof (induction k)
  case 0
  then show ?case by (simp add: next_ix_def)
next
  case (Suc k)
  have r: "rev [Suc n - Suc k..<Suc n] = rev [Suc n - k..<Suc n] @ [n - k]"
    using Suc.prems by (simp add: upt_conv_Cons Suc_diff_le del: upt_Suc)
  let ?d = "fold (dec_word key sm n) (rev [Suc n - k..<Suc n]) d"
  have "block_ok n ?d" and "n - k - 1 = prev_ix n (n - k)" and "next_ix n (n - Suc k) = n - k"
    using assms(1) Suc.prems by (auto simp: next_ix_def prev_ix_def)
  with Suc dec_step_word [of n ?d "n - k" "n - k - 1" key sm] show ?case unfolding r
    by (simp add: Let_def del: upt_Suc)
qed

lemma dec_round_words:
  assumes "block_ok n d"
  shows "dec_round key sm n (d, d ! 0) =
    (let d' = fold (dec_word key sm n) (rev [0..<Suc n]) d in (d', d' ! 0))"
proof -
  have r: "rev [0..<Suc n] = rev [1..<Suc n] @ [0]" by (simp add: upt_conv_Cons del: upt_Suc)
  let ?d = "fold (dec_word key sm n) (rev [1..<Suc n]) d"
  have "dec_step key sm (drop_bit 2 sm AND 3) n 0 (?d, ?d ! next_ix n 0) =
      (let d' = dec_word key sm n 0 ?d in (d', d' ! 0))"
    by (rule dec_step_word) (use assms in \<open>simp_all add: prev_ix_def\<close>)
  then show ?thesis using dec_fold [OF assms order.refl, of key sm] unfolding r dec_round_def
    by (simp add: Let_def del: upt_Suc)
qed

lemma dec_round_enc_round:
  assumes "block_ok n d" and "enc_round key sm n (d, d ! n) = (c, z)"
  shows "block_ok n c" and "z = c ! n" and "dec_round key sm n (c, c ! 0) = (d, d ! 0)"
proof -
  from assms have c: "c = fold (enc_word key sm n) [0..<Suc n] d" and z: "z = c ! n"
    by (auto simp: enc_round_words Let_def simp del: upt_Suc)
  have sub: "set [0..<Suc n] \<subseteq> {0..n}" by auto
  show b: "block_ok n c" unfolding c by (rule enc_dec.fold_keep [OF sub assms(1)])
  show "z = c ! n" by (rule z)
  have "fold (dec_word key sm n) (rev [0..<Suc n]) c = d"
    unfolding c by (rule enc_dec.fold_undo [OF sub assms(1)])
  then show "dec_round key sm n (c, c ! 0) = (d, d ! 0)"
    by (simp only: dec_round_words [OF b] Let_def)
qed

lemma length_dec_step [simp]: "length (fst (dec_step key sm e j p s)) = length (fst s)"
  by (simp add: dec_step_def Let_def case_prod_unfold)

lemma length_fold_dec_step [simp]:
  "length (fst (fold (\<lambda>p. dec_step key sm e (j p) p) ps s)) = length (fst s)"
  by (induction ps arbitrary: s) auto

lemma length_dec_while: "length (fst (dec_while key n sm s)) = length (fst s)"
proof (induction key n sm s rule: dec_while.induct)
  case (1 key n sm s)
  have "length (fst (dec_round key sm n s)) = length (fst s)"
    by (simp add: dec_round_def Let_def)
  with 1 show ?case by (subst dec_while.simps) simp
qed

lemma of_nat_mult_DELTA_eq_0: "of_nat k * DELTA = 0 \<Longrightarrow> k < 2 ^ 32 \<Longrightarrow> k = 0"
proof -
  assume "of_nat k * DELTA = 0" and k: "k < 2 ^ 32"
  then have "(of_nat k * DELTA) * DELTA_INV = 0" by simp
  then have "(of_nat k :: u32) = 0" using DELTA_INV by (simp add: mult.assoc)
  then have "unat (of_nat k :: u32) = 0" by simp
  with k show "k = 0" by (simp add: unat_of_nat)
qed

lemma dec_while_enc_while:
  assumes "block_ok n d" and "k + q < 2 ^ 32"
    and "enc_while key n q (of_nat k * DELTA) (d, d ! n) = (c, z)"
  shows "length c = length d \<and>
    dec_while key n (of_nat (k + q) * DELTA) (c, c ! 0) = dec_while key n (of_nat k * DELTA) (d, d ! 0)"
  using assms
proof (induction q arbitrary: k d)
  case 0
  then show ?case by simp
next
  case (Suc q)
  let ?s = "of_nat (Suc k) * DELTA"
  have s: "of_nat k * DELTA + DELTA = ?s" by (simp add: algebra_simps)
  obtain e w where e: "enc_round key ?s n (d, d ! n) = (e, w)" by fastforce
  note round = dec_round_enc_round [OF Suc.prems(1) e]
  have "enc_while key n q ?s (e, e ! n) = (c, z)"
    using Suc.prems(3) e round(2) by (simp add: s)
  then have IH: "length c = length e \<and>
    dec_while key n (of_nat (Suc k + q) * DELTA) (c, c ! 0) = dec_while key n ?s (e, e ! 0)"
    using Suc.IH [of e "Suc k"] round(1) Suc.prems(2) by simp
  have "?s \<noteq> 0" using of_nat_mult_DELTA_eq_0 [of "Suc k"] Suc.prems(2) by auto
  moreover have "?s - DELTA = of_nat k * DELTA" by (simp add: algebra_simps)
  ultimately have "dec_while key n ?s (e, e ! 0) = dec_while key n (of_nat k * DELTA) (d, d ! 0)"
    by (subst dec_while.simps) (simp add: round(3) del: of_nat_Suc)
  with IH round(1) Suc.prems(1) show ?case by simp
qed

lemma uint_roundtrip:
  assumes "1 \<le> length d" and "length d < 2 ^ 32"
  shows "\<exists>c. xxtea_uint_encrypt d key = Inr c \<and> length c = length d \<and>
    xxtea_uint_decrypt c key = Inr d"
proof -
  define n where "n = (of_nat (length d) - 1 :: u32)"
  define q where "q = 6 + 52 div (n + 1)"
  have len: "unat (of_nat (length d) :: u32) = length d" using assms(2) by (simp add: unat_of_nat)
  then have nz: "of_nat (length d) \<noteq> (0 :: u32)" using assms(1) by force
  then have un: "unat n = length d - 1" using len by (simp add: n_def unat_minus_one)
  have n1: "n + 1 \<noteq> 0" using nz by (simp add: n_def)
  show ?thesis
  proof (cases "n < 1")
    case True
    then show ?thesis using nz
      by (simp add: xxtea_uint_encrypt_def xxtea_uint_decrypt_def n_def [symmetric])
  next
    case False
    then have "1 \<le> unat n" by (simp add: word_less_nat_alt)
    then have ok: "block_ok (unat n) d" using un by arith
    obtain c z where c: "enc_while key (unat n) (unat q) 0 (d, d ! unat n) = (c, z)" by fastforce
    have "length c = length d \<and>
        dec_while key (unat n) (q * DELTA) (c, c ! 0) = dec_while key (unat n) 0 (d, d ! 0)"
      using dec_while_enc_while [OF ok, of 0 "unat q" key c z] c unsigned_less [of q] by simp
    then show ?thesis using c nz n1 False
      by (simp add: xxtea_uint_encrypt_def xxtea_uint_decrypt_def n_def [symmetric]
          q_def [symmetric] dec_while.simps [of _ _ 0])
  qed
qed

section \<open>From bytes to words and back\<close>

lemma memcpy_words_full: "length bs = 4 * length out \<Longrightarrow> memcpy_words out bs = le_words bs"
  by (simp add: memcpy_words_def)

lemma memcpy_words_zeros:
  assumes "n = (length bs + 3) div 4"
  shows "memcpy_words (replicate n 0 @ ws) bs = le_words bs @ ws"
proof -
  define k where "k = 4 * n - length bs"
  have k: "k < 4" "(length bs + k) mod 4 = 0" "length bs \<le> 4 * n"
    unfolding k_def assms by presburger+
  have z: "le_bytes (replicate n 0) = replicate (4 * n) 0"
    by (induction n) (simp_all add: bytes32_def replicate_add numeral_eq_Suc)
  have "drop (length bs) (le_bytes (replicate n 0 @ ws)) = replicate k 0 @ le_bytes ws"
    using k(3) z by (simp add: le_bytes_def k_def)
  then show ?thesis
    using le_words_append_aligned [of "bs @ replicate k 0" "le_bytes ws"] k le_words_pad_zero [of bs k]
    by (simp add: memcpy_words_def codec_simps)
qed

lemma ceil_words: "(if len mod 4 = 0 then len div 4 else len div 4 + 1) = (len + 3) div (4::nat)"
  by presburger

lemma xxtea_to_uint_array_eq:
  "xxtea_to_uint_array ok data inc_len =
     (if \<not> ok then Inl NullResult
      else Inr (le_words data @ (if inc_len then [of_nat (length data)] else [])))"
  using memcpy_words_zeros [OF refl, of data "[]"] memcpy_words_zeros [OF refl, of data "[of_nat (length data)]"]
  by (simp add: xxtea_to_uint_array_def ceil_words Let_def)

lemma to_ubyte_array_plain:
  "xxtea_to_ubyte_array True ws False = Inr (le_bytes ws @ [0], 4 * length ws)"
  by (simp add: xxtea_to_ubyte_array_def)

lemma to_ubyte_array_len:
  assumes "data \<noteq> []" and "length data < 2 ^ 32"
  shows "xxtea_to_ubyte_array True (le_words data @ [of_nat (length data)]) True =
    Inr (data @ [0], length data)"
proof -
  define k where "k = (length data + 3) div 4"
  have k: "length data \<le> 4 * k" "4 * k < length data + 4" "1 \<le> k"
    unfolding k_def using assms(1) by (cases data; simp; presburger)+
  have "size_sub (4 * (k + 1)) 4 = 4 * k" and "size_sub (4 * k) 3 = 4 * k - 3"
    using k by (simp_all add: size_sub_le)
  moreover have "unat (of_nat (length data) :: u32) = length data"
    using assms(2) by (simp add: unat_of_nat)
  moreover have "take (length data) (le_bytes (le_words data @ [of_nat (length data)])) = data"
    using k(1) by (simp add: le_bytes_def [of "_ @ _"] le_bytes_def [symmetric] codec_simps len_simps
        k_def [symmetric])
  ultimately show ?thesis using k
    by (simp add: xxtea_to_ubyte_array_def len_simps k_def [symmetric] Let_def nth_append)
qed

lemma FIXED_KEY_fold:
  "i \<le> length k \<Longrightarrow> fold (\<lambda>i k. k[i := 0]) [i..<length k] k = take i k @ replicate (length k - i) (0 :: byte)"
proof (induction "length k - i" arbitrary: i k)
  case 0
  then show ?case by simp
next
  case (Suc m)
  then have i: "i < length k" by simp
  have "fold (\<lambda>i k. k[i := 0]) [i..<length k] k =
      fold (\<lambda>i k. k[i := 0]) [Suc i..<length (k[i := 0])] (k[i := 0])"
    using i by (simp add: upt_conv_Cons)
  also have "\<dots> = take (Suc i) (k[i := 0]) @ replicate (length k - Suc i) 0"
    using Suc.hyps(1) [of "k[i := 0]" "Suc i"] Suc.hyps(2) i by simp
  also have "take (Suc i) (k[i := 0]) = take i k @ [0]"
    using i by (simp add: take_Suc_conv_app_nth)
  finally show ?case using i by (simp flip: replicate_Suc add: Suc_diff_Suc)
qed

lemma key_end_takeWhile:
  "length k = 16 \<Longrightarrow> i \<le> 16 \<Longrightarrow> key_end k i = i + length (takeWhile (\<lambda>b. b \<noteq> 0) (drop i k))"
proof (induction k i rule: key_end.induct)
  case (1 k i)
  show ?case
  proof (cases "i < 16")
    case True
    then have "drop i k = k ! i # drop (Suc i) k" using "1.prems" by (simp add: Cons_nth_drop_Suc)
    with 1 True show ?thesis by (subst key_end.simps) simp
  next
    case False
    with 1 show ?thesis by (subst key_end.simps) simp
  qed
qed

lemma FIXED_KEY_eq:
  assumes "16 \<le> length key"
  shows "FIXED_KEY key =
    (let s = takeWhile (\<lambda>b. b \<noteq> 0) (take 16 key) in s @ replicate (16 - length s) 0)"
proof -
  define k where "k = take 16 key"
  define s where "s = takeWhile (\<lambda>b. b \<noteq> 0) k"
  have lk: "length k = 16" using assms by (simp add: k_def)
  then have ls: "length s \<le> 16" by (metis length_takeWhile_le s_def)
  have ke: "key_end k 0 = length s" using key_end_takeWhile [OF lk, of 0] by (simp add: s_def)
  show ?thesis
  proof (cases "length s = 16")
    case True
    then have "s = k" using lk by (metis s_def takeWhile_eq_take take_all order.refl)
    then show ?thesis using ke True by (simp add: FIXED_KEY_def k_def [symmetric] s_def [symmetric] Let_def)
  next
    case False
    then have lt: "length s < 16" using ls by simp
    then have z: "k ! length s = 0" using nth_length_takeWhile [of "\<lambda>b. b \<noteq> 0" k] lk by (simp add: s_def)
    have "FIXED_KEY key = take (Suc (length s)) k @ replicate (16 - Suc (length s)) 0"
      using FIXED_KEY_fold [of "Suc (length s)" k] lt lk ke
      by (simp add: FIXED_KEY_def k_def [symmetric] Let_def)
    also have "take (Suc (length s)) k = s @ [0]"
      using lt lk z by (simp add: take_Suc_conv_app_nth takeWhile_eq_take [symmetric] s_def)
    finally show ?thesis using lt
      by (simp add: k_def [symmetric] s_def [symmetric] Let_def flip: replicate_Suc add: Suc_diff_Suc)
  qed
qed

section \<open>Properties\<close>

text \<open>
  C32. Decryption recovers what was encrypted: for every non-empty message shorter than
  \<open>2 ^ 32\<close> bytes and every key of at least 16 bytes, where no allocation fails, the encryption
  returns an array of words, and decrypting exactly the bytes returned gives the message back,
  with its length and its terminating zero.
\<close>

theorem xxtea_roundtrip:
  assumes "data \<noteq> []" and "length data < 2 ^ 32" and "16 \<le> length key"
    and "ok 0 \<and> ok 1 \<and> ok 2" and "ok' 0 \<and> ok' 1 \<and> ok' 2"
  shows "\<exists>c. xxtea_encrypt ok data key = Inr (c @ [0], length c) \<and>
    xxtea_decrypt ok' c key = Inr (data @ [0], length data)"
proof -
  let ?k = "le_words (take 16 (FIXED_KEY key))"
  let ?d = "le_words data @ [of_nat (length data)]"
  have "1 \<le> length ?d" and "length ?d < 2 ^ 32" using assms(2) by (simp_all add: len_simps)
  then obtain c where c: "xxtea_uint_encrypt ?d ?k = Inr c" "length c = length ?d"
      "xxtea_uint_decrypt c ?k = Inr ?d" using uint_roundtrip by blast
  have "xxtea_encrypt ok data key = Inr (le_bytes c @ [0], length (le_bytes c))"
    using assms c(1)
    by (simp add: xxtea_encrypt_def xxtea_ubyte_encrypt_def xxtea_to_uint_array_eq to_ubyte_array_plain)
  moreover have "xxtea_decrypt ok' (le_bytes c) key = Inr (data @ [0], length data)"
    using assms c(2,3)
    by (simp add: xxtea_decrypt_def xxtea_ubyte_decrypt_def xxtea_to_uint_array_eq codec_simps
        to_ubyte_array_len)
  ultimately show ?thesis by blast
qed

theorem xxtea_roundtrip_witness:
  "\<exists>c. xxtea_encrypt (\<lambda>_. True) [1, 2, 3, 4, 5] (replicate 16 7) = Inr (c @ [0], length c) \<and>
    xxtea_decrypt (\<lambda>_. True) c (replicate 16 7) = Inr ([1, 2, 3, 4, 5, 0], length [1, 2, 3, 4, 5 :: byte])"
  using xxtea_roundtrip [of "[1, 2, 3, 4, 5]" "replicate 16 7" "\<lambda>_. True" "\<lambda>_. True"]
  by simp

text \<open>
  A decryption that returns a result returns at most as many bytes as the words of its
  input hold without the last one, and at most three fewer: an input whose last decrypted word is
  no such length is refused with a null pointer.
\<close>

theorem xxtea_decrypt_length:
  assumes "xxtea_decrypt ok c key = Inr (p, n)"
  shows "length p = n + 1 \<and> last p = 0 \<and>
    n + 4 \<le> 4 * ((length c + 3) div 4) \<and> 4 * ((length c + 3) div 4) \<le> n + 7"
proof -
  from assms obtain w where w: "xxtea_uint_decrypt (le_words c) (le_words (take 16 (FIXED_KEY key))) = Inr w"
    and o: "xxtea_to_ubyte_array (ok 2) w True = Inr (p, n)"
    by (auto simp: xxtea_decrypt_def xxtea_ubyte_decrypt_def xxtea_to_uint_array_eq bind_res_eq_Inr
        split: if_splits)
  from w have lw: "length w = (length c + 3) div 4"
    by (auto simp: xxtea_uint_decrypt_def length_dec_while len_simps Let_def split: if_splits)
  let ?m = "unat (w ! (length w - 1))" and ?n = "size_sub (4 * length w) 4"
  from o have ne: "w \<noteq> []" and m: "size_sub ?n 3 \<le> ?m" "?m \<le> ?n" "n = ?m" "p = take ?m (le_bytes w) @ [0]"
    by (auto simp: xxtea_to_ubyte_array_def Let_def split: if_splits)
  have n: "?n = 4 * length w - 4" using ne by (intro size_sub_le) (cases w; simp)
  show ?thesis
  proof (cases "length w = 1")
    case True
    then have "size_sub ?n 3 = 2 ^ 64 - 3" unfolding n by (simp add: size_sub_def)
    with m n True have False by simp
    then show ?thesis ..
  next
    case False
    moreover from ne have "length w \<noteq> 0" by simp
    ultimately have "3 \<le> ?n" using n by linarith
    then have "size_sub ?n 3 = ?n - 3" by (rule size_sub_le)
    with m n have b: "4 * length w \<le> n + 7" "n + 4 \<le> 4 * length w" using \<open>3 \<le> ?n\<close> by linarith+
    then have "length p = n + 1" using m(3,4) by simp
    with b m(4) lw show ?thesis by simp
  qed
qed

theorem xxtea_decrypt_length_witness:
  "xxtea_decrypt (\<lambda>_. True) [232, 238, 73, 200, 181, 83, 4, 196] (replicate 16 7) = Inr ([1, 0], 1) \<and>
    length [1, 0 :: byte] = 1 + 1 \<and> last [1, 0 :: byte] = 0 \<and> 1 + 4 \<le> (8 :: nat) \<and> 8 \<le> 1 + (7 :: nat)"
proof -
  have d: "xxtea_decrypt (\<lambda>_. True) [232, 238, 73, 200, 181, 83, 4, 196] (replicate 16 7) = Inr ([1, 0], 1)"
    by code_simp
  show ?thesis using d xxtea_decrypt_length [OF d] by simp
qed

end
