(* ===== verification/Md5.thy ===== *)
theory Md5
  imports Prelude
begin

text \<open>
  The two MD5 implementations of \<open>hmacmd5/\<close>: the one-shot routine \<open>md5\<close> of \<open>cmd5.c\<close>, a loop
  over 64 steps, and the incremental one of \<open>md5.c\<close>, with its context, its 128-byte buffer and
  its 64 unrolled operations. The block functions are shown equal, the context is shown to
  represent the bytes fed to it however they are split, and so the two digests agree.
\<close>

section \<open>The one-shot routine (cmd5.c)\<close>

type_synonym md5_state = "u32 \<times> u32 \<times> u32 \<times> u32"

definition k_tab :: "u32 list" where
  "k_tab = [
      0xd76aa478, 0xe8c7b756, 0x242070db, 0xc1bdceee,
      0xf57c0faf, 0x4787c62a, 0xa8304613, 0xfd469501,
      0x698098d8, 0x8b44f7af, 0xffff5bb1, 0x895cd7be,
      0x6b901122, 0xfd987193, 0xa679438e, 0x49b40821,
      0xf61e2562, 0xc040b340, 0x265e5a51, 0xe9b6c7aa,
      0xd62f105d, 0x02441453, 0xd8a1e681, 0xe7d3fbc8,
      0x21e1cde6, 0xc33707d6, 0xf4d50d87, 0x455a14ed,
      0xa9e3e905, 0xfcefa3f8, 0x676f02d9, 0x8d2a4c8a,
      0xfffa3942, 0x8771f681, 0x6d9d6122, 0xfde5380c,
      0xa4beea44, 0x4bdecfa9, 0xf6bb4b60, 0xbebfbc70,
      0x289b7ec6, 0xeaa127fa, 0xd4ef3085, 0x04881d05,
      0xd9d4d039, 0xe6db99e5, 0x1fa27cf8, 0xc4ac5665,
      0xf4292244, 0x432aff97, 0xab9423a7, 0xfc93a039,
      0x655b59c3, 0x8f0ccc92, 0xffeff47d, 0x85845dd1,
      0x6fa87e4f, 0xfe2ce6e0, 0xa3014314, 0x4e0811a1,
      0xf7537e82, 0xbd3af235, 0x2ad7d2bb, 0xeb86d391]"

definition r_tab :: "nat list" where
  "r_tab = [
      7, 12, 17, 22, 7, 12, 17, 22, 7, 12, 17, 22, 7, 12, 17, 22,
      5, 9, 14, 20, 5, 9, 14, 20, 5, 9, 14, 20, 5, 9, 14, 20,
      4, 11, 16, 23, 4, 11, 16, 23, 4, 11, 16, 23, 4, 11, 16, 23,
      6, 10, 15, 21, 6, 10, 15, 21, 6, 10, 15, 21, 6, 10, 15, 21]"

definition LEFTROTATE :: "u32 \<Rightarrow> nat \<Rightarrow> u32" where
  "LEFTROTATE x c = push_bit c x OR drop_bit (32 - c) x"

definition to_bytes :: "u32 \<Rightarrow> byte list" where
  "to_bytes val = [ucast val, ucast (drop_bit 8 val), ucast (drop_bit 16 val), ucast (drop_bit 24 val)]"

definition to_int32 :: "byte list \<Rightarrow> u32" where
  "to_int32 bytes = ucast (bytes ! 0) OR push_bit 8 (ucast (bytes ! 1)) OR
     push_bit 16 (ucast (bytes ! 2)) OR push_bit 24 (ucast (bytes ! 3))"

definition md5_step :: "u32 list \<Rightarrow> nat \<Rightarrow> md5_state \<Rightarrow> md5_state" where
  "md5_step w i = (\<lambda>(a, b, c, d).
     let (f, g) =
       (if i < 16 then ((b AND c) OR (NOT b AND d), i)
        else if i < 32 then ((d AND b) OR (NOT d AND c), (5 * i + 1) mod 16)
        else if i < 48 then (b XOR c XOR d, (3 * i + 5) mod 16)
        else (c XOR (b OR NOT d), (7 * i) mod 16))
     in (d, b + LEFTROTATE (a + f + k_tab ! i + w ! g) (r_tab ! i), b, c))"

definition md5_chunk :: "byte list \<Rightarrow> md5_state \<Rightarrow> md5_state" where
  "md5_chunk chunk = (\<lambda>(h0, h1, h2, h3).
     let w = map (\<lambda>i. to_int32 (drop (i * 4) chunk)) [0..<16];
         (a, b, c, d) = fold (md5_step w) [0..<64] (h0, h1, h2, h3)
     in (h0 + a, h1 + b, h2 + c, h3 + d))"

function pad_len :: "nat \<Rightarrow> nat" where
  "pad_len n = (if n mod 64 \<noteq> 56 then pad_len (Suc n) else n)"
  by pat_completeness auto
termination
proof (relation "measure (\<lambda>n. (63 - (n + 7) mod 64))")
  fix n :: nat
  assume n: "n mod 64 \<noteq> 56"
  have "(n + 7) mod 64 \<noteq> 63"
  proof
    assume "(n + 7) mod 64 = 63"
    then have "n = 56 + 64 * ((n + 7) div 64)" using div_mult_mod_eq [of "n + 7" 64] by linarith
    then have "n mod 64 = (56 + 64 * ((n + 7) div 64)) mod 64" by (rule arg_cong)
    with n show False by simp
  qed
  moreover have "(n + 7) mod 64 < 64" by simp
  moreover have "Suc n + 7 = Suc (n + 7)" by simp
  ultimately have "63 - (Suc n + 7) mod 64 < 63 - (n + 7) mod 64"
    by (simp only: mod_Suc) auto
  then show "(Suc n, n) \<in> measure (\<lambda>n. 63 - (n + 7) mod 64)" by simp
qed simp

function md5_loop :: "byte list \<Rightarrow> nat \<Rightarrow> nat \<Rightarrow> md5_state \<Rightarrow> md5_state" where
  "md5_loop msg new_len offset h =
     (if offset < new_len then md5_loop msg new_len (offset + 64) (md5_chunk (drop offset msg) h) else h)"
  by pat_completeness auto
termination
  by (relation "measure (\<lambda>(msg, new_len, offset, h). new_len - offset)") auto

declare pad_len.simps [simp del] md5_loop.simps [simp del]

definition md5_h0 :: md5_state where
  "md5_h0 = (0x67452301, 0xefcdab89, 0x98badcfe, 0x10325476)"

text \<open>The buffer \<open>msg\<close> is allocated without a check; \<open>ok\<close> says whether that succeeds.\<close>

definition md5 :: "bool \<Rightarrow> byte list \<Rightarrow> byte list cres" where
  "md5 ok initial_msg =
     (let initial_len = length initial_msg;
          new_len = pad_len (initial_len + 1);
          msg = initial_msg @ [0x80] @ replicate (new_len - (initial_len + 1)) 0 @
                to_bytes (of_nat (initial_len * 8)) @ to_bytes (of_nat (initial_len div 2 ^ 29));
          (h0, h1, h2, h3) = md5_loop msg new_len 0 md5_h0
      in if \<not> ok then Inl NullDeref
         else Inr (to_bytes h0 @ to_bytes h1 @ to_bytes h2 @ to_bytes h3))"

section \<open>The incremental implementation (md5.c)\<close>

record md5_ctx =
  ctx_A :: u32
  ctx_B :: u32
  ctx_C :: u32
  ctx_D :: u32
  total0 :: u32
  total1 :: u32
  buflen :: u32
  buffer :: "byte list"  \<comment> \<open>the 128 bytes of \<open>uint32_t buffer[32]\<close>\<close>

definition md5_init_ctx :: "md5_ctx \<Rightarrow> md5_ctx" where
  "md5_init_ctx ctx = ctx\<lparr>ctx_A := 0x67452301, ctx_B := 0xefcdab89, ctx_C := 0x98badcfe,
     ctx_D := 0x10325476, total0 := 0, total1 := 0, buflen := 0\<rparr>"

definition md5_read_ctx :: "md5_ctx \<Rightarrow> byte list" where
  "md5_read_ctx ctx =
     bytes32 (ctx_A ctx) @ bytes32 (ctx_B ctx) @ bytes32 (ctx_C ctx) @ bytes32 (ctx_D ctx)"

datatype md5_fn = FF | FG | FH | FI
datatype md5_reg = RA | RB | RC | RD

fun md5_fn_eval :: "md5_fn \<Rightarrow> u32 \<Rightarrow> u32 \<Rightarrow> u32 \<Rightarrow> u32" where
  "md5_fn_eval FF b c d = d XOR (b AND (c XOR d))"
| "md5_fn_eval FG b c d = c XOR (d AND (b XOR c))"
| "md5_fn_eval FH b c d = b XOR c XOR d"
| "md5_fn_eval FI b c d = c XOR (b OR NOT d)"

fun get_reg :: "md5_reg \<Rightarrow> md5_state \<Rightarrow> u32" where
  "get_reg RA (a, b, c, d) = a"
| "get_reg RB (a, b, c, d) = b"
| "get_reg RC (a, b, c, d) = c"
| "get_reg RD (a, b, c, d) = d"

fun set_reg :: "md5_reg \<Rightarrow> u32 \<Rightarrow> md5_state \<Rightarrow> md5_state" where
  "set_reg RA v (a, b, c, d) = (v, b, c, d)"
| "set_reg RB v (a, b, c, d) = (a, v, c, d)"
| "set_reg RC v (a, b, c, d) = (a, b, v, d)"
| "set_reg RD v (a, b, c, d) = (a, b, c, v)"

definition CYCLIC :: "u32 \<Rightarrow> nat \<Rightarrow> u32" where
  "CYCLIC w s = push_bit s w OR drop_bit (32 - s) w"

text \<open>
  One operation \<open>OP (f, a, b, c, d, k, s, T)\<close>: function, registers, word, shift and constant.
  In the first round the macro takes the words in order.
\<close>

type_synonym md5_op =
  "md5_fn \<times> md5_reg \<times> md5_reg \<times> md5_reg \<times> md5_reg \<times> nat \<times> nat \<times> u32"

fun OP :: "u32 list \<Rightarrow> md5_op \<Rightarrow> md5_state \<Rightarrow> md5_state" where
  "OP w (f, a, b, c, d, k, s, T) R =
     (let v = get_reg a R + (md5_fn_eval f (get_reg b R) (get_reg c R) (get_reg d R) + w ! k + T);
          v = CYCLIC v s
      in set_reg a (v + get_reg b R) R)"

definition md5_ops :: "md5_op list" where
  "md5_ops = [
      (FF, RA, RB, RC, RD, 0, 7, 0xd76aa478), (FF, RD, RA, RB, RC, 1, 12, 0xe8c7b756),
      (FF, RC, RD, RA, RB, 2, 17, 0x242070db), (FF, RB, RC, RD, RA, 3, 22, 0xc1bdceee),
      (FF, RA, RB, RC, RD, 4, 7, 0xf57c0faf), (FF, RD, RA, RB, RC, 5, 12, 0x4787c62a),
      (FF, RC, RD, RA, RB, 6, 17, 0xa8304613), (FF, RB, RC, RD, RA, 7, 22, 0xfd469501),
      (FF, RA, RB, RC, RD, 8, 7, 0x698098d8), (FF, RD, RA, RB, RC, 9, 12, 0x8b44f7af),
      (FF, RC, RD, RA, RB, 10, 17, 0xffff5bb1), (FF, RB, RC, RD, RA, 11, 22, 0x895cd7be),
      (FF, RA, RB, RC, RD, 12, 7, 0x6b901122), (FF, RD, RA, RB, RC, 13, 12, 0xfd987193),
      (FF, RC, RD, RA, RB, 14, 17, 0xa679438e), (FF, RB, RC, RD, RA, 15, 22, 0x49b40821),
      (FG, RA, RB, RC, RD, 1, 5, 0xf61e2562), (FG, RD, RA, RB, RC, 6, 9, 0xc040b340),
      (FG, RC, RD, RA, RB, 11, 14, 0x265e5a51), (FG, RB, RC, RD, RA, 0, 20, 0xe9b6c7aa),
      (FG, RA, RB, RC, RD, 5, 5, 0xd62f105d), (FG, RD, RA, RB, RC, 10, 9, 0x02441453),
      (FG, RC, RD, RA, RB, 15, 14, 0xd8a1e681), (FG, RB, RC, RD, RA, 4, 20, 0xe7d3fbc8),
      (FG, RA, RB, RC, RD, 9, 5, 0x21e1cde6), (FG, RD, RA, RB, RC, 14, 9, 0xc33707d6),
      (FG, RC, RD, RA, RB, 3, 14, 0xf4d50d87), (FG, RB, RC, RD, RA, 8, 20, 0x455a14ed),
      (FG, RA, RB, RC, RD, 13, 5, 0xa9e3e905), (FG, RD, RA, RB, RC, 2, 9, 0xfcefa3f8),
      (FG, RC, RD, RA, RB, 7, 14, 0x676f02d9), (FG, RB, RC, RD, RA, 12, 20, 0x8d2a4c8a),
      (FH, RA, RB, RC, RD, 5, 4, 0xfffa3942), (FH, RD, RA, RB, RC, 8, 11, 0x8771f681),
      (FH, RC, RD, RA, RB, 11, 16, 0x6d9d6122), (FH, RB, RC, RD, RA, 14, 23, 0xfde5380c),
      (FH, RA, RB, RC, RD, 1, 4, 0xa4beea44), (FH, RD, RA, RB, RC, 4, 11, 0x4bdecfa9),
      (FH, RC, RD, RA, RB, 7, 16, 0xf6bb4b60), (FH, RB, RC, RD, RA, 10, 23, 0xbebfbc70),
      (FH, RA, RB, RC, RD, 13, 4, 0x289b7ec6), (FH, RD, RA, RB, RC, 0, 11, 0xeaa127fa),
      (FH, RC, RD, RA, RB, 3, 16, 0xd4ef3085), (FH, RB, RC, RD, RA, 6, 23, 0x04881d05),
      (FH, RA, RB, RC, RD, 9, 4, 0xd9d4d039), (FH, RD, RA, RB, RC, 12, 11, 0xe6db99e5),
      (FH, RC, RD, RA, RB, 15, 16, 0x1fa27cf8), (FH, RB, RC, RD, RA, 2, 23, 0xc4ac5665),
      (FI, RA, RB, RC, RD, 0, 6, 0xf4292244), (FI, RD, RA, RB, RC, 7, 10, 0x432aff97),
      (FI, RC, RD, RA, RB, 14, 15, 0xab9423a7), (FI, RB, RC, RD, RA, 5, 21, 0xfc93a039),
      (FI, RA, RB, RC, RD, 12, 6, 0x655b59c3), (FI, RD, RA, RB, RC, 3, 10, 0x8f0ccc92),
      (FI, RC, RD, RA, RB, 10, 15, 0xffeff47d), (FI, RB, RC, RD, RA, 1, 21, 0x85845dd1),
      (FI, RA, RB, RC, RD, 8, 6, 0x6fa87e4f), (FI, RD, RA, RB, RC, 15, 10, 0xfe2ce6e0),
      (FI, RC, RD, RA, RB, 6, 15, 0xa3014314), (FI, RB, RC, RD, RA, 13, 21, 0x4e0811a1),
      (FI, RA, RB, RC, RD, 4, 6, 0xf7537e82), (FI, RD, RA, RB, RC, 11, 10, 0xbd3af235),
      (FI, RC, RD, RA, RB, 2, 15, 0x2ad7d2bb), (FI, RB, RC, RD, RA, 9, 21, 0xeb86d391)]"

fun md5_words_loop :: "u32 list \<Rightarrow> md5_state \<Rightarrow> md5_state" where
  "md5_words_loop ws (A, B, C, D) =
     (if ws = [] then (A, B, C, D)
      else let (A', B', C', D') = fold (OP (take 16 ws)) md5_ops (A, B, C, D)
           in md5_words_loop (drop 16 ws) (A' + A, B' + B, C' + C, D' + D))"

declare md5_words_loop.simps [simp del]

definition md5_process_block :: "byte list \<Rightarrow> md5_ctx \<Rightarrow> md5_ctx" where
  "md5_process_block buf ctx =
     (let len = length buf;
          t0 = total0 ctx + of_nat len;
          t1 = (if unat t0 < len then total1 ctx + 1 else total1 ctx);
          (A, B, C, D) = md5_words_loop (le_words buf) (ctx_A ctx, ctx_B ctx, ctx_C ctx, ctx_D ctx)
      in ctx\<lparr>ctx_A := A, ctx_B := B, ctx_C := C, ctx_D := D, total0 := t0, total1 := t1\<rparr>)"

text \<open>\<open>memcpy\<close> of bytes to an offset of a byte array.\<close>

definition memcpy_at :: "byte list \<Rightarrow> nat \<Rightarrow> byte list \<Rightarrow> byte list" where
  "memcpy_at dst i src = take i dst @ src @ drop (i + length src) dst"

text \<open>
  Complete blocks are taken from the input in one call when its address is a multiple of 4, and
  otherwise one by one through the buffer, the last one being left.
\<close>

function md5_unaligned_loop :: "byte list \<Rightarrow> md5_ctx \<Rightarrow> byte list \<times> md5_ctx" where
  "md5_unaligned_loop buf ctx =
     (if length buf > 64
      then let ctx = ctx\<lparr>buffer := memcpy_at (buffer ctx) 0 (take 64 buf)\<rparr>
           in md5_unaligned_loop (drop 64 buf) (md5_process_block (take 64 (buffer ctx)) ctx)
      else (buf, ctx))"
  by pat_completeness auto
termination
  by (relation "measure (\<lambda>(buf, ctx). length buf)") auto

declare md5_unaligned_loop.simps [simp del]

text \<open>The three parts of \<open>md5_process_bytes\<close>: fill up a buffer that already holds bytes, \<close>

definition md5_fill :: "nat \<Rightarrow> byte list \<Rightarrow> md5_ctx \<Rightarrow> nat \<times> byte list \<times> md5_ctx" where
  "md5_fill addr buf ctx =
     (if buflen ctx \<noteq> 0
      then let left_over = unat (buflen ctx);
               add = (if 128 - left_over > length buf then length buf else 128 - left_over);
               ctx = ctx\<lparr>buffer := memcpy_at (buffer ctx) left_over (take add buf),
                         buflen := buflen ctx + of_nat add\<rparr>;
               ctx = (if buflen ctx > 64
                 then let ctx = md5_process_block (take (unat (buflen ctx AND NOT 63)) (buffer ctx)) ctx;
                          ctx = ctx\<lparr>buflen := buflen ctx AND 63\<rparr>
                      in ctx\<lparr>buffer := memcpy_at (buffer ctx) 0
                           (take (unat (buflen ctx)) (drop ((left_over + add) div 64 * 64) (buffer ctx)))\<rparr>
                 else ctx)
           in (addr + add, drop add buf, ctx)
      else (addr, buf, ctx))"

text \<open>process the complete blocks of the input, \<close>

definition md5_blocks :: "nat \<Rightarrow> byte list \<Rightarrow> md5_ctx \<Rightarrow> byte list \<times> md5_ctx" where
  "md5_blocks addr buf ctx =
     (if length buf \<ge> 64
      then if addr mod 4 \<noteq> 0 then md5_unaligned_loop buf ctx
           else let n = length buf div 64 * 64
                in (drop n buf, md5_process_block (take n buf) ctx)
      else (buf, ctx))"

text \<open>and keep what is left in the buffer.\<close>

definition md5_rest :: "byte list \<Rightarrow> md5_ctx \<Rightarrow> md5_ctx" where
  "md5_rest buf ctx =
     (if length buf > 0
      then let left_over = unat (buflen ctx);
               ctx = ctx\<lparr>buffer := memcpy_at (buffer ctx) left_over buf\<rparr>;
               left_over = left_over + length buf
           in if left_over \<ge> 64
              then let ctx = md5_process_block (take 64 (buffer ctx)) ctx;
                       left_over = left_over - 64
                   in ctx\<lparr>buffer := memcpy_at (buffer ctx) 0 (take left_over (drop 64 (buffer ctx))),
                          buflen := of_nat left_over\<rparr>
              else ctx\<lparr>buflen := of_nat left_over\<rparr>
      else ctx)"

definition md5_process_bytes :: "nat \<Rightarrow> byte list \<Rightarrow> md5_ctx \<Rightarrow> md5_ctx" where
  "md5_process_bytes addr buf ctx =
     (let (addr, buf, ctx) = md5_fill addr buf ctx;
          (buf, ctx) = md5_blocks addr buf ctx
      in md5_rest buf ctx)"

definition fillbuf :: "byte list" where
  "fillbuf = 0x80 # replicate 63 0"

definition md5_finish_ctx :: "md5_ctx \<Rightarrow> md5_ctx \<times> byte list" where
  "md5_finish_ctx ctx =
     (let bytes = buflen ctx;
          size = (if bytes < 56 then 16 else 32);
          t0 = total0 ctx + bytes;
          t1 = (if t0 < bytes then total1 ctx + 1 else total1 ctx);
          b = memcpy_at (buffer ctx) ((size - 2) * 4) (bytes32 (push_bit 3 t0));
          b = memcpy_at b ((size - 1) * 4) (bytes32 (push_bit 3 t1 OR drop_bit 29 t0));
          b = memcpy_at b (unat bytes) (take ((size - 2) * 4 - unat bytes) fillbuf);
          ctx = ctx\<lparr>total0 := t0, total1 := t1, buffer := b\<rparr>;
          ctx = md5_process_block (take (size * 4) b) ctx
      in (ctx, md5_read_ctx ctx))"

definition md5_buffer :: "nat \<Rightarrow> md5_ctx \<Rightarrow> byte list \<Rightarrow> byte list" where
  "md5_buffer addr ctx buf = snd (md5_finish_ctx (md5_process_bytes addr buf (md5_init_ctx ctx)))"

section \<open>The block functions agree\<close>

lemma FF_select: "d XOR (b AND (c XOR d)) = ((b AND c) OR (NOT b AND d) :: u32)"
  by (rule bit_word_eqI) (auto simp: bit_simps)

lemma CYCLIC_eq: "CYCLIC = LEFTROTATE"
  by (simp add: fun_eq_iff CYCLIC_def LEFTROTATE_def)

text \<open>
  The operation at position \<open>i\<close>, and the registers in the roles \<open>a, b, c, d\<close> that the loop of
  \<open>cmd5.c\<close> gives them: where \<open>md5.c\<close> renames the registers of the next operation, \<open>cmd5.c\<close> moves
  their contents.
\<close>

definition regs_at :: "nat \<Rightarrow> md5_reg \<times> md5_reg \<times> md5_reg \<times> md5_reg" where
  "regs_at i = (if i mod 4 = 0 then (RA, RB, RC, RD) else if i mod 4 = 1 then (RD, RA, RB, RC)
     else if i mod 4 = 2 then (RC, RD, RA, RB) else (RB, RC, RD, RA))"

definition op_at :: "nat \<Rightarrow> md5_op" where
  "op_at i =
     (let (a, b, c, d) = regs_at i;
          (f, k) = (if i < 16 then (FF, i) else if i < 32 then (FG, (5 * i + 1) mod 16)
            else if i < 48 then (FH, (3 * i + 5) mod 16) else (FI, (7 * i) mod 16))
      in (f, a, b, c, d, k, r_tab ! i, k_tab ! i))"

definition view_at :: "nat \<Rightarrow> md5_state \<Rightarrow> md5_state" where
  "view_at i R =
     (let (a, b, c, d) = regs_at i in (get_reg a R, get_reg b R, get_reg c R, get_reg d R))"

lemma md5_ops_eq: "md5_ops = map op_at [0..<64]"
  by code_simp

lemma fn_at_eq:
  "md5_fn_eval FF b c d = (b AND c) OR (NOT b AND d)"
  "md5_fn_eval FG b c d = (d AND b) OR (NOT d AND c)"
  by (simp_all add: FF_select)

lemma view_OP: "view_at (Suc i) (OP w (op_at i) R) = md5_step w i (view_at i R)"
proof -
  obtain A B C D where R: "R = (A, B, C, D)" by (cases R) auto
  consider "i mod 4 = 0" "Suc i mod 4 = 1" | "i mod 4 = 1" "Suc i mod 4 = 2"
    | "i mod 4 = 2" "Suc i mod 4 = 3" | "i mod 4 = 3" "Suc i mod 4 = 0"
    by (simp add: mod_Suc) linarith
  then show ?thesis
    by cases (simp_all add: R view_at_def op_at_def regs_at_def md5_step_def Let_def CYCLIC_eq
        fn_at_eq ac_simps del: md5_fn_eval.simps(1,2))
qed

lemma view_fold_OP:
  "view_at n (fold (OP w) (map op_at [0..<n]) R) = fold (md5_step w) [0..<n] (view_at 0 R)"
  by (induction n) (simp_all add: view_OP)

lemma fold_md5_ops: "fold (OP w) md5_ops R = fold (md5_step w) [0..<64] R"
proof -
  have v: "view_at 64 = (\<lambda>R. R)" "view_at 0 = (\<lambda>R. R)"
    by (auto simp: view_at_def regs_at_def fun_eq_iff)
  show ?thesis using view_fold_OP [of 64 w R] by (simp only: v md5_ops_eq)
qed

lemma nth_le_words: "4 * i + 4 \<le> length bs \<Longrightarrow> le_words bs ! i = to_int32 (drop (i * 4) bs)"
proof (induction bs arbitrary: i rule: le_words.induct)
  case (1 a b c d r)
  show ?case
  proof (cases i)
    case 0
    then show ?thesis by (simp add: to_int32_def word32_def)
  next
    case (Suc n)
    then have "le_words r ! n = to_int32 (drop (n * 4) r)" using 1 by simp
    moreover have "drop (Suc n * 4) (a # b # c # d # r) = drop (n * 4) r" by (simp add: numeral_eq_Suc)
    ultimately show ?thesis by (simp only: Suc le_words.simps nth_Cons_Suc)
  qed
qed simp_all

lemma chunk_words:
  assumes "64 \<le> length bs"
  shows "map (\<lambda>i. to_int32 (drop (i * 4) bs)) [0..<16] = take 16 (le_words bs)"
proof (rule nth_equalityI)
  show l: "length (map (\<lambda>i. to_int32 (drop (i * 4) bs)) [0..<16]) = length (take 16 (le_words bs))"
    using assms by (simp add: len_simps)
  fix i assume "i < length (map (\<lambda>i. to_int32 (drop (i * 4) bs)) [0..<16])"
  then show "map (\<lambda>i. to_int32 (drop (i * 4) bs)) [0..<16] ! i = take 16 (le_words bs) ! i"
    using nth_le_words [of i bs] assms by (simp del: upt_Suc)
qed

lemma md5_chunk_OP:
  assumes "64 \<le> length bs"
  shows "md5_chunk bs (A, B, C, D) =
    (let (a, b, c, d) = fold (OP (take 16 (le_words bs))) md5_ops (A, B, C, D)
     in (a + A, b + B, c + C, d + D))"
  unfolding md5_chunk_def fold_md5_ops chunk_words [OF assms] Let_def
  by (simp add: case_prod_unfold add.commute)

section \<open>Digesting a list of blocks\<close>

function md5_chunks :: "byte list \<Rightarrow> md5_state \<Rightarrow> md5_state" where
  "md5_chunks bs h = (if length bs < 64 then h else md5_chunks (drop 64 bs) (md5_chunk (take 64 bs) h))"
  by pat_completeness auto
termination
  by (relation "measure (\<lambda>(bs, h). length bs)") auto

declare md5_chunks.simps [simp del]

lemma md5_chunk_take: "64 \<le> length bs \<Longrightarrow> md5_chunk (take 64 bs) h = md5_chunk bs h"
proof -
  assume "64 \<le> length bs"
  then have "map (\<lambda>i. to_int32 (drop (i * 4) (take 64 bs))) [0..<16] =
      map (\<lambda>i. to_int32 (drop (i * 4) bs)) [0..<16]"
    by (intro map_cong refl) (simp add: to_int32_def drop_take)
  then show ?thesis by (simp only: md5_chunk_def)
qed

lemma md5_chunks_short: "length bs < 64 \<Longrightarrow> md5_chunks bs h = h"
  by (simp add: md5_chunks.simps)

lemma md5_chunks_step:
  "64 \<le> length bs \<Longrightarrow> md5_chunks bs h = md5_chunks (drop 64 bs) (md5_chunk bs h)"
  by (subst md5_chunks.simps) (simp add: md5_chunk_take)

lemma mod64_drop: "n mod 64 = 0 \<Longrightarrow> (n - 64) mod 64 = (0::nat)"
  by (cases "64 \<le> n") (simp_all add: le_mod_geq)

lemma md5_chunks_append:
  "length a mod 64 = 0 \<Longrightarrow> md5_chunks (a @ b) h = md5_chunks b (md5_chunks a h)"
proof (induction a h rule: md5_chunks.induct)
  case (1 a h)
  show ?case
  proof (cases "length a < 64")
    case True
    with "1.prems" have "a = []" by simp
    then show ?thesis by (simp add: md5_chunks_short)
  next
    case False
    then have "md5_chunks (a @ b) h = md5_chunks (drop 64 a @ b) (md5_chunk (take 64 a) h)"
      by (subst md5_chunks.simps) simp
    moreover have "length (drop 64 a) mod 64 = 0" using "1.prems" mod64_drop by simp
    ultimately show ?thesis using 1 False by (simp add: md5_chunks.simps [of a])
  qed
qed

lemma le_words_drop64: "64 \<le> length bs \<Longrightarrow> le_words (drop 64 bs) = drop 16 (le_words bs)"
proof -
  assume l: "64 \<le> length bs"
  have "le_words bs = le_words (take 64 bs) @ le_words (drop 64 bs)"
    using le_words_append_aligned [of "take 64 bs" "drop 64 bs"] l by simp
  moreover have "length (le_words (take 64 bs)) = 16" using l by (simp add: len_simps)
  ultimately show ?thesis by simp
qed

lemma md5_words_loop_chunks:
  "length bs mod 64 = 0 \<Longrightarrow> md5_words_loop (le_words bs) h = md5_chunks bs h"
proof (induction bs h rule: md5_chunks.induct)
  case (1 bs h)
  obtain A B C D where h: "h = (A, B, C, D)" by (cases h) auto
  show ?case
  proof (cases "length bs < 64")
    case True
    with "1.prems" have "bs = []" by simp
    then show ?thesis by (simp add: md5_chunks_short md5_words_loop.simps h)
  next
    case False
    then have l: "64 \<le> length bs" by simp
    then have ne: "le_words bs \<noteq> []" using length_le_words [of bs] by auto
    have "md5_words_loop (le_words bs) h =
        md5_words_loop (le_words (drop 64 bs)) (md5_chunk (take 64 bs) h)"
      using ne unfolding h
      by (subst md5_words_loop.simps)
        (simp add: md5_chunk_take [OF l] md5_chunk_OP [OF l] le_words_drop64 [OF l]
          case_prod_unfold Let_def)
    then show ?thesis using 1 l mod64_drop by (simp add: md5_chunks.simps [of bs])
  qed
qed

section \<open>What a context represents\<close>

definition md5_regs :: "md5_ctx \<Rightarrow> md5_state" where
  "md5_regs ctx = (ctx_A ctx, ctx_B ctx, ctx_C ctx, ctx_D ctx)"

definition md5_total :: "md5_ctx \<Rightarrow> nat" where
  "md5_total ctx = unat (total1 ctx) * 2 ^ 32 + unat (total0 ctx)"

text \<open>A context in which the blocks \<open>p\<close> have been digested, and the bytes \<open>q\<close> wait in the buffer.\<close>

definition digested :: "md5_ctx \<Rightarrow> byte list \<Rightarrow> bool" where
  "digested ctx p \<longleftrightarrow> length p mod 64 = 0 \<and> md5_regs ctx = md5_chunks p md5_h0 \<and>
     md5_total ctx = length p mod (2 ^ 32 * 2 ^ 32)"

definition pending :: "md5_ctx \<Rightarrow> byte list \<Rightarrow> bool" where
  "pending ctx q \<longleftrightarrow> length q \<le> 64 \<and> length (buffer ctx) = 128 \<and>
     unat (buflen ctx) = length q \<and> take (length q) (buffer ctx) = q"

lemma carry_add:
  fixes a b len M :: nat
  assumes "a < M" and "b < M" and "len < M"
  defines "a' \<equiv> (a + len) mod M"
  shows "(if a' < len then (b + 1) mod M else b) * M + a' = (b * M + a + len) mod (M * M)"
proof (cases "a + len < M")
  case True
  then have "a' = a + len" by (simp add: a'_def)
  moreover have "b * M + a + len < M * M"
  proof -
    have "b * M + a + len < (b + 1) * M" using True by simp
    also have "\<dots> \<le> M * M" using assms(2) by (intro mult_le_mono1) simp
    finally show ?thesis .
  qed
  ultimately show ?thesis by simp
next
  case False
  then have a': "a' = a + len - M" using assms(1,3) by (simp add: a'_def le_mod_geq)
  have sum: "b * M + a + len = (b + 1) * M + a'" using a' False by simp
  have lt: "a' < M" using assms(1,3) a' by arith
  show ?thesis
  proof (cases "b + 1 < M")
    case True
    have "(b + 1) * M + a' < (b + 2) * M" using lt by simp
    also have "\<dots> \<le> M * M" using True by (intro mult_le_mono1) simp
    finally show ?thesis using True a' False assms(1) sum by simp
  next
    case eq: False
    then have b: "b + 1 = M" using assms(2) by simp
    have "b * M + a + len = M * M + a'" by (simp only: sum b)
    moreover have "(M * M + a') mod (M * M) = a'" using lt by (simp add: less_le_trans [OF _ le_square])
    moreover have "a' < len" using a' False assms(1) by arith
    ultimately show ?thesis using b by simp
  qed
qed

lemma unat_add_of_nat32:
  "len < 2 ^ 32 \<Longrightarrow> unat (x + of_nat len :: u32) = (unat x + len) mod 2 ^ 32"
  by (simp add: unat_word_ariths unat_of_nat)

lemma total_add:
  fixes t0 t1 :: u32
  assumes "len < 2 ^ 32"
  defines "t0' \<equiv> t0 + of_nat len :: u32"
  shows "unat (if unat t0' < len then t1 + 1 else t1 :: u32) * 2 ^ 32 + unat t0' =
    (unat t1 * 2 ^ 32 + unat t0 + len) mod (2 ^ 32 * 2 ^ 32)"
proof -
  have t0': "unat t0' = (unat t0 + len) mod 2 ^ 32"
    unfolding t0'_def by (rule unat_add_of_nat32 [OF assms(1)])
  have t1': "unat (if c then t1 + 1 else t1) = (if c then (unat t1 + 1) mod 2 ^ 32 else unat t1)" for c
    by (simp add: unat_word_ariths)
  have b: "unat t0 < 2 ^ 32" "unat t1 < 2 ^ 32" using unsigned_less [of t0] unsigned_less [of t1] by simp_all
  show ?thesis unfolding t1' t0' by (rule carry_add [OF b assms(1)])
qed

lemma process_block_frame [simp]:
  "buffer (md5_process_block b ctx) = buffer ctx" "buflen (md5_process_block b ctx) = buflen ctx"
  by (simp_all add: md5_process_block_def Let_def case_prod_unfold)

lemma md5_regs_process_block:
  "length b mod 64 = 0 \<Longrightarrow> md5_regs (md5_process_block b ctx) = md5_chunks b (md5_regs ctx)"
  by (simp add: md5_process_block_def md5_regs_def md5_words_loop_chunks Let_def case_prod_unfold)

lemma md5_total_process_block:
  "length b < 2 ^ 32 \<Longrightarrow>
   md5_total (md5_process_block b ctx) = (md5_total ctx + length b) mod (2 ^ 32 * 2 ^ 32)"
  using total_add [of "length b" "total0 ctx" "total1 ctx"]
  by (simp add: md5_process_block_def md5_total_def Let_def case_prod_unfold)

lemma regs_total_update [simp]:
  "md5_regs (ctx\<lparr>buffer := b\<rparr>) = md5_regs ctx" "md5_regs (ctx\<lparr>buflen := n\<rparr>) = md5_regs ctx"
  "md5_total (ctx\<lparr>buffer := b\<rparr>) = md5_total ctx" "md5_total (ctx\<lparr>buflen := n\<rparr>) = md5_total ctx"
  by (simp_all add: md5_regs_def md5_total_def)

lemma digested_update [simp]:
  "digested (ctx\<lparr>buffer := b\<rparr>) p = digested ctx p" "digested (ctx\<lparr>buflen := n\<rparr>) p = digested ctx p"
  by (simp_all add: digested_def)

lemma digested_block:
  assumes "digested ctx p" and "length b mod 64 = 0" and "length b < 2 ^ 32"
  shows "digested (md5_process_block b ctx) (p @ b)"
  using assms
  by (simp add: digested_def md5_regs_process_block md5_total_process_block md5_chunks_append
      mod_add_left_eq mod_add_eq [symmetric, of "length p" "length b" 64])

lemma length_memcpy_at [simp, len_simps]:
  "i + length src \<le> length dst \<Longrightarrow> length (memcpy_at dst i src) = length dst"
  by (simp add: memcpy_at_def)

lemma take_memcpy_at:
  assumes "i + length src \<le> length dst"
  shows "take (i + length src) (memcpy_at dst i src) = take i dst @ src"
  using assms by (simp add: memcpy_at_def)

lemma take_memcpy_at_0 [simp]: "take (length src) (memcpy_at dst 0 src) = src"
  by (simp add: memcpy_at_def)

lemma and_63: "unat (x AND 63 :: u32) = unat x mod 64"
proof -
  have "x AND 63 = take_bit 6 x" by (simp add: take_bit_eq_mask mask_eq_exp_minus_1)
  then have "unat (x AND 63) = take_bit 6 (unat x)" by (simp only: unsigned_take_bit_eq)
  then show ?thesis by (simp add: take_bit_eq_mod)
qed

lemma and_minus_64: "unat (x AND - 64 :: u32) = unat x div 64 * 64"
proof -
  have "(x AND 63) + (x AND - 64) = (x AND 63) OR (x AND NOT 63)"
    by (subst disjunctive_add) (auto simp: bit_simps)
  also have "\<dots> = x" by (auto simp: bit_simps intro: bit_word_eqI)
  finally have "x AND - 64 = x - (x AND 63)" by (metis add_diff_cancel_left')
  moreover have "x AND 63 \<le> x" by (rule word_and_le2)
  ultimately have "unat (x AND - 64) = unat x - unat (x AND 63)" by (simp add: unat_sub)
  then show ?thesis by (simp add: and_63 minus_mod_eq_div_mult)
qed

text \<open>The first part moves bytes of the input into a buffer that holds some already.\<close>

lemma md5_fill_holds:
  assumes "digested ctx p" and "pending ctx q" and "md5_fill addr buf ctx = (addr', buf', ctx')"
  shows "\<exists>p' q' add. buf' = drop add buf \<and> p' @ q' = p @ q @ take add buf \<and>
    digested ctx' p' \<and> pending ctx' q' \<and> (q' = [] \<or> buf' = [])"
proof (cases "buflen ctx = 0")
  case True
  then have "q = []" using assms(2) by (simp add: pending_def)
  then show ?thesis using assms True
    by (intro exI [of _ p] exI [of _ "[]"] exI [of _ 0]) (simp add: md5_fill_def)
next
  case False
  define left_over where "left_over = unat (buflen ctx)"
  define add where "add = (if 128 - left_over > length buf then length buf else 128 - left_over)"
  define c where "c = ctx\<lparr>buffer := memcpy_at (buffer ctx) left_over (take add buf),
      buflen := buflen ctx + of_nat add\<rparr>"
  define s where "s = q @ take add buf"
  have lo: "left_over = length q" "1 \<le> length q" "length q \<le> 64"
    using assms(2) False by (auto simp: pending_def left_over_def unat_eq_0 Suc_le_eq)
  then have add: "add \<le> length buf" "left_over + add \<le> 128" by (auto simp: add_def)
  then have ls: "length s = left_over + add" by (simp add: s_def lo)
  have cb: "take (length s) (buffer c) = s" "length (buffer c) = 128"
    using assms(2) add lo take_memcpy_at [of left_over "take add buf" "buffer ctx"]
    by (simp_all add: c_def pending_def s_def min_def)
  have "unat (buflen c) = (unat (buflen ctx) + add) mod 2 ^ 32"
    unfolding c_def using add by (simp add: unat_add_of_nat32)
  then have bl: "unat (buflen c) = length s" using add ls left_over_def by simp
  have dc: "digested c p" using assms(1) by (simp add: c_def)
  note fill = assms(3) [unfolded md5_fill_def Let_def left_over_def [symmetric] add_def [symmetric]
      c_def [symmetric]]
  have buf': "buf' = drop add buf" using fill False by simp
  show ?thesis
  proof (cases "buflen c > 64")
    case True
    define n where "n = length s div 64 * 64"
    have gt: "64 < length s" using True bl by (simp add: word_less_nat_alt)
    have n: "n \<le> length s" "length s - n = length s mod 64" "n mod 64 = 0"
      by (auto simp: n_def minus_div_mult_eq_mod)
    have tk: "take n (buffer c) = take n s" "take (length s mod 64) (drop n (buffer c)) = drop n s"
      using cb(1) n(1,2) by (metis min.absorb1 take_take, metis drop_take)
    have ctx': "ctx' = (md5_process_block (take n s) c)\<lparr>
        buflen := buflen c AND 63, buffer := memcpy_at (buffer c) 0 (drop n s)\<rparr>"
      using fill False True tk ls by (simp add: and_63 and_minus_64 bl n_def)
    have "digested ctx' (p @ take n s)" unfolding ctx' using n dc ls add
      by (simp add: digested_block)
    moreover have "pending ctx' (drop n s)" unfolding ctx' using n cb bl ls add
        take_memcpy_at_0 [of "drop n s" "buffer c"]
      by (simp add: pending_def and_63)
    moreover have "drop n s = [] \<or> buf' = []"
    proof (cases "128 - left_over > length buf")
      case True
      then show ?thesis by (simp add: buf' add_def)
    next
      case False
      then have "length s = 128" using ls lo by (simp add: add_def)
      then show ?thesis by (simp add: n_def)
    qed
    moreover have "(p @ take n s) @ drop n s = p @ q @ take add buf"
      unfolding s_def [symmetric] by simp
    ultimately show ?thesis using buf' by blast
  next
    case le: False
    then have "length s \<le> 64" using bl by (simp add: word_less_nat_alt)
    then have "ctx' = c" and "buf' = []" and "pending c s"
      using fill False le ls lo cb bl by (auto simp: pending_def add_def)
    then show ?thesis using dc buf' by (metis s_def)
  qed
qed

lemma md5_unaligned_loop_holds:
  assumes "digested ctx p" and "pending ctx []" and "md5_unaligned_loop buf ctx = (buf', ctx')"
  shows "\<exists>p'. p' @ buf' = p @ buf \<and> digested ctx' p' \<and> pending ctx' [] \<and> length buf' \<le> 64"
  using assms
proof (induction buf ctx arbitrary: p rule: md5_unaligned_loop.induct)
  case (1 buf ctx)
  show ?case
  proof (cases "length buf > 64")
    case True
    define c where "c = ctx\<lparr>buffer := memcpy_at (buffer ctx) 0 (take 64 buf)\<rparr>"
    define b where "b = take 64 buf"
    have lb: "length b = 64" using True by (simp add: b_def)
    have l: "length (buffer ctx) = 128" using "1.prems"(2) by (simp add: pending_def)
    have tb: "take 64 (buffer c) = b"
      using take_memcpy_at_0 [of b "buffer ctx"] lb by (simp add: c_def b_def)
    have d: "digested (md5_process_block b c) (p @ b)"
      using "1.prems"(1) lb by (intro digested_block) (simp_all add: c_def)
    moreover have "pending (md5_process_block b c) []"
      using "1.prems"(2) l lb by (simp add: pending_def c_def b_def)
    moreover have "md5_unaligned_loop (drop 64 buf) (md5_process_block b c) = (buf', ctx')"
      using "1.prems"(3) True tb by (simp add: md5_unaligned_loop.simps [of buf] c_def [symmetric] Let_def)
    ultimately obtain p' where "p' @ buf' = (p @ b) @ drop 64 buf" "digested ctx' p'"
        "pending ctx' []" "length buf' \<le> 64"
      using "1.IH" [OF True c_def, of "p @ b"] tb by auto
    then show ?thesis by (auto simp: b_def)
  next
    case False
    with 1 show ?thesis by (auto simp: md5_unaligned_loop.simps [of buf])
  qed
qed

lemma md5_blocks_holds:
  assumes "digested ctx p" and "pending ctx q" and "q = [] \<or> buf = []" and "length buf < 2 ^ 32"
    and "md5_blocks addr buf ctx = (buf', ctx')"
  shows "\<exists>p' q'. p' @ q' @ buf' = p @ q @ buf \<and> digested ctx' p' \<and> pending ctx' q' \<and>
    length buf' \<le> 64 \<and> (q' = [] \<or> buf' = [])"
proof (cases "length buf \<ge> 64")
  case True
  then have q: "q = []" using assms(3) by auto
  show ?thesis
  proof (cases "addr mod 4 = 0")
    case aligned: True
    define n where "n = length buf div 64 * 64"
    have n: "n \<le> length buf" "length buf - n < 64" "n mod 64 = 0"
      by (auto simp: n_def minus_div_mult_eq_mod)
    have r: "buf' = drop n buf" "ctx' = md5_process_block (take n buf) ctx"
      using assms(5) True aligned by (simp_all add: md5_blocks_def n_def Let_def)
    have "digested ctx' (p @ take n buf)" unfolding r using n assms(1,4) by (intro digested_block) auto
    moreover have "pending ctx' []" using assms(2) q by (simp add: pending_def r)
    moreover have "(p @ take n buf) @ [] @ buf' = p @ q @ buf" using q r(1) by simp
    moreover have "length buf' \<le> 64" using n r(1) by simp
    ultimately show ?thesis by blast
  next
    case False
    then have "md5_unaligned_loop buf ctx = (buf', ctx')" using assms(5) True by (simp add: md5_blocks_def)
    from md5_unaligned_loop_holds [OF assms(1) _ this] assms(2) q obtain p' where
      "p' @ buf' = p @ buf" "digested ctx' p'" "pending ctx' []" "length buf' \<le> 64" by auto
    then show ?thesis using q by (metis append_Nil)
  qed
next
  case False
  then show ?thesis using assms by (auto simp: md5_blocks_def)
qed

lemma md5_rest_holds:
  assumes "digested ctx p" and "pending ctx q" and "length buf \<le> 64" and "q = [] \<or> buf = []"
  shows "\<exists>p' q'. p' @ q' = p @ q @ buf \<and> digested (md5_rest buf ctx) p' \<and> pending (md5_rest buf ctx) q'"
proof (cases "buf = []")
  case True
  then show ?thesis using assms by (auto simp: md5_rest_def)
next
  case False
  then have q: "q = []" and z: "unat (buflen ctx) = 0" using assms(2,4) by (auto simp: pending_def)
  have l: "length (buffer ctx) = 128" using assms(2) by (simp add: pending_def)
  have tb: "take (length buf) (memcpy_at (buffer ctx) 0 buf) = buf" by simp
  show ?thesis
  proof (cases "length buf = 64")
    case True
    let ?c = "ctx\<lparr>buffer := memcpy_at (buffer ctx) 0 buf\<rparr>"
    have "digested (md5_process_block buf ?c) (p @ buf)"
      using assms(1) True by (intro digested_block) simp_all
    moreover have "md5_rest buf ctx = (md5_process_block buf ?c)\<lparr>
        buffer := memcpy_at (memcpy_at (buffer ctx) 0 buf) 0 [], buflen := 0\<rparr>"
      using False z True tb by (simp add: md5_rest_def Let_def)
    ultimately have "digested (md5_rest buf ctx) (p @ buf)" and "pending (md5_rest buf ctx) []"
      using True l by (simp_all add: pending_def)
    moreover have "(p @ buf) @ [] = p @ q @ buf" using q by simp
    ultimately show ?thesis by blast
  next
    case lt: False
    then have "length buf < 64" using assms(3) by simp
    then have "digested (md5_rest buf ctx) p" and "pending (md5_rest buf ctx) buf"
      using False z tb l assms(1) by (simp_all add: md5_rest_def pending_def Let_def unat_of_nat)
    moreover have "p @ buf = p @ q @ buf" using q by simp
    ultimately show ?thesis by blast
  qed
qed

text \<open>The whole of \<open>md5_process_bytes\<close>: the context takes in the bytes, wherever they lie.\<close>

definition md5_rep :: "md5_ctx \<Rightarrow> byte list \<Rightarrow> bool" where
  "md5_rep ctx m \<longleftrightarrow> (\<exists>p q. m = p @ q \<and> digested ctx p \<and> pending ctx q)"

lemma md5_process_bytes_rep:
  assumes "md5_rep ctx m" and "length buf < 2 ^ 32"
  shows "md5_rep (md5_process_bytes addr buf ctx) (m @ buf)"
proof -
  from assms(1) obtain p q where m: "m = p @ q" and d: "digested ctx p" and pe: "pending ctx q"
    by (auto simp: md5_rep_def)
  obtain a1 b1 c1 where f: "md5_fill addr buf ctx = (a1, b1, c1)" by (metis prod_cases3)
  from md5_fill_holds [OF d pe f] obtain p1 q1 n where
    1: "b1 = drop n buf" "p1 @ q1 = p @ q @ take n buf" "digested c1 p1" "pending c1 q1" "q1 = [] \<or> b1 = []"
    by blast
  obtain b2 c2 where b: "md5_blocks a1 b1 c1 = (b2, c2)" by fastforce
  have "length b1 < 2 ^ 32" using 1(1) assms(2) by simp
  from md5_blocks_holds [OF 1(3,4,5) this b] obtain p2 q2 where
    2: "p2 @ q2 @ b2 = p1 @ q1 @ b1" "digested c2 p2" "pending c2 q2" "length b2 \<le> 64" "q2 = [] \<or> b2 = []"
    by blast
  from md5_rest_holds [OF 2(2-5)] obtain p3 q3 where
    3: "p3 @ q3 = p2 @ q2 @ b2" "digested (md5_rest b2 c2) p3" "pending (md5_rest b2 c2) q3"
    by blast
  have "p3 @ q3 = (p1 @ q1) @ b1" using 3(1) 2(1) by simp
  also have "\<dots> = m @ buf" by (simp add: 1(1,2) m)
  finally have "p3 @ q3 = m @ buf" .
  then have "md5_rep (md5_rest b2 c2) (m @ buf)" unfolding md5_rep_def using 3(2,3) by metis
  then show ?thesis by (simp add: md5_process_bytes_def f b)
qed

section \<open>Padding and the final block\<close>

definition md5_pad :: "byte list \<Rightarrow> byte list" where
  "md5_pad m =
     (let n = pad_len (length m + 1)
      in m @ [0x80] @ replicate (n - (length m + 1)) 0 @
         to_bytes (of_nat (length m * 8)) @ to_bytes (of_nat (length m div 2 ^ 29)))"

definition md5_digest :: "byte list \<Rightarrow> byte list" where
  "md5_digest m =
     (let (a, b, c, d) = md5_chunks (md5_pad m) md5_h0
      in bytes32 a @ bytes32 b @ bytes32 c @ bytes32 d)"

lemma pad_len_spec: "n \<le> pad_len n \<and> pad_len n mod 64 = 56 \<and> pad_len n < n + 64"
proof -
  have "n \<le> pad_len n \<and> pad_len n mod 64 = 56 \<and> pad_len n \<le> n + (63 - (n + 7) mod 64)"
  proof (induction n rule: pad_len.induct)
    case (1 n)
    show ?case
    proof (cases "n mod 64 = 56")
      case True
      then have "pad_len n = n" by (subst pad_len.simps) simp
      with True show ?thesis by simp
    next
      case False
      have "(n + 7) mod 64 \<noteq> 63"
      proof
        assume "(n + 7) mod 64 = 63"
        then have "n = 56 + 64 * ((n + 7) div 64)" using div_mult_mod_eq [of "n + 7" 64] by linarith
        then have "n mod 64 = (56 + 64 * ((n + 7) div 64)) mod 64" by (rule arg_cong)
        with False show False by simp
      qed
      then have "Suc (63 - (Suc n + 7) mod 64) = 63 - (n + 7) mod 64"
        using mod_less_divisor [of 64 "n + 7"] by (simp only: mod_Suc add_Suc) auto
      moreover have "pad_len n = pad_len (Suc n)" using False by (subst pad_len.simps) simp
      ultimately show ?thesis using "1.IH" [OF False]
        by (cases "63 - (Suc n + 7) mod 64"; cases "63 - (n + 7) mod 64"; simp only:) auto
    qed
  qed
  then show ?thesis by auto
qed

lemma pad_len_unique:
  assumes "n \<le> k" and "k < n + 64" and "k mod 64 = 56"
  shows "pad_len n = k"
proof -
  obtain a where a: "pad_len n = 64 * a + 56" using pad_len_spec [of n] by (metis mult_div_mod_eq)
  obtain b where b: "k = 64 * b + 56" using assms(3) by (metis mult_div_mod_eq)
  have "a = b" using pad_len_spec [of n] assms(1,2) a b by arith
  with a b show ?thesis by simp
qed

lemma to_bytes_eq: "to_bytes = bytes32"
  by (simp add: fun_eq_iff to_bytes_def bytes32_def)

lemma length_md5_pad: "length (md5_pad m) = pad_len (length m + 1) + 8"
  using pad_len_spec [of "length m + 1"] by (simp add: md5_pad_def to_bytes_eq Let_def)

lemma md5_loop_chunks:
  "length msg = new_len + 8 \<Longrightarrow> new_len mod 64 = 56 \<Longrightarrow> offset mod 64 = 0 \<Longrightarrow>
   md5_loop msg new_len offset h = md5_chunks (drop offset msg) h"
proof (induction msg new_len offset h rule: md5_loop.induct)
  case (1 msg new_len offset h)
  show ?case
  proof (cases "offset < new_len")
    case True
    obtain a where a: "new_len = 64 * a + 56" using "1.prems"(2) by (metis mult_div_mod_eq)
    obtain b where b: "offset = 64 * b" using "1.prems"(3) by (metis mult_div_mod_eq add_0_right)
    have "offset + 56 \<le> new_len" using True a b by arith
    then have "64 \<le> length (drop offset msg)" using "1.prems"(1) by simp
    then have "md5_chunks (drop offset msg) h =
        md5_chunks (drop (offset + 64) msg) (md5_chunk (drop offset msg) h)"
      by (simp add: md5_chunks_step add.commute)
    with 1 True show ?thesis by (subst md5_loop.simps) simp
  next
    case False
    have "new_len \<noteq> offset" using "1.prems"(2,3) by auto
    with False "1.prems" show ?thesis by (subst md5_loop.simps) (simp add: md5_chunks_short)
  qed
qed

lemma md5_digest: "md5 ok m = (if ok then Inr (md5_digest m) else Inl NullDeref)"
proof -
  have "md5_loop (md5_pad m) (pad_len (length m + 1)) 0 md5_h0 = md5_chunks (md5_pad m) md5_h0"
    using md5_loop_chunks [OF length_md5_pad, of m 0] pad_len_spec [of "length m + 1"] by simp
  then show ?thesis
    by (simp add: md5_def md5_digest_def md5_pad_def to_bytes_eq Let_def case_prod_unfold)
qed

lemma length_md5_digest [simp, len_simps]: "length (md5_digest m) = 16"
  by (simp add: md5_digest_def Let_def case_prod_unfold)

lemma high_length_word:
  "push_bit 3 (of_nat (n div 2 ^ 32)) OR drop_bit 29 (of_nat n) = (of_nat (n div 2 ^ 29) :: u32)"
proof (rule bit_word_eqI)
  fix i assume "i < LENGTH(32)"
  moreover have "n div 2 ^ 32 = drop_bit 32 n" "n div 2 ^ 29 = drop_bit 29 n"
    by (simp_all only: drop_bit_eq_div)
  ultimately show "bit (push_bit 3 (of_nat (n div 2 ^ 32)) OR drop_bit 29 (of_nat n) :: u32) i =
      bit (of_nat (n div 2 ^ 29) :: u32) i"
    by (cases "3 \<le> i") (auto simp: bit_simps bit_of_nat_iff ac_simps)
qed

lemma length_words:
  fixes t0 t1 :: u32
  assumes "unat t1 * 2 ^ 32 + unat t0 = n mod (2 ^ 32 * 2 ^ 32)"
  shows "t0 = of_nat n" and "t1 = of_nat (n div 2 ^ 32)"
proof -
  have b: "unat t0 < 2 ^ 32" "unat t1 < 2 ^ 32" using unsigned_less [of t0] unsigned_less [of t1] by simp_all
  have eq: "unat t1 * 2 ^ 32 + unat t0 = 2 ^ 32 * (n div 2 ^ 32 mod 2 ^ 32) + n mod 2 ^ 32"
    using assms by (simp only: mod_mult2_eq)
  have "unat t0 = n mod 2 ^ 32" using arg_cong [OF eq, of "\<lambda>x. x mod 2 ^ 32"] b by simp
  moreover have "unat t1 = n div 2 ^ 32 mod 2 ^ 32" using arg_cong [OF eq, of "\<lambda>x. x div 2 ^ 32"] b by simp
  ultimately show "t0 = of_nat n" and "t1 = of_nat (n div 2 ^ 32)"
    by (simp_all add: word_unat_eq_iff unat_of_nat)
qed

lemma final_block:
  assumes "length buf = 128" and "n \<le> 128" and "length x = 4" and "length y = 4"
    and "length z = n - 8 - i" and "i + 8 \<le> n"
  shows "take n (memcpy_at (memcpy_at (memcpy_at buf (n - 8) x) (n - 4) y) i z) = take i buf @ z @ x @ y"
proof -
  have "memcpy_at (memcpy_at buf (n - 8) x) (n - 4) y = take (n - 8) buf @ x @ y @ drop n buf"
    using assms by (simp add: memcpy_at_def)
  moreover have "memcpy_at (take (n - 8) buf @ x @ y @ drop n buf) i z = take i buf @ z @ x @ y @ drop n buf"
    using assms by (simp add: memcpy_at_def)
  moreover have "length (take i buf @ z @ x @ y) = n" using assms by simp
  ultimately show ?thesis by (metis append.assoc append_eq_conv_conj)
qed

lemma md5_pad_split:
  assumes "length p mod 64 = 0" and "length q \<le> 64"
  defines "n \<equiv> (if length q < 56 then 64 else 128 :: nat)"
  shows "md5_pad (p @ q) = p @ q @ take (n - 8 - length q) fillbuf @
    bytes32 (of_nat (length (p @ q) * 8)) @ bytes32 (of_nat (length (p @ q) div 2 ^ 29))"
proof -
  have n: "n - 8 - length q \<le> 64" "length q + 8 < n" "n < length q + 73" using assms(2) by (auto simp: n_def)
  have "pad_len (length (p @ q) + 1) = length p + (n - 8)"
    using n assms(1) by (intro pad_len_unique) (auto simp: n_def mod_add_eq [symmetric, of "length p" _ 64])
  moreover have "take (n - 8 - length q) fillbuf = 0x80 # replicate (n - 9 - length q) 0"
    using n by (cases "n - 8 - length q") (auto simp: fillbuf_def)
  moreover have "length p + (n - 8) - Suc (length p + length q) = n - 9 - length q" using n by simp
  ultimately show ?thesis by (simp add: md5_pad_def to_bytes_eq Let_def)
qed

lemma length_md5_finish: "length (snd (md5_finish_ctx ctx)) = 16"
  by (simp add: md5_finish_ctx_def md5_read_ctx_def Let_def)

lemma md5_read_regs:
  "md5_read_ctx ctx =
     (case md5_regs ctx of (a, b, c, d) \<Rightarrow> bytes32 a @ bytes32 b @ bytes32 c @ bytes32 d)"
  by (simp add: md5_read_ctx_def md5_regs_def)

lemma md5_finish_rep:
  assumes "md5_rep ctx m"
  shows "snd (md5_finish_ctx ctx) = md5_digest m"
proof -
  from assms obtain p q where m: "m = p @ q" and d: "digested ctx p" and pe: "pending ctx q"
    by (auto simp: md5_rep_def)
  define bytes where "bytes = buflen ctx"
  define size :: nat where "size = (if bytes < 56 then 16 else 32)"
  define t0 where "t0 = total0 ctx + bytes"
  define t1 where "t1 = (if t0 < bytes then total1 ctx + 1 else total1 ctx)"
  define b where "b = memcpy_at (memcpy_at (memcpy_at (buffer ctx) ((size - 2) * 4) (bytes32 (push_bit 3 t0)))
      ((size - 1) * 4) (bytes32 (push_bit 3 t1 OR drop_bit 29 t0)))
      (unat bytes) (take ((size - 2) * 4 - unat bytes) fillbuf)"
  define c where "c = ctx\<lparr>total0 := t0, total1 := t1, buffer := b\<rparr>"
  have lq: "unat bytes = length q" "length q \<le> 64" "take (length q) (buffer ctx) = q"
    "length (buffer ctx) = 128" using pe by (auto simp: pending_def bytes_def)
  have size: "size = (if length q < 56 then 16 else 32)" by (simp add: size_def word_less_nat_alt lq(1))
  have bytes: "bytes = of_nat (length q)" by (simp flip: lq(1))
  have "unat t1 * 2 ^ 32 + unat t0 = (md5_total ctx + length q) mod (2 ^ 32 * 2 ^ 32)"
    using total_add [of "length q" "total0 ctx" "total1 ctx"] lq(1,2)
    by (simp add: t1_def t0_def md5_total_def word_less_nat_alt flip: bytes)
  then have "unat t1 * 2 ^ 32 + unat t0 = length m mod (2 ^ 32 * 2 ^ 32)"
    using d by (simp add: digested_def m mod_add_left_eq)
  note tw = length_words [OF this]
  have "bytes32 (push_bit 3 t0) = bytes32 (of_nat (length m * 8))"
    "bytes32 (push_bit 3 t1 OR drop_bit 29 t0) = bytes32 (of_nat (length m div 2 ^ 29))"
    unfolding tw by (simp_all only: high_length_word) (simp add: push_bit_eq_mult mult.commute)
  then have tb: "take (size * 4) b = q @ take (size * 4 - 8 - length q) fillbuf @
      bytes32 (of_nat (length m * 8)) @ bytes32 (of_nat (length m div 2 ^ 29))"
    unfolding b_def using final_block [of "buffer ctx" "size * 4"] lq size
    by (simp add: fillbuf_def diff_mult_distrib)
  have pad: "p @ take (size * 4) b = md5_pad m" unfolding tb
    using md5_pad_split [of p q] d lq(2) by (simp add: m size digested_def split: if_splits)
  have "length (take (size * 4) b) mod 64 = 0" unfolding tb using lq(2) by (simp add: size fillbuf_def)
  moreover have "md5_regs c = md5_regs ctx" by (simp add: c_def md5_regs_def)
  ultimately have "md5_regs (md5_process_block (take (size * 4) b) c) = md5_chunks (md5_pad m) md5_h0"
    using d by (simp only: md5_regs_process_block digested_def md5_chunks_append flip: pad)
  moreover have "snd (md5_finish_ctx ctx) = md5_read_ctx (md5_process_block (take (size * 4) b) c)"
    by (simp add: md5_finish_ctx_def Let_def c_def b_def t0_def t1_def size_def bytes_def)
  ultimately show ?thesis by (simp add: md5_digest_def md5_read_regs)
qed

section \<open>The contract of an incremental digest\<close>

text \<open>
  What a client of \<open>md5.c\<close> relies on: a fresh context represents the empty message, each update
  appends its bytes to the message represented, and finishing gives the digest of the message.
  Bytes are given by their address and their contents, blocks by their contents.
\<close>

locale incremental_digest =
  fixes init :: "'c \<Rightarrow> 'c"
    and update :: "nat \<Rightarrow> byte list \<Rightarrow> 'c \<Rightarrow> 'c"
    and update_block :: "byte list \<Rightarrow> 'c \<Rightarrow> 'c"
    and finish :: "'c \<Rightarrow> byte list"
    and valid :: "'c \<Rightarrow> bool"
    and rep :: "'c \<Rightarrow> byte list \<Rightarrow> bool"
    and H :: "byte list \<Rightarrow> byte list"
  assumes rep_init: "valid c \<Longrightarrow> rep (init c) []"
    and rep_update: "rep c m \<Longrightarrow> length bs < 2 ^ 32 \<Longrightarrow> rep (update a bs c) (m @ bs)"
    and rep_block: "valid c \<Longrightarrow> length bs = 64 \<Longrightarrow> rep (update_block bs (init c)) bs"
    and finish: "rep c m \<Longrightarrow> finish c = H m"
begin

lemma digest_one: "valid c \<Longrightarrow> length bs < 2 ^ 32 \<Longrightarrow> finish (update a bs (init c)) = H bs"
  using finish rep_update [OF rep_init] by fastforce

lemma digest_two:
  assumes "valid c" and "length bs < 2 ^ 32" and "length cs < 2 ^ 32"
  shows "finish (update a' cs (update a bs (init c))) = H (bs @ cs)"
  using finish rep_update [OF rep_update [OF rep_init [OF assms(1)] assms(2)] assms(3)] by fastforce

lemma digest_block:
  "valid c \<Longrightarrow> length bs = 64 \<Longrightarrow> length cs < 2 ^ 32 \<Longrightarrow>
   finish (update a cs (update_block bs (init c))) = H (bs @ cs)"
  by (rule finish) (intro rep_update rep_block)

end

definition ctx_valid :: "md5_ctx \<Rightarrow> bool" where
  "ctx_valid ctx \<longleftrightarrow> length (buffer ctx) = 128"

lemma md5_init_holds:
  assumes "ctx_valid ctx"
  shows "digested (md5_init_ctx ctx) []" and "pending (md5_init_ctx ctx) []"
  using assms
  by (simp_all add: digested_def pending_def md5_init_ctx_def md5_regs_def md5_total_def md5_h0_def
      md5_chunks_short ctx_valid_def)

interpretation md5: incremental_digest md5_init_ctx md5_process_bytes md5_process_block
  "\<lambda>ctx. snd (md5_finish_ctx ctx)" ctx_valid md5_rep md5_digest
proof (standard, goal_cases)
  case (1 c)
  then show ?case using md5_init_holds [of c] by (auto simp: md5_rep_def)
next
  case (2 c m bs a)
  then show ?case by (rule md5_process_bytes_rep)
next
  case (3 c bs)
  then have "digested (md5_process_block bs (md5_init_ctx c)) ([] @ bs)"
    using md5_init_holds [of c] by (intro digested_block) simp_all
  moreover have "pending (md5_process_block bs (md5_init_ctx c)) []"
    using md5_init_holds(2) [of c] 3(1) by (simp add: pending_def)
  ultimately show ?case unfolding md5_rep_def by force
next
  case (4 c m)
  then show ?case by (rule md5_finish_rep)
qed

section \<open>Properties\<close>

text \<open>
  C35. The two MD5 implementations of the library agree: for every message shorter than
  \<open>2 ^ 32\<close> bytes, at every address and from every (uninitialised) context, \<open>md5_buffer\<close> of
  \<open>md5.c\<close> returns what \<open>md5\<close> of \<open>cmd5.c\<close> writes when its allocation succeeds.
\<close>

theorem md5_buffer_eq_md5:
  assumes "ctx_valid ctx" and "length msg < 2 ^ 32"
  shows "md5 True msg = Inr (md5_buffer addr ctx msg)"
  using md5.digest_one [OF assms, of addr] by (simp add: md5_digest md5_buffer_def)

theorem md5_buffer_eq_md5_witness:
  "md5 True [97, 98, 99] = Inr (md5_buffer 3
     \<lparr>ctx_A = 1, ctx_B = 2, ctx_C = 3, ctx_D = 4, total0 = 5, total1 = 6, buflen = 7,
      buffer = replicate 128 8\<rparr> [97, 98, 99])"
  using md5_buffer_eq_md5 [of "\<lparr>ctx_A = 1, ctx_B = 2, ctx_C = 3, ctx_D = 4, total0 = 5, total1 = 6,
    buflen = 7, buffer = replicate 128 8\<rparr>" "[97, 98, 99]" 3]
  by (simp add: ctx_valid_def)

text \<open>
  How a message is cut into calls of \<open>md5_process_bytes\<close>, and where the pieces lie, does not
  matter: two calls followed by \<open>md5_finish_ctx\<close> give the digest of the concatenation.
\<close>

theorem md5_process_bytes_split:
  assumes "ctx_valid ctx" and "length a + length b < 2 ^ 32"
  shows "snd (md5_finish_ctx (md5_process_bytes addr' b (md5_process_bytes addr a (md5_init_ctx ctx)))) =
    md5_buffer addr'' ctx (a @ b)"
proof -
  have "length a < 2 ^ 32" and "length b < 2 ^ 32" and "length (a @ b) < 2 ^ 32" using assms(2) by simp_all
  then show ?thesis
    using md5.digest_two [OF assms(1), of a b addr' addr] md5.digest_one [OF assms(1), of "a @ b" addr'']
    by (simp add: md5_buffer_def)
qed

theorem md5_process_bytes_split_witness:
  "snd (md5_finish_ctx (md5_process_bytes 2 (replicate 100 2) (md5_process_bytes 1 (replicate 30 1)
      (md5_init_ctx \<lparr>ctx_A = 0, ctx_B = 0, ctx_C = 0, ctx_D = 0, total0 = 0, total1 = 0, buflen = 0,
        buffer = replicate 128 0\<rparr>)))) =
    md5_buffer 4 \<lparr>ctx_A = 0, ctx_B = 0, ctx_C = 0, ctx_D = 0, total0 = 0, total1 = 0, buflen = 0,
      buffer = replicate 128 0\<rparr> (replicate 30 1 @ replicate 100 2)"
  by (rule md5_process_bytes_split) (simp_all add: ctx_valid_def)

end
