(* ===== verification/Hmac_Md5.thy ===== *)
theory Hmac_Md5
  imports Md5
begin

text \<open>
  The keyed digest of \<open>hmacmd5/hmac-md5.c\<close> and its Lua binding \<open>hmacmd5/lua-hmacmd5.c\<close>. The
  contexts on the C stack are arguments, since their buffers start with arbitrary contents; the
  addresses of the arrays are arguments, since \<open>md5_process_bytes\<close> looks at them. The routine is
  shown to compute HMAC, over the interface of an incremental digest.
\<close>

section \<open>The code\<close>

definition IPAD :: byte where "IPAD = 0x36"
definition OPAD :: byte where "OPAD = 0x5c"

fun memxor :: "byte list \<Rightarrow> byte list \<Rightarrow> nat \<Rightarrow> byte list" where
  "memxor (d # dest) (s # src) (Suc n) = (d XOR s) # memxor dest src n"
| "memxor dest src n = dest"

text \<open>
  \<open>stk i\<close> is the context of the block for the key (0), of \<open>inner\<close> (1) and of \<open>outer\<close> (2) when
  the function is entered, \<open>at i\<close> the address of the key, of the input and of \<open>innerhash\<close>.
\<close>

definition hmac_md5_c :: "(nat \<Rightarrow> md5_ctx) \<Rightarrow> (nat \<Rightarrow> nat) \<Rightarrow> byte list \<Rightarrow> byte list \<Rightarrow> byte list" where
  "hmac_md5_c stk at key inp =
     (let key = (if length key > 64
        then snd (md5_finish_ctx (md5_process_bytes (at 0) key (md5_init_ctx (stk 0))))
        else key);
          keylen = length key;
          inner = md5_init_ctx (stk 1);
          block = memxor (replicate 64 IPAD) key keylen;
          inner = md5_process_block block inner;
          inner = md5_process_bytes (at 1) inp inner;
          innerhash = snd (md5_finish_ctx inner);
          outer = md5_init_ctx (stk 2);
          block = memxor (replicate 64 OPAD) key keylen;
          outer = md5_process_block block outer;
          outer = md5_process_bytes (at 2) innerhash outer
      in snd (md5_finish_ctx outer))"

text \<open>
  The bindings print the 16 bytes of the digest with \<open>sprintf\<close> into a local array of \<open>cap\<close>
  characters, which has to take the terminating zero too.
\<close>

definition hex_digit :: "nat \<Rightarrow> char" where
  "hex_digit n = ''0123456789abcdef'' ! n"

definition hex2 :: "byte \<Rightarrow> string" where
  "hex2 b = [hex_digit (unat b div 16), hex_digit (unat b mod 16)]"

definition sprintf_hex :: "nat \<Rightarrow> byte list \<Rightarrow> string cres" where
  "sprintf_hex cap dest =
     (let s = concat (map hex2 (take 16 dest)) in if length s + 1 > cap then Inl OutOfBounds else Inr s)"

definition retBuff_size :: nat where
  "retBuff_size = 32"

definition lhmac_md5 :: "(nat \<Rightarrow> md5_ctx) \<Rightarrow> (nat \<Rightarrow> nat) \<Rightarrow> byte list \<Rightarrow> byte list \<Rightarrow> string cres" where
  "lhmac_md5 stk at key src = sprintf_hex retBuff_size (hmac_md5_c stk at key src)"

definition lmd5 :: "bool \<Rightarrow> byte list \<Rightarrow> string cres" where
  "lmd5 ok src = bind_res (md5 ok src) (\<lambda>digest. sprintf_hex retBuff_size (digest @ replicate 16 0))"

section \<open>HMAC over an incremental digest\<close>

text \<open>HMAC as RFC 2104 defines it, for a digest \<open>H\<close> with blocks of 64 bytes.\<close>

definition hmac_key :: "(byte list \<Rightarrow> byte list) \<Rightarrow> byte list \<Rightarrow> byte list" where
  "hmac_key H K = (let K = (if length K > 64 then H K else K) in K @ replicate (64 - length K) 0)"

definition hmac :: "(byte list \<Rightarrow> byte list) \<Rightarrow> byte list \<Rightarrow> byte list \<Rightarrow> byte list" where
  "hmac H K m =
     (let K0 = hmac_key H K
      in H (map (\<lambda>k. k XOR OPAD) K0 @ H (map (\<lambda>k. k XOR IPAD) K0 @ m)))"

lemma memxor_pad:
  "length key \<le> n \<Longrightarrow>
   memxor (replicate n v) key (length key) = map (\<lambda>k. k XOR v) (key @ replicate (n - length key) 0)"
proof (induction key arbitrary: n)
  case Nil
  then show ?case by (cases n) simp_all
next
  case (Cons k key)
  then show ?case by (cases n) (simp_all add: ac_simps)
qed

context incremental_digest
begin

lemma hmac_update:
  assumes "valid c" and "valid c'" and "length K \<le> 64" and "length m < 2 ^ 32" and "length (H x) < 2 ^ 32"
    and "x = map (\<lambda>k. k XOR IPAD) (K @ replicate (64 - length K) 0) @ m"
  shows "finish (update a' (finish (update a m (update_block (memxor (replicate 64 IPAD) K (length K)) (init c))))
      (update_block (memxor (replicate 64 OPAD) K (length K)) (init c'))) =
    H (map (\<lambda>k. k XOR OPAD) (K @ replicate (64 - length K) 0) @ H x)"
proof -
  have "length (memxor (replicate 64 v) K (length K)) = 64" for v
    using assms(3) by (simp add: memxor_pad)
  then show ?thesis
    using digest_block [OF assms(1) _ assms(4)] digest_block [OF assms(2) _ assms(5)] assms(3,6)
    by (simp add: memxor_pad)
qed

end

section \<open>Properties\<close>

text \<open>
  C36. \<open>hmac_md5_c\<close> computes HMAC-MD5: for keys and inputs shorter than \<open>2 ^ 32\<close> bytes, whatever
  the uninitialised contexts hold and wherever the arrays lie, its result is HMAC over the digest
  that \<open>cmd5.c\<close> computes, keys longer than a block being replaced by their digest.
\<close>

theorem hmac_md5_c_hmac:
  assumes "\<And>i. ctx_valid (stk i)" and "length key < 2 ^ 32" and "length inp < 2 ^ 32"
  shows "hmac_md5_c stk at key inp = hmac md5_digest key inp"
proof -
  let ?K = "if length key > 64 then md5_digest key else key"
  have K: "snd (md5_finish_ctx (md5_process_bytes (at 0) key (md5_init_ctx (stk 0)))) = md5_digest key"
    using assms(1,2) by (intro md5.digest_one)
  have "length ?K \<le> 64" by simp
  from md5.hmac_update [OF assms(1) assms(1) this assms(3) _ refl, of "at 2" "at 1" 1 2]
  show ?thesis by (simp only: hmac_md5_c_def hmac_def hmac_key_def Let_def K) simp
qed

theorem hmac_md5_c_hmac_witness:
  "hmac_md5_c (\<lambda>_. \<lparr>ctx_A = 1, ctx_B = 2, ctx_C = 3, ctx_D = 4, total0 = 5, total1 = 6, buflen = 7,
      buffer = replicate 128 9\<rparr>) id [1, 2, 3] [4, 5] = hmac md5_digest [1, 2, 3] [4, 5]"
  by (rule hmac_md5_c_hmac) (simp_all add: ctx_valid_def)

lemma length_sprintf_text: "length dest \<ge> 16 \<Longrightarrow> length (concat (map hex2 (take 16 dest))) = 32"
proof -
  assume "length dest \<ge> 16"
  moreover have "length (concat (map hex2 bs)) = 2 * length bs" for bs
    by (induction bs) (simp_all add: hex2_def)
  ultimately show ?thesis by simp
qed

lemma length_hmac_md5_c: "length (hmac_md5_c stk at key inp) = 16"
  unfolding hmac_md5_c_def Let_def by (rule length_md5_finish)

text \<open>
  The bindings write past their array: the hexadecimal form of a digest has 32 characters, so
  with its terminating zero it needs 33, and \<open>retBuff\<close> has 32. Both functions overrun it on every
  input (for \<open>md5\<close>, where its allocation succeeds); an array of 33 characters would do.
\<close>

theorem retBuff_overrun:
  "lhmac_md5 stk at key src = Inl OutOfBounds \<and> lmd5 True src = Inl OutOfBounds \<and>
   (\<exists>s. sprintf_hex 33 (hmac_md5_c stk at key src) = Inr s \<and> length s = 32)"
  using length_sprintf_text [of "hmac_md5_c stk at key src"]
    length_sprintf_text [of "md5_digest src @ replicate 16 0"]
  by (simp add: lhmac_md5_def lmd5_def md5_digest sprintf_hex_def retBuff_size_def length_hmac_md5_c Let_def)

end
