(* ===== verification/Fastlz.thy ===== *)
theory Fastlz
  imports Prelude
begin

text \<open>
  The compressor and the decompressor of \<open>navgation/fastlz.c\<close>, which pack the layers of the
  navigation mesh. The file includes itself twice, for level 1 and level 2; the model has one
  definition of each routine with the level as an argument. A position in the input of the
  compressor is an index, the output is the list of bytes written so far, the hash table a
  function from slots to positions. The decompressor holds the bytes of its input that are still
  to be read and the bytes it has written; reading past the input is the failure \<open>OutOfBounds\<close>.
  The compressor hashes three bytes at the end of a match, which can be one byte more than the
  input has; \<open>nxt\<close> is the byte that happens to lie there, and the theorems hold for all of them.
  Bytes are copied one at a time, as the file is compiled for x86-64.
\<close>

section \<open>The compressor\<close>

definition MAX_COPY :: nat where "MAX_COPY = 32"
definition MAX_LEN :: nat where "MAX_LEN = 264"

definition MAX_DISTANCE :: "nat \<Rightarrow> nat" where
  "MAX_DISTANCE lv = (if lv = 1 then 8192 else 8191)"

definition MAX_FARDISTANCE :: nat where
  "MAX_FARDISTANCE = 65535 + 8191 - 1"

definition byte_at :: "byte \<Rightarrow> byte list \<Rightarrow> nat \<Rightarrow> byte" where
  "byte_at nxt inp p = (if p < length inp then inp ! p else nxt)"

definition FASTLZ_READU16 :: "byte \<Rightarrow> byte list \<Rightarrow> nat \<Rightarrow> u32" where
  "FASTLZ_READU16 nxt inp p = ucast (byte_at nxt inp p) OR push_bit 8 (ucast (byte_at nxt inp (p + 1)))"

definition HASH_FUNCTION :: "byte \<Rightarrow> byte list \<Rightarrow> nat \<Rightarrow> nat" where
  "HASH_FUNCTION nxt inp p =
     (let v = FASTLZ_READU16 nxt inp p;
          v = v XOR (FASTLZ_READU16 nxt inp (p + 1) XOR drop_bit 3 v)
      in unat (v AND 8191))"

record lz =
  lz_ip :: nat
  lz_out :: "byte list"
  lz_copy :: nat
  lz_htab :: "nat \<Rightarrow> nat"

text \<open>How far a match extends: a run of one byte, and the general case with eight unguarded steps.\<close>

function lz_run :: "byte list \<Rightarrow> nat \<Rightarrow> byte \<Rightarrow> nat \<Rightarrow> nat \<Rightarrow> nat" where
  "lz_run inp bound x ref ip =
     (if ip < bound then if inp ! ref \<noteq> x then ip else lz_run inp bound x (ref + 1) (ip + 1) else ip)"
  by pat_completeness auto
termination
  by (relation "measure (\<lambda>(inp, bound, x, ref, ip). bound - ip)") auto

function lz_cmp_while :: "byte list \<Rightarrow> nat \<Rightarrow> nat \<Rightarrow> nat \<Rightarrow> nat" where
  "lz_cmp_while inp bound ref ip =
     (if ip < bound
      then if inp ! ref \<noteq> inp ! ip then ip + 1 else lz_cmp_while inp bound (ref + 1) (ip + 1)
      else ip)"
  by pat_completeness auto
termination
  by (relation "measure (\<lambda>(inp, bound, ref, ip). bound - ip)") auto

declare lz_run.simps [simp del] lz_cmp_while.simps [simp del]

fun lz_cmp :: "byte list \<Rightarrow> nat \<Rightarrow> nat \<Rightarrow> nat \<Rightarrow> nat \<Rightarrow> nat" where
  "lz_cmp inp bound 0 ref ip = lz_cmp_while inp bound ref ip"
| "lz_cmp inp bound (Suc k) ref ip =
     (if inp ! ref \<noteq> inp ! ip then ip + 1 else lz_cmp inp bound k (ref + 1) (ip + 1))"

definition lz_extend :: "byte list \<Rightarrow> nat \<Rightarrow> nat \<Rightarrow> nat \<Rightarrow> nat" where
  "lz_extend inp distance ref ip =
     (let ip_bound = length inp - 2
      in if distance = 0 then lz_run inp ip_bound (inp ! (ip - 1)) ref ip
         else lz_cmp inp ip_bound 8 ref ip)"

text \<open>The bytes of a match: level 1 cuts a long one into several, level 2 extends the length.\<close>

function lz_emit1 :: "nat \<Rightarrow> nat \<Rightarrow> byte list" where
  "lz_emit1 distance len =
     (if len > MAX_LEN - 2
      then [of_nat (7 * 32 + distance div 256), of_nat (MAX_LEN - 2 - 7 - 2), of_nat (distance mod 256)]
           @ lz_emit1 distance (len - (MAX_LEN - 2))
      else if len < 7 then [of_nat (len * 32 + distance div 256), of_nat (distance mod 256)]
      else [of_nat (7 * 32 + distance div 256), of_nat (len - 7), of_nat (distance mod 256)])"
  by pat_completeness auto
termination
  by (relation "measure snd") (auto simp: MAX_LEN_def)

fun lz_len255 :: "nat \<Rightarrow> byte list" where
  "lz_len255 len = (if len \<ge> 255 then 255 # lz_len255 (len - 255) else [of_nat len])"

declare lz_emit1.simps [simp del] lz_len255.simps [simp del]

definition lz_emit2 :: "nat \<Rightarrow> nat \<Rightarrow> byte list" where
  "lz_emit2 distance len =
     (if distance < MAX_DISTANCE 2
      then if len < 7
           then [of_nat (len * 32 + distance div 256), of_nat (distance mod 256)]
           else of_nat (7 * 32 + distance div 256) # lz_len255 (len - 7) @ [of_nat (distance mod 256)]
      else let distance = distance - MAX_DISTANCE 2
           in if len < 7
              then [of_nat (len * 32 + 31), 255, of_nat (distance div 256), of_nat (distance mod 256)]
              else of_nat (7 * 32 + 31) # lz_len255 (len - 7)
                   @ [255, of_nat (distance div 256), of_nat (distance mod 256)])"

definition lz_emit :: "nat \<Rightarrow> nat \<Rightarrow> nat \<Rightarrow> byte list" where
  "lz_emit lv distance len = (if lv = 1 then lz_emit1 distance len else lz_emit2 distance len)"

text \<open>Close the literals written so far: fill in their count, or drop the unused count byte.\<close>

definition lz_close :: "byte list \<Rightarrow> nat \<Rightarrow> byte list" where
  "lz_close out copy =
     (if copy \<noteq> 0 then out[length out - copy - 1 := of_nat (copy - 1)] else butlast out)"

definition lz_literal :: "byte list \<Rightarrow> nat \<Rightarrow> lz \<Rightarrow> lz" where
  "lz_literal inp anchor st =
     (let out = lz_out st @ [inp ! anchor];
          copy = lz_copy st + 1
      in if copy = MAX_COPY
         then st\<lparr>lz_ip := anchor + 1, lz_copy := 0, lz_out := out @ [of_nat (MAX_COPY - 1)]\<rparr>
         else st\<lparr>lz_ip := anchor + 1, lz_copy := copy, lz_out := out\<rparr>)"

definition lz_match :: "nat \<Rightarrow> byte \<Rightarrow> byte list \<Rightarrow> nat \<Rightarrow> nat \<Rightarrow> nat \<Rightarrow> nat \<Rightarrow> lz \<Rightarrow> lz" where
  "lz_match lv nxt inp anchor len distance ref st =
     (let ip = anchor + len;
          distance = distance - 1;
          ip = lz_extend inp distance ref ip;
          out = lz_close (lz_out st) (lz_copy st);
          ip = ip - 3;
          len = ip - anchor;
          out = out @ lz_emit lv distance len;
          htab = (lz_htab st)(HASH_FUNCTION nxt inp ip := ip);
          htab = htab(HASH_FUNCTION nxt inp (ip + 1) := ip + 1)
      in \<lparr>lz_ip = ip + 2, lz_out = out @ [of_nat (MAX_COPY - 1)], lz_copy = 0, lz_htab = htab\<rparr>)"

definition same_bytes :: "byte list \<Rightarrow> nat \<Rightarrow> nat \<Rightarrow> nat \<Rightarrow> bool" where
  "same_bytes inp i j n \<longleftrightarrow> list_all (\<lambda>k. inp ! (i + k) = inp ! (j + k)) [0..<n]"

definition lz_step :: "nat \<Rightarrow> byte \<Rightarrow> byte list \<Rightarrow> lz \<Rightarrow> lz" where
  "lz_step lv nxt inp st =
     (let anchor = lz_ip st; ip = lz_ip st
      in if lv = 2 \<and> inp ! ip = inp ! (ip - 1) \<and> FASTLZ_READU16 nxt inp (ip - 1) = FASTLZ_READU16 nxt inp (ip + 1)
         then lz_match lv nxt inp anchor 3 1 (anchor - 1 + 3) st
         else let hval = HASH_FUNCTION nxt inp ip;
                  ref = lz_htab st hval;
                  distance = anchor - ref;
                  st = st\<lparr>lz_htab := (lz_htab st)(hval := anchor)\<rparr>
              in if distance = 0 \<or> distance \<ge> (if lv = 1 then MAX_DISTANCE 1 else MAX_FARDISTANCE) \<or>
                    \<not> same_bytes inp ref ip 3
                 then lz_literal inp anchor st
                 else if lv = 2 \<and> distance \<ge> MAX_DISTANCE 2
                 then if same_bytes inp (ref + 3) (ip + 3) 2
                      then lz_match lv nxt inp anchor 5 distance (ref + 5) st
                      else lz_literal inp anchor st
                 else lz_match lv nxt inp anchor 3 distance (ref + 3) st)"

text \<open>Every round of the main loop moves forward in the input.\<close>

lemma lz_run_ge: "ip \<le> lz_run inp bound x ref ip"
  by (induction inp bound x ref ip rule: lz_run.induct) (subst lz_run.simps, force)

lemma lz_cmp_while_ge: "ip \<le> lz_cmp_while inp bound ref ip"
  by (induction inp bound ref ip rule: lz_cmp_while.induct) (subst lz_cmp_while.simps, force)

lemma lz_cmp_ge: "ip \<le> lz_cmp inp bound k ref ip"
  by (induction k arbitrary: ref ip) (force simp: lz_cmp_while_ge dest: Suc_leD)+

lemma lz_extend_ge: "ip \<le> lz_extend inp distance ref ip"
  by (simp add: lz_extend_def Let_def lz_run_ge lz_cmp_ge)

lemma lz_match_ip:
  assumes "2 < len"
  shows "anchor < lz_ip (lz_match lv nxt inp anchor len distance ref st)"
  using assms lz_extend_ge [of "anchor + len" inp "distance - 1" ref]
  by (simp add: lz_match_def Let_def)

lemma lz_step_ip: "lz_ip st < lz_ip (lz_step lv nxt inp st)"
proof -
  have "lz_ip st < lz_ip (lz_match lv nxt inp (lz_ip st) 3 d r s)"
    and "lz_ip st < lz_ip (lz_match lv nxt inp (lz_ip st) 5 d r s)"
    and "lz_ip st < lz_ip (lz_literal inp (lz_ip st) s)" for d r s
    by (simp_all add: lz_match_ip lz_literal_def Let_def)
  then show ?thesis unfolding lz_step_def Let_def by (simp only: if_splits split: if_split) simp
qed

function lz_loop :: "nat \<Rightarrow> byte \<Rightarrow> byte list \<Rightarrow> lz \<Rightarrow> lz" where
  "lz_loop lv nxt inp st =
     (if lz_ip st + 12 < length inp then lz_loop lv nxt inp (lz_step lv nxt inp st) else st)"
  by pat_completeness auto
termination
  by (relation "measure (\<lambda>(lv, nxt, inp, st). length inp - lz_ip st)")
    (use lz_step_ip diff_less_mono2 in \<open>auto intro!: diff_less_mono2\<close>)

function lz_left :: "byte list \<Rightarrow> lz \<Rightarrow> lz" where
  "lz_left inp st =
     (if lz_ip st < length inp then lz_left inp (lz_literal inp (lz_ip st) st) else st)"
  by pat_completeness auto
termination
  by (relation "measure (\<lambda>(inp, st). length inp - lz_ip st)") (auto simp: lz_literal_def Let_def)

declare lz_loop.simps [simp del] lz_left.simps [simp del]

definition fastlz_compressor :: "nat \<Rightarrow> byte \<Rightarrow> byte list \<Rightarrow> byte list" where
  "fastlz_compressor lv nxt inp =
     (if length inp < 4
      then if inp \<noteq> [] then of_nat (length inp - 1) # inp else []
      else let st = \<lparr>lz_ip = 2, lz_out = [of_nat (MAX_COPY - 1), inp ! 0, inp ! 1], lz_copy = 2,
                     lz_htab = (\<lambda>_. 0)\<rparr>;
               st = lz_left inp (lz_loop lv nxt inp st);
               out = lz_close (lz_out st) (lz_copy st)
           in if lv = 2 then out[0 := out ! 0 OR 32] else out)"

definition fastlz_compress :: "byte \<Rightarrow> byte list \<Rightarrow> byte list" where
  "fastlz_compress nxt inp =
     (if length inp < 65536 then fastlz_compressor 1 nxt inp else fastlz_compressor 2 nxt inp)"

definition fastlz_compress_level :: "nat \<Rightarrow> byte \<Rightarrow> byte list \<Rightarrow> byte list" where
  "fastlz_compress_level level nxt inp =
     (if level = 1 then fastlz_compressor 1 nxt inp
      else if level = 2 then fastlz_compressor 2 nxt inp
      else [])"

section \<open>The decompressor\<close>

text \<open>
  A match is its length less three, and how far behind the output position its reference is;
  the bytes after it are still to be read.
\<close>

fun lz_read :: "byte list \<Rightarrow> (byte \<times> byte list) cres" where
  "lz_read [] = Inl OutOfBounds"
| "lz_read (c # r) = Inr (c, r)"

fun lz_read_len :: "nat \<Rightarrow> byte list \<Rightarrow> (nat \<times> byte list) cres" where
  "lz_read_len len [] = Inl OutOfBounds"
| "lz_read_len len (c # r) =
     (let len = (len + unat c) mod 2 ^ 32 in if c = 255 then lz_read_len len r else Inr (len, r))"

definition lz_read_match :: "nat \<Rightarrow> nat \<Rightarrow> byte list \<Rightarrow> (nat \<times> nat \<times> byte list) cres" where
  "lz_read_match lv ctrl r =
     (let len = ctrl div 32 - 1;
          ofs = ctrl mod 32 * 256
      in if lv = 1
         then bind_res (if len = 6 then bind_res (lz_read r) (\<lambda>(c, r). Inr (len + unat c, r))
                        else Inr (len, r)) (\<lambda>(len, r).
              bind_res (lz_read r) (\<lambda>(c, r). Inr (len, ofs + unat c, r)))
         else bind_res (if len = 6 then lz_read_len len r else Inr (len, r)) (\<lambda>(len, r).
              bind_res (lz_read r) (\<lambda>(code, r).
              if code = 255 \<and> ofs = 31 * 256
              then bind_res (lz_read r) (\<lambda>(a, r).
                   bind_res (lz_read r) (\<lambda>(b, r).
                   Inr (len, unat a * 256 + unat b + MAX_DISTANCE 2, r)))
              else Inr (len, ofs + unat code, r))))"

fun lz_copy_from :: "byte list \<Rightarrow> nat \<Rightarrow> nat \<Rightarrow> byte list" where
  "lz_copy_from out ref 0 = out"
| "lz_copy_from out ref (Suc n) = lz_copy_from (out @ [out ! ref]) (ref + 1) n"

definition lz_copy_match :: "byte list \<Rightarrow> nat \<Rightarrow> nat \<Rightarrow> byte list" where
  "lz_copy_match out back len =
     (if back = 0 then out @ replicate (len + 3) (out ! (length out - 1))
      else lz_copy_from out (length out - back - 1) (len + 3))"

text \<open>One pass of the loop: the routine returns 0, or it goes on with the output so far.\<close>

definition lz_dec_step ::
  "nat \<Rightarrow> nat \<Rightarrow> nat \<Rightarrow> byte list \<Rightarrow> byte list \<Rightarrow> (byte list \<times> byte list) option cres" where
  "lz_dec_step lv maxout ctrl r out =
     (if ctrl \<ge> 32
      then bind_res (lz_read_match lv ctrl r) (\<lambda>(len, back, r).
           if length out + len + 3 > maxout then Inr None
           else if length out < back + 1 then Inr None
           else Inr (Some (lz_copy_match out back len, r)))
      else let ctrl = ctrl + 1
           in if length out + ctrl > maxout then Inr None
              else if length r < ctrl then Inr None
              else Inr (Some (out @ take ctrl r, drop ctrl r)))"

lemma lz_read_shorter: "lz_read r = Inr (c, r') \<Longrightarrow> length r' < length r"
  by (cases r) auto

lemma lz_read_len_shorter: "lz_read_len len r = Inr (n, r') \<Longrightarrow> length r' < length r"
  by (induction len r rule: lz_read_len.induct) (force simp: Let_def split: if_splits)+

lemma lz_read_match_shorter: "lz_read_match lv ctrl r = Inr (len, back, r') \<Longrightarrow> length r' < length r"
  by (fastforce simp: lz_read_match_def Let_def bind_res_eq_Inr split: if_splits prod.splits
      dest: lz_read_shorter lz_read_len_shorter)

lemma lz_dec_step_shorter:
  "lz_dec_step lv maxout ctrl r out = Inr (Some (out', r')) \<Longrightarrow> length r' \<le> length r"
  by (auto simp: lz_dec_step_def Let_def bind_res_eq_Inr split: if_splits prod.splits
      dest!: lz_read_match_shorter)

function lz_dec_loop ::
  "nat \<Rightarrow> nat \<Rightarrow> nat \<Rightarrow> byte list \<Rightarrow> byte list \<Rightarrow> (nat \<times> byte list) cres" where
  "lz_dec_loop lv maxout ctrl r out =
     (case lz_dec_step lv maxout ctrl r out of
        Inl e \<Rightarrow> Inl e
      | Inr None \<Rightarrow> Inr (0, out)
      | Inr (Some (out', [])) \<Rightarrow> Inr (length out', out')
      | Inr (Some (out', c # r')) \<Rightarrow> lz_dec_loop lv maxout (unat c) r' out')"
  by pat_completeness auto
termination
  by (relation "measure (\<lambda>(lv, maxout, ctrl, r, out). length r)") (auto dest: lz_dec_step_shorter)

declare lz_dec_loop.simps [simp del]

definition fastlz_decompressor :: "nat \<Rightarrow> byte list \<Rightarrow> nat \<Rightarrow> (nat \<times> byte list) cres" where
  "fastlz_decompressor lv inp maxout =
     bind_res (lz_read inp) (\<lambda>(c, r). lz_dec_loop lv maxout (unat (c AND 31)) r [])"

definition fastlz_decompress :: "byte list \<Rightarrow> nat \<Rightarrow> (nat \<times> byte list) cres" where
  "fastlz_decompress inp maxout =
     bind_res (lz_read inp) (\<lambda>(c, r).
     let level = unat (drop_bit 5 c) + 1
     in if level = 1 then fastlz_decompressor 1 inp maxout
        else if level = 2 then fastlz_decompressor 2 inp maxout
        else Inr (0, []))"

section \<open>Tokens\<close>

text \<open>
  What a compressed stream means: a list of literal runs and of matches, a match being a
  distance, less one, and the number of bytes it repeats.
\<close>

datatype lztok = Lit "byte list" | Mat nat nat

fun enc :: "nat \<Rightarrow> lztok \<Rightarrow> byte list" where
  "enc lv (Lit bs) = of_nat (length bs - 1) # bs"
| "enc lv (Mat d n) = lz_emit lv d (n - 2)"

fun expand1 :: "byte list \<Rightarrow> lztok \<Rightarrow> byte list" where
  "expand1 out (Lit bs) = out @ bs"
| "expand1 out (Mat d n) = lz_copy_from out (length out - d - 1) n"

abbreviation expand :: "byte list \<Rightarrow> lztok list \<Rightarrow> byte list" where
  "expand \<equiv> foldl expand1"

text \<open>The tokens that fit one instruction of the stream, after an output of a given length.\<close>

fun tok_ok :: "nat \<Rightarrow> nat \<Rightarrow> lztok \<Rightarrow> bool" where
  "tok_ok lv m (Lit bs) \<longleftrightarrow> 0 < length bs \<and> length bs \<le> 32"
| "tok_ok lv m (Mat d n) \<longleftrightarrow>
     3 \<le> n \<and> d < m \<and> n < 2 ^ 32 \<and> (if lv = 1 then n \<le> 264 \<and> d < 8191 else d < 73724)"

fun toks_ok :: "nat \<Rightarrow> byte list \<Rightarrow> lztok list \<Rightarrow> bool" where
  "toks_ok lv out [] \<longleftrightarrow> True"
| "toks_ok lv out (t # ts) \<longleftrightarrow> tok_ok lv (length out) t \<and> toks_ok lv (expand1 out t) ts"

lemma length_lz_copy_from [simp, len_simps]: "length (lz_copy_from out ref n) = length out + n"
  by (induction n arbitrary: out ref) auto

lemma lz_copy_from_add:
  "lz_copy_from out ref (m + n) = lz_copy_from (lz_copy_from out ref m) (ref + m) n"
  by (induction m arbitrary: out ref) auto

lemma lz_copy_from_run:
  "out \<noteq> [] \<Longrightarrow> lz_copy_from out (length out - 1) n = out @ replicate n (last out)"
proof (induction n arbitrary: out)
  case (Suc n)
  from Suc.prems have "out ! (length out - 1) = last out" and "length out - 1 + 1 = length (out @ [last out]) - 1"
    by (simp_all add: last_conv_nth)
  then have "lz_copy_from out (length out - 1) (Suc n) =
      lz_copy_from (out @ [last out]) (length (out @ [last out]) - 1) n"
    by (simp only: lz_copy_from.simps)
  also have "\<dots> = (out @ [last out]) @ replicate n (last out)"
    using Suc.IH [of "out @ [last out]"] by simp
  finally show ?case by simp
qed simp

lemma lz_copy_match_eq:
  assumes "back < length out"
  shows "lz_copy_match out back len = expand1 out (Mat back (len + 3))"
  using assms lz_copy_from_run [of out "len + 3"]
  by (cases "out = []") (auto simp: lz_copy_match_def last_conv_nth)

lemma unat_byte [simp]: "n < 256 \<Longrightarrow> unat (of_nat n :: byte) = n"
  by (simp add: unat_of_nat)

lemma of_nat_byte_eq_255: "n < 255 \<Longrightarrow> (of_nat n :: byte) \<noteq> 255"
proof
  assume "n < 255" "(of_nat n :: byte) = 255"
  then have "unat (of_nat n :: byte) = unat (255 :: byte)" by (simp only:)
  with \<open>n < 255\<close> show False by simp
qed

text \<open>The first byte of a match holds the length in its upper three bits.\<close>

lemma match_header:
  assumes "1 \<le> len" and "len \<le> 7" and "e < 32"
  obtains c :: byte where "of_nat (len * 32 + e) = c" "unat c div 32 = len" "unat c mod 32 = e" "32 \<le> unat c"
proof (rule that [OF refl])
  have *: "unat (of_nat (len * 32 + e) :: byte) = len * 32 + e"
    using assms by (intro unat_byte) simp
  show "unat (of_nat (len * 32 + e) :: byte) div 32 = len" "unat (of_nat (len * 32 + e) :: byte) mod 32 = e"
    "32 \<le> unat (of_nat (len * 32 + e) :: byte)"
    unfolding * using assms by auto
qed

lemma lz_read_len_len255 [codec_simps]:
  "k + len < 2 ^ 32 \<Longrightarrow> lz_read_len k (lz_len255 len @ rest) = Inr (k + len, rest)"
proof (induction len arbitrary: k rule: lz_len255.induct)
  case (1 len)
  show ?case
  proof (cases "255 \<le> len")
    case True
    then have "lz_read_len (k + 255) (lz_len255 (len - 255) @ rest) = Inr (k + len, rest)"
      using 1 by simp
    moreover have "(k + 255) mod 2 ^ 32 = k + 255" using True 1(2) by simp
    ultimately show ?thesis using True by (subst lz_len255.simps) (simp add: Let_def)
  next
    case False
    then show ?thesis using 1(2)
      by (subst lz_len255.simps) (simp add: Let_def of_nat_byte_eq_255)
  qed
qed

lemma lz_emit_read1:
  assumes "tok_ok 1 m (Mat d n)"
  shows "\<exists>c body. lz_emit1 d (n - 2) = c # body \<and> 32 \<le> unat c \<and>
    (\<forall>rest. lz_read_match 1 (unat c) (body @ rest) = Inr (n - 3, d, rest))"
proof -
  have "1 \<le> min (n - 2) 7" "min (n - 2) 7 \<le> 7" "d div 256 < 32" using assms by auto
  then obtain c :: byte where c: "of_nat (min (n - 2) 7 * 32 + d div 256) = c"
    "unat c div 32 = min (n - 2) 7" "unat c mod 32 = d div 256" "32 \<le> unat c"
    by (rule match_header)
  obtain k where k: "k = n - 9" by blast
  then have "k < 256" "\<not> n < 9 \<Longrightarrow> 6 + k = n - 3" using assms by auto
  moreover have "lz_emit1 d (n - 2) = c # (if n < 9 then [] else [of_nat k]) @ [of_nat (d mod 256)]"
    using assms k unfolding c(1) [symmetric] lz_emit1.simps [of d "n - 2"]
    by (auto simp: MAX_LEN_def min_def)
  ultimately show ?thesis using c(2-4) assms by (auto simp: lz_read_match_def Let_def min_def)
qed

lemma lz_emit_read2:
  assumes "tok_ok 2 m (Mat d n)"
  shows "\<exists>c body. lz_emit2 d (n - 2) = c # body \<and> 32 \<le> unat c \<and>
    (\<forall>rest. lz_read_match 2 (unat c) (body @ rest) = Inr (n - 3, d, rest))"
proof -
  define e where "e = (if d < 8191 then d div 256 else 31)"
  have "1 \<le> min (n - 2) 7" "min (n - 2) 7 \<le> 7" "e < 32" using assms by (auto simp: e_def)
  then obtain c :: byte where c: "of_nat (min (n - 2) 7 * 32 + e) = c"
    "unat c div 32 = min (n - 2) 7" "unat c mod 32 = e" "32 \<le> unat c"
    by (rule match_header)
  define dist :: "byte list" where "dist = (if d < 8191 then [of_nat (d mod 256)]
    else [255, of_nat ((d - 8191) div 256), of_nat ((d - 8191) mod 256)])"
  have emit: "lz_emit2 d (n - 2) = c # (if n < 9 then [] else lz_len255 (n - 9)) @ dist"
    using assms unfolding c(1) [symmetric] lz_emit2_def dist_def e_def
    by (auto simp: MAX_DISTANCE_def min_def Let_def)
  have near: "(of_nat (d mod 256) :: byte) \<noteq> 255" if "d < 8191" "d div 256 = 31"
    by (rule of_nat_byte_eq_255) (use that mult_div_mod_eq [of 256 d] in linarith)
  have far: "(d - 8191) div 256 < 256" using assms by auto
  define body where "body = (if n < 9 then [] else lz_len255 (n - 9))"
  have len: "(if unat c div 32 - 1 = 6 then lz_read_len (unat c div 32 - 1) (body @ r)
      else Inr (unat c div 32 - 1, body @ r)) = Inr (n - 3, r)" for r
  proof (cases "n < 9")
    case False
    then have "6 + (n - 9) < 2 ^ 32" "6 + (n - 9) = n - 3" "min (n - 2) 7 - 1 = 6" using assms by auto
    with False show ?thesis using lz_read_len_len255 [of 6 "n - 9" r] by (simp add: c(2) body_def)
  qed (use assms in \<open>auto simp: c(2) body_def min_def\<close>)
  have "lz_read_match 2 (unat c) (body @ dist @ rest) = Inr (n - 3, d, rest)" for rest
    unfolding lz_read_match_def Let_def len c(3) using near far mult_div_mod_eq [of 256 d]
    by (auto simp: dist_def e_def MAX_DISTANCE_def)
  then show ?thesis using emit c(4) by (auto simp: body_def)
qed

text \<open>The decoder reads one token and appends what it stands for.\<close>

lemma enc_dec_step:
  assumes "lv = 1 \<or> lv = 2" and "tok_ok lv (length out) t"
  shows "\<exists>c body. enc lv t = c # body \<and>
    (\<forall>rest maxout. length (expand1 out t) \<le> maxout \<longrightarrow>
      lz_dec_step lv maxout (unat c) (body @ rest) out = Inr (Some (expand1 out t, rest)))"
proof (cases t)
  case (Lit bs)
  then have "unat (of_nat (length bs - 1) :: byte) = length bs - 1" "length bs - 1 + 1 = length bs"
    "length bs - 1 < 32" using assms(2) by (auto simp del: of_nat_diff)
  with Lit show ?thesis by (simp add: lz_dec_step_def Let_def del: of_nat_diff)
next
  case (Mat d n)
  from assms Mat obtain c body where "enc lv t = c # body" "32 \<le> unat c"
    "\<And>rest. lz_read_match lv (unat c) (body @ rest) = Inr (n - 3, d, rest)"
    using lz_emit_read1 [of "length out" d n] lz_emit_read2 [of "length out" d n]
    by (auto simp: lz_emit_def)
  moreover have "d < length out" "n - 3 + 3 = n" using assms(2) Mat by auto
  ultimately show ?thesis using Mat lz_copy_match_eq [of d out "n - 3"]
    by (simp add: lz_dec_step_def)
qed

lemma length_expand1: "length out \<le> length (expand1 out t)"
  by (cases t) auto

lemma length_expand: "length out \<le> length (expand out ts)"
proof (induction ts arbitrary: out)
  case (Cons t ts)
  then show ?case using length_expand1 [of out t] order_trans by auto
qed simp

lemma enc_nonempty: "lv = 1 \<or> lv = 2 \<Longrightarrow> tok_ok lv (length out) t \<Longrightarrow> enc lv t \<noteq> []"
  for out :: "byte list"
  by (drule (1) enc_dec_step) auto

lemma lz_dec_toks:
  assumes "lv = 1 \<or> lv = 2" and "toks_ok lv out (t # ts)"
    and "concat (map (enc lv) (t # ts)) = c # r" and "length (expand out (t # ts)) \<le> maxout"
  shows "lz_dec_loop lv maxout (unat c) r out =
    Inr (length (expand out (t # ts)), expand out (t # ts))"
  using assms(2-)
proof (induction ts arbitrary: out t c r)
  case Nil
  then show ?case using enc_dec_step [OF assms(1), of out t]
    by (subst lz_dec_loop.simps) (force dest: spec [of _ "[]"])
next
  case (Cons u us)
  from Cons.prems(1) obtain b body where b: "enc lv t = b # body" and
    step: "\<And>rest maxout. length (expand1 out t) \<le> maxout \<Longrightarrow>
      lz_dec_step lv maxout (unat b) (body @ rest) out = Inr (Some (expand1 out t, rest))"
    using enc_dec_step [OF assms(1), of out t] by auto
  from Cons.prems(1) obtain b' body' where b': "concat (map (enc lv) (u # us)) = b' # body'"
    using enc_nonempty [OF assms(1), of "expand1 out t" u] by (cases "concat (map (enc lv) (u # us))") auto
  have "length (expand1 out t) \<le> maxout"
    using Cons.prems(3) length_expand [of "expand1 out t" "u # us"] by (simp del: foldl.simps add: foldl_Cons)
  moreover have "c = b" "r = body @ b' # body'" using Cons.prems(2) b b' by auto
  ultimately have "lz_dec_loop lv maxout (unat c) r out = lz_dec_loop lv maxout (unat b') body' (expand1 out t)"
    by (subst lz_dec_loop.simps) (simp add: step)
  then show ?case using Cons.IH [OF _ b'] Cons.prems by simp
qed

section \<open>Matches\<close>

lemma toks_ok_append: "toks_ok lv out (ts @ us) \<longleftrightarrow> toks_ok lv out ts \<and> toks_ok lv (expand out ts) us"
  by (induction ts arbitrary: out) auto

lemma lz_emit1_toks:
  assumes "3 \<le> n" and "d < length out" and "d < 8191"
  shows "\<exists>ts. lz_emit1 d (n - 2) = concat (map (enc 1) ts) \<and> toks_ok 1 out ts \<and> ts \<noteq> [] \<and>
    expand out ts = lz_copy_from out (length out - d - 1) n"
  using assms
proof (induction n arbitrary: out rule: less_induct)
  case (less n)
  show ?case
  proof (cases "n \<le> 264")
    case True
    then show ?thesis using less.prems by (intro exI [of _ "[Mat d n]"]) (auto simp: lz_emit_def)
  next
    case False
    let ?out = "lz_copy_from out (length out - d - 1) 262"
    have "\<exists>ts. lz_emit1 d (n - 262 - 2) = concat (map (enc 1) ts) \<and> toks_ok 1 ?out ts \<and> ts \<noteq> [] \<and>
        expand ?out ts = lz_copy_from ?out (length ?out - d - 1) (n - 262)"
      by (rule less.IH) (use False less.prems in auto)
    then obtain ts where ts: "lz_emit1 d (n - 264) = concat (map (enc 1) ts)" "toks_ok 1 ?out ts"
        "expand ?out ts = lz_copy_from ?out (length ?out - d - 1) (n - 262)"
      by auto
    have "lz_emit1 d (n - 2) = enc 1 (Mat d 262) @ lz_emit1 d (n - 264)"
      using False lz_emit1.simps [of d 260] lz_emit1.simps [of d "n - 2"]
      by (simp add: lz_emit_def MAX_LEN_def)
    moreover have "lz_copy_from out (length out - d - 1) n = lz_copy_from ?out (length ?out - d - 1) (n - 262)"
      using False less.prems lz_copy_from_add [of out "length out - d - 1" 262 "n - 262"] by simp
    ultimately show ?thesis using ts less.prems
      by (intro exI [of _ "Mat d 262 # ts"]) auto
  qed
qed

lemma lz_emit_toks:
  assumes "lv = 1 \<or> lv = 2" and "3 \<le> n" and "n < 2 ^ 32" and "d < length out"
    and "if lv = 1 then d < 8191 else d < 73724"
  obtains ts where "lz_emit lv d (n - 2) = concat (map (enc lv) ts)" "toks_ok lv out ts" "ts \<noteq> []"
    "expand out ts = lz_copy_from out (length out - d - 1) n"
proof (cases "lv = 1")
  case True
  then show ?thesis using lz_emit1_toks [of n d out] assms that by (auto simp: lz_emit_def)
next
  case False
  then show ?thesis using assms that [of "[Mat d n]"] by auto
qed

text \<open>Repeating the bytes of a match gives the input up to the end of the match.\<close>

lemma lz_copy_from_input:
  assumes "a + n \<le> length inp" and "1 \<le> D" and "D \<le> a"
    and "\<And>k. a \<le> k \<Longrightarrow> k < a + n \<Longrightarrow> inp ! k = inp ! (k - D)"
  shows "lz_copy_from (take a inp) (a - D) n = take (a + n) inp"
  using assms
proof (induction n arbitrary: a)
  case (Suc n)
  have "take a inp ! (a - D) = inp ! a" using Suc.prems(2,3) Suc.prems(1) Suc.prems(4) [of a] by simp
  then have "take a inp @ [take a inp ! (a - D)] = take (Suc a) inp"
    using Suc.prems(1) by (simp add: take_Suc_conv_app_nth)
  moreover have "a - D + 1 = Suc a - D" using Suc.prems by simp
  ultimately show ?case using Suc.IH [of "Suc a"] Suc.prems by simp
qed simp

lemma lz_run_spec:
  assumes "1 \<le> ip"
  shows "lz_run inp bound x (ip - 1) ip \<le> max ip bound"
    and "ip - 1 \<le> k \<Longrightarrow> k + 1 < lz_run inp bound x (ip - 1) ip \<Longrightarrow> inp ! k = x"
proof -
  have "lz_run inp bound x ref ip \<le> max ip bound \<and>
    (\<forall>k. ref \<le> k \<longrightarrow> k + 1 < lz_run inp bound x ref ip \<longrightarrow> inp ! k = x)" if "ip = ref + 1" for ref ip
    using that
  proof (induction inp bound x ref ip rule: lz_run.induct)
    case (1 inp bound x ref ip)
    show ?case
    proof (cases "ip < bound \<and> inp ! ref = x")
      case True
      then have eq: "lz_run inp bound x ref ip = lz_run inp bound x (ref + 1) (ip + 1)"
        by (subst lz_run.simps) simp
      have ih: "lz_run inp bound x (ref + 1) (ip + 1) \<le> max (ip + 1) bound \<and>
          (\<forall>k. ref + 1 \<le> k \<longrightarrow> k + 1 < lz_run inp bound x (ref + 1) (ip + 1) \<longrightarrow> inp ! k = x)"
        by (rule 1(1)) (use True 1(2) in auto)
      have "inp ! k = x" if "ref \<le> k" "k + 1 < lz_run inp bound x ref ip" for k
        using ih True that unfolding eq by (cases "k = ref") auto
      then show ?thesis using ih True unfolding eq by auto
    next
      case False
      then show ?thesis using 1(2) by (subst (1 2) lz_run.simps) auto
    qed
  qed
  from this [of ip "ip - 1"] assms show "lz_run inp bound x (ip - 1) ip \<le> max ip bound"
    and "ip - 1 \<le> k \<Longrightarrow> k + 1 < lz_run inp bound x (ip - 1) ip \<Longrightarrow> inp ! k = x" by auto
qed

lemma lz_cmp_while_spec:
  assumes "ip = ref + D"
  shows "lz_cmp_while inp bound ref ip \<le> max ip bound \<and>
    (\<forall>k. ip \<le> k \<longrightarrow> k + 1 < lz_cmp_while inp bound ref ip \<longrightarrow> inp ! k = inp ! (k - D))"
  using assms
proof (induction inp bound ref ip rule: lz_cmp_while.induct)
  case (1 inp bound ref ip)
  show ?case
  proof (cases "ip < bound \<and> inp ! ref = inp ! ip")
    case True
    then have eq: "lz_cmp_while inp bound ref ip = lz_cmp_while inp bound (ref + 1) (ip + 1)"
      by (subst lz_cmp_while.simps) simp
    have ih: "lz_cmp_while inp bound (ref + 1) (ip + 1) \<le> max (ip + 1) bound \<and>
        (\<forall>k. ip + 1 \<le> k \<longrightarrow> k + 1 < lz_cmp_while inp bound (ref + 1) (ip + 1) \<longrightarrow> inp ! k = inp ! (k - D))"
      by (rule 1(1)) (use True 1(2) in auto)
    have "inp ! k = inp ! (k - D)" if "ip \<le> k" "k + 1 < lz_cmp_while inp bound ref ip" for k
      using 1(2) True that ih unfolding eq by (cases "k = ip") auto
    then show ?thesis using ih True unfolding eq by auto
  next
    case False
    then show ?thesis using 1(2) by (subst (1 2) lz_cmp_while.simps) auto
  qed
qed

lemma lz_cmp_spec:
  assumes "ip = ref + D"
  shows "lz_cmp inp bound j ref ip \<le> max (ip + j) bound \<and> (0 < j \<longrightarrow> ip < lz_cmp inp bound j ref ip) \<and>
    (\<forall>k. ip \<le> k \<longrightarrow> k + 1 < lz_cmp inp bound j ref ip \<longrightarrow> inp ! k = inp ! (k - D))"
  using assms
proof (induction j arbitrary: ref ip)
  case 0
  then show ?case using lz_cmp_while_spec [of ip ref D inp bound] by simp
next
  case (Suc j)
  show ?case
  proof (cases "inp ! ref = inp ! ip")
    case True
    have "inp ! k = inp ! (k - D)" if "ip \<le> k" "k + 1 < lz_cmp inp bound j (ref + 1) (ip + 1)" for k
      using Suc.IH [of "ip + 1" "ref + 1"] Suc.prems True that by (cases "k = ip") auto
    then show ?thesis using Suc.IH [of "ip + 1" "ref + 1"] Suc.prems True
      using lz_cmp_ge [of "ip + 1" inp bound j "ref + 1"] by auto
  qed auto
qed

lemma lz_extend_spec:
  assumes "1 \<le> D" and "D \<le> ip" and "ip + 8 \<le> length inp"
  shows "ip < lz_extend inp (D - 1) (ip - D) ip" and "lz_extend inp (D - 1) (ip - D) ip \<le> length inp"
    and "ip \<le> k \<Longrightarrow> k + 1 < lz_extend inp (D - 1) (ip - D) ip \<Longrightarrow> inp ! k = inp ! (k - D)"
proof -
  have *: "ip < lz_extend inp (D - 1) (ip - D) ip \<and> lz_extend inp (D - 1) (ip - D) ip \<le> length inp \<and>
    (ip \<le> k \<longrightarrow> k + 1 < lz_extend inp (D - 1) (ip - D) ip \<longrightarrow> inp ! k = inp ! (k - D))" for k
  proof (cases "D = 1")
    case True
    let ?e = "lz_run inp (length inp - 2) (inp ! (ip - 1)) (ip - 1) ip"
    have "ip < length inp - 2" using assms by simp
    then have "?e = lz_run inp (length inp - 2) (inp ! (ip - 1)) (ip - 1 + 1) (ip + 1)"
      by (subst lz_run.simps) simp
    then have "ip < ?e" using lz_run_ge [of "ip + 1"] by (simp add: Suc_le_lessD)
    moreover have "?e \<le> length inp"
      using lz_run_spec(1) [of ip inp "length inp - 2" "inp ! (ip - 1)"] assms by simp
    moreover have "inp ! k = inp ! (k - 1)" if "ip \<le> k" "k + 1 < ?e"
      using lz_run_spec(2) [of ip k inp "length inp - 2" "inp ! (ip - 1)"]
        lz_run_spec(2) [of ip "k - 1" inp "length inp - 2" "inp ! (ip - 1)"] assms that by simp
    ultimately show ?thesis using True by (simp add: lz_extend_def)
  next
    case False
    then have "lz_extend inp (D - 1) (ip - D) ip = lz_cmp inp (length inp - 2) 8 (ip - D) ip"
      using assms by (simp add: lz_extend_def)
    with lz_cmp_spec [of ip "ip - D" D inp "length inp - 2" 8] assms show ?thesis
      by (auto simp: max_def split: if_splits intro: order_trans [OF _ diff_le_self])
  qed
  show "ip < lz_extend inp (D - 1) (ip - D) ip" "lz_extend inp (D - 1) (ip - D) ip \<le> length inp"
    "ip \<le> k \<Longrightarrow> k + 1 < lz_extend inp (D - 1) (ip - D) ip \<Longrightarrow> inp ! k = inp ! (k - D)"
    using * by auto
qed

lemma length_lz_emit1: "length (lz_emit1 d len) \<le> max 2 (len + 1)"
proof (induction d len rule: lz_emit1.induct)
  case (1 d len)
  then show ?case by (subst lz_emit1.simps) (auto simp: MAX_LEN_def)
qed

lemma length_lz_len255: "length (lz_len255 len) \<le> len + 1"
  by (induction len rule: lz_len255.induct) (subst lz_len255.simps, force)

text \<open>A match never takes more bytes than it stands for, less one.\<close>

lemma length_lz_emit:
  assumes "3 \<le> n" and "lv = 1 \<or> d < 8191 \<or> 5 \<le> n"
  shows "length (lz_emit lv d (n - 2)) + 1 \<le> n"
  using assms length_lz_emit1 [of d "n - 2"] length_lz_len255 [of "n - 9"]
  by (auto simp: lz_emit_def lz_emit2_def MAX_DISTANCE_def Let_def)

section \<open>The compressor's invariant\<close>

fun is_lit :: "lztok list \<Rightarrow> bool" where
  "is_lit (Lit bs # ts) \<longleftrightarrow> bs \<noteq> []"
| "is_lit ts \<longleftrightarrow> False"

definition lz_toks :: "nat \<Rightarrow> byte list \<Rightarrow> lz \<Rightarrow> lztok list \<Rightarrow> byte list \<Rightarrow> bool" where
  "lz_toks lv inp st ts L \<longleftrightarrow>
     lz_out st = concat (map (enc lv) ts) @ 31 # L \<and> length L = lz_copy st \<and> lz_copy st < 32 \<and>
     toks_ok lv [] ts \<and> expand [] ts @ L = take (lz_ip st) inp \<and> (is_lit ts \<or> ts = [] \<and> L \<noteq> []) \<and>
     32 * length (concat (map (enc lv) ts)) \<le> 33 * length (expand [] ts)"

definition lz_inv :: "nat \<Rightarrow> byte list \<Rightarrow> lz \<Rightarrow> bool" where
  "lz_inv lv inp st \<longleftrightarrow> 2 \<le> lz_ip st \<and> lz_ip st \<le> length inp \<and> (\<forall>h. lz_htab st h \<le> lz_ip st) \<and>
     (\<exists>ts L. lz_toks lv inp st ts L)"

lemma lz_close_toks:
  assumes "lz_toks lv inp st ts L" and "length L \<le> 32"
  obtains us where "lz_close (lz_out st) (lz_copy st) = concat (map (enc lv) us)" "toks_ok lv [] us"
    "expand [] us = take (lz_ip st) inp" "is_lit us"
    "32 * length (concat (map (enc lv) us)) \<le> 33 * length (expand [] us) + (32 - length L)"
proof (cases "L = []")
  case True
  then show ?thesis using assms that [of ts] by (auto simp: lz_toks_def lz_close_def butlast_append)
next
  case False
  then have copy: "lz_copy st \<noteq> 0" using assms(1) by (metis length_0_conv lz_toks_def)
  then have "lz_close (lz_out st) (lz_copy st) = concat (map (enc lv) (ts @ [Lit L]))"
    using assms by (simp add: lz_toks_def lz_close_def list_update_append)
  moreover have "toks_ok lv [] (ts @ [Lit L])" "expand [] (ts @ [Lit L]) = take (lz_ip st) inp"
    using assms copy by (auto simp: lz_toks_def toks_ok_append)
  moreover have "is_lit (ts @ [Lit L])" using assms False
    by (cases "(ts, L)" rule: prod.exhaust, cases ts) (auto simp: lz_toks_def elim!: is_lit.elims)
  moreover have "32 * length (concat (map (enc lv) (ts @ [Lit L]))) \<le>
      33 * length (expand [] (ts @ [Lit L])) + (32 - length L)"
  proof -
    have "length (concat (map (enc lv) (ts @ [Lit L]))) = length (concat (map (enc lv) ts)) + 1 + length L"
      "length (expand [] (ts @ [Lit L])) = length (expand [] ts) + length L" by simp_all
    moreover have "32 * length (concat (map (enc lv) ts)) \<le> 33 * length (expand [] ts)"
      using assms(1) by (simp add: lz_toks_def)
    ultimately show ?thesis using assms(2) by linarith
  qed
  ultimately show ?thesis using that by blast
qed

lemma is_lit_append: "is_lit ts \<Longrightarrow> is_lit (ts @ us)"
  by (cases ts rule: is_lit.cases) auto

lemma lz_literal_inv:
  assumes "lz_inv lv inp st" and "lz_ip st < length inp"
  shows "lz_inv lv inp (lz_literal inp (lz_ip st) st)"
proof -
  from assms(1) obtain ts L where t: "lz_toks lv inp st ts L" by (auto simp: lz_inv_def)
  let ?L = "L @ [inp ! lz_ip st]"
  have t': "expand [] ts @ ?L = take (Suc (lz_ip st)) inp"
    using t assms(2) by (simp add: lz_toks_def take_Suc_conv_app_nth)
  have htab: "\<forall>h. lz_htab st h \<le> Suc (lz_ip st)" using assms(1) by (auto simp: lz_inv_def le_Suc_eq)
  have "\<exists>ts L. lz_toks lv inp (lz_literal inp (lz_ip st) st) ts L"
  proof (cases "lz_copy st + 1 = 32")
    case True
    have "32 * length (concat (map (enc lv) (ts @ [Lit ?L]))) \<le> 33 * length (expand [] (ts @ [Lit ?L]))"
      using t True by (simp add: lz_toks_def)
    moreover have "is_lit (ts @ [Lit ?L])" using t by (auto simp: lz_toks_def is_lit_append)
    moreover have "expand [] (ts @ [Lit ?L]) = take (Suc (lz_ip st)) inp" using t' by simp
    ultimately have "lz_toks lv inp (lz_literal inp (lz_ip st) st) (ts @ [Lit ?L]) []"
      using t True by (simp add: lz_toks_def lz_literal_def Let_def MAX_COPY_def toks_ok_append
          del: map_append foldl_append) (simp add: toks_ok_append)
    then show ?thesis by blast
  next
    case False
    have "lz_toks lv inp (lz_literal inp (lz_ip st) st) ts ?L"
      using t t' False unfolding lz_toks_def lz_literal_def Let_def MAX_COPY_def by auto
    then show ?thesis by blast
  qed
  then show ?thesis using assms htab
    by (auto simp: lz_inv_def lz_literal_def Let_def)
qed

lemma lz_match_inv:
  assumes inv: "lz_inv lv inp st" and lv: "lv = 1 \<or> lv = 2" and len: "len = 3 \<or> len = 5"
    and room: "lz_ip st + 13 \<le> length inp" and small: "length inp < 2 ^ 31"
    and D: "1 \<le> D" "D \<le> lz_ip st" "if lv = 1 then D < 8192 else D < 73725"
    and far: "lv = 1 \<or> D < 8191 \<or> len = 5"
    and eq: "\<And>k. k < len \<Longrightarrow> inp ! (lz_ip st + k) = inp ! (lz_ip st + k - D)"
  shows "lz_inv lv inp (lz_match lv nxt inp (lz_ip st) len D (lz_ip st - D + len) st)"
proof -
  let ?a = "lz_ip st" and ?st = "lz_match lv nxt inp (lz_ip st) len D (lz_ip st - D + len) st"
  define e where "e = lz_extend inp (D - 1) (?a + len - D) (?a + len)"
  have e: "?a + len < e" "e \<le> length inp"
    "\<And>k. ?a + len \<le> k \<Longrightarrow> k + 1 < e \<Longrightarrow> inp ! k = inp ! (k - D)"
    unfolding e_def using lz_extend_spec [of D "?a + len" inp] D room len by auto
  define n where "n = e - 1 - ?a"
  have n: "len \<le> n" "?a + n = e - 1" "n < 2 ^ 32" "3 \<le> n" using e len small by (auto simp: n_def)
  from inv obtain ts L where t: "lz_toks lv inp st ts L" by (auto simp: lz_inv_def)
  then have "length L \<le> 32" by (simp add: lz_toks_def)
  from lz_close_toks [OF t this] obtain us where us: "lz_close (lz_out st) (lz_copy st) = concat (map (enc lv) us)"
    "toks_ok lv [] us" "expand [] us = take ?a inp" "is_lit us"
    "32 * length (concat (map (enc lv) us)) \<le> 33 * length (expand [] us) + (32 - length L)" .
  have a: "length (take ?a inp) = ?a" using room by simp
  obtain vs where vs: "lz_emit lv (D - 1) (n - 2) = concat (map (enc lv) vs)" "toks_ok lv (take ?a inp) vs"
    "expand (take ?a inp) vs = lz_copy_from (take ?a inp) (length (take ?a inp) - (D - 1) - 1) n"
    by (rule lz_emit_toks [OF lv n(4,3), of "D - 1" "take ?a inp"]) (use D a in \<open>auto split: if_splits\<close>)
  have "inp ! k = inp ! (k - D)" if "?a \<le> k" "k < ?a + n" for k
    using eq [of "k - ?a"] e(3) [of k] that n(2) by (cases "k < ?a + len") auto
  then have exp: "expand [] (us @ vs) = take (e - 1) inp"
    using lz_copy_from_input [of ?a n inp D] D e(2) n(2) us(3) vs(3) a by simp
  have "length (lz_emit lv (D - 1) (n - 2)) + 1 \<le> n"
    by (rule length_lz_emit) (use n far D in auto)
  then have size: "32 * length (concat (map (enc lv) (us @ vs))) \<le> 33 * length (expand [] (us @ vs))"
    unfolding exp using us(3,5) vs(1) a n(2) e(2) by simp
  have st: "lz_ip ?st = e - 1" "lz_copy ?st = 0" "lz_out ?st = concat (map (enc lv) (us @ vs)) @ [31]"
    "\<And>h. lz_htab ?st h \<le> e - 1"
  proof -
    have *: "?a - D + len = ?a + len - D" "e - 3 + 2 = e - 1" "e - 3 - ?a = n - 2" "?a < e - 1"
      "e - 3 \<le> e - 1" "e - 3 + 1 \<le> e - 1"
      using D e(1) len by (auto simp: n_def)
    have htab: "lz_htab st h \<le> e - 1" for h
      using inv *(4) by (auto simp: lz_inv_def intro: order_trans [OF _ less_imp_le])
    show "lz_ip ?st = e - 1" "lz_copy ?st = 0" "lz_out ?st = concat (map (enc lv) (us @ vs)) @ [31]"
      "\<And>h. lz_htab ?st h \<le> e - 1"
      unfolding lz_match_def Let_def *(1) e_def [symmetric] *(2,3) using us(1) vs(1) *(5,6) htab
      by (auto simp: MAX_COPY_def)
  qed
  have "lz_toks lv inp ?st (us @ vs) []"
    using exp size st us(2-4) vs(2) by (simp add: lz_toks_def is_lit_append toks_ok_append del: map_append foldl_append)
  then show ?thesis using st e n(2) inv by (auto simp: lz_inv_def)
qed

lemma FASTLZ_READU16_inj:
  assumes "FASTLZ_READU16 nxt inp p = FASTLZ_READU16 nxt inp q"
  shows "byte_at nxt inp p = byte_at nxt inp q" "byte_at nxt inp (p + 1) = byte_at nxt inp (q + 1)"
proof -
  have *: "ucast (ucast a OR push_bit 8 (ucast b) :: u32) = a"
    "ucast (drop_bit 8 (ucast a OR push_bit 8 (ucast b) :: u32)) = b" for a b :: byte
    by (auto intro!: bit_word_eqI simp: bit_simps bit_byte_high)
  show "byte_at nxt inp p = byte_at nxt inp q" "byte_at nxt inp (p + 1) = byte_at nxt inp (q + 1)"
    using assms unfolding FASTLZ_READU16_def
    by (metis *(1), metis *(2))
qed

lemma same_bytesD: "same_bytes inp i j n \<Longrightarrow> k < n \<Longrightarrow> inp ! (i + k) = inp ! (j + k)"
  by (auto simp: same_bytes_def list_all_iff)

lemma lz_step_inv:
  assumes inv: "lz_inv lv inp st" and lv: "lv = 1 \<or> lv = 2"
    and room: "lz_ip st + 12 < length inp" and small: "length inp < 2 ^ 31"
  shows "lz_inv lv inp (lz_step lv nxt inp st)"
proof -
  let ?a = "lz_ip st" and ?h = "HASH_FUNCTION nxt inp (lz_ip st)"
  have a: "2 \<le> ?a" using inv by (simp add: lz_inv_def)
  define su where "su = st\<lparr>lz_htab := (lz_htab st)(?h := ?a)\<rparr>"
  have ip: "lz_ip su = ?a" by (simp add: su_def)
  have su: "lz_inv lv inp su" using inv by (auto simp: lz_inv_def lz_toks_def su_def)
  define D where "D = ?a - lz_htab st ?h"
  have ref: "lz_htab st ?h = ?a - D" and D: "D \<le> ?a" using inv by (auto simp: lz_inv_def D_def)
  have lit: "lz_inv lv inp (lz_literal inp ?a su)"
    using lz_literal_inv [OF su] room by (simp add: ip)
  have eq: "inp ! (?a + k) = inp ! (?a + k - D)" if "same_bytes inp (?a - D) ?a n" "k < n" for k n
    using same_bytesD [OF that] D by simp
  have match: "lz_inv lv inp (lz_match lv nxt inp ?a len D (?a - D + len) su)"
    if "len = 3 \<or> len = 5" "1 \<le> D" "if lv = 1 then D < 8192 else D < 73725"
      "lv = 1 \<or> D < 8191 \<or> len = 5" "same_bytes inp (?a - D) ?a len" for len
    using lz_match_inv [OF su lv, of len D nxt] that room small D eq [of len] by (simp add: ip)
  show ?thesis
  proof (cases "lv = 2 \<and> inp ! ?a = inp ! (?a - 1) \<and>
      FASTLZ_READU16 nxt inp (?a - 1) = FASTLZ_READU16 nxt inp (?a + 1)")
    case True
    then have run: "inp ! (?a + 1) = inp ! (?a - 1)" "inp ! (?a + 2) = inp ! ?a"
      using FASTLZ_READU16_inj [of nxt inp "?a - 1" "?a + 1"] room a
      by (auto simp: byte_at_def split: if_splits)
    have "inp ! (?a + k) = inp ! (?a + k - 1)" if "k < 3" for k
      using that True run by (auto simp: less_Suc_eq numeral_3_eq_3)
    then show ?thesis using lz_match_inv [OF inv lv, of 3 1 nxt] True room small a
      by (simp add: lz_step_def Let_def)
  next
    case False
    have far: "same_bytes inp (?a - D) ?a 5"
      if "same_bytes inp (?a - D) ?a 3" "same_bytes inp (?a - D + 3) (?a + 3) 2"
      using that by (simp add: same_bytes_def upt_rec [of 0] upt_rec [of "Suc 0"] eval_nat_numeral)
    show ?thesis
      unfolding lz_step_def Let_def if_not_P [OF False] su_def [symmetric] ref diff_diff_cancel [OF D]
      using lit match [of 3] match [of 5] far lv
      by (auto simp: MAX_DISTANCE_def MAX_FARDISTANCE_def)
  qed
qed

lemma lz_loop_inv:
  assumes "lz_inv lv inp st" and "lv = 1 \<or> lv = 2" and "length inp < 2 ^ 31"
  shows "lz_inv lv inp (lz_loop lv nxt inp st)"
  using assms
proof (induction lv nxt inp st rule: lz_loop.induct)
  case (1 lv nxt inp st)
  then show ?case by (subst lz_loop.simps) (simp add: lz_step_inv)
qed

lemma lz_left_inv:
  "lz_inv lv inp st \<Longrightarrow> lz_inv lv inp (lz_left inp st) \<and> lz_ip (lz_left inp st) = length inp"
proof (induction inp st rule: lz_left.induct)
  case (1 inp st)
  show ?case
  proof (cases "lz_ip st < length inp")
    case True
    then show ?thesis using 1 by (subst (1 2) lz_left.simps) (simp add: lz_literal_inv)
  next
    case False
    then show ?thesis using 1(2) by (subst (1 2) lz_left.simps) (auto simp: lz_inv_def)
  qed
qed

text \<open>What the compressor writes: the tokens of the input, with the marker of level 2.\<close>

lemma fastlz_compressor_toks:
  assumes "lv = 1 \<or> lv = 2" and "length inp < 2 ^ 31" and "4 \<le> length inp"
  obtains ts where "toks_ok lv [] ts" "expand [] ts = inp" "is_lit ts"
    "32 * length (concat (map (enc lv) ts)) \<le> 33 * length inp + 32"
    "fastlz_compressor lv nxt inp = (let out = concat (map (enc lv) ts) in if lv = 2 then out[0 := out ! 0 OR 32] else out)"
proof -
  define st where "st = \<lparr>lz_ip = 2, lz_out = [of_nat (MAX_COPY - 1), inp ! 0, inp ! 1], lz_copy = 2,
                     lz_htab = (\<lambda>_. 0)\<rparr>"
  have "take 2 inp = [inp ! 0, inp ! 1]"
    using assms(3) by (auto simp: numeral_2_eq_2 take_Suc_conv_app_nth neq_Nil_conv length_Suc_conv
        numeral_eq_Suc Suc_le_length_iff)
  then have "lz_toks lv inp st [] [inp ! 0, inp ! 1]" by (simp add: lz_toks_def st_def MAX_COPY_def)
  then have "lz_inv lv inp st" using assms(3) unfolding lz_inv_def by (auto simp: st_def)
  define su where "su = lz_left inp (lz_loop lv nxt inp st)"
  have "lz_inv lv inp su" "lz_ip su = length inp"
    using lz_left_inv [OF lz_loop_inv [OF \<open>lz_inv lv inp st\<close> assms(1,2)]] by (simp_all add: su_def)
  then obtain ts L where t: "lz_toks lv inp su ts L" by (auto simp: lz_inv_def)
  then have "length L \<le> 32" by (simp add: lz_toks_def)
  from lz_close_toks [OF t this] obtain us where "lz_close (lz_out su) (lz_copy su) = concat (map (enc lv) us)"
    "toks_ok lv [] us" "expand [] us = take (lz_ip su) inp" "is_lit us"
    "32 * length (concat (map (enc lv) us)) \<le> 33 * length (expand [] us) + (32 - length L)" .
  note us = this
  have "fastlz_compressor lv nxt inp = (let out = concat (map (enc lv) us) in if lv = 2 then out[0 := out ! 0 OR 32] else out)"
    using us(1) assms(3) unfolding fastlz_compressor_def Let_def st_def [symmetric] su_def [symmetric] by simp
  moreover have "expand [] us = inp" using us(3) \<open>lz_ip su = length inp\<close> by simp
  ultimately show ?thesis using that us(2,4,5) by simp
qed

lemma byte_and_31: "(c OR 32) AND 31 = c" "drop_bit 5 (c OR 32) = 1" "c AND 31 = c" "drop_bit 5 c = 0"
  if "unat c < 32" for c :: byte
proof -
  have "\<forall>c \<in> {0..<32}. (of_nat c OR 32) AND 31 = (of_nat c :: byte) \<and> drop_bit 5 (of_nat c OR 32) = (1 :: byte)
     \<and> of_nat c AND 31 = (of_nat c :: byte) \<and> drop_bit 5 (of_nat c) = (0 :: byte)"
    by code_simp
  from bspec [OF this, of "unat c"] that
  show "(c OR 32) AND 31 = c" "drop_bit 5 (c OR 32) = 1" "c AND 31 = c" "drop_bit 5 c = 0" by auto
qed

lemma is_lit_enc:
  assumes "toks_ok lv [] ts" and "is_lit ts"
  obtains c r where "concat (map (enc lv) ts) = c # r" "unat c < 32"
proof -
  from assms(2) obtain bs us where ts: "ts = Lit bs # us" by (cases ts rule: is_lit.cases) auto
  with assms have "length bs - 1 < 32" by auto
  then have "unat (of_nat (length bs - 1) :: byte) < 32" by (simp del: of_nat_diff)
  then show ?thesis using that ts by (simp del: of_nat_diff)
qed

lemma fastlz_decompress_toks:
  assumes lv: "lv = 1 \<or> lv = 2" and "toks_ok lv [] ts" "is_lit ts" "length (expand [] ts) \<le> maxout"
    and out: "out = concat (map (enc lv) ts)"
  shows "fastlz_decompress (if lv = 2 then out[0 := out ! 0 OR 32] else out) maxout =
    Inr (length (expand [] ts), expand [] ts)"
proof -
  from is_lit_enc [OF assms(2,3)] obtain c r where c: "concat (map (enc lv) ts) = c # r" "unat c < 32" .
  from assms(3) obtain t us where "ts = t # us" by (cases ts) auto
  with lz_dec_toks [OF lv, of "[]" t us c r maxout] c(1) assms(2,4)
  have "lz_dec_loop lv maxout (unat c) r [] = Inr (length (expand [] ts), expand [] ts)" by simp
  then show ?thesis using lv out c(1) byte_and_31 [OF c(2)]
    by (auto simp: fastlz_decompress_def fastlz_decompressor_def Let_def)
qed

lemma fastlz_decompress_short:
  assumes "0 < length inp" and "length inp < 4" and "length inp \<le> maxout"
  shows "fastlz_decompress (of_nat (length inp - 1) # inp) maxout = Inr (length inp, inp)"
  using fastlz_decompress_toks [of 1 "[Lit inp]" maxout "enc 1 (Lit inp)"] assms
  by (simp del: of_nat_diff)

section \<open>Properties\<close>

text \<open>
  C30. Decompressing what \<open>fastlz_compress_level\<close> wrote, at either level, into a buffer that is
  large enough gives the original bytes and their number, for every non-empty input that an
  \<open>int\<close> can measure and whatever byte follows the input in memory.
\<close>

theorem fastlz_roundtrip:
  assumes "level = 1 \<or> level = 2" and "0 < length inp" and "length inp < 2 ^ 31" and "length inp \<le> maxout"
  shows "fastlz_decompress (fastlz_compress_level level nxt inp) maxout = Inr (length inp, inp)"
proof (cases "length inp < 4")
  case True
  then show ?thesis using assms fastlz_decompress_short
    by (auto simp: fastlz_compress_level_def fastlz_compressor_def)
next
  case False
  then have "4 \<le> length inp" by simp
  from fastlz_compressor_toks [OF assms(1,3) this, of nxt] obtain ts where
    "toks_ok level [] ts" "expand [] ts = inp" "is_lit ts"
    "fastlz_compressor level nxt inp = (let out = concat (map (enc level) ts) in if level = 2 then out[0 := out ! 0 OR 32] else out)"
    by metis
  then show ?thesis using fastlz_decompress_toks [OF assms(1), of ts maxout] assms(1,4)
    by (auto simp: fastlz_compress_level_def Let_def)
qed

theorem fastlz_roundtrip_witness:
  "fastlz_decompress (fastlz_compress_level 2 0 [1, 2, 1, 2, 1, 2, 1, 2, 1, 2, 1, 2, 1, 2, 1, 2, 9, 9, 9, 9, 9, 7]) 22 =
     Inr (22, [1, 2, 1, 2, 1, 2, 1, 2, 1, 2, 1, 2, 1, 2, 1, 2, 9, 9, 9, 9, 9, 7])"
  using fastlz_roundtrip [of 2 "[1, 2, 1, 2, 1, 2, 1, 2, 1, 2, 1, 2, 1, 2, 1, 2, 9, 9, 9, 9, 9, 7]" 22 0] by simp

text \<open>
  C37. The output of \<open>fastlz_compress\<close> is at most a thirty-second longer than its input, and
  one byte, which is within the 5 percent and the 66 bytes that the interface asks for.
\<close>

theorem fastlz_compress_size:
  assumes "length inp < 2 ^ 31"
  shows "32 * length (fastlz_compress nxt inp) \<le> 33 * length inp + 32 \<and>
    length (fastlz_compress nxt inp) \<le> max 66 (length inp + length inp div 20)"
proof -
  have lv: "32 * length (fastlz_compressor lv nxt inp) \<le> 33 * length inp + 32" if "lv = 1 \<or> lv = 2" for lv
  proof (cases "length inp < 4")
    case False
    then have "4 \<le> length inp" by simp
    from fastlz_compressor_toks [OF that assms this, of nxt] obtain ts where
      "32 * length (concat (map (enc lv) ts)) \<le> 33 * length inp + 32"
      "fastlz_compressor lv nxt inp = (let out = concat (map (enc lv) ts) in if lv = 2 then out[0 := out ! 0 OR 32] else out)" .
    then show ?thesis by (auto simp: Let_def)
  qed (simp add: fastlz_compressor_def)
  then have "32 * length (fastlz_compress nxt inp) \<le> 33 * length inp + 32"
    by (simp add: fastlz_compress_def)
  moreover from this have "length (fastlz_compress nxt inp) \<le> max 66 (length inp + length inp div 20)"
    by linarith
  ultimately show ?thesis by blast
qed

theorem fastlz_compress_size_witness:
  "32 * length (fastlz_compress 0 (replicate 60 1)) \<le> 33 * length (replicate 60 (1 :: byte)) + 32"
  using fastlz_compress_size [of "replicate 60 1" 0] by simp

lemma lz_dec_step_bound:
  "lz_dec_step lv maxout ctrl r out = Inr (Some (out', r')) \<Longrightarrow> length out' \<le> maxout"
  by (auto simp: lz_dec_step_def Let_def bind_res_eq_Inr lz_copy_match_def split: if_splits prod.splits)

lemma lz_dec_loop_bound:
  assumes "lz_dec_loop lv maxout ctrl r out = Inr (n, res)" and "length out \<le> maxout"
  shows "length res \<le> maxout \<and> (n = 0 \<or> n = length res)"
  using assms
proof (induction lv maxout ctrl r out rule: lz_dec_loop.induct)
  case (1 lv maxout ctrl r out)
  show ?case
  proof (cases "\<exists>out' c r'. lz_dec_step lv maxout ctrl r out = Inr (Some (out', c # r'))")
    case True
    then obtain out' c r' where step: "lz_dec_step lv maxout ctrl r out = Inr (Some (out', c # r'))" by blast
    then have "lz_dec_loop lv maxout (unat c) r' out' = Inr (n, res)"
      using 1(2) by (subst (asm) lz_dec_loop.simps) simp
    then show ?thesis using 1(1) [OF step] lz_dec_step_bound [OF step] by simp
  next
    case False
    then show ?thesis using 1(2,3) lz_dec_step_bound [of lv maxout ctrl r out]
      by (subst (asm) lz_dec_loop.simps) (auto split: sum.splits option.splits list.splits)
  qed
qed



text \<open>
  The decompressor can read past its input: the header of a match that the stream cuts off
  is followed without a check of the limit.
\<close>

theorem fastlz_decompress_overread: "fastlz_decompress [0, 7, 32] 10 = Inl OutOfBounds"
  by code_simp

end
