(* ===== verification/Aoi_Map.thy ===== *)
theory Aoi_Map
  imports Prelude
begin

text \<open>
  The hash table of \<open>aoi/aoi.c\<close> from object ids to objects: open addressing with the colliding
  entries of one main position linked through \<open>next\<close>. A slot index stands for a slot pointer and
  \<open>None\<close> for the index -1; \<open>mlastfree\<close> is \<open>lastfree + 1\<close>, so that the exhausted value is 0. The
  mutual recursion of insertion and rehashing runs on fuel, and the theorems show how much of
  it is enough. The sources never check an allocation here; the model has them all succeed.
\<close>

section \<open>Operations\<close>

record 'v mslot =
  sid :: u64
  sobj :: "'v option"
  snext :: "nat option"

record 'v mtab =
  msize :: nat
  mlastfree :: nat
  mslots :: "'v mslot list"

definition INVALID_ID :: u64 where "INVALID_ID = NOT 0"

definition PRE_ALLOC :: nat where "PRE_ALLOC = 16"

definition mainposition :: "'v mtab \<Rightarrow> u64 \<Rightarrow> nat" where
  "mainposition m i = unat ((ucast i :: u32) AND of_nat (msize m - 1))"

definition slot_at :: "'v mtab \<Rightarrow> nat \<Rightarrow> 'v mslot cres" where
  "slot_at m i = (if i < length (mslots m) then Inr (mslots m ! i) else Inl OutOfBounds)"

definition free_slot :: "'v mslot" where
  "free_slot = \<lparr>sid = INVALID_ID, sobj = None, snext = None\<rparr>"

definition map_alloc :: "nat \<Rightarrow> 'v mtab" where
  "map_alloc n = \<lparr>msize = n, mlastfree = n, mslots = replicate n free_slot\<rparr>"

text \<open>The slot of a chain that links to slot \<open>s\<close>.\<close>

fun find_prev :: "nat \<Rightarrow> 'v mtab \<Rightarrow> nat \<Rightarrow> nat \<Rightarrow> nat cres" where
  "find_prev 0 m s lst = Inl Diverges"
| "find_prev (Suc k) m s lst =
     bind_res (slot_at m lst) (\<lambda>l.
     if snext l = Some s then Inr lst
     else case snext l of None \<Rightarrow> Inl AssertFail | Some n \<Rightarrow> find_prev k m s n)"

fun find_free :: "'v mslot list \<Rightarrow> nat \<Rightarrow> nat option \<times> nat" where
  "find_free sl 0 = (None, 0)"
| "find_free sl (Suc n) = (if sid (sl ! n) = INVALID_ID then (Some n, n) else find_free sl n)"

definition rehash :: "('v mtab \<Rightarrow> u64 \<Rightarrow> 'v \<Rightarrow> 'v mtab cres) \<Rightarrow> 'v mtab \<Rightarrow> 'v mtab cres" where
  "rehash ins m =
     foldl (\<lambda>r s. bind_res r (\<lambda>m. case sobj s of None \<Rightarrow> Inr m | Some obj \<Rightarrow> ins m (sid s) obj))
       (Inr (map_alloc (2 * msize m))) (mslots m)"

primrec map_insert :: "nat \<Rightarrow> 'v mtab \<Rightarrow> u64 \<Rightarrow> 'v \<Rightarrow> 'v mtab cres" where
  "map_insert 0 = (\<lambda>m i obj. Inl Diverges)"
| "map_insert (Suc k) = (\<lambda>m i obj.
     let s = mainposition m i; sl = mslots m
     in bind_res (slot_at m s) (\<lambda>slot.
        if sid slot = INVALID_ID
        then Inr (m\<lparr>mslots := sl[s := slot\<lparr>sid := i, sobj := Some obj\<rparr>]\<rparr>)
        else if mainposition m (sid slot) \<noteq> s
        then bind_res (find_prev (msize m) m s (mainposition m (sid slot))) (\<lambda>lst.
             let sl = sl[lst := (sl ! lst)\<lparr>snext := snext slot\<rparr>];
                 sl = sl[s := \<lparr>sid = i, sobj = Some obj, snext = None\<rparr>];
                 m = m\<lparr>mslots := sl\<rparr>
             in case sobj slot of None \<Rightarrow> Inr m | Some temp_obj \<Rightarrow> map_insert k m (sid slot) temp_obj)
        else case find_free sl (mlastfree m) of
             (Some temp, n) \<Rightarrow>
               Inr (m\<lparr>mlastfree := n,
                      mslots := sl[temp := \<lparr>sid = i, sobj = Some obj, snext = snext slot\<rparr>,
                                   s := slot\<lparr>snext := Some temp\<rparr>]\<rparr>)
           | (None, n) \<Rightarrow>
               bind_res (rehash (map_insert k) (m\<lparr>mlastfree := n\<rparr>)) (\<lambda>m. map_insert k m i obj)))"

text \<open>The slot with a given id on the chain that starts at slot \<open>s\<close>.\<close>

fun map_walk :: "nat \<Rightarrow> 'v mtab \<Rightarrow> u64 \<Rightarrow> nat \<Rightarrow> nat option cres" where
  "map_walk 0 m i s = Inl Diverges"
| "map_walk (Suc k) m i s =
     bind_res (slot_at m s) (\<lambda>slot.
     if sid slot = i then Inr (Some s)
     else case snext slot of None \<Rightarrow> Inr None | Some n \<Rightarrow> map_walk k m i n)"

definition map_fuel :: nat where "map_fuel = 4"

text \<open>
  The object found for an id, or \<open>new\<close>, the object that \<open>new_object\<close> makes for it; the Boolean
  says whether the new one was made.
\<close>

definition map_query :: "'v mtab \<Rightarrow> u64 \<Rightarrow> 'v \<Rightarrow> ('v \<times> bool \<times> 'v mtab) cres" where
  "map_query m i new =
     bind_res (map_walk (msize m) m i (mainposition m i)) (\<lambda>r.
     case r of
       Some s \<Rightarrow> (case sobj (mslots m ! s) of
          Some obj \<Rightarrow> Inr (obj, False, m)
        | None \<Rightarrow> Inr (new, True, m\<lparr>mslots := (mslots m)[s := (mslots m ! s)\<lparr>sobj := Some new\<rparr>]\<rparr>))
     | None \<Rightarrow> bind_res (map_insert map_fuel m i new) (\<lambda>m. Inr (new, True, m)))"

definition map_drop :: "'v mtab \<Rightarrow> u64 \<Rightarrow> ('v option \<times> 'v mtab) cres" where
  "map_drop m i =
     bind_res (map_walk (msize m) m i (mainposition m i)) (\<lambda>r.
     case r of
       None \<Rightarrow> Inr (None, m)
     | Some s \<Rightarrow> Inr (sobj (mslots m ! s), m\<lparr>mslots := (mslots m)[s := (mslots m ! s)\<lparr>sobj := None\<rparr>]\<rparr>))"

definition map_foreach :: "'v mtab \<Rightarrow> ('v \<Rightarrow> 's \<Rightarrow> 's cres) \<Rightarrow> 's \<Rightarrow> 's cres" where
  "map_foreach m f st =
     foldl (\<lambda>r s. bind_res r (\<lambda>st. case sobj s of None \<Rightarrow> Inr st | Some obj \<Rightarrow> f obj st)) (Inr st) (mslots m)"

definition map_new :: "'v mtab" where
  "map_new = map_alloc PRE_ALLOC"

section \<open>Chains\<close>

fun path :: "'v mslot list \<Rightarrow> nat option \<Rightarrow> nat list \<Rightarrow> bool" where
  "path sl nx [] \<longleftrightarrow> nx = None"
| "path sl nx (i # xs) \<longleftrightarrow> nx = Some i \<and> i < length sl \<and> path sl (snext (sl ! i)) xs"

lemma path_unique: "path sl nx xs \<Longrightarrow> path sl nx ys \<Longrightarrow> xs = ys"
proof (induction xs arbitrary: nx ys)
  case (Cons i xs)
  then show ?case by (cases ys) auto
qed (case_tac ys; simp)

lemma path_appendD: "path sl nx (xs @ i # ys) \<Longrightarrow> path sl (Some i) (i # ys)"
  by (induction xs arbitrary: nx) auto

lemma path_distinct: "path sl nx xs \<Longrightarrow> distinct xs"
proof (induction xs arbitrary: nx)
  case (Cons i xs)
  have "i \<notin> set xs"
  proof
    assume "i \<in> set xs"
    then obtain as bs where "xs = as @ i # bs" by (auto simp: in_set_conv_decomp)
    with Cons.prems have "path sl (Some i) (i # xs)" "path sl (Some i) (i # bs)"
      by (auto dest: path_appendD)
    then have "i # xs = i # bs" by (rule path_unique)
    with \<open>xs = as @ i # bs\<close> show False by simp
  qed
  with Cons show ?case by auto
qed simp

lemma path_range: "path sl nx xs \<Longrightarrow> set xs \<subseteq> {..<length sl}"
  by (induction xs arbitrary: nx) auto

lemma path_length: "path sl nx xs \<Longrightarrow> length xs \<le> length sl"
  using path_distinct [of sl nx xs] path_range [of sl nx xs] card_mono [of "{..<length sl}" "set xs"]
  by (simp add: distinct_card)

lemma path_cong:
  assumes "path sl nx xs" and "length sl' = length sl" and "\<And>i. i \<in> set xs \<Longrightarrow> snext (sl' ! i) = snext (sl ! i)"
  shows "path sl' nx xs"
  using assms by (induction xs arbitrary: nx) auto

lemma path_update: "path sl nx xs \<Longrightarrow> s \<notin> set xs \<Longrightarrow> path (sl[s := x]) nx xs"
  by (erule path_cong) (simp, metis nth_list_update_neq)

text \<open>Unlinking a slot and linking one in.\<close>

lemma path_unlink:
  assumes "path sl nx (as @ lst # s # bs)"
  shows "path (sl[lst := (sl ! lst)\<lparr>snext := snext (sl ! s)\<rparr>]) nx (as @ lst # bs)"
  using assms
proof (induction as arbitrary: nx)
  case Nil
  then have "lst \<notin> set bs" using path_distinct by fastforce
  with Nil show ?case by (auto elim!: path_cong simp: nth_list_update)
next
  case (Cons a as)
  then have "a \<noteq> lst" using path_distinct by fastforce
  with Cons show ?case by simp
qed

lemma path_link:
  assumes "path sl (Some s) (s # bs)" and "f < length sl" and "f \<notin> set (s # bs)"
    and "snext x = snext (sl ! s)"
  shows "path (sl[f := x, s := y\<lparr>snext := Some f\<rparr>]) (Some s) (s # f # bs)"
proof -
  have "s \<notin> set bs" using path_distinct [OF assms(1)] by simp
  with assms show ?thesis by (auto elim!: path_cong simp: nth_list_update)
qed

section \<open>Well-formed tables\<close>

definition used :: "'v mslot list \<Rightarrow> nat set" where
  "used sl = {i. i < length sl \<and> sid (sl ! i) \<noteq> INVALID_ID}"

text \<open>The slots in use whose id hashes to \<open>p\<close>, which are those on the chain that starts at \<open>p\<close>.\<close>

definition bucket :: "(u64 \<Rightarrow> nat) \<Rightarrow> 'v mslot list \<Rightarrow> nat \<Rightarrow> nat set" where
  "bucket h sl p = {i \<in> used sl. h (sid (sl ! i)) = p}"

definition chains :: "(u64 \<Rightarrow> nat) \<Rightarrow> 'v mslot list \<Rightarrow> bool" where
  "chains h sl \<longleftrightarrow> (\<forall>p. bucket h sl p \<noteq> {} \<longrightarrow> (\<exists>xs. path sl (Some p) xs \<and> set xs = bucket h sl p))"

definition distinct_ids :: "'v mslot list \<Rightarrow> bool" where
  "distinct_ids sl \<longleftrightarrow> inj_on (\<lambda>i. sid (sl ! i)) (used sl)"

definition mwf :: "'v mtab \<Rightarrow> bool" where
  "mwf m \<longleftrightarrow> (\<exists>k. msize m = 2 ^ k) \<and> length (mslots m) = msize m \<and> mlastfree m \<le> msize m \<and>
     (\<forall>i < msize m. i \<notin> used (mslots m) \<longrightarrow> mslots m ! i = free_slot \<and> i < mlastfree m) \<and>
     distinct_ids (mslots m) \<and> chains (mainposition m) (mslots m)"

definition amap :: "'v mtab \<Rightarrow> u64 \<Rightarrow> 'v option" where
  "amap m i = (case find (\<lambda>s. sid s = i) (mslots m) of None \<Rightarrow> None | Some s \<Rightarrow> sobj s)"

abbreviation ids :: "'v mslot list \<Rightarrow> u64 set" where
  "ids sl \<equiv> (\<lambda>i. sid (sl ! i)) ` used sl"

lemma mainposition_less: "msize m = 2 ^ k \<Longrightarrow> mainposition m i < msize m"
proof -
  assume k: "msize m = 2 ^ k"
  have "unat ((ucast i :: u32) AND of_nat (msize m - 1)) \<le> unat (of_nat (msize m - 1) :: u32)"
    by (simp add: word_and_le1 flip: word_le_nat_alt)
  also have "\<dots> \<le> msize m - 1" by (simp only: unat_of_nat) simp
  finally show ?thesis using k by (simp add: mainposition_def less_eq_Suc_le [symmetric] Suc_diff_Suc le_less_trans)
qed

lemma mwf_position: "mwf m \<Longrightarrow> mainposition m i < msize m"
  by (auto simp: mwf_def intro: mainposition_less)

lemma finite_used [simp]: "finite (used sl)"
  by (simp add: used_def)

lemma card_used: "card (used sl) \<le> length sl"
  using card_mono [of "{..<length sl}" "used sl"] by (auto simp: used_def)

lemma chain_path:
  assumes "chains h sl" and "bucket h sl p \<noteq> {}"
  obtains xs where "path sl (Some p) xs" "set xs = bucket h sl p"
  using assms unfolding chains_def by blast

lemma chain_head:
  assumes "chains h sl" and "i \<in> bucket h sl p"
  shows "p \<in> used sl" and "h (sid (sl ! p)) = p"
proof -
  from assms obtain xs where "path sl (Some p) xs" "set xs = bucket h sl p"
    unfolding chains_def by blast
  then have "p \<in> bucket h sl p" by (cases xs) auto
  then show "p \<in> used sl" "h (sid (sl ! p)) = p" by (auto simp: bucket_def)
qed

text \<open>From the main position of an id every slot in use that could hold the id is reached.\<close>

lemma walk_path:
  assumes "mwf m" and "p < msize m"
  obtains xs where "path (mslots m) (Some p) xs" "bucket (mainposition m) (mslots m) p \<subseteq> set xs"
proof (cases "p \<in> used (mslots m)")
  case False
  then have "mslots m ! p = free_slot" "p < length (mslots m)" using assms by (auto simp: mwf_def)
  then have "path (mslots m) (Some p) [p]" by (simp add: free_slot_def)
  moreover have "bucket (mainposition m) (mslots m) p = {}"
    using False chain_head(1) assms(1) unfolding mwf_def by blast
  ultimately show ?thesis using that by blast
next
  case True
  define q where "q = mainposition m (sid (mslots m ! p))"
  have "p \<in> bucket (mainposition m) (mslots m) q" using True by (simp add: bucket_def q_def)
  then obtain xs where xs: "path (mslots m) (Some q) xs" "set xs = bucket (mainposition m) (mslots m) q"
    using assms(1) unfolding mwf_def chains_def by blast
  with \<open>p \<in> bucket (mainposition m) (mslots m) q\<close> obtain as bs where "xs = as @ p # bs"
    by (metis split_list)
  with xs(1) have "path (mslots m) (Some p) (p # bs)" by (auto dest: path_appendD)
  moreover have "bucket (mainposition m) (mslots m) p \<subseteq> set (p # bs)"
  proof (cases "q = p")
    case True
    then have "xs = p # bs" using path_unique [OF xs(1)] calculation by simp
    then show ?thesis using xs(2) True by simp
  next
    case False
    then have "bucket (mainposition m) (mslots m) p = {}"
      using chain_head(2) assms(1) q_def unfolding mwf_def by blast
    then show ?thesis by simp
  qed
  ultimately show ?thesis using that by blast
qed

lemma map_walk_path:
  "path (mslots m) (Some p) xs \<Longrightarrow> length xs \<le> k \<Longrightarrow>
   map_walk k m i p = Inr (find (\<lambda>j. sid (mslots m ! j) = i) xs)"
proof (induction xs arbitrary: p k)
  case (Cons x xs)
  then obtain k' where "k = Suc k'" by (cases k) auto
  with Cons show ?case by (cases xs) (auto simp: slot_at_def)
qed simp

lemma map_walk_spec:
  assumes "mwf m" and "i \<noteq> INVALID_ID"
  shows "\<exists>r. map_walk (msize m) m i (mainposition m i) = Inr r \<and>
    (case r of None \<Rightarrow> i \<notin> ids (mslots m) | Some j \<Rightarrow> j \<in> used (mslots m) \<and> sid (mslots m ! j) = i)"
proof -
  obtain xs where xs: "path (mslots m) (Some (mainposition m i)) xs"
    "bucket (mainposition m) (mslots m) (mainposition m i) \<subseteq> set xs"
    using walk_path [OF assms(1) mwf_position [OF assms(1)]] .
  have "length xs \<le> msize m" using path_length [OF xs(1)] assms(1) by (simp add: mwf_def)
  with map_walk_path [OF xs(1)] have
    "map_walk (msize m) m i (mainposition m i) = Inr (find (\<lambda>j. sid (mslots m ! j) = i) xs)" by blast
  moreover have "i \<notin> ids (mslots m)" if "find (\<lambda>j. sid (mslots m ! j) = i) xs = None"
    using that xs(2) by (force simp: find_None_iff bucket_def)
  moreover have "j \<in> used (mslots m) \<and> sid (mslots m ! j) = i"
    if "find (\<lambda>j. sid (mslots m ! j) = i) xs = Some j" for j
    using that path_range [OF xs(1)] assms(2) nth_mem by (fastforce simp: find_Some_iff used_def)
  ultimately show ?thesis by (auto split: option.split)
qed

lemma find_prev_path:
  "path (mslots m) (Some q) (as @ lst # s # bs) \<Longrightarrow> length as < k \<Longrightarrow> find_prev k m s q = Inr lst"
proof (induction as arbitrary: q k)
  case Nil
  then obtain k' where "k = Suc k'" by (cases k) auto
  with Nil show ?case by (auto simp: slot_at_def)
next
  case (Cons a as)
  then obtain k' where k: "k = Suc k'" by (cases k) auto
  define n where "n = hd (as @ [lst])"
  have n: "path (mslots m) (Some n) (as @ lst # s # bs)" "snext (mslots m ! a) = Some n"
    using Cons.prems(1) by (cases as; simp add: n_def)+
  moreover have "n \<noteq> s" using path_distinct [OF n(1)] by (cases as) (auto simp: n_def)
  moreover have "find_prev k' m s n = Inr lst" using Cons.IH [OF n(1)] Cons.prems(2) k by simp
  ultimately show ?case using Cons.prems(1) k by (simp add: slot_at_def)
qed

lemma find_free_spec:
  assumes "find_free sl n = (r, n')" and "n \<le> length sl"
  shows "n' \<le> n" and "r = Some f \<Longrightarrow> f = n' \<and> f < n \<and> f \<notin> used sl"
    and "\<And>i. i < n \<Longrightarrow> i \<notin> used sl \<Longrightarrow> r \<noteq> None \<and> i \<le> n'"
proof -
  have "n' \<le> n \<and> (r = Some f \<longrightarrow> f = n' \<and> f < n \<and> f \<notin> used sl) \<and>
    (\<forall>i < n. i \<notin> used sl \<longrightarrow> r \<noteq> None \<and> i \<le> n')"
    using assms
  proof (induction sl n rule: find_free.induct)
    case (2 sl n)
    then show ?case by (auto simp: used_def less_Suc_eq split: if_splits)
  qed simp
  then show "n' \<le> n" "r = Some f \<Longrightarrow> f = n' \<and> f < n \<and> f \<notin> used sl"
    "\<And>i. i < n \<Longrightarrow> i \<notin> used sl \<Longrightarrow> r \<noteq> None \<and> i \<le> n'" by auto
qed

section \<open>Changes that keep the chains\<close>

lemma used_update: "i < length sl \<Longrightarrow> sid x \<noteq> INVALID_ID \<Longrightarrow> used (sl[i := x]) = insert i (used sl)"
  by (auto simp: used_def nth_list_update)

lemma bucket_update:
  assumes "i < length sl" and "sid x \<noteq> INVALID_ID"
  shows "bucket h (sl[i := x]) p = (if h (sid x) = p then insert i (bucket h sl p) else bucket h sl p - {i})"
  using assms by (auto simp: bucket_def used_update nth_list_update)

lemma chains_fill:
  assumes "chains h sl" and "s < length sl" and "s \<notin> used sl" and "sid x \<noteq> INVALID_ID"
    and "h (sid x) = s" and "snext x = None"
  shows "chains h (sl[s := x])"
  unfolding chains_def
proof (intro allI impI)
  fix p assume p: "bucket h (sl[s := x]) p \<noteq> {}"
  have s: "bucket h sl s = {}" using chain_head(1) [OF assms(1)] assms(3) by blast
  show "\<exists>xs. path (sl[s := x]) (Some p) xs \<and> set xs = bucket h (sl[s := x]) p"
  proof (cases "p = s")
    case True
    then show ?thesis using assms s by (intro exI [of _ "[s]"]) (simp add: bucket_update)
  next
    case False
    have sb: "s \<notin> bucket h sl p" using assms(3) by (simp add: bucket_def)
    then have eq: "bucket h (sl[s := x]) p = bucket h sl p" using False assms by (simp add: bucket_update)
    with p obtain xs where xs: "path sl (Some p) xs" "set xs = bucket h sl p"
      using chain_path [OF assms(1)] by metis
    then have "path (sl[s := x]) (Some p) xs" using sb by (simp add: path_update)
    then show ?thesis using eq xs(2) by blast
  qed
qed

lemma chains_link:
  assumes "chains h sl" and "s \<in> used sl" and "h (sid (sl ! s)) = s" and "f < length sl" and "f \<notin> used sl"
    and "sid x \<noteq> INVALID_ID" and "h (sid x) = s" and "snext x = snext (sl ! s)"
  shows "chains h (sl[f := x, s := (sl ! s)\<lparr>snext := Some f\<rparr>])"
  unfolding chains_def
proof (intro allI impI)
  let ?sl = "sl[f := x, s := (sl ! s)\<lparr>snext := Some f\<rparr>]"
  have s: "s < length sl" "sid (sl ! s) \<noteq> INVALID_ID" "s \<noteq> f" using assms(2,5) by (auto simp: used_def)
  have b: "bucket h ?sl p = (if p = s then insert f (bucket h sl p) else bucket h sl p)" for p
    using assms(2-7) s by (auto simp: bucket_update) (auto simp: bucket_def)
  fix p assume p: "bucket h ?sl p \<noteq> {}"
  have fb: "f \<notin> bucket h sl p" using assms(5) by (simp add: bucket_def)
  have "s \<in> bucket h sl s" using assms(2,3) by (simp add: bucket_def)
  with p b have "bucket h sl p \<noteq> {}" by (cases "p = s") auto
  then obtain xs where xs: "path sl (Some p) xs" "set xs = bucket h sl p"
    using chain_path [OF assms(1)] by metis
  show "\<exists>xs. path ?sl (Some p) xs \<and> set xs = bucket h ?sl p"
  proof (cases "p = s")
    case True
    then obtain bs where "xs = s # bs" using xs \<open>s \<in> bucket h sl s\<close> by (cases xs) auto
    with xs True fb assms(4,8) have "path ?sl (Some s) (s # f # bs)" by (intro path_link) auto
    moreover have "set (s # f # bs) = bucket h ?sl p" using True b xs(2) \<open>xs = s # bs\<close> by auto
    ultimately show ?thesis using True by blast
  next
    case False
    then have "s \<notin> set xs" using xs(2) assms(3) by (auto simp: bucket_def)
    with xs fb have "path ?sl (Some p) xs" by (simp add: path_update)
    then show ?thesis using False b xs(2) by auto
  qed
qed

lemma chains_unlink:
  assumes "chains h sl" and "s \<in> used sl" and "h (sid (sl ! s)) = q" and "q \<noteq> s"
    and "sid x \<noteq> INVALID_ID" and "h (sid x) = s" and "snext x = None"
    and "path sl (Some q) (as @ lst # s # bs)"
  shows "chains h (sl[lst := (sl ! lst)\<lparr>snext := snext (sl ! s)\<rparr>, s := x])"
  unfolding chains_def
proof (intro allI impI)
  let ?l = "(sl ! lst)\<lparr>snext := snext (sl ! s)\<rparr>"
  let ?sl = "sl[lst := ?l, s := x]"
  have "s \<in> bucket h sl q" using assms(2,3) by (simp add: bucket_def)
  then obtain xs where "path sl (Some q) xs" "set xs = bucket h sl q" using chain_path [OF assms(1)] by blast
  with assms(8) path_unique have xs: "set (as @ lst # s # bs) = bucket h sl q" by metis
  have d: "distinct (as @ lst # s # bs)" using assms(8) by (rule path_distinct)
  have lst: "lst < length sl" "sid (sl ! lst) \<noteq> INVALID_ID" "h (sid (sl ! lst)) = q" "s < length sl"
    using xs assms(2) by (auto simp: bucket_def used_def)
  have empty: "bucket h sl s = {}" using chain_head(2) [OF assms(1)] assms(3,4) by blast
  have b: "bucket h ?sl p = (if p = s then {s} else bucket h sl p - {s})" for p
    using lst assms(5,6) xs empty by (auto simp: bucket_update) (auto simp: bucket_def)
  fix p assume p: "bucket h ?sl p \<noteq> {}"
  consider "p = s" | "p = q" | "p \<noteq> s" "p \<noteq> q" by blast
  then show "\<exists>xs. path ?sl (Some p) xs \<and> set xs = bucket h ?sl p"
  proof cases
    case 1
    then show ?thesis using b lst assms(7) by (intro exI [of _ "[s]"]) simp
  next
    case 2
    have "path (sl[lst := ?l]) (Some q) (as @ lst # bs)" using assms(8) by (rule path_unlink)
    then have "path ?sl (Some q) (as @ lst # bs)" by (rule path_update) (use d in auto)
    moreover have "set (as @ lst # bs) = bucket h ?sl q" using b xs d assms(4) by auto
    ultimately show ?thesis using 2 by blast
  next
    case 3
    with p b have "bucket h sl p \<noteq> {}" by auto
    then obtain ys where ys: "path sl (Some p) ys" "set ys = bucket h sl p" using chain_path [OF assms(1)] by metis
    have "lst \<notin> set ys" "s \<notin> set ys" using ys(2) lst assms(3) 3 by (auto simp: bucket_def)
    then have "path ?sl (Some p) ys" using ys(1) by (simp add: path_update)
    then show ?thesis using ys(2) b 3 \<open>s \<notin> set ys\<close> by auto
  qed
qed

section \<open>Contents\<close>

lemma amap_Some_iff:
  assumes "mwf m"
  shows "amap m i = Some v \<longleftrightarrow> (\<exists>j \<in> used (mslots m). sid (mslots m ! j) = i \<and> sobj (mslots m ! j) = Some v)"
proof
  assume "amap m i = Some v"
  then obtain s where "find (\<lambda>s. sid s = i) (mslots m) = Some s" "sobj s = Some v"
    by (auto simp: amap_def split: option.splits)
  then obtain j where j: "j < length (mslots m)" "sid (mslots m ! j) = i" "sobj (mslots m ! j) = Some v"
    by (auto simp: find_Some_iff)
  then have "j \<in> used (mslots m)" using assms by (auto simp: mwf_def free_slot_def)
  with j show "\<exists>j \<in> used (mslots m). sid (mslots m ! j) = i \<and> sobj (mslots m ! j) = Some v" by blast
next
  assume "\<exists>j \<in> used (mslots m). sid (mslots m ! j) = i \<and> sobj (mslots m ! j) = Some v"
  then obtain j where j: "j \<in> used (mslots m)" "sid (mslots m ! j) = i" "sobj (mslots m ! j) = Some v" by blast
  then have "find (\<lambda>s. sid s = i) (mslots m) \<noteq> None"
    unfolding find_None_iff used_def by (auto intro: nth_mem)
  then obtain s k where k: "find (\<lambda>s. sid s = i) (mslots m) = Some s" "k < length (mslots m)" "s = mslots m ! k" "sid s = i"
    by (auto simp: find_Some_iff)
  then have "k = j" using j assms by (auto simp: mwf_def distinct_ids_def used_def dest: inj_onD)
  then show "amap m i = Some v" using k j by (simp add: amap_def)
qed

lemma amap_eqI:
  assumes "\<And>i v. amap m i = Some v \<longleftrightarrow> f i = Some v"
  shows "amap m = f"
  using assms by (intro ext) (metis not_None_eq option.exhaust)

definition stored :: "'v mslot list \<Rightarrow> u64 \<Rightarrow> 'v \<Rightarrow> bool" where
  "stored sl i v \<longleftrightarrow> (\<exists>j \<in> used sl. sid (sl ! j) = i \<and> sobj (sl ! j) = Some v)"

lemma amap_stored: "mwf m \<Longrightarrow> amap m i = Some v \<longleftrightarrow> stored (mslots m) i v"
  by (simp add: amap_Some_iff stored_def)

lemma amap_None:
  assumes "mwf m" and "i \<notin> ids (mslots m)"
  shows "amap m i = None"
proof (rule ccontr)
  assume "amap m i \<noteq> None"
  then obtain v where "stored (mslots m) i v" using amap_stored [OF assms(1)] by blast
  then show False using assms(2) by (force simp: stored_def)
qed

text \<open>Links between slots play no role for the contents.\<close>

lemma relink:
  assumes "k < length sl" and "sid y = sid (sl ! k)" and "sobj y = sobj (sl ! k)"
  shows "used (sl[k := y]) = used sl" and "ids (sl[k := y]) = ids sl"
    and "distinct_ids (sl[k := y]) = distinct_ids sl" and "stored (sl[k := y]) = stored sl"
proof -
  have eq: "sid (sl[k := y] ! j) = sid (sl ! j)" "sobj (sl[k := y] ! j) = sobj (sl ! j)" for j
    using assms by (cases "j = k"; simp)+
  show u: "used (sl[k := y]) = used sl" by (simp add: used_def eq)
  show "ids (sl[k := y]) = ids sl" "distinct_ids (sl[k := y]) = distinct_ids sl" "stored (sl[k := y]) = stored sl"
    unfolding distinct_ids_def stored_def fun_eq_iff u eq by auto
qed

lemma store_new:
  assumes "s < length sl" and "s \<notin> used sl" and "sid x \<noteq> INVALID_ID" and "sid x \<notin> ids sl" and "distinct_ids sl"
  shows "used (sl[s := x]) = insert s (used sl)" and "ids (sl[s := x]) = insert (sid x) (ids sl)"
    and "distinct_ids (sl[s := x])"
    and "stored (sl[s := x]) i v \<longleftrightarrow> i = sid x \<and> sobj x = Some v \<or> stored sl i v"
proof -
  show u: "used (sl[s := x]) = insert s (used sl)" using assms(1,3) by (rule used_update)
  have eq: "sl[s := x] ! j = (if j = s then x else sl ! j)" for j
    using assms(1) by auto
  have s: "\<And>j. j \<in> used sl \<Longrightarrow> j \<noteq> s" using assms(2) by blast
  show "ids (sl[s := x]) = insert (sid x) (ids sl)" unfolding u eq using s by (auto simp: image_iff)
  have new: "\<And>j. j \<in> used sl \<Longrightarrow> sid (sl ! j) \<noteq> sid x" using assms(4) by (metis imageI)
  show "distinct_ids (sl[s := x])" unfolding distinct_ids_def u eq
  proof (rule inj_onI)
    fix a b
    assume "a \<in> insert s (used sl)" "b \<in> insert s (used sl)"
      "sid (if a = s then x else sl ! a) = sid (if b = s then x else sl ! b)"
    then show "a = b" using new new [symmetric] assms(5) unfolding distinct_ids_def
      by (cases "a = s"; cases "b = s") (auto dest: inj_onD)
  qed
  show "stored (sl[s := x]) i v \<longleftrightarrow> i = sid x \<and> sobj x = Some v \<or> stored sl i v"
    unfolding stored_def u eq using s by auto
qed

lemma store_over:
  assumes "s \<in> used sl" and "sid x \<noteq> INVALID_ID" and "sid x \<notin> ids sl" and "distinct_ids sl"
  shows "used (sl[s := x]) = used sl" and "ids (sl[s := x]) = insert (sid x) (ids sl - {sid (sl ! s)})"
    and "distinct_ids (sl[s := x])"
    and "stored (sl[s := x]) i v \<longleftrightarrow> i = sid x \<and> sobj x = Some v \<or> i \<noteq> sid (sl ! s) \<and> stored sl i v"
proof -
  have len: "s < length sl" using assms(1) by (simp add: used_def)
  show u: "used (sl[s := x]) = used sl" using assms(1,2) len by (auto simp: used_update)
  have eq: "sl[s := x] ! j = (if j = s then x else sl ! j)" for j using len by auto
  have s: "\<And>j. j \<in> used sl \<Longrightarrow> j \<noteq> s \<Longrightarrow> sid (sl ! j) \<noteq> sid (sl ! s)"
    using assms(1,4) by (auto simp: distinct_ids_def inj_on_def)
  show "ids (sl[s := x]) = insert (sid x) (ids sl - {sid (sl ! s)})"
  proof -
    let ?f = "\<lambda>j. sid (if j = s then x else sl ! j)"
    have "ids (sl[s := x]) = ?f ` insert s (used sl - {s})" unfolding u eq using assms(1) by (simp add: insert_absorb)
    also have "\<dots> = insert (sid x) (?f ` (used sl - {s}))" by (simp only: image_insert) simp
    also have "?f ` (used sl - {s}) = (\<lambda>j. sid (sl ! j)) ` (used sl - {s})" by (rule image_cong) auto
    also have "(\<lambda>j. sid (sl ! j)) ` (used sl - {s}) = ids sl - {sid (sl ! s)}"
      using inj_on_image_set_diff [of "\<lambda>j. sid (sl ! j)" "used sl" "used sl" "{s}"] assms(1,4)
      by (simp add: distinct_ids_def)
    finally show ?thesis .
  qed
  have new: "\<And>j. j \<in> used sl \<Longrightarrow> sid (sl ! j) \<noteq> sid x" using assms(3) by (metis imageI)
  show "distinct_ids (sl[s := x])" unfolding distinct_ids_def u eq
  proof (rule inj_onI)
    fix a b
    assume "a \<in> used sl" "b \<in> used sl" "sid (if a = s then x else sl ! a) = sid (if b = s then x else sl ! b)"
    then show "a = b" using new new [symmetric] assms(4) unfolding distinct_ids_def
      by (cases "a = s"; cases "b = s") (auto dest: inj_onD)
  qed
  show "stored (sl[s := x]) i v \<longleftrightarrow> i = sid x \<and> sobj x = Some v \<or> i \<noteq> sid (sl ! s) \<and> stored sl i v"
    unfolding stored_def u eq using s assms(1) by (auto, metis)
qed

text \<open>What an insertion promises: the new contents, and how much of the table it takes.\<close>

definition ins_ok :: "'v mtab \<Rightarrow> u64 \<Rightarrow> 'v \<Rightarrow> 'v mtab \<Rightarrow> bool" where
  "ins_ok m i obj m' \<longleftrightarrow> mwf m' \<and> amap m' = (amap m)(i \<mapsto> obj) \<and>
     ids (mslots m') \<subseteq> insert i (ids (mslots m)) \<and> card (used (mslots m')) \<le> Suc (card (used (mslots m)))"

lemma mainposition_cong: "msize m' = msize m \<Longrightarrow> mainposition m' = mainposition m"
  by (simp add: mainposition_def fun_eq_iff)

lemma mwf_updateI:
  assumes "mwf m" and "msize m' = msize m" and "length (mslots m') = length (mslots m)"
    and "mlastfree m' \<le> msize m" and "distinct_ids (mslots m')" and "chains (mainposition m) (mslots m')"
    and "\<And>j. j < msize m \<Longrightarrow> j \<notin> used (mslots m') \<Longrightarrow>
      j \<notin> used (mslots m) \<and> mslots m' ! j = mslots m ! j \<and> j < mlastfree m'"
  shows "mwf m'"
  using assms mainposition_cong [OF assms(2)] unfolding mwf_def by metis

lemma insert_fill:
  assumes "mwf m" and "i \<noteq> INVALID_ID" and "i \<notin> ids (mslots m)"
    and "mainposition m i \<notin> used (mslots m)"
  shows "\<exists>m'. map_insert (Suc k) m i obj = Inr m' \<and> ins_ok m i obj m' \<and> msize m' = msize m"
proof -
  let ?s = "mainposition m i" and ?sl = "mslots m"
  have s: "?s < length ?sl" "?sl ! ?s = free_slot"
    using assms mwf_position [OF assms(1), of i] by (auto simp: mwf_def)
  let ?x = "(?sl ! ?s)\<lparr>sid := i, sobj := Some obj\<rparr>"
  let ?m = "m\<lparr>mslots := ?sl[?s := ?x]\<rparr>"
  have x: "sid ?x = i" "sobj ?x = Some obj" "snext ?x = None" using s by (simp_all add: free_slot_def)
  have d: "distinct_ids ?sl" "chains (mainposition m) ?sl" using assms(1) by (simp_all add: mwf_def)
  note st = store_new [of ?s ?sl ?x, OF s(1) assms(4), unfolded x, OF assms(2,3) d(1)]
  have "chains (mainposition m) (?sl[?s := ?x])"
    by (rule chains_fill [OF d(2) s(1) assms(4)]) (use x assms(2) in simp_all)
  then have wf: "mwf ?m" using assms(1) st(1,3) by (intro mwf_updateI [OF assms(1)]) (auto simp: mwf_def)
  have "amap ?m = (amap m)(i \<mapsto> obj)"
    using amap_stored [OF wf] amap_stored [OF assms(1)] st(4) assms(3)
    by (intro amap_eqI) (auto simp: stored_def)
  moreover have "card (used (mslots ?m)) \<le> Suc (card (used ?sl))" using st(1) by (simp add: card_insert_if)
  moreover have "ids (mslots ?m) \<subseteq> insert i (ids ?sl)" using st(2) by simp
  moreover have "map_insert (Suc k) m i obj = Inr ?m"
    using s by (simp add: Let_def slot_at_def free_slot_def)
  ultimately show ?thesis using wf by (simp only: ins_ok_def) simp
qed

lemma insert_link:
  assumes "mwf m" and "i \<noteq> INVALID_ID" and "i \<notin> ids (mslots m)"
    and "s = mainposition m i" and "s \<in> used (mslots m)" and "mainposition m (sid (mslots m ! s)) = s"
    and "find_free (mslots m) (mlastfree m) = (Some f, n)"
  shows "\<exists>m'. map_insert (Suc k) m i obj = Inr m' \<and> ins_ok m i obj m' \<and> msize m' = msize m"
proof -
  let ?sl = "mslots m"
  let ?x = "\<lparr>sid = i, sobj = Some obj, snext = snext (?sl ! s)\<rparr>" and ?y = "(?sl ! s)\<lparr>snext := Some f\<rparr>"
  let ?m = "m\<lparr>mlastfree := n, mslots := ?sl[f := ?x, s := ?y]\<rparr>"
  have d: "distinct_ids ?sl" "chains (mainposition m) ?sl" "mlastfree m \<le> length ?sl"
    using assms(1) by (simp_all add: mwf_def)
  have f: "f = n" "f < mlastfree m" "f \<notin> used ?sl" "n \<le> mlastfree m"
    "\<And>j. j < mlastfree m \<Longrightarrow> j \<notin> used ?sl \<Longrightarrow> j \<le> n"
    using find_free_spec [OF assms(7) d(3)] by auto
  have fs: "f < length ?sl" "s < length ?sl" "f \<noteq> s" "sid (?sl ! s) \<noteq> INVALID_ID"
    using f d(3) assms(5) by (auto simp: used_def)
  note st = store_new [of f ?sl ?x, simplified, OF fs(1) f(3) assms(2,3) d(1)]
  note re = relink [of s "?sl[f := ?x]" ?y, simplified fs(2,3) length_list_update nth_list_update_neq [OF fs(3)], simplified]
  have "chains (mainposition m) (?sl[f := ?x, s := ?y])"
    by (rule chains_link [OF d(2) assms(5,6) fs(1) f(3)]) (use assms(2,4) in simp_all)
  moreover have "j < n \<and> ?sl[f := ?x, s := ?y] ! j = ?sl ! j" if "j < msize m" "j \<notin> used ?sl" "j \<noteq> f" for j
  proof -
    have "j \<noteq> s" using that assms(5) by blast
    then show ?thesis using that assms(1) f(1) f(5) [of j] by (auto simp: mwf_def)
  qed
  ultimately have wf: "mwf ?m" using st(1,3) re(1,3) f(4) d(3) assms(1)
    by (intro mwf_updateI [OF assms(1)]) (auto simp: mwf_def)
  have "amap ?m = (amap m)(i \<mapsto> obj)"
    using amap_stored [OF wf] amap_stored [OF assms(1)] st(4) re(4) assms(3)
    by (intro amap_eqI) (auto simp: stored_def)
  moreover have "card (used (mslots ?m)) \<le> Suc (card (used ?sl))" using st(1) re(1) by (simp add: card_insert_if)
  moreover have "ids (mslots ?m) \<subseteq> insert i (ids ?sl)" using st(2) re(2) by simp
  moreover have "map_insert (Suc k) m i obj = Inr ?m"
    using fs assms(4,6,7) by (simp add: Let_def slot_at_def)
  ultimately show ?thesis using wf by (simp only: ins_ok_def) simp
qed

text \<open>
  An entry that is not in its main position is moved out of the way; without an object it is
  forgotten, with one it is inserted again.
\<close>

lemma insert_unlink:
  assumes "mwf m" and "i \<noteq> INVALID_ID" and "i \<notin> ids (mslots m)"
    and s: "s = mainposition m i" "s \<in> used (mslots m)"
    and q: "q = mainposition m (sid (mslots m ! s))" "q \<noteq> s"
  obtains lst m' where "find_prev (msize m) m s q = Inr lst"
    "m' = m\<lparr>mslots := (mslots m)[lst := (mslots m ! lst)\<lparr>snext := snext (mslots m ! s)\<rparr>,
       s := \<lparr>sid = i, sobj = Some obj, snext = None\<rparr>]\<rparr>"
    "mwf m'" "amap m' = (amap m)(sid (mslots m ! s) := None, i \<mapsto> obj)"
    "used (mslots m') = used (mslots m)" "ids (mslots m') = insert i (ids (mslots m) - {sid (mslots m ! s)})"
    "q \<in> used (mslots m)" "mainposition m (sid (mslots m' ! q)) = q"
proof -
  let ?sl = "mslots m"
  let ?x = "\<lparr>sid = i, sobj = Some obj, snext = None\<rparr>"
  have d: "distinct_ids ?sl" "chains (mainposition m) ?sl" using assms(1) by (simp_all add: mwf_def)
  have sb: "s \<in> bucket (mainposition m) ?sl q" using s q by (simp add: bucket_def)
  then obtain xs where xs: "path ?sl (Some q) xs" "set xs = bucket (mainposition m) ?sl q"
    using chain_path [OF d(2)] by blast
  with sb obtain as bs where "xs = as @ s # bs" by (metis split_list)
  moreover from this have "as \<noteq> []" using xs(1) q(2) by (cases as) auto
  ultimately obtain cs lst where xs': "xs = cs @ lst # s # bs"
    by (metis append.assoc append_Cons append_Nil rev_exhaust)
  have len: "length cs < msize m"
    using path_length [OF xs(1)] assms(1) by (simp add: xs' mwf_def)
  have fp: "find_prev (msize m) m s q = Inr lst"
    using find_prev_path [of m q cs lst s bs] xs(1) xs' len by simp
  let ?l = "(?sl ! lst)\<lparr>snext := snext (?sl ! s)\<rparr>"
  let ?m = "m\<lparr>mslots := ?sl[lst := ?l, s := ?x]\<rparr>"
  have lst: "lst < length ?sl" "lst \<noteq> s"
    using path_range [OF xs(1)] path_distinct [OF xs(1)] xs' by auto
  have l: "sid ?l = sid (?sl ! lst)" "sobj ?l = sobj (?sl ! lst)" by simp_all
  note re = relink [OF lst(1) l]
  have sid_s: "sid (?sl[lst := ?l] ! s) = sid (?sl ! s)" using lst by simp
  have p: "s \<in> used (?sl[lst := ?l])" "i \<notin> ids (?sl[lst := ?l])" "distinct_ids (?sl[lst := ?l])"
    using s(2) assms(3) d(1) unfolding re(2,3) unfolding re(1) .
  note st = store_over [of s "?sl[lst := ?l]" ?x, simplified mslot.select_convs,
      OF p(1) assms(2) p(2,3), unfolded re(2), unfolded re(1,4) sid_s]
  have "chains (mainposition m) (?sl[lst := ?l, s := ?x])"
    by (rule chains_unlink [OF d(2) s(2) q(1) [symmetric] q(2)]) (use assms(2) s xs(1) xs' in simp_all)
  moreover have "?sl[lst := ?l, s := ?x] ! j = ?sl ! j" if "j \<notin> used ?sl" for j
  proof -
    have "lst \<in> used ?sl" using xs(2) xs' by (auto simp: bucket_def)
    then have "j \<noteq> lst" "j \<noteq> s" using that s(2) by blast+
    then show ?thesis by simp
  qed
  ultimately have wf: "mwf ?m" using st(1,3) assms(1)
    by (intro mwf_updateI [OF assms(1)]) (auto simp: mwf_def)
  have "amap ?m = (amap m)(sid (?sl ! s) := None, i \<mapsto> obj)"
    using amap_stored [OF wf] amap_stored [OF assms(1)] st(4) assms(3)
    by (intro amap_eqI) (auto simp: stored_def)
  moreover have "q \<in> used ?sl" "mainposition m (sid (mslots ?m ! q)) = q"
    using chain_head [OF d(2) sb] q(2) lst by (auto simp: nth_list_update)
  ultimately show ?thesis using that [OF fp, of ?m] wf st(1,2) by simp
qed

section \<open>Insertion and rehashing\<close>

lemma find_free_room:
  assumes "mwf m" and "j < msize m" and "j \<notin> used (mslots m)"
  obtains f n where "find_free (mslots m) (mlastfree m) = (Some f, n)"
proof -
  obtain r n where r: "find_free (mslots m) (mlastfree m) = (r, n)" by fastforce
  have "r \<noteq> None" using find_free_spec(3) [OF r, of j] assms by (auto simp: mwf_def)
  with r that show ?thesis by auto
qed

lemma stored_slot:
  assumes "mwf m" and "s \<in> used (mslots m)"
  shows "amap m (sid (mslots m ! s)) = sobj (mslots m ! s)"
proof (cases "sobj (mslots m ! s)")
  case None
  then have "\<not> stored (mslots m) (sid (mslots m ! s)) v" for v
    using assms by (auto simp: stored_def mwf_def distinct_ids_def dest: inj_onD)
  then show ?thesis using amap_stored [OF assms(1)] None by (metis not_None_eq)
next
  case (Some v)
  then have "stored (mslots m) (sid (mslots m ! s)) v" using assms(2) by (auto simp: stored_def)
  then show ?thesis using amap_stored [OF assms(1)] Some by simp
qed

lemma insert_room:
  assumes "mwf m" and "i \<noteq> INVALID_ID" and "i \<notin> ids (mslots m)"
    and "j < msize m" and "j \<notin> used (mslots m)"
  shows "\<exists>m'. map_insert (Suc (Suc k)) m i obj = Inr m' \<and> ins_ok m i obj m' \<and> msize m' = msize m"
proof -
  define s where "s = mainposition m i"
  define q where "q = mainposition m (sid (mslots m ! s))"
  consider "s \<notin> used (mslots m)" | "s \<in> used (mslots m)" "q = s" | "s \<in> used (mslots m)" "q \<noteq> s" by blast
  then show ?thesis
  proof cases
    case 1
    then show ?thesis using insert_fill [OF assms(1-3)] by (simp add: s_def)
  next
    case 2
    then show ?thesis using insert_link [OF assms(1-3) s_def] find_free_room [OF assms(1,4,5)]
      by (metis q_def)
  next
    case 3
    let ?t = "sid (mslots m ! s)"
    obtain lst m' where fp: "find_prev (msize m) m s q = Inr lst"
      and m': "m' = m\<lparr>mslots := (mslots m)[lst := (mslots m ! lst)\<lparr>snext := snext (mslots m ! s)\<rparr>,
         s := \<lparr>sid = i, sobj = Some obj, snext = None\<rparr>]\<rparr>"
      and wf: "mwf m'" and am: "amap m' = (amap m)(?t := None, i \<mapsto> obj)"
      and us: "used (mslots m') = used (mslots m)" and id: "ids (mslots m') = insert i (ids (mslots m) - {?t})"
      and qu: "q \<in> used (mslots m)" "mainposition m (sid (mslots m' ! q)) = q"
      using insert_unlink [OF assms(1-3) s_def 3(1) q_def 3(2)] .
    have s: "s < length (mslots m)" "?t \<noteq> INVALID_ID" "?t \<in> ids (mslots m)" using 3(1) by (auto simp: used_def)
    then have ti: "?t \<noteq> i" "?t \<notin> ids (mslots m')" using assms(3) id by auto
    have eq: "map_insert (Suc (Suc k)) m i obj =
        (case sobj (mslots m ! s) of None \<Rightarrow> Inr m' | Some t \<Rightarrow> map_insert (Suc k) m' ?t t)"
      using fp s(1,2) 3(2) unfolding map_insert.simps(2) [of "Suc k"] Let_def s_def [symmetric]
      by (simp add: slot_at_def q_def [symmetric] m' [symmetric] del: map_insert.simps split: option.split)
    have old: "amap m ?t = sobj (mslots m ! s)" using stored_slot [OF assms(1) 3(1)] .
    show ?thesis
    proof (cases "sobj (mslots m ! s)")
      case None
      then have "ins_ok m i obj m'" using wf am us id old ti by (auto simp: ins_ok_def fun_eq_iff)
      then show ?thesis using eq None m' by simp
    next
      case (Some t)
      have mp: "mainposition m' = mainposition m" "msize m' = msize m" by (simp_all add: m' mainposition_def fun_eq_iff)
      obtain f n where ff: "find_free (mslots m') (mlastfree m') = (Some f, n)"
        using find_free_room [OF wf, of j] assms(4,5) us mp by auto
      obtain m2 where m2: "map_insert (Suc k) m' ?t t = Inr m2" "ins_ok m' ?t t m2" "msize m2 = msize m'"
        using insert_link [OF wf s(2) ti(2), of q f n k t] ff qu us mp q_def by auto
      have "ids (mslots m2) \<subseteq> insert i (ids (mslots m))"
        using m2(2) id s(3) by (auto simp: ins_ok_def)
      moreover have "amap m2 = (amap m)(i \<mapsto> obj)"
        using m2(2) am old Some ti(1) by (auto simp: ins_ok_def fun_eq_iff)
      ultimately have "ins_ok m i obj m2" using m2(2) us by (simp add: ins_ok_def)
      then show ?thesis using eq Some m2 mp by simp
    qed
  qed
qed

declare map_insert.simps [simp del]

lemma map_alloc_empty:
  "used (mslots (map_alloc n)) = {}" "amap (map_alloc n) = (\<lambda>_. None)" "msize (map_alloc n) = n"
  by (auto simp: map_alloc_def used_def free_slot_def amap_def fun_eq_iff find_Some_iff split: option.split)

lemma map_alloc_wf: "mwf (map_alloc (2 ^ k))"
  by (auto simp: mwf_def map_alloc_empty distinct_ids_def chains_def bucket_def) (simp_all add: map_alloc_def)

definition live_distinct :: "'v mslot list \<Rightarrow> bool" where
  "live_distinct = sorted_wrt (\<lambda>s t. sobj s \<noteq> None \<and> sobj t \<noteq> None \<longrightarrow> sid s \<noteq> sid t)"

lemma live_used: "mwf m \<Longrightarrow> j < length (mslots m) \<Longrightarrow> sobj (mslots m ! j) \<noteq> None \<Longrightarrow> j \<in> used (mslots m)"
  by (auto simp: mwf_def free_slot_def)

lemma mwf_live_distinct:
  assumes "mwf m"
  shows "live_distinct (mslots m)"
proof -
  note live = live_used [OF assms]
  have inj: "inj_on (\<lambda>i. sid (mslots m ! i)) (used (mslots m))"
    using assms by (simp add: mwf_def distinct_ids_def)
  have "sid (mslots m ! a) \<noteq> sid (mslots m ! b)"
    if "a < b" "b < length (mslots m)" "sobj (mslots m ! a) \<noteq> None" "sobj (mslots m ! b) \<noteq> None" for a b
    using that live [of a] live [of b] inj_onD [OF inj, of a b] by auto
  then show ?thesis by (auto simp: live_distinct_def sorted_wrt_iff_nth_less)
qed

text \<open>Entries are moved one by one into a table with more slots than entries.\<close>

definition move_slot :: "('v mtab \<Rightarrow> u64 \<Rightarrow> 'v \<Rightarrow> 'v mtab cres) \<Rightarrow> 'v mtab cres \<Rightarrow> 'v mslot \<Rightarrow> 'v mtab cres" where
  "move_slot ins r s = bind_res r (\<lambda>m. case sobj s of None \<Rightarrow> Inr m | Some obj \<Rightarrow> ins m (sid s) obj)"

lemma move_slots:
  assumes "mwf m" and "card (used (mslots m)) + length ss < msize m" and "live_distinct ss"
    and "\<And>s. s \<in> set ss \<Longrightarrow> sobj s \<noteq> None \<Longrightarrow> sid s \<noteq> INVALID_ID \<and> sid s \<notin> ids (mslots m)"
  shows "\<exists>m'. foldl (move_slot (map_insert (Suc (Suc k)))) (Inr m) ss = Inr m' \<and> mwf m' \<and> msize m' = msize m \<and>
    card (used (mslots m')) \<le> card (used (mslots m)) + length ss \<and>
    ids (mslots m') \<subseteq> ids (mslots m) \<union> {sid s |s. s \<in> set ss \<and> sobj s \<noteq> None} \<and>
    (\<forall>i v. amap m' i = Some v \<longleftrightarrow> amap m i = Some v \<or> (\<exists>s \<in> set ss. sid s = i \<and> sobj s = Some v))"
  using assms
proof (induction ss arbitrary: m)
  case (Cons s ss)
  show ?case
  proof (cases "sobj s")
    case None
    with Cons.IH [of m] Cons.prems show ?thesis by (force simp: move_slot_def live_distinct_def)
  next
    case (Some v)
    have "\<exists>j < msize m. j \<notin> used (mslots m)"
    proof (rule ccontr)
      assume "\<not> ?thesis"
      then have "{..<msize m} \<subseteq> used (mslots m)" by auto
      from card_mono [OF _ this] Cons.prems(2) show False by simp
    qed
    moreover have s: "sid s \<noteq> INVALID_ID" "sid s \<notin> ids (mslots m)" using Cons.prems(4) [of s] Some by auto
    ultimately obtain m1 where m1: "map_insert (Suc (Suc k)) m (sid s) v = Inr m1" "ins_ok m (sid s) v m1" "msize m1 = msize m"
      using insert_room [OF Cons.prems(1)] by blast
    have a1: "mwf m1" "amap m1 = (amap m)(sid s \<mapsto> v)" "ids (mslots m1) \<subseteq> insert (sid s) (ids (mslots m))"
      "card (used (mslots m1)) \<le> Suc (card (used (mslots m)))" using m1(2) by (simp_all add: ins_ok_def)
    have "\<exists>m'. foldl (move_slot (map_insert (Suc (Suc k)))) (Inr m1) ss = Inr m' \<and> mwf m' \<and> msize m' = msize m1 \<and>
        card (used (mslots m')) \<le> card (used (mslots m1)) + length ss \<and>
        ids (mslots m') \<subseteq> ids (mslots m1) \<union> {sid s |s. s \<in> set ss \<and> sobj s \<noteq> None} \<and>
        (\<forall>i v. amap m' i = Some v \<longleftrightarrow> amap m1 i = Some v \<or> (\<exists>s \<in> set ss. sid s = i \<and> sobj s = Some v))"
    proof (rule Cons.IH [OF a1(1)])
      show "card (used (mslots m1)) + length ss < msize m1" using Cons.prems(2) a1(4) m1(3) by simp
      show "live_distinct ss" using Cons.prems(3) by (simp add: live_distinct_def)
      fix t assume t: "t \<in> set ss" "sobj t \<noteq> None"
      have "sid t \<noteq> sid s" using t Cons.prems(3) Some by (auto simp: live_distinct_def)
      moreover have "sid t \<noteq> INVALID_ID" "sid t \<notin> ids (mslots m)" using t Cons.prems(4) [of t] by auto
      ultimately show "sid t \<noteq> INVALID_ID \<and> sid t \<notin> ids (mslots m1)" using a1(3) by blast
    qed
    then obtain m' where m': "foldl (move_slot (map_insert (Suc (Suc k)))) (Inr m1) ss = Inr m'" "mwf m'" "msize m' = msize m1"
        "card (used (mslots m')) \<le> card (used (mslots m1)) + length ss"
        "ids (mslots m') \<subseteq> ids (mslots m1) \<union> {sid s |s. s \<in> set ss \<and> sobj s \<noteq> None}"
        "\<And>i v. amap m' i = Some v \<longleftrightarrow> amap m1 i = Some v \<or> (\<exists>s \<in> set ss. sid s = i \<and> sobj s = Some v)"
      by blast
    have "foldl (move_slot (map_insert (Suc (Suc k)))) (Inr m) (s # ss) = Inr m'"
      using m1(1) m'(1) Some by (simp add: move_slot_def)
    moreover have "ids (mslots m') \<subseteq> ids (mslots m) \<union> {sid t |t. t \<in> set (s # ss) \<and> sobj t \<noteq> None}"
    proof -
      have sub: "A \<subseteq> C \<union> E" if "A \<subseteq> B \<union> D" "B \<subseteq> insert x C" "insert x D \<subseteq> E" for A B C D E :: "u64 set" and x
        using that by blast
      show ?thesis by (rule sub [OF m'(5) a1(3)]) (use Some in auto)
    qed
    moreover have "amap m' i = Some w \<longleftrightarrow> amap m i = Some w \<or> (\<exists>t \<in> set (s # ss). sid t = i \<and> sobj t = Some w)" for i w
      using amap_None [OF Cons.prems(1) s(2)] Some unfolding m'(6) a1(2) by auto
    moreover have "card (used (mslots m')) \<le> card (used (mslots m)) + length (s # ss)" using m'(4) a1(4) by simp
    ultimately show ?thesis using m'(2,3) m1(3) by (intro exI [of _ m'] conjI allI) (simp_all only:)
  qed
qed simp

lemma rehash_ok:
  assumes "mwf m"
  shows "\<exists>m'. rehash (map_insert (Suc (Suc k))) (m\<lparr>mlastfree := n\<rparr>) = Inr m' \<and> mwf m' \<and> amap m' = amap m \<and>
    msize m' = 2 * msize m \<and> card (used (mslots m')) \<le> msize m \<and> ids (mslots m') \<subseteq> ids (mslots m)"
proof -
  obtain j where j: "msize m = 2 ^ j" "length (mslots m) = 2 ^ j" using assms by (auto simp: mwf_def)
  let ?m0 = "map_alloc (2 ^ Suc j) :: 'a mtab"
  have live: "s \<in> set (mslots m) \<Longrightarrow> sobj s \<noteq> None \<Longrightarrow> sid s \<noteq> INVALID_ID \<and> sid s \<in> ids (mslots m)" for s
    using assms by (auto simp: mwf_def in_set_conv_nth used_def free_slot_def)
  have "\<exists>m'. foldl (move_slot (map_insert (Suc (Suc k)))) (Inr ?m0) (mslots m) = Inr m' \<and> mwf m' \<and> msize m' = msize ?m0 \<and>
    card (used (mslots m')) \<le> card (used (mslots ?m0)) + length (mslots m) \<and>
    ids (mslots m') \<subseteq> ids (mslots ?m0) \<union> {sid s |s. s \<in> set (mslots m) \<and> sobj s \<noteq> None} \<and>
    (\<forall>i v. amap m' i = Some v \<longleftrightarrow> amap ?m0 i = Some v \<or> (\<exists>s \<in> set (mslots m). sid s = i \<and> sobj s = Some v))"
    by (rule move_slots [OF map_alloc_wf]) (use live j mwf_live_distinct [OF assms] in \<open>auto simp: map_alloc_empty\<close>)
  then obtain m' where m': "foldl (move_slot (map_insert (Suc (Suc k)))) (Inr ?m0) (mslots m) = Inr m'" "mwf m'"
    "msize m' = 2 * msize m" "card (used (mslots m')) \<le> msize m"
    "ids (mslots m') \<subseteq> {sid s |s. s \<in> set (mslots m) \<and> sobj s \<noteq> None}"
    "\<And>i v. amap m' i = Some v \<longleftrightarrow> (\<exists>s \<in> set (mslots m). sid s = i \<and> sobj s = Some v)"
    using j by (auto simp: map_alloc_empty)
  have "(\<exists>s \<in> set (mslots m). sid s = i \<and> sobj s = Some v) \<longleftrightarrow> stored (mslots m) i v" for i v
    using assms by (fastforce simp: stored_def in_set_conv_nth used_def mwf_def free_slot_def)
  then have "amap m' = amap m" using m'(6) amap_stored [OF assms] by (intro amap_eqI) simp
  moreover have "rehash (map_insert (Suc (Suc k))) (m\<lparr>mlastfree := n\<rparr>) = Inr m'"
    using m'(1) j unfolding rehash_def move_slot_def by simp
  moreover have "ids (mslots m') \<subseteq> ids (mslots m)" using m'(5) live by auto
  ultimately show ?thesis using m'(2-4) by blast
qed

lemma insert_full_head:
  assumes "mwf m" and "i \<noteq> INVALID_ID" and "i \<notin> ids (mslots m)"
    and "s = mainposition m i" and "s \<in> used (mslots m)" and "mainposition m (sid (mslots m ! s)) = s"
    and "\<And>j. j < msize m \<Longrightarrow> j \<in> used (mslots m)"
  shows "\<exists>m'. map_insert (Suc (Suc (Suc k))) m i obj = Inr m' \<and> mwf m' \<and> amap m' = (amap m)(i \<mapsto> obj)"
proof -
  have len: "mlastfree m \<le> length (mslots m)" "length (mslots m) = msize m" "0 < msize m"
    using assms(1) by (auto simp: mwf_def)
  obtain r n where r: "find_free (mslots m) (mlastfree m) = (r, n)" by fastforce
  have "r = None"
  proof (cases r)
    case (Some f)
    then show ?thesis using find_free_spec(2) [OF r len(1)] assms(7) len by auto
  qed
  from rehash_ok [OF assms(1), of k n] obtain m1 where m1:
    "rehash (map_insert (Suc (Suc k))) (m\<lparr>mlastfree := n\<rparr>) = Inr m1" "mwf m1" "amap m1 = amap m"
    "msize m1 = 2 * msize m" "card (used (mslots m1)) \<le> msize m" "ids (mslots m1) \<subseteq> ids (mslots m)" by blast
  have "\<exists>j < msize m1. j \<notin> used (mslots m1)"
  proof (rule ccontr)
    assume "\<not> ?thesis"
    then have "{..<msize m1} \<subseteq> used (mslots m1)" by auto
    from card_mono [OF _ this] m1(4,5) len(3) show False by simp
  qed
  then obtain m' where "map_insert (Suc (Suc k)) m1 i obj = Inr m'" "ins_ok m1 i obj m'"
    using insert_room [OF m1(2) assms(2)] assms(3) m1(6) by blast
  moreover have "map_insert (Suc (Suc (Suc k))) m i obj = map_insert (Suc (Suc k)) m1 i obj"
    using assms(4-6) r \<open>r = None\<close> m1(1) unfolding map_insert.simps(2) [of "Suc (Suc k)"]
    by (simp add: Let_def slot_at_def used_def)
  ultimately show ?thesis using m1(3) by (auto simp: ins_ok_def)
qed

lemma map_insert_ok:
  assumes "mwf m" and "i \<noteq> INVALID_ID" and "i \<notin> ids (mslots m)"
  shows "\<exists>m'. map_insert map_fuel m i obj = Inr m' \<and> mwf m' \<and> amap m' = (amap m)(i \<mapsto> obj)"
proof (cases "\<exists>j < msize m. j \<notin> used (mslots m)")
  case True
  then obtain m' where "map_insert (Suc (Suc (Suc (Suc 0)))) m i obj = Inr m'" "ins_ok m i obj m'"
    using insert_room [OF assms, of _ "Suc (Suc 0)"] by blast
  then show ?thesis by (auto simp: map_fuel_def eval_nat_numeral ins_ok_def)
next
  case False
  then have full: "\<And>j. j < msize m \<Longrightarrow> j \<in> used (mslots m)" by blast
  define s where "s = mainposition m i"
  define q where "q = mainposition m (sid (mslots m ! s))"
  have su: "s \<in> used (mslots m)" using full mwf_position [OF assms(1)] by (simp add: s_def)
  show ?thesis
  proof (cases "q = s")
    case True
    then show ?thesis using insert_full_head [OF assms s_def su, of "Suc 0"] full
      by (simp add: q_def map_fuel_def eval_nat_numeral)
  next
    case False
    let ?t = "sid (mslots m ! s)"
    obtain lst m' where fp: "find_prev (msize m) m s q = Inr lst"
      and m': "m' = m\<lparr>mslots := (mslots m)[lst := (mslots m ! lst)\<lparr>snext := snext (mslots m ! s)\<rparr>,
         s := \<lparr>sid = i, sobj = Some obj, snext = None\<rparr>]\<rparr>"
      and wf: "mwf m'" and am: "amap m' = (amap m)(?t := None, i \<mapsto> obj)"
      and us: "used (mslots m') = used (mslots m)" and id: "ids (mslots m') = insert i (ids (mslots m) - {?t})"
      and qu: "q \<in> used (mslots m)" "mainposition m (sid (mslots m' ! q)) = q"
      using insert_unlink [OF assms s_def su q_def False] .
    have s: "s < length (mslots m)" "?t \<noteq> INVALID_ID" "?t \<in> ids (mslots m)" using su by (auto simp: used_def)
    then have ti: "?t \<noteq> i" "?t \<notin> ids (mslots m')" using assms(3) id by auto
    have eq: "map_insert map_fuel m i obj =
        (case sobj (mslots m ! s) of None \<Rightarrow> Inr m' | Some t \<Rightarrow> map_insert (Suc (Suc (Suc 0))) m' ?t t)"
    proof -
      have "map_insert map_fuel m i obj = map_insert (Suc (Suc (Suc (Suc 0)))) m i obj"
        by (simp add: map_fuel_def eval_nat_numeral)
      then show ?thesis using fp s(1,2) False
        unfolding map_insert.simps(2) [of "Suc (Suc (Suc 0))"] Let_def s_def [symmetric]
        by (simp add: slot_at_def q_def [symmetric] m' [symmetric] split: option.split)
    qed
    have old: "amap m ?t = sobj (mslots m ! s)" using stored_slot [OF assms(1) su] .
    show ?thesis
    proof (cases "sobj (mslots m ! s)")
      case None
      then show ?thesis using eq wf am old ti by (auto simp: fun_eq_iff)
    next
      case (Some t)
      have mp: "mainposition m' = mainposition m" "msize m' = msize m" by (simp_all add: m' mainposition_def fun_eq_iff)
      obtain m2 where "map_insert (Suc (Suc (Suc 0))) m' ?t t = Inr m2" "mwf m2" "amap m2 = (amap m')(?t \<mapsto> t)"
        using insert_full_head [OF wf s(2) ti(2), of q 0 t] qu us mp q_def full by auto
      then show ?thesis using eq am old Some ti(1) by (auto simp: fun_eq_iff)
    qed
  qed
qed

section \<open>The table as a map\<close>

lemma map_new_wf: "mwf map_new" and map_new_empty: "amap map_new = (\<lambda>_. None)"
  using map_alloc_wf [of 4] by (simp_all add: map_new_def PRE_ALLOC_def map_alloc_empty)

lemma set_obj:
  fixes m :: "'v mtab" and v :: "'v option"
  assumes "mwf m" and "s \<in> used (mslots m)"
  defines "m' \<equiv> m\<lparr>mslots := (mslots m)[s := (mslots m ! s)\<lparr>sobj := v\<rparr>]\<rparr>"
  shows "mwf m'" and "amap m' = (amap m)(sid (mslots m ! s) := v)"
proof -
  let ?sl = "mslots m" and ?x = "(mslots m ! s)\<lparr>sobj := v\<rparr>"
  have s: "s < length ?sl" "sid (?sl ! s) \<noteq> INVALID_ID" using assms(2) by (auto simp: used_def)
  have sid: "sid (?sl[s := ?x] ! j) = sid (?sl ! j)" "snext (?sl[s := ?x] ! j) = snext (?sl ! j)" for j
    using s by (cases "j = s"; simp)+
  have u: "used (?sl[s := ?x]) = used ?sl" by (simp add: used_def sid)
  have b: "bucket h (?sl[s := ?x]) p = bucket h ?sl p" for h p by (simp add: bucket_def u sid)
  have "path (?sl[s := ?x]) nx xs \<longleftrightarrow> path ?sl nx xs" for nx xs
    by (induction xs arbitrary: nx) (simp_all add: sid)
  then have "chains (mainposition m) (?sl[s := ?x])" "distinct_ids (?sl[s := ?x])"
    using assms(1) by (simp_all add: chains_def distinct_ids_def b u sid mwf_def)
  moreover have "?sl[s := ?x] ! j = ?sl ! j" if "j \<notin> used ?sl" for j using that assms(2) by (metis nth_list_update_neq)
  ultimately show wf: "mwf m'" using assms(1) u unfolding m'_def
    by (intro mwf_updateI [OF assms(1)]) (auto simp: mwf_def)
  have one: "j = s" if "j \<in> used ?sl" "sid (?sl ! j) = sid (?sl ! s)" for j
    using that assms(1,2) by (auto simp: mwf_def distinct_ids_def dest: inj_onD)
  have "stored (?sl[s := ?x]) i w \<longleftrightarrow> (if i = sid (?sl ! s) then v = Some w else stored ?sl i w)" for i w
    unfolding stored_def u sid using assms(2) s one by (auto simp: nth_list_update)
  then show "amap m' = (amap m)(sid (?sl ! s) := v)"
    using amap_stored [OF wf] amap_stored [OF assms(1)] by (intro amap_eqI) (simp add: m'_def)
qed

lemma map_query_hit:
  assumes "mwf m" and "i \<noteq> INVALID_ID" and "amap m i = Some v"
  shows "map_query m i new = Inr (v, False, m)"
proof -
  obtain r where r: "map_walk (msize m) m i (mainposition m i) = Inr r"
    "case r of None \<Rightarrow> i \<notin> ids (mslots m) | Some j \<Rightarrow> j \<in> used (mslots m) \<and> sid (mslots m ! j) = i"
    using map_walk_spec [OF assms(1,2)] by blast
  then obtain j where "r = Some j" "j \<in> used (mslots m)" "sid (mslots m ! j) = i"
    using amap_None [OF assms(1)] assms(3) by (cases r) auto
  then show ?thesis using r(1) stored_slot [OF assms(1)] assms(3) by (auto simp: map_query_def)
qed

lemma map_query_miss:
  assumes "mwf m" and "i \<noteq> INVALID_ID" and "amap m i = None"
  shows "\<exists>m'. map_query m i new = Inr (new, True, m') \<and> mwf m' \<and> amap m' = (amap m)(i \<mapsto> new)"
proof -
  obtain r where r: "map_walk (msize m) m i (mainposition m i) = Inr r"
    "case r of None \<Rightarrow> i \<notin> ids (mslots m) | Some j \<Rightarrow> j \<in> used (mslots m) \<and> sid (mslots m ! j) = i"
    using map_walk_spec [OF assms(1,2)] by blast
  show ?thesis
  proof (cases r)
    case None
    with r map_insert_ok [OF assms(1,2), of new] show ?thesis by (auto simp: map_query_def)
  next
    case (Some j)
    with r have j: "j \<in> used (mslots m)" "sid (mslots m ! j) = i" by auto
    then have "sobj (mslots m ! j) = None" using stored_slot [OF assms(1) j(1)] assms(3) by simp
    with r(1) Some set_obj [OF assms(1) j(1), of "Some new"] j(2) show ?thesis by (simp add: map_query_def)
  qed
qed

lemma map_drop_ok:
  assumes "mwf m" and "i \<noteq> INVALID_ID"
  shows "\<exists>m'. map_drop m i = Inr (amap m i, m') \<and> mwf m' \<and> amap m' = (amap m)(i := None)"
proof -
  obtain r where r: "map_walk (msize m) m i (mainposition m i) = Inr r"
    "case r of None \<Rightarrow> i \<notin> ids (mslots m) | Some j \<Rightarrow> j \<in> used (mslots m) \<and> sid (mslots m ! j) = i"
    using map_walk_spec [OF assms] by blast
  show ?thesis
  proof (cases r)
    case None
    then have "amap m i = None" using r(2) amap_None [OF assms(1)] by simp
    moreover from this have "amap m = (amap m)(i := None)" by auto
    ultimately show ?thesis using r(1) None assms(1) by (auto simp: map_drop_def)
  next
    case (Some j)
    with r have j: "j \<in> used (mslots m)" "sid (mslots m ! j) = i" by auto
    with r(1) Some set_obj [OF assms(1) j(1), of None] stored_slot [OF assms(1) j(1)] show ?thesis
      by (simp add: map_drop_def)
  qed
qed

text \<open>The objects in the order of the slots, which is the order \<open>map_foreach\<close> visits them in.\<close>

definition map_objs :: "'v mtab \<Rightarrow> 'v list" where
  "map_objs m = List.map_filter sobj (mslots m)"

lemma map_foreach_objs:
  "map_foreach m f st = foldl (\<lambda>r obj. bind_res r (f obj)) (Inr st) (map_objs m)"
proof -
  have "foldl (\<lambda>r s. bind_res r (\<lambda>st. case sobj s of None \<Rightarrow> Inr st | Some obj \<Rightarrow> f obj st)) r ss =
      foldl (\<lambda>r obj. bind_res r (f obj)) r (List.map_filter sobj ss)" for r ss
  proof (induction ss arbitrary: r)
    case (Cons s ss)
    have "bind_res r Inr = r" by (cases r) auto
    with Cons show ?case by (cases "sobj s") (simp_all add: List.map_filter_def)
  qed (simp add: List.map_filter_def)
  then show ?thesis by (simp add: map_foreach_def map_objs_def)
qed

lemma set_map_objs:
  assumes "mwf m"
  shows "set (map_objs m) = ran (amap m)"
proof -
  have "v \<in> set (map_objs m) \<longleftrightarrow> (\<exists>j < length (mslots m). sobj (mslots m ! j) = Some v)" for v
    by (auto simp: map_objs_def List.map_filter_def image_iff in_set_conv_nth)
  moreover have "(\<exists>j < length (mslots m). sobj (mslots m ! j) = Some v) \<longleftrightarrow> (\<exists>i. stored (mslots m) i v)" for v
    using assms by (fastforce simp: stored_def mwf_def used_def free_slot_def)
  ultimately show ?thesis using amap_stored [OF assms] by (auto simp: ran_def)
qed

lemma distinct_map_objs:
  assumes "mwf m" and "inj_on (amap m) (dom (amap m))"
  shows "distinct (map_objs m)"
proof -
  have live: "amap m (sid s) = sobj s" if "s \<in> set (mslots m)" "sobj s \<noteq> None" for s
    using that stored_slot [OF assms(1) live_used [OF assms(1)]] by (auto simp: in_set_conv_nth)
  have "distinct (List.map_filter sobj ss)" if "live_distinct ss" "set ss \<subseteq> set (mslots m)" for ss
    using that
  proof (induction ss)
    case (Cons s ss)
    show ?case
    proof (cases "sobj s")
      case (Some v)
      have "v \<notin> set (List.map_filter sobj ss)"
      proof
        assume "v \<in> set (List.map_filter sobj ss)"
        then obtain t where t: "t \<in> set ss" "sobj t = Some v" by (auto simp: List.map_filter_def)
        then have "amap m (sid s) = Some v" "amap m (sid t) = Some v" using live [of s] live [of t] Some Cons.prems by auto
        then have "sid s = sid t" using inj_onD [OF assms(2)] by (metis domI)
        then show False using Cons.prems(1) t Some by (auto simp: live_distinct_def)
      qed
      with Some Cons show ?thesis by (simp add: List.map_filter_def live_distinct_def)
    qed (use Cons in \<open>simp add: List.map_filter_def live_distinct_def\<close>)
  qed (simp add: List.map_filter_def)
  then show ?thesis using mwf_live_distinct [OF assms(1)] by (simp add: map_objs_def)
qed

section \<open>The interface\<close>

text \<open>
  What the rest of the library relies on: a finite map from ids to object pointers, with the
  two operations that change it. An object table is linked with a heap when it holds exactly
  the live objects, each under its own id.
\<close>

definition linked :: "('i \<Rightarrow> 'a option) \<Rightarrow> ('a \<Rightarrow> 'o option) \<Rightarrow> ('o \<Rightarrow> 'i) \<Rightarrow> bool" where
  "linked t h oid \<longleftrightarrow> (\<forall>i a. t i = Some a \<longleftrightarrow> (\<exists>ob. h a = Some ob \<and> oid ob = i))"

lemma linked_inj: "linked t h oid \<Longrightarrow> inj_on t (dom t)"
proof (rule inj_onI)
  fix i j assume "linked t h oid" "i \<in> dom t" "t i = t j"
  then obtain a where "t i = Some a" "t j = Some a" by (auto simp: dom_def)
  with \<open>linked t h oid\<close> have "oid (the (h a)) = i" "oid (the (h a)) = j" by (auto simp: linked_def)
  then show "i = j" by simp
qed

lemma linked_heap: "linked t h oid \<Longrightarrow> h a = Some ob \<Longrightarrow> t (oid ob) = Some a"
  by (auto simp: linked_def)

locale object_table =
  fixes wf :: "'m \<Rightarrow> bool" and lookup :: "'m \<Rightarrow> 'i \<Rightarrow> 'v option" and empty :: 'm
    and query :: "'m \<Rightarrow> 'i \<Rightarrow> 'v \<Rightarrow> ('v \<times> bool \<times> 'm) cres"
    and drop_id :: "'m \<Rightarrow> 'i \<Rightarrow> ('v option \<times> 'm) cres"
    and objs :: "'m \<Rightarrow> 'v list" and ok_id :: "'i \<Rightarrow> bool"
  assumes wf_empty: "wf empty" and lookup_empty: "lookup empty i = None"
    and query_hit: "wf m \<Longrightarrow> ok_id i \<Longrightarrow> lookup m i = Some v \<Longrightarrow> query m i new = Inr (v, False, m)"
    and query_miss: "wf m \<Longrightarrow> ok_id i \<Longrightarrow> lookup m i = None \<Longrightarrow>
      \<exists>m'. query m i new = Inr (new, True, m') \<and> wf m' \<and> lookup m' = (lookup m)(i \<mapsto> new)"
    and drop_ok: "wf m \<Longrightarrow> ok_id i \<Longrightarrow>
      \<exists>m'. drop_id m i = Inr (lookup m i, m') \<and> wf m' \<and> lookup m' = (lookup m)(i := None)"
    and objs_ran: "wf m \<Longrightarrow> set (objs m) = ran (lookup m)"
    and objs_distinct: "wf m \<Longrightarrow> inj_on (lookup m) (dom (lookup m)) \<Longrightarrow> distinct (objs m)"
begin

lemma linked_empty: "linked (lookup empty) (\<lambda>_. None) oid"
  by (simp add: linked_def lookup_empty)

lemma query_linked:
  assumes "wf m" and "linked (lookup m) h oid" and "ok_id i" and "h new = None" and "oid ob = i"
  shows "(\<exists>a x. h a = Some x \<and> oid x = i \<and> query m i new = Inr (a, False, m)) \<or>
    (\<exists>m'. query m i new = Inr (new, True, m') \<and> wf m' \<and> linked (lookup m') (h(new \<mapsto> ob)) oid)"
proof (cases "lookup m i")
  case (Some a)
  then obtain x where "h a = Some x" "oid x = i" using assms(2) by (auto simp: linked_def)
  then show ?thesis using query_hit [OF assms(1,3) Some] by blast
next
  case None
  then have "\<And>a x. h a = Some x \<Longrightarrow> oid x \<noteq> i" using linked_heap [OF assms(2)] by fastforce
  then have "linked ((lookup m)(i \<mapsto> new)) (h(new \<mapsto> ob)) oid"
    using assms(2,4,5) unfolding linked_def by auto
  then show ?thesis using query_miss [OF assms(1,3) None, of new] by auto
qed

lemma drop_linked:
  assumes "wf m" and "linked (lookup m) h oid" and "h a = Some ob" and "ok_id (oid ob)"
  shows "\<exists>m'. drop_id m (oid ob) = Inr (Some a, m') \<and> wf m' \<and> linked (lookup m') (h(a := None)) oid"
proof -
  have a: "lookup m (oid ob) = Some a" using linked_heap [OF assms(2,3)] .
  have one: "b = a" if "h b = Some x" "oid x = oid ob" for b x
    using linked_heap [OF assms(2) that(1)] that(2) a by simp
  have "((lookup m)(oid ob := None)) i = Some b \<longleftrightarrow> (\<exists>x. (h(a := None)) b = Some x \<and> oid x = i)" for i b
  proof (cases "i = oid ob")
    case True
    then show ?thesis using one by auto
  next
    case False
    have "lookup m i = Some b \<longleftrightarrow> (\<exists>x. h b = Some x \<and> oid x = i)" using assms(2) by (simp add: linked_def)
    then show ?thesis using False assms(3) by (cases "b = a") auto
  qed
  then have "linked ((lookup m)(oid ob := None)) (h(a := None)) oid" by (simp only: linked_def) simp
  with a show ?thesis using drop_ok [OF assms(1,4)] by auto
qed

lemma objs_linked:
  assumes "wf m" and "linked (lookup m) h oid"
  shows "set (objs m) = dom h" and "distinct (objs m)"
proof -
  show "set (objs m) = dom h" using objs_ran [OF assms(1)] assms(2) by (auto simp: ran_def dom_def linked_def)
  show "distinct (objs m)" using objs_distinct [OF assms(1) linked_inj [OF assms(2)]] .
qed

end

interpretation map: object_table mwf amap map_new map_query map_drop map_objs "\<lambda>i. i \<noteq> INVALID_ID"
  by unfold_locales
    (auto simp: map_new_wf map_new_empty map_query_hit map_query_miss map_drop_ok set_map_objs distinct_map_objs)

section \<open>Properties\<close>

text \<open>
  C27. On a well-formed table a query returns, with the object stored for the id if there is
  one; otherwise the new object, which is then stored, and nothing else changes. This includes
  the cases in which an entry is moved out of its slot and in which the table is rehashed.
\<close>

theorem map_query_refines:
  assumes "mwf m" and "i \<noteq> INVALID_ID"
  shows "\<exists>m'. map_query m i new = Inr (case amap m i of None \<Rightarrow> new | Some v \<Rightarrow> v, amap m i = None, m') \<and> mwf m' \<and>
    amap m' = (if amap m i = None then (amap m)(i \<mapsto> new) else amap m)"
proof (cases "amap m i")
  case None
  then show ?thesis using map.query_miss [OF assms None, of new] by auto
next
  case (Some v)
  then show ?thesis using map.query_hit [OF assms Some, of new] assms(1) by auto
qed

theorem map_query_refines_witness:
  "\<exists>m'. map_query map_new 5 True = Inr (True, True, m') \<and> amap m' = [5 \<mapsto> True]"
  using map_query_refines [of map_new 5 True] by (auto simp: map_new_wf map_new_empty INVALID_ID_def)

text \<open>
  On a well-formed table a drop returns the object stored for the id, if any, and the table
  afterwards holds everything but that.
\<close>

theorem map_drop_refines:
  assumes "mwf m" and "i \<noteq> INVALID_ID"
  shows "\<exists>m'. map_drop m i = Inr (amap m i, m') \<and> mwf m' \<and> amap m' = (amap m)(i := None)"
  using map.drop_ok [OF assms] .

theorem map_drop_refines_witness:
  "\<exists>m'. map_drop (map_new :: bool mtab) 5 = Inr (None, m') \<and> amap m' 5 = None"
  using map_drop_refines [of "map_new :: bool mtab" 5] by (auto simp: map_new_wf map_new_empty INVALID_ID_def)

end
