(* ===== verification/Float32.thy ===== *)
theory Float32
  imports Prelude
begin

text \<open>
  The C type \<open>float\<close> as the sources use it: IEEE 754 binary32 with rounding to nearest, ties to
  even. A finite number is the integer that counts units of \<open>2 ^ - 149\<close>, the least positive
  number of the format, so that sums and differences are exact before they are rounded. The two
  zeros are one value: no operation modelled here tells them apart.
\<close>

datatype f32 = NaN | PInf | NInf | Fin int

function bitlen :: "int \<Rightarrow> nat" where
  "bitlen n = (if n \<le> 0 then 0 else Suc (bitlen (n div 2)))"
  by pat_completeness auto
termination
  by (relation "measure nat") auto

declare bitlen.simps [simp del]

text \<open>The nearest integer to \<open>a / 2 ^ t\<close>, the even one of two.\<close>

definition round_div :: "int \<Rightarrow> nat \<Rightarrow> int" where
  "round_div a t =
     (let q = a div 2 ^ t; r = a mod 2 ^ t
      in if 2 * r < 2 ^ t then q
         else if 2 ^ t < 2 * r then q + 1
         else if even q then q else q + 1)"

text \<open>The number \<open>a / 2 ^ s\<close> to 24 significant bits.\<close>

definition round_abs :: "int \<Rightarrow> nat \<Rightarrow> int" where
  "round_abs a s = (let g = bitlen a - s - 24 in round_div a (s + g) * 2 ^ g)"

definition f32_limit :: int where "f32_limit = 2 ^ 277"

definition f32_round :: "int \<Rightarrow> nat \<Rightarrow> f32" where
  "f32_round n s =
     (let a = round_abs \<bar>n\<bar> s
      in if a \<ge> f32_limit then (if n < 0 then NInf else PInf)
         else Fin (if n < 0 then - a else a))"

definition f32_of_int :: "int \<Rightarrow> f32" where
  "f32_of_int n = f32_round (n * 2 ^ 149) 0"

fun f32_neg :: "f32 \<Rightarrow> f32" where
  "f32_neg NaN = NaN"
| "f32_neg PInf = NInf"
| "f32_neg NInf = PInf"
| "f32_neg (Fin n) = Fin (- n)"

fun f32_add :: "f32 \<Rightarrow> f32 \<Rightarrow> f32" where
  "f32_add (Fin m) (Fin n) = f32_round (m + n) 0"
| "f32_add NaN y = NaN"
| "f32_add x NaN = NaN"
| "f32_add PInf NInf = NaN"
| "f32_add NInf PInf = NaN"
| "f32_add PInf y = PInf"
| "f32_add NInf y = NInf"
| "f32_add x y = y"

definition f32_sub :: "f32 \<Rightarrow> f32 \<Rightarrow> f32" where
  "f32_sub x y = f32_add x (f32_neg y)"

definition f32_inf :: "bool \<Rightarrow> f32" where
  "f32_inf neg = (if neg then NInf else PInf)"

fun f32_mul :: "f32 \<Rightarrow> f32 \<Rightarrow> f32" where
  "f32_mul (Fin m) (Fin n) = f32_round (m * n) 149"
| "f32_mul NaN y = NaN"
| "f32_mul x NaN = NaN"
| "f32_mul PInf (Fin n) = (if n = 0 then NaN else f32_inf (n < 0))"
| "f32_mul NInf (Fin n) = (if n = 0 then NaN else f32_inf (0 < n))"
| "f32_mul (Fin n) PInf = (if n = 0 then NaN else f32_inf (n < 0))"
| "f32_mul (Fin n) NInf = (if n = 0 then NaN else f32_inf (0 < n))"
| "f32_mul PInf PInf = PInf"
| "f32_mul NInf NInf = PInf"
| "f32_mul PInf NInf = NInf"
| "f32_mul NInf PInf = NInf"

fun f32_lt :: "f32 \<Rightarrow> f32 \<Rightarrow> bool" where
  "f32_lt (Fin m) (Fin n) \<longleftrightarrow> m < n"
| "f32_lt NaN y \<longleftrightarrow> False"
| "f32_lt x NaN \<longleftrightarrow> False"
| "f32_lt PInf y \<longleftrightarrow> False"
| "f32_lt x NInf \<longleftrightarrow> False"
| "f32_lt x y \<longleftrightarrow> True"

definition f32_eq :: "f32 \<Rightarrow> f32 \<Rightarrow> bool" where
  "f32_eq x y \<longleftrightarrow> x \<noteq> NaN \<and> x = y"

text \<open>Conversion to an integer drops the fraction; it is undefined for the other values.\<close>

fun f32_trunc :: "f32 \<Rightarrow> int option" where
  "f32_trunc (Fin n) = Some (if n < 0 then - ((- n) div 2 ^ 149) else n div 2 ^ 149)"
| "f32_trunc x = None"

section \<open>Rounding\<close>

lemma bitlen_le: "n < 2 ^ k \<Longrightarrow> bitlen n \<le> k"
proof (induction n arbitrary: k rule: bitlen.induct)
  case (1 n)
  show ?case
  proof (cases "n \<le> 0")
    case False
    with 1 obtain j where "k = Suc j" by (cases k) auto
    with 1 False have "bitlen (n div 2) \<le> j" by simp
    with False \<open>k = Suc j\<close> show ?thesis by (subst bitlen.simps) simp
  qed (simp add: bitlen.simps)
qed

lemma bitlen_nonpos [simp]: "n \<le> 0 \<Longrightarrow> bitlen n = 0"
  by (simp add: bitlen.simps)

lemma bitlen_pos: "0 < n \<Longrightarrow> bitlen n = Suc (bitlen (n div 2))"
  by (subst bitlen.simps) simp

lemma bitlen_ge: "0 < n \<Longrightarrow> 2 ^ (bitlen n - 1) \<le> n"
proof (induction n rule: bitlen.induct)
  case (1 n)
  show ?case
  proof (cases "n = 1")
    case False
    with 1 have "2 ^ (bitlen (n div 2) - 1) \<le> n div 2" and "0 < n div 2" by auto
    then have "bitlen n = Suc (Suc (bitlen (n div 2) - 1))" using 1(2)
      by (simp add: bitlen_pos [of n] bitlen_pos [of "n div 2"])
    with \<open>2 ^ (bitlen (n div 2) - 1) \<le> n div 2\<close> show ?thesis by simp
  qed (simp add: bitlen_pos)
qed

text \<open>Rounding picks a nearest number, and a number with at most 24 significant bits is kept.\<close>

lemma round_div_nearest: "2 * \<bar>round_div a t * 2 ^ t - a\<bar> \<le> 2 ^ t"
proof -
  define P q r where "P = (2 :: int) ^ t" and "q = a div P" and "r = a mod P"
  have a: "a = q * P + r" and r: "0 \<le> r" "r < P"
    by (simp_all only: P_def q_def r_def div_mult_mod_eq) simp_all
  have "round_div a t = q \<and> 2 * r \<le> P \<or> round_div a t = q + 1 \<and> P \<le> 2 * r"
    by (auto simp: round_div_def Let_def P_def q_def r_def)
  then have "2 * \<bar>round_div a t * P - a\<bar> \<le> P" using r unfolding a by (auto simp: algebra_simps)
  then show ?thesis by (simp only: P_def)
qed

lemma round_div_exact: "round_div (a * 2 ^ t) t = a"
  by (simp add: round_div_def Let_def)

lemma bitlen_mult_power: "0 < a \<Longrightarrow> bitlen (a * 2 ^ k) = bitlen a + k"
proof (induction k)
  case (Suc k)
  have "a * 2 ^ Suc k div 2 = a * 2 ^ k" by simp
  then show ?case using Suc by (subst bitlen.simps) (simp del: power_Suc add: mult_le_0_iff)
qed simp

lemma round_abs_exact:
  assumes "a < 2 ^ 24" and "0 \<le> a"
  shows "round_abs (a * 2 ^ (k + s)) s = a * 2 ^ k"
proof (cases "a = 0")
  case False
  define g where "g = bitlen (a * 2 ^ (k + s)) - s - 24"
  have "g \<le> k" using False assms bitlen_le [of a 24] by (simp add: g_def bitlen_mult_power)
  then have "a * 2 ^ (k + s) = a * 2 ^ (k - g) * 2 ^ (s + g)"
    by (simp add: mult.assoc flip: power_add)
  then have "round_div (a * 2 ^ (k + s)) (s + g) = a * 2 ^ (k - g)" by (simp only: round_div_exact)
  with \<open>g \<le> k\<close> show ?thesis unfolding round_abs_def Let_def g_def [symmetric]
    by (simp add: mult.assoc flip: power_add)
qed (simp add: round_abs_def round_div_def Let_def)

lemma round_abs_nonneg: "0 \<le> a \<Longrightarrow> 0 \<le> round_abs a s"
  by (simp add: round_abs_def round_div_def Let_def pos_imp_zdiv_nonneg_iff)

lemma f32_round_exact:
  assumes "\<bar>n\<bar> < 2 ^ 24" and "k \<le> 253"
  shows "f32_round (n * 2 ^ (k + s)) s = Fin (n * 2 ^ k)"
proof -
  have "\<bar>n * 2 ^ (k + s)\<bar> = \<bar>n\<bar> * 2 ^ (k + s)" by (simp add: abs_mult)
  then have *: "round_abs \<bar>n * 2 ^ (k + s)\<bar> s = \<bar>n\<bar> * 2 ^ k" using round_abs_exact [OF assms(1)] by simp
  have "\<bar>n\<bar> * 2 ^ k < 2 ^ 24 * 2 ^ k" using assms(1) by (rule mult_strict_right_mono) simp
  also have "(2 :: int) ^ 24 * 2 ^ k \<le> f32_limit"
    using assms(2) unfolding f32_limit_def power_add [symmetric] by (intro power_increasing) auto
  finally have "\<not> \<bar>n\<bar> * 2 ^ k \<ge> f32_limit" by simp
  moreover have "n * 2 ^ (k + s) < 0 \<longleftrightarrow> n < 0" by (simp add: mult_less_0_iff)
  ultimately show ?thesis unfolding f32_round_def Let_def * by simp
qed

section \<open>Integers and signs\<close>

text \<open>The integers below \<open>2 ^ 24\<close> are numbers of the format and arithmetic on them is exact.\<close>

definition fi :: "int \<Rightarrow> f32" where "fi n = Fin (n * 2 ^ 149)"

lemma fi_eq_iff [simp]: "fi m = fi n \<longleftrightarrow> m = n"
  by (simp add: fi_def)

lemma f32_of_int_exact: "\<bar>n\<bar> < 2 ^ 24 \<Longrightarrow> f32_of_int n = fi n"
  using f32_round_exact [of n 149 0] by (simp add: f32_of_int_def fi_def)

lemma f32_add_fi: "\<bar>m + n\<bar> < 2 ^ 24 \<Longrightarrow> f32_add (fi m) (fi n) = fi (m + n)"
  using f32_round_exact [of "m + n" 149 0] by (simp add: fi_def distrib_right)

lemma f32_sub_fi: "\<bar>m - n\<bar> < 2 ^ 24 \<Longrightarrow> f32_sub (fi m) (fi n) = fi (m - n)"
  using f32_add_fi [of m "- n"] by (simp add: f32_sub_def fi_def)

lemma f32_mul_fi: "\<bar>m * n\<bar> < 2 ^ 24 \<Longrightarrow> f32_mul (fi m) (fi n) = fi (m * n)"
  using f32_round_exact [of "m * n" 149 149] by (simp add: fi_def power_add mult_ac)

lemma f32_lt_fi: "f32_lt (fi m) (fi n) \<longleftrightarrow> m < n"
  by (simp add: fi_def)

lemmas f32_fi = f32_of_int_exact f32_add_fi f32_sub_fi f32_mul_fi f32_lt_fi

lemma f32_add_commute: "f32_add x y = f32_add y x"
  by (cases x; cases y) (simp_all add: add.commute)

lemma f32_mul_commute: "f32_mul x y = f32_mul y x"
  by (cases x; cases y) (simp_all add: mult.commute)

lemma f32_round_neg: "n \<noteq> 0 \<Longrightarrow> f32_round (- n) s = f32_neg (f32_round n s)"
  by (auto simp: f32_round_def Let_def not_less)

lemma f32_round_zero [simp]: "f32_round 0 s = Fin 0"
  by (simp add: f32_round_def round_abs_def round_div_def Let_def f32_limit_def)

lemma f32_sub_swap: "f32_sub y x = f32_neg (f32_sub x y)"
proof (cases "\<exists>m n. x = Fin m \<and> y = Fin n")
  case True
  then obtain m n where "x = Fin m" "y = Fin n" by blast
  then show ?thesis using f32_round_neg [of "m - n" 0] by (cases "m = n") (simp_all add: f32_sub_def)
qed (cases x; cases y; auto simp: f32_sub_def)

lemma f32_mul_neg: "f32_mul (f32_neg x) (f32_neg y) = f32_mul x y"
  by (cases x; cases y) (auto simp: f32_inf_def)

definition f32_nonneg :: "f32 \<Rightarrow> bool" where
  "f32_nonneg x \<longleftrightarrow> \<not> f32_lt x (Fin 0)"

lemma f32_nonneg_simps [simp]:
  "f32_nonneg NaN" "f32_nonneg PInf" "\<not> f32_nonneg NInf" "f32_nonneg (Fin n) \<longleftrightarrow> 0 \<le> n"
  by (auto simp: f32_nonneg_def)

lemma f32_nonneg_round: "0 \<le> n \<Longrightarrow> f32_nonneg (f32_round n s)"
  by (auto simp: f32_round_def Let_def round_abs_nonneg)

lemma f32_nonneg_square: "f32_nonneg (f32_mul x x)"
  by (cases x) (auto intro: f32_nonneg_round)

lemma f32_nonneg_add: "f32_nonneg x \<Longrightarrow> f32_nonneg y \<Longrightarrow> f32_nonneg (f32_add x y)"
  by (cases x; cases y) (auto intro: f32_nonneg_round)

text \<open>Rounding to 24 bits moves a number by at most half of itself.\<close>

lemma round_abs_near: "0 \<le> a \<Longrightarrow> 2 * \<bar>round_abs a 0 - a\<bar> \<le> a"
proof -
  assume a: "0 \<le> a"
  define g where "g = bitlen a - 24"
  have near: "2 * \<bar>round_abs a 0 - a\<bar> \<le> 2 ^ g"
    using round_div_nearest [of a g] by (simp add: round_abs_def g_def Let_def)
  show ?thesis
  proof (cases "g = 0")
    case True
    then have "round_abs a 0 = a" by (simp add: round_abs_def g_def Let_def round_div_def)
    with a show ?thesis by simp
  next
    case False
    then have "0 < a" using a by (cases "a = 0") (auto simp: g_def)
    have "(2 :: int) ^ g \<le> 2 ^ (bitlen a - 1)" by (intro power_increasing) (auto simp: g_def)
    with bitlen_ge [OF \<open>0 < a\<close>] near show ?thesis by linarith
  qed
qed

section \<open>Sums of numbers that are not negative\<close>

text \<open>The integers that are numbers of the format.\<close>

definition f32_rep :: "int \<Rightarrow> bool" where
  "f32_rep m \<longleftrightarrow> (\<exists>q k. 0 \<le> q \<and> q < 2 ^ 24 \<and> m = q * 2 ^ k)"

lemma f32_rep_power: "f32_rep (2 ^ k)"
  unfolding f32_rep_def by (intro exI [of _ 1] exI [of _ k]) simp

lemma int_le_div: "0 < p \<Longrightarrow> n * p \<le> a \<Longrightarrow> n \<le> a div p" for p :: int
  using zdiv_mono1 [of "n * p" a p] by simp

lemma int_div_less: "0 < p \<Longrightarrow> a < n * p \<Longrightarrow> a div p < n" for p :: int
proof -
  assume p: "0 < p" "a < n * p"
  have "a div p * p \<le> a" using p(1) by (metis div_mult_mod_eq le_add_same_cancel1 pos_mod_sign)
  then have "a div p * p < n * p" using p(2) by simp
  then show ?thesis using p(1) by (simp add: mult_less_cancel_right_pos)
qed

lemma bitlen_gt: "n < 2 ^ bitlen n"
proof (induction n rule: bitlen.induct)
  case (1 n)
  then show ?case by (cases "n \<le> 0") (auto simp: bitlen_pos)
qed

lemma round_div_bounds: "a div 2 ^ t \<le> round_div a t" "round_div a t \<le> a div 2 ^ t + 1"
  by (auto simp: round_div_def Let_def)

lemma f32_rep_round:
  assumes "0 \<le> a"
  shows "f32_rep (round_abs a 0)"
proof -
  define g where "g = bitlen a - 24"
  define q where "q = round_div a g"
  have "0 \<le> q" using round_div_bounds(1) [of a g] assms pos_imp_zdiv_nonneg_iff [of "2 ^ g" a] by (simp add: q_def)
  have "(2 :: int) ^ bitlen a \<le> 2 ^ (24 + g)" by (intro power_increasing) (auto simp: g_def)
  then have "a < 2 ^ 24 * 2 ^ g" using bitlen_gt [of a] by (simp add: power_add)
  then have "a div 2 ^ g < 2 ^ 24" by (intro int_div_less) simp_all
  then have "q \<le> 2 ^ 24" using round_div_bounds(2) [of a g] by (simp add: q_def)
  have eq: "round_abs a 0 = q * 2 ^ g" by (simp add: round_abs_def g_def q_def Let_def)
  show ?thesis
  proof (cases "q = 2 ^ 24")
    case True
    then have "round_abs a 0 = 2 ^ (24 + g)" by (simp add: eq power_add)
    then show ?thesis by (simp add: f32_rep_power)
  next
    case False
    then show ?thesis using \<open>0 \<le> q\<close> \<open>q \<le> 2 ^ 24\<close> unfolding f32_rep_def eq
      by (intro exI [of _ q] exI [of _ g]) auto
  qed
qed

text \<open>Rounding does not move a number below a number of the format.\<close>

lemma round_abs_ge:
  assumes "f32_rep m" "m \<le> b"
  shows "m \<le> round_abs b 0"
proof -
  obtain q k where q: "0 \<le> q" "q < 2 ^ 24" "m = q * 2 ^ k" using assms(1) by (auto simp: f32_rep_def)
  then have "0 \<le> b" using assms(2) by (meson order_trans mult_nonneg_nonneg zero_le_numeral zero_le_power)
  define g where "g = bitlen b - 24"
  have eq: "round_abs b 0 = round_div b g * 2 ^ g" by (simp add: round_abs_def g_def Let_def)
  show ?thesis
  proof (cases "g \<le> k")
    case True
    then have m: "m = q * 2 ^ (k - g) * 2 ^ g" using q(3) by (simp add: mult.assoc flip: power_add)
    then have "q * 2 ^ (k - g) \<le> b div 2 ^ g" using assms(2) by (intro int_le_div) simp_all
    then have "q * 2 ^ (k - g) \<le> round_div b g" using round_div_bounds(1) [of b g] by simp
    then show ?thesis unfolding eq m by (intro mult_right_mono) auto
  next
    case False
    then have "0 < b" using \<open>0 \<le> b\<close> by (cases "b = 0") (auto simp: g_def)
    have "bitlen b - 1 = 23 + g" using False by (simp add: g_def)
    then have "2 ^ 23 * 2 ^ g \<le> b" using bitlen_ge [OF \<open>0 < b\<close>] by (simp add: power_add)
    then have "2 ^ 23 \<le> b div 2 ^ g" by (intro int_le_div) simp_all
    then have "2 ^ 23 * 2 ^ g \<le> round_abs b 0" using round_div_bounds(1) [of b g] unfolding eq
      by (intro mult_right_mono) auto
    moreover have "m \<le> 2 ^ 24 * 2 ^ k" using q by (simp add: mult_right_mono)
    moreover have "(2 :: int) ^ 24 * 2 ^ k \<le> 2 ^ 23 * 2 ^ g"
      using False power_increasing [of "24 + k" "23 + g" "2 :: int"] by (simp add: power_add)
    ultimately show ?thesis by linarith
  qed
qed

text \<open>
  A number of the format that is not negative, or not a number; and its place in the order, in
  which infinity comes before not-a-number.
\<close>

fun f32_good :: "f32 \<Rightarrow> bool" where
  "f32_good (Fin m) \<longleftrightarrow> f32_rep m \<and> m < f32_limit"
| "f32_good NInf \<longleftrightarrow> False"
| "f32_good _ \<longleftrightarrow> True"

fun cval :: "f32 \<Rightarrow> nat" where
  "cval (Fin m) = nat m"
| "cval PInf = nat f32_limit"
| "cval NaN = nat f32_limit + 1"
| "cval NInf = 0"

lemma f32_rep_nonneg: "f32_rep m \<Longrightarrow> 0 \<le> m"
  by (auto simp: f32_rep_def)

lemma f32_limit_pos: "0 < f32_limit"
  by (simp add: f32_limit_def)

lemma f32_good_zero: "f32_good (Fin 0)"
  by (auto simp: f32_rep_def f32_limit_def)

lemma f32_add_good:
  assumes "f32_good c" "f32_nonneg e"
  shows "f32_good (f32_add c e)" and "cval c \<le> cval (f32_add c e)"
proof -
  have "f32_good (f32_add c e) \<and> cval c \<le> cval (f32_add c e)"
  proof (cases "\<exists>m n. c = Fin m \<and> e = Fin n")
    case True
    then obtain m n where mn: "c = Fin m" "e = Fin n" by blast
    with assms have *: "f32_rep m" "0 \<le> m" "m < f32_limit" "0 \<le> n" using f32_rep_nonneg by auto
    then have "f32_round (m + n) 0 =
        (if round_abs (m + n) 0 \<ge> f32_limit then PInf else Fin (round_abs (m + n) 0))"
      by (simp add: f32_round_def Let_def)
    moreover have "m \<le> round_abs (m + n) 0" using round_abs_ge [OF *(1)] *(4) by simp
    ultimately show ?thesis using * mn f32_rep_round [of "m + n"] by auto
  next
    case False
    then show ?thesis using assms by (cases c; cases e) (auto simp: f32_limit_pos)
  qed
  then show "f32_good (f32_add c e)" and "cval c \<le> cval (f32_add c e)" by simp_all
qed

lemma cval_less: "f32_good c \<Longrightarrow> f32_good d \<Longrightarrow> f32_lt c d \<Longrightarrow> cval c < cval d"
  using f32_limit_pos by (cases c; cases d) (auto dest!: f32_rep_nonneg)

lemma cval_bound: "f32_good c \<Longrightarrow> cval c \<le> nat f32_limit + 1"
  by (cases c) auto

end
