(* ===== verification/Aoi.thy ===== *)
theory Aoi
  imports Aoi_Map Float32
begin

text \<open>
  The area-of-interest service of \<open>aoi/aoi.c\<close> and the calls \<open>aoi/lua-aoi.c\<close> exports to Lua.
  Objects live in an explicit heap, so that using one after it was freed is a failure of the
  model; a pointer is an address. The pairs of a watcher and a marker are the linked list \<open>hot\<close>
  and, by key, the entries of the uthash table \<open>pair_hash\<close>, which is the list of its keys. The
  notifications of the callback are the list of events an operation returns.
\<close>

section \<open>Data\<close>

type_synonym addr = nat
type_synonym pos = "f32 \<times> f32 \<times> f32"

record aobject =
  ob_ref :: int
  ob_id :: u64
  ob_mode :: u32
  ob_last :: pos
  ob_position :: pos
  ob_tposition :: pos
  ob_last_tpos :: pos
  ob_rtype :: nat
  ob_aoiCount :: int

record object_set =
  set_cap :: nat
  set_slot :: "addr list"

record pair_list =
  p_key :: string
  p_watcher :: addr
  p_marker :: addr

record aoi_space =
  sp_object :: "addr mtab"
  sp_watcher_static :: object_set
  sp_marker_static :: object_set
  sp_watcher_move :: object_set
  sp_marker_move :: object_set
  sp_hot :: "pair_list list"
  sp_aoiMapId :: nat
  sp_maxAoiCount :: nat
  sp_pair_hash :: "string list"
  sp_aoi_radis2 :: f32
  sp_heap :: "addr \<Rightarrow> aobject option"
  sp_brk :: addr

datatype aoi_event = Aoi_cb nat u32 u32 string pos pos nat

definition MODE_WATCHER :: u32 where "MODE_WATCHER = 1"
definition MODE_MARKER :: u32 where "MODE_MARKER = 2"
definition MODE_MOVE :: u32 where "MODE_MOVE = 4"
definition MODE_DROP :: u32 where "MODE_DROP = 8"

abbreviation has_mode :: "aobject \<Rightarrow> u32 \<Rightarrow> bool" where
  "has_mode ob md \<equiv> ob_mode ob AND md \<noteq> 0"

fun DIST2 :: "pos \<Rightarrow> pos \<Rightarrow> f32" where
  "DIST2 (x1, y1, z1) (x2, y2, z2) =
     f32_add (f32_add (f32_mul (f32_sub x1 x2) (f32_sub x1 x2)) (f32_mul (f32_sub y1 y2) (f32_sub y1 y2)))
       (f32_mul (f32_sub z1 z2) (f32_sub z1 z2))"

section \<open>Objects and the heap\<close>

definition deref :: "aoi_space \<Rightarrow> addr \<Rightarrow> aobject cres" where
  "deref sp a = (case sp_heap sp a of None \<Rightarrow> Inl Dangling | Some ob \<Rightarrow> Inr ob)"

definition store :: "addr \<Rightarrow> aobject \<Rightarrow> aoi_space \<Rightarrow> aoi_space" where
  "store a ob sp = sp\<lparr>sp_heap := (sp_heap sp)(a \<mapsto> ob)\<rparr>"

definition new_object :: "u32 \<Rightarrow> aobject" where
  "new_object i = \<lparr>ob_ref = 1, ob_id = ucast i, ob_mode = 0, ob_last = (Fin 0, Fin 0, Fin 0),
     ob_position = (Fin 0, Fin 0, Fin 0), ob_tposition = (Fin 0, Fin 0, Fin 0),
     ob_last_tpos = (Fin 0, Fin 0, Fin 0), ob_rtype = 0, ob_aoiCount = 0\<rparr>"

definition grab_object :: "aobject \<Rightarrow> aobject" where
  "grab_object ob = ob\<lparr>ob_ref := ob_ref ob + 1\<rparr>"

definition delete_object :: "addr \<Rightarrow> aoi_space \<Rightarrow> aoi_space" where
  "delete_object a sp = sp\<lparr>sp_heap := (sp_heap sp)(a := None)\<rparr>"

definition drop_object :: "aoi_space \<Rightarrow> addr \<Rightarrow> aoi_space cres" where
  "drop_object sp a =
     bind_res (deref sp a) (\<lambda>ob.
     let ob = ob\<lparr>ob_ref := ob_ref ob - 1\<rparr>;
         sp = store a ob sp
     in if ob_ref ob \<le> 0
        then bind_res (map_drop (sp_object sp) (ob_id ob)) (\<lambda>(_, m).
             Inr (delete_object a (sp\<lparr>sp_object := m\<rparr>)))
        else Inr sp)"

definition set_new :: object_set where
  "set_new = \<lparr>set_cap = PRE_ALLOC, set_slot = []\<rparr>"

definition aoi_create :: aoi_space where
  "aoi_create = \<lparr>sp_object = map_new, sp_watcher_static = set_new, sp_marker_static = set_new,
     sp_watcher_move = set_new, sp_marker_move = set_new, sp_hot = [], sp_aoiMapId = 0,
     sp_maxAoiCount = 0, sp_pair_hash = [], sp_aoi_radis2 = Fin 0, sp_heap = (\<lambda>_. None), sp_brk = 0\<rparr>"

definition aoi_new :: "f32 \<Rightarrow> aoi_space" where
  "aoi_new radius = aoi_create\<lparr>sp_aoi_radis2 := f32_mul radius radius\<rparr>"

definition aoi_release :: "aoi_space \<Rightarrow> aoi_space cres" where
  "aoi_release sp = map_foreach (sp_object sp) (\<lambda>a sp. bind_res (deref sp a) (\<lambda>_. Inr (delete_object a sp))) sp"

section \<open>Updates\<close>

definition change_mode :: "aobject \<Rightarrow> bool \<Rightarrow> bool \<Rightarrow> aobject \<times> bool" where
  "change_mode ob set_watcher set_marker =
     (if ob_mode ob = 0
      then let md = (if set_watcher then MODE_WATCHER else ob_mode ob);
               md = (if set_marker then md OR MODE_MARKER else md)
           in (ob\<lparr>ob_mode := md\<rparr>, True)
      else let (md, change) =
                 (if set_watcher
                  then if ob_mode ob AND MODE_WATCHER = 0 then (ob_mode ob OR MODE_WATCHER, True) else (ob_mode ob, False)
                  else if ob_mode ob AND MODE_WATCHER \<noteq> 0 then (ob_mode ob AND NOT MODE_WATCHER, True)
                  else (ob_mode ob, False));
               (md, change) =
                 (if set_marker
                  then if md AND MODE_MARKER = 0 then (md OR MODE_MARKER, True) else (md, change)
                  else if md AND MODE_MARKER \<noteq> 0 then (md AND NOT MODE_MARKER, True)
                  else (md, change))
           in (ob\<lparr>ob_mode := md\<rparr>, change))"

definition is_near :: "pos \<Rightarrow> pos \<Rightarrow> bool" where
  "is_near p1 p2 \<longleftrightarrow> f32_lt (DIST2 p1 p2) (Fin 0)"

definition dist2 :: "aobject \<Rightarrow> aobject \<Rightarrow> f32" where
  "dist2 p1 p2 = DIST2 (ob_position p1) (ob_position p2)"

definition grap_move :: "aobject \<Rightarrow> aobject" where
  "grap_move ob = ob\<lparr>ob_mode := ob_mode ob OR MODE_MOVE\<rparr>"

text \<open>The mode string: the two flags, or \<open>None\<close> when the character \<open>d\<close> comes up.\<close>

fun scan_mode :: "string \<Rightarrow> bool \<Rightarrow> bool \<Rightarrow> (bool \<times> bool) option" where
  "scan_mode [] w m = Some (w, m)"
| "scan_mode (c # cs) w m =
     (if c = CHR ''w'' then scan_mode cs True m
      else if c = CHR ''m'' then scan_mode cs w True
      else if c = CHR ''d'' then None
      else scan_mode cs w m)"

definition update_object :: "aobject \<Rightarrow> bool \<Rightarrow> bool \<Rightarrow> nat \<Rightarrow> pos \<Rightarrow> pos \<Rightarrow> aobject" where
  "update_object ob set_watcher set_marker rtype pos tpos =
     (let ob = (if has_mode ob MODE_DROP then grab_object (ob\<lparr>ob_mode := ob_mode ob AND NOT MODE_DROP\<rparr>) else ob);
          (ob, changed) = change_mode ob set_watcher set_marker;
          ob = ob\<lparr>ob_position := pos, ob_last_tpos := ob_tposition ob\<rparr>;
          ob = ob\<lparr>ob_tposition := tpos, ob_rtype := rtype\<rparr>
      in if changed \<or> \<not> is_near pos (ob_last ob) then grap_move (ob\<lparr>ob_last := pos\<rparr>) else ob)"

definition query_object :: "aoi_space \<Rightarrow> u32 \<Rightarrow> (addr \<times> aoi_space) cres" where
  "query_object sp i =
     bind_res (map_query (sp_object sp) (ucast i) (sp_brk sp)) (\<lambda>(a, made, m).
     let sp' = sp\<lparr>sp_object := m\<rparr>
     in Inr (a, if made then store a (new_object i) (sp'\<lparr>sp_brk := sp_brk sp + 1\<rparr>) else sp'))"

definition aoi_update :: "aoi_space \<Rightarrow> u32 \<Rightarrow> string \<Rightarrow> nat \<Rightarrow> pos \<Rightarrow> pos \<Rightarrow> aoi_space cres" where
  "aoi_update sp i modestring rtype pos tpos =
     bind_res (query_object sp i) (\<lambda>(a, sp).
     bind_res (deref sp a) (\<lambda>ob.
     case scan_mode modestring False False of
       None \<Rightarrow>
         if \<not> has_mode ob MODE_DROP then drop_object (store a (ob\<lparr>ob_mode := MODE_DROP\<rparr>) sp) a else Inr sp
     | Some (set_watcher, set_marker) \<Rightarrow>
         Inr (store a (update_object ob set_watcher set_marker rtype pos tpos) sp)))"

section \<open>Messages\<close>

function show_digits :: "int \<Rightarrow> string" where
  "show_digits n =
     (if n < 0 then CHR ''-'' # show_digits (- n)
      else if n < 10 then [char_of (48 + n)]
      else show_digits (n div 10) @ [char_of (48 + n mod 10)])"
  by pat_completeness auto
termination
  by (relation "measure (\<lambda>n. nat (if n < 0 then 1 - n else n))") auto

declare show_digits.simps [simp del]

definition PAIR_KEY_LEN :: nat where "PAIR_KEY_LEN = 65"

definition make_unique_int64 :: "u64 \<Rightarrow> u64 \<Rightarrow> nat \<Rightarrow> string" where
  "make_unique_int64 l_id r_id keylen = take (keylen - 1) (show_digits (sint l_id) @ show_digits (sint r_id))"

definition drop_pair :: "aoi_space \<Rightarrow> pair_list \<Rightarrow> aoi_space cres" where
  "drop_pair sp p =
     (let sp = sp\<lparr>sp_pair_hash := remove1 (p_key p) (sp_pair_hash sp)\<rparr>
      in bind_res (deref sp (p_watcher p)) (\<lambda>w.
         bind_res (drop_object (store (p_watcher p) (w\<lparr>ob_aoiCount := ob_aoiCount w - 1\<rparr>) sp) (p_watcher p)) (\<lambda>sp.
         drop_object sp (p_marker p))))"

definition aoi_cb :: "aoi_space \<Rightarrow> aobject \<Rightarrow> aobject \<Rightarrow> string \<Rightarrow> aoi_event" where
  "aoi_cb sp w m action =
     Aoi_cb (sp_aoiMapId sp) (ucast (ob_id w)) (ucast (ob_id m)) action (ob_position m) (ob_tposition m) (ob_rtype m)"

text \<open>What becomes of one pair: whether it stays in the list, and the notification it gives.\<close>

definition flush_one :: "aoi_space \<Rightarrow> pair_list \<Rightarrow> (bool \<times> aoi_space \<times> aoi_event list) cres" where
  "flush_one sp p =
     bind_res (deref sp (p_watcher p)) (\<lambda>w.
     bind_res (deref sp (p_marker p)) (\<lambda>m.
     if has_mode w MODE_DROP \<or> has_mode m MODE_DROP
     then bind_res (drop_pair sp p) (\<lambda>sp'.
          Inr (False, sp', if has_mode m MODE_DROP then [aoi_cb sp w m ''d''] else []))
     else if has_mode m MODE_MOVE
     then if f32_lt (sp_aoi_radis2 sp) (dist2 w m)
          then bind_res (drop_pair sp p) (\<lambda>sp'. Inr (False, sp', [aoi_cb sp w m ''d'']))
          else Inr (True, sp, if f32_lt (Fin 0) (DIST2 (ob_last_tpos m) (ob_tposition m))
                              then [aoi_cb sp w m ''m''] else [])
     else if f32_lt (sp_aoi_radis2 sp) (dist2 w m)
          then bind_res (drop_pair sp p) (\<lambda>sp'. Inr (False, sp', [aoi_cb sp w m ''d'']))
          else Inr (True, sp, [])))"

fun flush_list :: "aoi_space \<Rightarrow> pair_list list \<Rightarrow> (pair_list list \<times> aoi_space \<times> aoi_event list) cres" where
  "flush_list sp [] = Inr ([], sp, [])"
| "flush_list sp (p # ps) =
     bind_res (flush_one sp p) (\<lambda>(keep, sp, ev).
     bind_res (flush_list sp ps) (\<lambda>(ks, sp, evs).
     Inr (if keep then p # ks else ks, sp, ev @ evs)))"

definition flush_pair :: "aoi_space \<Rightarrow> (aoi_space \<times> aoi_event list) cres" where
  "flush_pair sp = bind_res (flush_list sp (sp_hot sp)) (\<lambda>(ks, sp, evs). Inr (sp\<lparr>sp_hot := ks\<rparr>, evs))"

definition set_push_back :: "object_set \<Rightarrow> addr \<Rightarrow> object_set cres" where
  "set_push_back s a =
     (let s = (if length (set_slot s) \<ge> set_cap s then s\<lparr>set_cap := set_cap s * 2\<rparr> else s)
      in if length (set_slot s) < set_cap s then Inr (s\<lparr>set_slot := set_slot s @ [a]\<rparr>) else Inl OutOfBounds)"

definition stop_move :: "aobject \<Rightarrow> aobject" where
  "stop_move ob = ob\<lparr>ob_mode := ob_mode ob AND NOT MODE_MOVE\<rparr>"

definition push_watcher :: "addr \<Rightarrow> u32 \<Rightarrow> aoi_space \<Rightarrow> aoi_space cres" where
  "push_watcher a md sp =
     (if md AND MODE_WATCHER = 0 then Inr sp
      else if md AND MODE_MOVE \<noteq> 0
      then bind_res (set_push_back (sp_watcher_move sp) a) (\<lambda>s.
           bind_res (deref sp a) (\<lambda>ob. Inr (store a (stop_move ob) (sp\<lparr>sp_watcher_move := s\<rparr>))))
      else bind_res (set_push_back (sp_watcher_static sp) a) (\<lambda>s. Inr (sp\<lparr>sp_watcher_static := s\<rparr>)))"

definition push_marker :: "addr \<Rightarrow> u32 \<Rightarrow> aoi_space \<Rightarrow> aoi_space cres" where
  "push_marker a md sp =
     (if md AND MODE_MARKER = 0 then Inr sp
      else if md AND MODE_MOVE \<noteq> 0
      then bind_res (set_push_back (sp_marker_move sp) a) (\<lambda>s.
           bind_res (deref sp a) (\<lambda>ob. Inr (store a (stop_move ob) (sp\<lparr>sp_marker_move := s\<rparr>))))
      else bind_res (set_push_back (sp_marker_static sp) a) (\<lambda>s. Inr (sp\<lparr>sp_marker_static := s\<rparr>)))"

definition set_push :: "addr \<Rightarrow> aoi_space \<Rightarrow> aoi_space cres" where
  "set_push a sp =
     bind_res (deref sp a) (\<lambda>ob.
     let md = ob_mode ob
     in bind_res (push_watcher a md sp) (\<lambda>sp. push_marker a md sp))"

definition gen_pair :: "aoi_space \<times> aoi_event list \<Rightarrow> addr \<Rightarrow> addr \<Rightarrow> (aoi_space \<times> aoi_event list) cres" where
  "gen_pair st watcher marker =
     (let (sp, evs) = st
      in if watcher = marker then Inr st
         else bind_res (deref sp watcher) (\<lambda>w.
              if ob_aoiCount w mod 2 ^ 32 \<ge> int (sp_maxAoiCount sp) then Inr st
              else bind_res (deref sp marker) (\<lambda>m.
              let key_str = make_unique_int64 (ob_id w) (ob_id m) PAIR_KEY_LEN
              in if key_str \<in> set (sp_pair_hash sp) then Inr st
                 else if f32_lt (sp_aoi_radis2 sp) (dist2 w m) then Inr st
                 else let p = \<lparr>p_key = key_str, p_watcher = watcher, p_marker = marker\<rparr>;
                          w' = (grab_object w)\<lparr>ob_aoiCount := ob_aoiCount w + 1\<rparr>;
                          sp' = store marker (grab_object m) (store watcher w' sp);
                          sp' = sp'\<lparr>sp_hot := p # sp_hot sp', sp_pair_hash := key_str # sp_pair_hash sp'\<rparr>
                      in Inr (sp', evs @ [aoi_cb sp w m ''m'']))))"

definition gen_pair_list ::
  "addr list \<Rightarrow> addr list \<Rightarrow> aoi_space \<times> aoi_event list \<Rightarrow> (aoi_space \<times> aoi_event list) cres" where
  "gen_pair_list watcher marker st =
     foldl (\<lambda>r w. foldl (\<lambda>r m. bind_res r (\<lambda>st. gen_pair st w m)) r marker) (Inr st) watcher"

definition reset_sets :: "aoi_space \<Rightarrow> aoi_space" where
  "reset_sets sp = sp\<lparr>sp_watcher_static := (sp_watcher_static sp)\<lparr>set_slot := []\<rparr>,
     sp_watcher_move := (sp_watcher_move sp)\<lparr>set_slot := []\<rparr>,
     sp_marker_static := (sp_marker_static sp)\<lparr>set_slot := []\<rparr>,
     sp_marker_move := (sp_marker_move sp)\<lparr>set_slot := []\<rparr>\<rparr>"

definition aoi_message :: "aoi_space \<Rightarrow> (aoi_space \<times> aoi_event list) cres" where
  "aoi_message sp =
     bind_res (flush_pair sp) (\<lambda>(sp, evs).
     bind_res (map_foreach (sp_object sp) set_push (reset_sets sp)) (\<lambda>sp.
     bind_res (gen_pair_list (set_slot (sp_watcher_static sp)) (set_slot (sp_marker_move sp)) (sp, evs)) (\<lambda>st.
     bind_res (gen_pair_list (set_slot (sp_watcher_move sp)) (set_slot (sp_marker_static sp)) st) (\<lambda>st.
     gen_pair_list (set_slot (sp_watcher_move sp)) (set_slot (sp_marker_move sp)) st))))"

section \<open>The Lua interface\<close>

definition lnew :: "nat \<Rightarrow> nat \<Rightarrow> f32 \<Rightarrow> aoi_space" where
  "lnew mapId maxCount radius =
     (aoi_new radius)\<lparr>sp_aoiMapId := mapId, sp_pair_hash := [], sp_maxAoiCount := maxCount\<rparr>"

definition lrelease :: "aoi_space \<Rightarrow> aoi_space cres" where
  "lrelease sp = aoi_release (sp\<lparr>sp_pair_hash := []\<rparr>)"

datatype aoi_call = Update u32 string nat pos pos | Message

fun aoi_run :: "aoi_call list \<Rightarrow> aoi_space \<Rightarrow> (aoi_space \<times> aoi_event list) cres" where
  "aoi_run [] sp = Inr (sp, [])"
| "aoi_run (Update i md rtype pos tpos # cs) sp =
     bind_res (aoi_update sp i md rtype pos tpos) (\<lambda>sp. aoi_run cs sp)"
| "aoi_run (Message # cs) sp =
     bind_res (aoi_message sp) (\<lambda>(sp, evs).
     bind_res (aoi_run cs sp) (\<lambda>(sp, evs'). Inr (sp, evs @ evs')))"

section \<open>Modes\<close>

named_theorems mode_bits \<open>the flags of an object as bits of its mode\<close>

lemma mode_bit [mode_bits]:
  "x AND MODE_WATCHER = 0 \<longleftrightarrow> \<not> bit x 0" "x AND MODE_MARKER = 0 \<longleftrightarrow> \<not> bit x 1"
  "x AND MODE_MOVE = 0 \<longleftrightarrow> \<not> bit x 2" "x AND MODE_DROP = 0 \<longleftrightarrow> \<not> bit x 3"
  using and_exp_eq_0_iff_not_bit [of x 0] and_exp_eq_0_iff_not_bit [of x 1]
    and_exp_eq_0_iff_not_bit [of x 2] and_exp_eq_0_iff_not_bit [of x 3]
  by (simp_all add: MODE_WATCHER_def MODE_MARKER_def MODE_MOVE_def MODE_DROP_def)

lemma bit_mode [mode_bits]:
  "bit MODE_WATCHER n \<longleftrightarrow> n = 0" "bit MODE_MARKER n \<longleftrightarrow> n = 1"
  "bit MODE_MOVE n \<longleftrightarrow> n = 2" "bit MODE_DROP n \<longleftrightarrow> n = 3"
proof -
  have "bit (2 ^ k :: u32) n \<longleftrightarrow> n = k" if "k < 32" for k
    using that by (auto simp: bit_simps)
  from this [of 0] this [of 1] this [of 2] this [of 3]
  show "bit MODE_WATCHER n \<longleftrightarrow> n = 0" "bit MODE_MARKER n \<longleftrightarrow> n = 1"
    "bit MODE_MOVE n \<longleftrightarrow> n = 2" "bit MODE_DROP n \<longleftrightarrow> n = 3"
    by (simp_all add: MODE_WATCHER_def MODE_MARKER_def MODE_MOVE_def MODE_DROP_def)
qed

lemma bit_ops32 [mode_bits]:
  "bit (x OR y :: u32) n \<longleftrightarrow> bit x n \<or> bit y n" "bit (x AND y :: u32) n \<longleftrightarrow> bit x n \<and> bit y n"
  "n < 32 \<Longrightarrow> bit (NOT x :: u32) n \<longleftrightarrow> \<not> bit x n"
  by (simp_all add: bit_simps)

lemma change_mode_fields:
  assumes "change_mode ob w m = (ob', c)"
  shows "ob' = ob\<lparr>ob_mode := ob_mode ob'\<rparr>" and "bit (ob_mode ob') 0 = w" and "bit (ob_mode ob') 1 = m"
    and "bit (ob_mode ob') 3 = bit (ob_mode ob) 3"
  using assms unfolding change_mode_def Let_def
  by (auto simp: mode_bits split: if_splits prod.splits)

lemma update_object_fields:
  fixes ob w m rtype pos tpos
  defines "ob' \<equiv> update_object ob w m rtype pos tpos"
  shows "ob_ref ob' = ob_ref ob + (if has_mode ob MODE_DROP then 1 else 0)" and "ob_id ob' = ob_id ob"
    and "ob_aoiCount ob' = ob_aoiCount ob" and "\<not> bit (ob_mode ob') 3" and "bit (ob_mode ob') 0 = w"
    and "bit (ob_mode ob') 1 = m" and "ob_position ob' = pos" and "ob_tposition ob' = tpos"
    and "ob_last_tpos ob' = ob_tposition ob" and "ob_rtype ob' = rtype"
proof -
  define ob1 where "ob1 = (if has_mode ob MODE_DROP then grab_object (ob\<lparr>ob_mode := ob_mode ob AND NOT MODE_DROP\<rparr>) else ob)"
  obtain ob2 c where c: "change_mode ob1 w m = (ob2, c)" by fastforce
  note f = change_mode_fields [OF c]
  have one: "ob_ref ob1 = ob_ref ob + (if has_mode ob MODE_DROP then 1 else 0)" "ob_id ob1 = ob_id ob"
    "ob_aoiCount ob1 = ob_aoiCount ob" "\<not> bit (ob_mode ob1) 3" "ob_tposition ob1 = ob_tposition ob"
    by (simp_all add: ob1_def grab_object_def mode_bits)
  have two: "ob_ref ob2 = ob_ref ob1" "ob_id ob2 = ob_id ob1" "ob_aoiCount ob2 = ob_aoiCount ob1"
    "ob_tposition ob2 = ob_tposition ob1" by (subst f(1), simp)+
  have ob': "ob' = (let ob = ob2\<lparr>ob_position := pos, ob_last_tpos := ob_tposition ob2, ob_tposition := tpos, ob_rtype := rtype\<rparr>
      in if c \<or> \<not> is_near pos (ob_last ob) then grap_move (ob\<lparr>ob_last := pos\<rparr>) else ob)"
    unfolding ob'_def update_object_def Let_def ob1_def [symmetric] c by simp
  show "ob_ref ob' = ob_ref ob + (if has_mode ob MODE_DROP then 1 else 0)" "ob_id ob' = ob_id ob"
    "ob_aoiCount ob' = ob_aoiCount ob" "\<not> bit (ob_mode ob') 3" "bit (ob_mode ob') 0 = w"
    "bit (ob_mode ob') 1 = m" "ob_position ob' = pos" "ob_tposition ob' = tpos"
    "ob_last_tpos ob' = ob_tposition ob" "ob_rtype ob' = rtype"
    unfolding ob' using one two f(2-4) by (auto simp: grap_move_def Let_def mode_bits)
qed

section \<open>The invariant\<close>

text \<open>
  With \<open>ps\<close> the pairs, an object counts one reference for being in use and one for each pair
  it is part of. While a pair or an object is being given up, \<open>e\<close> counts the references that
  are still to be dropped.
\<close>

definition wcount :: "pair_list list \<Rightarrow> addr \<Rightarrow> nat" where
  "wcount ps a = length (filter (\<lambda>p. p_watcher p = a) ps)"

definition mcount :: "pair_list list \<Rightarrow> addr \<Rightarrow> nat" where
  "mcount ps a = length (filter (\<lambda>p. p_marker p = a) ps)"

definition obj_inv :: "pair_list list \<Rightarrow> nat \<Rightarrow> nat \<Rightarrow> addr \<Rightarrow> aobject \<Rightarrow> bool" where
  "obj_inv ps k mx a ob \<longleftrightarrow>
     ob_ref ob = (if has_mode ob MODE_DROP then 0 else 1) + int (wcount ps a + mcount ps a + k) \<and>
     0 < ob_ref ob \<and> ob_aoiCount ob = int (wcount ps a) \<and> wcount ps a \<le> mx \<and>
     ob_id ob \<noteq> INVALID_ID \<and> (has_mode ob MODE_DROP \<longrightarrow> ob_mode ob = MODE_DROP)"

definition pair_ok :: "(addr \<Rightarrow> aobject option) \<Rightarrow> pair_list \<Rightarrow> bool" where
  "pair_ok h p \<longleftrightarrow> p_watcher p \<noteq> p_marker p \<and>
     (\<exists>w m. h (p_watcher p) = Some w \<and> h (p_marker p) = Some m \<and>
        p_key p = make_unique_int64 (ob_id w) (ob_id m) PAIR_KEY_LEN)"

definition ainv :: "pair_list list \<Rightarrow> (addr \<Rightarrow> nat) \<Rightarrow> aoi_space \<Rightarrow> bool" where
  "ainv ps e sp \<longleftrightarrow>
     mwf (sp_object sp) \<and> linked (amap (sp_object sp)) (sp_heap sp) ob_id \<and>
     (\<forall>a ob. sp_heap sp a = Some ob \<longrightarrow> a < sp_brk sp \<and> obj_inv ps (e a) (sp_maxAoiCount sp) a ob) \<and>
     (\<forall>p \<in> set ps. pair_ok (sp_heap sp) p) \<and> distinct (map p_key ps) \<and>
     mset (sp_pair_hash sp) = mset (map p_key ps)"

definition set_inv :: "object_set \<Rightarrow> bool" where
  "set_inv s \<longleftrightarrow> 0 < set_cap s \<and> length (set_slot s) \<le> set_cap s"

definition sets_inv :: "aoi_space \<Rightarrow> bool" where
  "sets_inv sp \<longleftrightarrow> set_inv (sp_watcher_static sp) \<and> set_inv (sp_marker_static sp) \<and>
     set_inv (sp_watcher_move sp) \<and> set_inv (sp_marker_move sp)"

definition aoi_inv :: "aoi_space \<Rightarrow> bool" where
  "aoi_inv sp \<longleftrightarrow> ainv (sp_hot sp) (\<lambda>_. 0) sp \<and> sets_inv sp \<and> sp_maxAoiCount sp < 2 ^ 32"

text \<open>The parts of a space that dropping objects and pairs leaves alone.\<close>

definition frame :: "aoi_space \<Rightarrow> aoi_space \<Rightarrow> bool" where
  "frame sp sp' \<longleftrightarrow> sp_hot sp' = sp_hot sp \<and> sp_watcher_static sp' = sp_watcher_static sp \<and>
     sp_marker_static sp' = sp_marker_static sp \<and> sp_watcher_move sp' = sp_watcher_move sp \<and>
     sp_marker_move sp' = sp_marker_move sp \<and> sp_aoiMapId sp' = sp_aoiMapId sp \<and>
     sp_maxAoiCount sp' = sp_maxAoiCount sp \<and> sp_aoi_radis2 sp' = sp_aoi_radis2 sp \<and> sp_brk sp' = sp_brk sp"

definition view :: "aobject \<Rightarrow> u64 \<times> u32 \<times> pos \<times> pos \<times> pos \<times> nat" where
  "view ob = (ob_id ob, ob_mode ob, ob_position ob, ob_tposition ob, ob_last_tpos ob, ob_rtype ob)"

text \<open>Fewer objects, none of them changed but for their counts, and only dropped ones missing.\<close>

definition heap_le :: "(addr \<Rightarrow> aobject option) \<Rightarrow> (addr \<Rightarrow> aobject option) \<Rightarrow> bool" where
  "heap_le h' h \<longleftrightarrow> (\<forall>a ob'. h' a = Some ob' \<longrightarrow> (\<exists>ob. h a = Some ob \<and> view ob' = view ob)) \<and>
     (\<forall>a ob. h a = Some ob \<longrightarrow> \<not> has_mode ob MODE_DROP \<longrightarrow> (\<exists>ob'. h' a = Some ob' \<and> view ob' = view ob))"

lemma frame_refl [simp]: "frame sp sp"
  by (simp add: frame_def)

lemma frame_trans: "frame sp sp' \<Longrightarrow> frame sp' sp'' \<Longrightarrow> frame sp sp''"
  by (simp add: frame_def)

lemma heap_le_refl [simp]: "heap_le h h"
  by (simp add: heap_le_def)

lemma heap_le_trans:
  assumes "heap_le h'' h'" and "heap_le h' h"
  shows "heap_le h'' h"
proof -
  have "\<exists>ob''. h'' a = Some ob'' \<and> view ob'' = view ob" if ob: "h a = Some ob" "\<not> has_mode ob MODE_DROP" for a ob
  proof -
    obtain ob' where "h' a = Some ob'" "view ob' = view ob" using ob assms(2) unfolding heap_le_def by blast
    moreover from this have "\<not> has_mode ob' MODE_DROP" using ob(2) by (simp add: view_def)
    ultimately show ?thesis using assms(1) unfolding heap_le_def by fastforce
  qed
  moreover have "\<exists>ob. h a = Some ob \<and> view ob'' = view ob" if "h'' a = Some ob''" for a ob''
    using that assms unfolding heap_le_def by metis
  ultimately show ?thesis unfolding heap_le_def by blast
qed

lemma ainvD:
  assumes "ainv ps e sp"
  shows "mwf (sp_object sp)" and "linked (amap (sp_object sp)) (sp_heap sp) ob_id"
    and "sp_heap sp a = Some ob \<Longrightarrow> a < sp_brk sp"
    and "sp_heap sp a = Some ob \<Longrightarrow> obj_inv ps (e a) (sp_maxAoiCount sp) a ob"
    and "p \<in> set ps \<Longrightarrow> pair_ok (sp_heap sp) p"
    and "distinct (map p_key ps)" and "mset (sp_pair_hash sp) = mset (map p_key ps)"
  using assms unfolding ainv_def by auto

lemma ainvI:
  assumes "mwf (sp_object sp)" and "linked (amap (sp_object sp)) (sp_heap sp) ob_id"
    and "\<And>a ob. sp_heap sp a = Some ob \<Longrightarrow> a < sp_brk sp"
    and "\<And>a ob. sp_heap sp a = Some ob \<Longrightarrow> obj_inv ps (e a) (sp_maxAoiCount sp) a ob"
    and "\<And>p. p \<in> set ps \<Longrightarrow> pair_ok (sp_heap sp) p"
    and "distinct (map p_key ps)" and "mset (sp_pair_hash sp) = mset (map p_key ps)"
  shows "ainv ps e sp"
  using assms unfolding ainv_def by auto

lemma store_simps [simp]:
  "sp_heap (store a ob sp) = (sp_heap sp)(a \<mapsto> ob)" "sp_object (store a ob sp) = sp_object sp"
  "sp_brk (store a ob sp) = sp_brk sp" "sp_maxAoiCount (store a ob sp) = sp_maxAoiCount sp"
  "sp_pair_hash (store a ob sp) = sp_pair_hash sp" "frame sp' (store a ob sp) = frame sp' sp"
  "frame (store a ob sp) sp' = frame sp sp'" "sp_hot (store a ob sp) = sp_hot sp"
  "sp_aoi_radis2 (store a ob sp) = sp_aoi_radis2 sp"
  by (simp_all add: store_def frame_def)

lemma count_simps [simp]:
  "wcount (p # ps) a = (if p_watcher p = a then Suc (wcount ps a) else wcount ps a)"
  "mcount (p # ps) a = (if p_marker p = a then Suc (mcount ps a) else mcount ps a)"
  "wcount (ps @ qs) a = wcount ps a + wcount qs a" "mcount (ps @ qs) a = mcount ps a + mcount qs a"
  "wcount [] a = 0" "mcount [] a = 0"
  by (simp_all add: wcount_def mcount_def)

lemma count_0:
  "wcount ps a = 0 \<longleftrightarrow> (\<forall>p \<in> set ps. p_watcher p \<noteq> a)" "mcount ps a = 0 \<longleftrightarrow> (\<forall>p \<in> set ps. p_marker p \<noteq> a)"
  by (auto simp: wcount_def mcount_def filter_empty_conv)

lemma linked_store: "linked t h oid \<Longrightarrow> h a = Some ob \<Longrightarrow> oid ob' = oid ob \<Longrightarrow> linked t (h(a \<mapsto> ob')) oid"
  unfolding linked_def by auto

lemma pair_ok_store:
  assumes "pair_ok h p" and "h a = Some ob" and "ob_id ob' = ob_id ob"
  shows "pair_ok (h(a \<mapsto> ob')) p"
  using assms by (auto simp: pair_ok_def)

text \<open>Changing one object keeps the invariant if its counts still agree.\<close>

lemma ainv_store:
  assumes "ainv ps e sp" and "sp_heap sp a = Some ob" and "ob_id ob' = ob_id ob"
    and "obj_inv ps (e' a) (sp_maxAoiCount sp) a ob'" and "\<And>b. b \<noteq> a \<Longrightarrow> e' b = e b"
  shows "ainv ps e' (store a ob' sp)"
  using assms ainvD [OF assms(1)] linked_store [of "amap (sp_object sp)" "sp_heap sp" ob_id a ob ob']
    pair_ok_store [of "sp_heap sp" _ a ob ob']
  by (auto simp: ainv_def store_def)

lemma drop_object_ok:
  assumes inv: "ainv ps e sp" and a: "sp_heap sp a = Some ob" and e: "e a = Suc k"
  obtains sp' where "drop_object sp a = Inr sp'" "ainv ps (e(a := k)) sp'" "frame sp sp'"
    "sp_pair_hash sp' = sp_pair_hash sp" "heap_le (sp_heap sp') (sp_heap sp)"
    "\<And>b. b \<noteq> a \<Longrightarrow> sp_heap sp' b = sp_heap sp b"
proof -
  let ?ob = "ob\<lparr>ob_ref := ob_ref ob - 1\<rparr>"
  note D = ainvD [OF inv]
  have oi: "obj_inv ps (Suc k) (sp_maxAoiCount sp) a ob" using D(4) [OF a] e by simp
  show ?thesis
  proof (cases "ob_ref ob - 1 \<le> 0")
    case False
    have "ainv ps (e(a := k)) (store a ?ob sp)"
      by (rule ainv_store [OF inv a]) (use oi False in \<open>auto simp: obj_inv_def\<close>)
    moreover have "frame sp (store a ?ob sp)" "heap_le (sp_heap (store a ?ob sp)) (sp_heap sp)"
      using a by (auto simp: frame_def store_def heap_le_def view_def)
    ultimately show ?thesis using that [of "store a ?ob sp"] False a
      by (simp add: drop_object_def deref_def Let_def)
  next
    case True
    then have z: "wcount ps a = 0" "mcount ps a = 0" using oi by (auto simp: obj_inv_def split: if_splits)
    have "linked (amap (sp_object sp)) ((sp_heap sp)(a \<mapsto> ?ob)) ob_id" using linked_store [OF D(2) a] by simp
    from map.drop_linked [OF D(1) this, of a ?ob] oi obtain m' where m': "map_drop (sp_object sp) (ob_id ?ob) = Inr (Some a, m')"
      "mwf m'" "linked (amap m') ((sp_heap sp)(a := None)) ob_id" by (auto simp: obj_inv_def)
    let ?sp = "sp\<lparr>sp_object := m', sp_heap := (sp_heap sp)(a := None)\<rparr>"
    have "pair_ok ((sp_heap sp)(a := None)) p" if "p \<in> set ps" for p
      using D(5) [OF that] z that by (auto simp: count_0 pair_ok_def)
    then have "ainv ps (e(a := k)) ?sp" using m'(2,3) D(3-7) by (auto simp: ainv_def)
    moreover have "drop_object sp a = Inr ?sp"
      using True a m'(1) by (simp add: drop_object_def deref_def Let_def store_def delete_object_def)
    moreover have "frame sp ?sp" by (simp add: frame_def)
    moreover have "has_mode ob MODE_DROP" using True oi by (auto simp: obj_inv_def split: if_splits)
    then have "heap_le (sp_heap ?sp) (sp_heap sp)" using a by (auto simp: heap_le_def)
    ultimately show ?thesis using that [of ?sp] by auto
  qed
qed

lemma sets_inv_frame: "frame sp sp' \<Longrightarrow> sets_inv sp' = sets_inv sp"
  by (simp add: frame_def sets_inv_def)

text \<open>A pair is given up: the pairs are those before it and those after it.\<close>

lemma drop_pair_ok:
  assumes inv: "ainv (ks @ p # ps) (\<lambda>_. 0) sp"
  obtains sp' where "drop_pair sp p = Inr sp'" "ainv (ks @ ps) (\<lambda>_. 0) sp'" "frame sp sp'"
    "heap_le (sp_heap sp') (sp_heap sp)"
proof -
  note D = ainvD [OF inv]
  obtain w m where wm: "sp_heap sp (p_watcher p) = Some w" "sp_heap sp (p_marker p) = Some m" "p_watcher p \<noteq> p_marker p"
    using D(5) [of p] by (auto simp: pair_ok_def)
  let ?w = "p_watcher p" and ?m = "p_marker p" and ?qs = "ks @ ps"
  let ?e = "(\<lambda>_. 0)(?w := 1, ?m := Suc 0)"
  let ?sp1 = "sp\<lparr>sp_pair_hash := remove1 (p_key p) (sp_pair_hash sp)\<rparr>"
  let ?sp2 = "store ?w (w\<lparr>ob_aoiCount := ob_aoiCount w - 1\<rparr>) ?sp1"
  have inv2: "ainv ?qs ?e ?sp2"
  proof (rule ainvI)
    show "obj_inv ?qs (?e a) (sp_maxAoiCount ?sp2) a ob" if "sp_heap ?sp2 a = Some ob" for a ob
      using that D(4) [of a] D(4) [OF wm(1)] wm(3) by (auto simp: obj_inv_def split: if_splits)
    show "mset (sp_pair_hash ?sp2) = mset (map p_key ?qs)" using D(7) by simp
    show "linked (amap (sp_object ?sp2)) (sp_heap ?sp2) ob_id" using linked_store [OF D(2) wm(1)] by simp
    show "pair_ok (sp_heap ?sp2) q" if "q \<in> set ?qs" for q using pair_ok_store [OF D(5) wm(1)] that by simp
  qed (use D(1,3,6) wm(1) in \<open>auto split: if_splits\<close>)
  have "sp_heap ?sp2 ?w = Some (w\<lparr>ob_aoiCount := ob_aoiCount w - 1\<rparr>)" by simp
  then obtain sp3 where sp3: "drop_object ?sp2 ?w = Inr sp3" "ainv ?qs (?e(?w := 0)) sp3" "frame ?sp2 sp3"
    "heap_le (sp_heap sp3) (sp_heap ?sp2)" "\<And>b. b \<noteq> ?w \<Longrightarrow> sp_heap sp3 b = sp_heap ?sp2 b"
    by (rule drop_object_ok [OF inv2, of ?w _ 0]) (use wm(3) in auto)
  have "sp_heap sp3 ?m = Some m" using sp3(5) [of ?m] wm by (simp add: store_def)
  then obtain sp4 where sp4: "drop_object sp3 ?m = Inr sp4" "ainv ?qs (?e(?w := 0, ?m := 0)) sp4" "frame sp3 sp4"
    "heap_le (sp_heap sp4) (sp_heap sp3)"
    by (rule drop_object_ok [OF sp3(2), of ?m _ 0]) (use wm(3) in auto)
  have "drop_pair sp p = Inr sp4" using wm(1) sp3(1) sp4(1) by (simp add: drop_pair_def Let_def deref_def)
  moreover have "?e(?w := 0, ?m := 0) = (\<lambda>_. 0)" by auto
  moreover have "frame sp sp4" using sp3(3) sp4(3) by (simp add: frame_def store_def)
  moreover have "heap_le (sp_heap ?sp2) (sp_heap sp)" using wm(1) by (auto simp: heap_le_def store_def view_def)
  then have "heap_le (sp_heap sp4) (sp_heap sp)" using sp3(4) sp4(4) heap_le_trans by blast
  ultimately show ?thesis using that [of sp4] sp4(2) by simp
qed

section \<open>Flushing\<close>

definition pair_near :: "f32 \<Rightarrow> (addr \<Rightarrow> aobject option) \<Rightarrow> pair_list \<Rightarrow> bool" where
  "pair_near r h p \<longleftrightarrow> (\<exists>w m. h (p_watcher p) = Some w \<and> h (p_marker p) = Some m \<and>
     \<not> has_mode w MODE_DROP \<and> \<not> has_mode m MODE_DROP \<and> \<not> f32_lt r (dist2 w m))"

lemma pair_near_mono:
  assumes "heap_le h' h" and "pair_near r h p" and "pair_ok h' p"
  shows "pair_near r h' p"
proof -
  obtain w' m' where "h' (p_watcher p) = Some w'" "h' (p_marker p) = Some m'" using assms(3) by (auto simp: pair_ok_def)
  moreover from this obtain w m where "h (p_watcher p) = Some w" "h (p_marker p) = Some m" "view w' = view w" "view m' = view m"
    using assms(1) unfolding heap_le_def by blast
  ultimately show ?thesis using assms(2) by (auto simp: pair_near_def view_def dist2_def)
qed

lemma flush_one_ok:
  assumes inv: "ainv (ks @ p # ps) (\<lambda>_. 0) sp"
  shows "\<exists>keep sp' ev. flush_one sp p = Inr (keep, sp', ev) \<and> frame sp sp' \<and> heap_le (sp_heap sp') (sp_heap sp) \<and>
    ainv (if keep then ks @ p # ps else ks @ ps) (\<lambda>_. 0) sp' \<and> (keep \<longrightarrow> pair_near (sp_aoi_radis2 sp) (sp_heap sp') p)"
proof -
  obtain w m where wm: "sp_heap sp (p_watcher p) = Some w" "sp_heap sp (p_marker p) = Some m"
    using ainvD(5) [OF inv, of p] by (auto simp: pair_ok_def)
  obtain sp' where d: "drop_pair sp p = Inr sp'" "ainv (ks @ ps) (\<lambda>_. 0) sp'" "frame sp sp'"
    "heap_le (sp_heap sp') (sp_heap sp)" using drop_pair_ok [OF inv] .
  show ?thesis
  proof (cases "has_mode w MODE_DROP \<or> has_mode m MODE_DROP \<or> f32_lt (sp_aoi_radis2 sp) (dist2 w m)")
    case True
    then show ?thesis using wm d by (auto simp: flush_one_def deref_def)
  next
    case False
    then have "pair_near (sp_aoi_radis2 sp) (sp_heap sp) p" using wm by (auto simp: pair_near_def)
    then show ?thesis using False wm inv by (auto simp: flush_one_def deref_def)
  qed
qed

lemma flush_list_ok:
  assumes "ainv (ks @ ps) (\<lambda>_. 0) sp"
  shows "\<exists>qs sp' ev. flush_list sp ps = Inr (qs, sp', ev) \<and> ainv (ks @ qs) (\<lambda>_. 0) sp' \<and> frame sp sp' \<and>
    heap_le (sp_heap sp') (sp_heap sp) \<and> (\<forall>p \<in> set qs. pair_near (sp_aoi_radis2 sp) (sp_heap sp') p)"
  using assms
proof (induction ps arbitrary: ks sp)
  case (Cons p ps)
  obtain keep sp1 ev where one: "flush_one sp p = Inr (keep, sp1, ev)" "frame sp sp1" "heap_le (sp_heap sp1) (sp_heap sp)"
    "ainv (if keep then ks @ p # ps else ks @ ps) (\<lambda>_. 0) sp1" "keep \<longrightarrow> pair_near (sp_aoi_radis2 sp) (sp_heap sp1) p"
    using flush_one_ok [OF Cons.prems] by blast
  let ?ks = "if keep then ks @ [p] else ks"
  have "ainv (?ks @ ps) (\<lambda>_. 0) sp1" using one(4) by (cases keep) auto
  from Cons.IH [OF this] obtain qs sp2 evs where two: "flush_list sp1 ps = Inr (qs, sp2, evs)" "ainv (?ks @ qs) (\<lambda>_. 0) sp2"
    "frame sp1 sp2" "heap_le (sp_heap sp2) (sp_heap sp1)" "\<forall>p \<in> set qs. pair_near (sp_aoi_radis2 sp1) (sp_heap sp2) p" by blast
  let ?qs = "if keep then p # qs else qs"
  have inv: "ainv (ks @ ?qs) (\<lambda>_. 0) sp2" using two(2) by (cases keep) auto
  have r: "sp_aoi_radis2 sp1 = sp_aoi_radis2 sp" using one(2) by (simp add: frame_def)
  have "pair_near (sp_aoi_radis2 sp) (sp_heap sp2) q" if "q \<in> set ?qs" for q
    using that two(5) r pair_near_mono [OF two(4)] one(5) ainvD(5) [OF inv, of q] by (auto split: if_splits)
  moreover have "flush_list sp (p # ps) = Inr (?qs, sp2, ev @ evs)" using one(1) two(1) by simp
  ultimately show ?case using inv frame_trans [OF one(2) two(3)] heap_le_trans [OF two(4) one(3)] by blast
qed auto

lemma flush_pair_ok:
  assumes "aoi_inv sp"
  shows "\<exists>sp' evs. flush_pair sp = Inr (sp', evs) \<and> aoi_inv sp' \<and> heap_le (sp_heap sp') (sp_heap sp) \<and>
    sp_aoi_radis2 sp' = sp_aoi_radis2 sp \<and> sp_maxAoiCount sp' = sp_maxAoiCount sp \<and>
    (\<forall>p \<in> set (sp_hot sp'). pair_near (sp_aoi_radis2 sp) (sp_heap sp') p)"
proof -
  obtain qs sp' ev where f: "flush_list sp (sp_hot sp) = Inr (qs, sp', ev)" "ainv qs (\<lambda>_. 0) sp'" "frame sp sp'"
    "heap_le (sp_heap sp') (sp_heap sp)" "\<forall>p \<in> set qs. pair_near (sp_aoi_radis2 sp) (sp_heap sp') p"
    using flush_list_ok [of "[]" "sp_hot sp" sp] assms by (auto simp: aoi_inv_def)
  have "ainv qs (\<lambda>_. 0) (sp'\<lparr>sp_hot := qs\<rparr>)" using f(2) by (simp add: ainv_def)
  then have "aoi_inv (sp'\<lparr>sp_hot := qs\<rparr>)"
    using assms f(3) by (simp add: aoi_inv_def frame_def sets_inv_def)
  then show ?thesis using f by (auto simp: flush_pair_def frame_def)
qed

section \<open>Sorting the objects\<close>

definition flag :: "(addr \<Rightarrow> aobject option) \<Rightarrow> nat \<Rightarrow> addr \<Rightarrow> bool" where
  "flag h k a \<longleftrightarrow> (case h a of None \<Rightarrow> False | Some ob \<Rightarrow> bit (ob_mode ob) k)"

definition settle :: "aobject \<Rightarrow> aobject" where
  "settle ob = (if bit (ob_mode ob) 2 \<and> (bit (ob_mode ob) 0 \<or> bit (ob_mode ob) 1) then stop_move ob else ob)"

definition same_rest :: "aoi_space \<Rightarrow> aoi_space \<Rightarrow> bool" where
  "same_rest sp sp' \<longleftrightarrow> sp_object sp' = sp_object sp \<and> sp_hot sp' = sp_hot sp \<and> sp_pair_hash sp' = sp_pair_hash sp \<and>
     sp_maxAoiCount sp' = sp_maxAoiCount sp \<and> sp_aoi_radis2 sp' = sp_aoi_radis2 sp \<and> sp_brk sp' = sp_brk sp \<and>
     sp_aoiMapId sp' = sp_aoiMapId sp"

text \<open>The four sets after the objects \<open>as\<close> have been sorted by their modes in the heap \<open>h\<close>.\<close>

definition sorted_into :: "(addr \<Rightarrow> aobject option) \<Rightarrow> addr list \<Rightarrow> aoi_space \<Rightarrow> aoi_space \<Rightarrow> bool" where
  "sorted_into h as sp sp' \<longleftrightarrow>
     set_slot (sp_watcher_move sp') = set_slot (sp_watcher_move sp) @ filter (\<lambda>a. flag h 0 a \<and> flag h 2 a) as \<and>
     set_slot (sp_watcher_static sp') = set_slot (sp_watcher_static sp) @ filter (\<lambda>a. flag h 0 a \<and> \<not> flag h 2 a) as \<and>
     set_slot (sp_marker_move sp') = set_slot (sp_marker_move sp) @ filter (\<lambda>a. flag h 1 a \<and> flag h 2 a) as \<and>
     set_slot (sp_marker_static sp') = set_slot (sp_marker_static sp) @ filter (\<lambda>a. flag h 1 a \<and> \<not> flag h 2 a) as"

lemma set_push_back_ok:
  assumes "set_inv s"
  obtains s' where "set_push_back s a = Inr s'" "set_inv s'" "set_slot s' = set_slot s @ [a]"
proof -
  define s1 where "s1 = (if length (set_slot s) \<ge> set_cap s then s\<lparr>set_cap := set_cap s * 2\<rparr> else s)"
  have "length (set_slot s1) < set_cap s1" "set_slot s1 = set_slot s"
    using assms by (auto simp: s1_def set_inv_def)
  then show ?thesis using that [of "s1\<lparr>set_slot := set_slot s1 @ [a]\<rparr>"]
    unfolding set_push_back_def Let_def s1_def [symmetric] by (simp add: set_inv_def)
qed

lemma stop_move_idem: "stop_move (stop_move ob) = stop_move ob"
  by (simp add: stop_move_def and.assoc)

lemma push_watcher_ok:
  assumes "sets_inv sp" and "sp_heap sp a = Some ob"
  obtains sp' where "push_watcher a (ob_mode ob) sp = Inr sp'" "sets_inv sp'" "same_rest sp sp'"
    "sp_heap sp' = (sp_heap sp)(a \<mapsto> if bit (ob_mode ob) 0 \<and> bit (ob_mode ob) 2 then stop_move ob else ob)"
    "set_slot (sp_watcher_move sp') = set_slot (sp_watcher_move sp) @ (if bit (ob_mode ob) 0 \<and> bit (ob_mode ob) 2 then [a] else [])"
    "set_slot (sp_watcher_static sp') = set_slot (sp_watcher_static sp) @ (if bit (ob_mode ob) 0 \<and> \<not> bit (ob_mode ob) 2 then [a] else [])"
    "sp_marker_move sp' = sp_marker_move sp" "sp_marker_static sp' = sp_marker_static sp"
proof -
  obtain s1 where s1: "set_push_back (sp_watcher_move sp) a = Inr s1" "set_inv s1" "set_slot s1 = set_slot (sp_watcher_move sp) @ [a]"
    using set_push_back_ok assms(1) unfolding sets_inv_def by blast
  obtain s2 where s2: "set_push_back (sp_watcher_static sp) a = Inr s2" "set_inv s2" "set_slot s2 = set_slot (sp_watcher_static sp) @ [a]"
    using set_push_back_ok assms(1) unfolding sets_inv_def by blast
  have h: "(sp_heap sp)(a \<mapsto> ob) = sp_heap sp" using assms(2) by auto
  consider "\<not> bit (ob_mode ob) 0" | "bit (ob_mode ob) 0" "bit (ob_mode ob) 2" | "bit (ob_mode ob) 0" "\<not> bit (ob_mode ob) 2" by blast
  then show ?thesis
  proof cases
    case 1
    then show ?thesis using that [of sp] assms(1) h by (simp add: push_watcher_def mode_bits same_rest_def)
  next
    case 2
    let ?sp = "store a (stop_move ob) (sp\<lparr>sp_watcher_move := s1\<rparr>)"
    have "push_watcher a (ob_mode ob) sp = Inr ?sp" using 2 s1(1) assms(2) by (simp add: push_watcher_def mode_bits deref_def)
    then show ?thesis using that [of ?sp] 2 s1 assms(1) by (simp add: same_rest_def sets_inv_def) (simp add: store_def)
  next
    case 3
    let ?sp = "sp\<lparr>sp_watcher_static := s2\<rparr>"
    have "push_watcher a (ob_mode ob) sp = Inr ?sp" using 3 s2(1) by (simp add: push_watcher_def mode_bits)
    then show ?thesis using that [of ?sp] 3 s2 assms(1) h by (simp add: same_rest_def sets_inv_def)
  qed
qed

lemma push_marker_ok:
  assumes "sets_inv sp" and "sp_heap sp a = Some ob"
  obtains sp' where "push_marker a md sp = Inr sp'" "sets_inv sp'" "same_rest sp sp'"
    "sp_heap sp' = (sp_heap sp)(a \<mapsto> if bit md 1 \<and> bit md 2 then stop_move ob else ob)"
    "set_slot (sp_marker_move sp') = set_slot (sp_marker_move sp) @ (if bit md 1 \<and> bit md 2 then [a] else [])"
    "set_slot (sp_marker_static sp') = set_slot (sp_marker_static sp) @ (if bit md 1 \<and> \<not> bit md 2 then [a] else [])"
    "sp_watcher_move sp' = sp_watcher_move sp" "sp_watcher_static sp' = sp_watcher_static sp"
proof -
  obtain s1 where s1: "set_push_back (sp_marker_move sp) a = Inr s1" "set_inv s1" "set_slot s1 = set_slot (sp_marker_move sp) @ [a]"
    using set_push_back_ok assms(1) unfolding sets_inv_def by blast
  obtain s2 where s2: "set_push_back (sp_marker_static sp) a = Inr s2" "set_inv s2" "set_slot s2 = set_slot (sp_marker_static sp) @ [a]"
    using set_push_back_ok assms(1) unfolding sets_inv_def by blast
  have h: "(sp_heap sp)(a \<mapsto> ob) = sp_heap sp" using assms(2) by auto
  consider "\<not> bit md 1" | "bit md 1" "bit md 2" | "bit md 1" "\<not> bit md 2" by blast
  then show ?thesis
  proof cases
    case 1
    then show ?thesis using that [of sp] assms(1) h by (simp add: push_marker_def mode_bits same_rest_def)
  next
    case 2
    let ?sp = "store a (stop_move ob) (sp\<lparr>sp_marker_move := s1\<rparr>)"
    have "push_marker a md sp = Inr ?sp" using 2 s1(1) assms(2) by (simp add: push_marker_def mode_bits deref_def)
    then show ?thesis using that [of ?sp] 2 s1 assms(1) by (simp add: same_rest_def sets_inv_def) (simp add: store_def)
  next
    case 3
    let ?sp = "sp\<lparr>sp_marker_static := s2\<rparr>"
    have "push_marker a md sp = Inr ?sp" using 3 s2(1) by (simp add: push_marker_def mode_bits)
    then show ?thesis using that [of ?sp] 3 s2 assms(1) h by (simp add: same_rest_def sets_inv_def)
  qed
qed

lemma set_push_ok:
  assumes "sets_inv sp" and "sp_heap sp a = Some ob"
  obtains sp' where "set_push a sp = Inr sp'" "sets_inv sp'" "same_rest sp sp'"
    "sp_heap sp' = (sp_heap sp)(a \<mapsto> settle ob)" "sorted_into (sp_heap sp) [a] sp sp'"
proof -
  obtain sp1 where 1: "push_watcher a (ob_mode ob) sp = Inr sp1" "sets_inv sp1" "same_rest sp sp1"
    "sp_heap sp1 = (sp_heap sp)(a \<mapsto> if bit (ob_mode ob) 0 \<and> bit (ob_mode ob) 2 then stop_move ob else ob)"
    "set_slot (sp_watcher_move sp1) = set_slot (sp_watcher_move sp) @ (if bit (ob_mode ob) 0 \<and> bit (ob_mode ob) 2 then [a] else [])"
    "set_slot (sp_watcher_static sp1) = set_slot (sp_watcher_static sp) @ (if bit (ob_mode ob) 0 \<and> \<not> bit (ob_mode ob) 2 then [a] else [])"
    "sp_marker_move sp1 = sp_marker_move sp" "sp_marker_static sp1 = sp_marker_static sp"
    by (rule push_watcher_ok [OF assms])
  define ob1 where "ob1 = (if bit (ob_mode ob) 0 \<and> bit (ob_mode ob) 2 then stop_move ob else ob)"
  have "sp_heap sp1 a = Some ob1" using 1(4) by (simp add: ob1_def)
  from push_marker_ok [OF 1(2) this, of "ob_mode ob"] obtain sp2 where 2: "push_marker a (ob_mode ob) sp1 = Inr sp2"
    "sets_inv sp2" "same_rest sp1 sp2"
    "sp_heap sp2 = (sp_heap sp1)(a \<mapsto> if bit (ob_mode ob) 1 \<and> bit (ob_mode ob) 2 then stop_move ob1 else ob1)"
    "set_slot (sp_marker_move sp2) = set_slot (sp_marker_move sp1) @ (if bit (ob_mode ob) 1 \<and> bit (ob_mode ob) 2 then [a] else [])"
    "set_slot (sp_marker_static sp2) = set_slot (sp_marker_static sp1) @ (if bit (ob_mode ob) 1 \<and> \<not> bit (ob_mode ob) 2 then [a] else [])"
    "sp_watcher_move sp2 = sp_watcher_move sp1" "sp_watcher_static sp2 = sp_watcher_static sp1" .
  have "set_push a sp = Inr sp2" using 1(1) 2(1) assms(2) by (simp add: set_push_def deref_def)
  moreover have "sp_heap sp2 = (sp_heap sp)(a \<mapsto> settle ob)"
    unfolding 2(4) 1(4) by (auto simp: ob1_def settle_def stop_move_idem)
  moreover have "sorted_into (sp_heap sp) [a] sp sp2"
    using 1(5-) 2(5-) assms(2) by (simp add: sorted_into_def flag_def)
  moreover have "same_rest sp sp2" using 1(3) 2(3) by (simp add: same_rest_def)
  ultimately show ?thesis using that 2(2) by blast
qed

lemma foreach_push:
  assumes "sets_inv sp" and "distinct as" and "set as \<subseteq> dom (sp_heap sp)"
  shows "\<exists>sp'. foldl (\<lambda>r a. bind_res r (set_push a)) (Inr sp) as = Inr sp' \<and> sets_inv sp' \<and> same_rest sp sp' \<and>
    sp_heap sp' = (\<lambda>a. if a \<in> set as then map_option settle (sp_heap sp a) else sp_heap sp a) \<and>
    sorted_into (sp_heap sp) as sp sp'"
  using assms
proof (induction as arbitrary: sp)
  case (Cons a as)
  then obtain ob where ob: "sp_heap sp a = Some ob" by auto
  obtain sp1 where 1: "set_push a sp = Inr sp1" "sets_inv sp1" "same_rest sp sp1"
    "sp_heap sp1 = (sp_heap sp)(a \<mapsto> settle ob)" "sorted_into (sp_heap sp) [a] sp sp1"
    by (rule set_push_ok [OF Cons.prems(1) ob])
  have "distinct as" "set as \<subseteq> dom (sp_heap sp1)" using Cons.prems 1(4) by auto
  from Cons.IH [OF 1(2) this] obtain sp2 where 2: "foldl (\<lambda>r a. bind_res r (set_push a)) (Inr sp1) as = Inr sp2"
    "sets_inv sp2" "same_rest sp1 sp2"
    "sp_heap sp2 = (\<lambda>a. if a \<in> set as then map_option settle (sp_heap sp1 a) else sp_heap sp1 a)"
    "sorted_into (sp_heap sp1) as sp1 sp2" by blast
  have "flag (sp_heap sp1) k b = flag (sp_heap sp) k b" if "b \<in> set as" for k b
    using that Cons.prems(2) 1(4) by (auto simp: flag_def)
  then have "filter (\<lambda>b. flag (sp_heap sp1) i b \<and> P (flag (sp_heap sp1) 2 b)) as =
      filter (\<lambda>b. flag (sp_heap sp) i b \<and> P (flag (sp_heap sp) 2 b)) as" for i P
    by (intro filter_cong) auto
  from this [of _ "\<lambda>x. x"] this [of _ Not] have "sorted_into (sp_heap sp) (a # as) sp sp2"
    using 1(5) 2(5) by (simp add: sorted_into_def)
  moreover have "sp_heap sp2 = (\<lambda>b. if b \<in> set (a # as) then map_option settle (sp_heap sp b) else sp_heap sp b)"
    using Cons.prems(2) ob unfolding 2(4) 1(4) by (auto simp: fun_eq_iff)
  moreover have "same_rest sp sp2" using 1(3) 2(3) by (simp add: same_rest_def)
  moreover have "foldl (\<lambda>r a. bind_res r (set_push a)) (Inr sp) (a # as) = Inr sp2" using 1(1) 2(1) by simp
  ultimately show ?case using 2(2) by blast
qed (auto simp: same_rest_def sorted_into_def)

lemma settle_fields [simp]:
  "ob_ref (settle ob) = ob_ref ob" "ob_id (settle ob) = ob_id ob" "ob_aoiCount (settle ob) = ob_aoiCount ob"
  "ob_position (settle ob) = ob_position ob" "k < 32 \<Longrightarrow> k \<noteq> 2 \<Longrightarrow> bit (ob_mode (settle ob)) k = bit (ob_mode ob) k"
  by (simp_all add: settle_def stop_move_def mode_bits)

lemma settle_inv: "obj_inv ps k mx a ob \<Longrightarrow> obj_inv ps k mx a (settle ob)"
  by (auto simp: obj_inv_def mode_bits) (simp_all add: settle_def mode_bits)

definition sort_objects :: "aoi_space \<Rightarrow> aoi_space cres" where
  "sort_objects sp = map_foreach (sp_object sp) set_push (reset_sets sp)"

lemma sort_objects_ok:
  assumes "aoi_inv sp"
  shows "\<exists>sp'. sort_objects sp = Inr sp' \<and> aoi_inv sp' \<and> same_rest sp sp' \<and>
    sp_heap sp' = (\<lambda>a. map_option settle (sp_heap sp a)) \<and>
    set (set_slot (sp_watcher_move sp')) = {a. flag (sp_heap sp) 0 a \<and> flag (sp_heap sp) 2 a} \<and>
    set (set_slot (sp_watcher_static sp')) = {a. flag (sp_heap sp) 0 a \<and> \<not> flag (sp_heap sp) 2 a} \<and>
    set (set_slot (sp_marker_move sp')) = {a. flag (sp_heap sp) 1 a \<and> flag (sp_heap sp) 2 a} \<and>
    set (set_slot (sp_marker_static sp')) = {a. flag (sp_heap sp) 1 a \<and> \<not> flag (sp_heap sp) 2 a}"
proof -
  let ?as = "map_objs (sp_object sp)" and ?h = "sp_heap sp"
  have inv: "ainv (sp_hot sp) (\<lambda>_. 0) sp" using assms by (simp add: aoi_inv_def)
  note D = ainvD [OF inv]
  note as = map.objs_linked [OF D(1,2)]
  have rs: "sp_heap (reset_sets sp) = ?h" "same_rest sp (reset_sets sp)" "sets_inv (reset_sets sp)"
    using assms by (auto simp: reset_sets_def same_rest_def sets_inv_def set_inv_def aoi_inv_def)
  have "\<exists>sp'. foldl (\<lambda>r a. bind_res r (set_push a)) (Inr (reset_sets sp)) ?as = Inr sp' \<and> sets_inv sp' \<and>
      same_rest (reset_sets sp) sp' \<and>
      sp_heap sp' = (\<lambda>a. if a \<in> set ?as then map_option settle (sp_heap (reset_sets sp) a) else sp_heap (reset_sets sp) a) \<and>
      sorted_into (sp_heap (reset_sets sp)) ?as (reset_sets sp) sp'"
    by (rule foreach_push) (use rs as in auto)
  note this [unfolded rs(1)]
  then obtain sp' where 1: "sort_objects sp = Inr sp'" "sets_inv sp'" "same_rest (reset_sets sp) sp'"
    "sp_heap sp' = (\<lambda>a. if a \<in> set ?as then map_option settle (?h a) else ?h a)"
    "sorted_into ?h ?as (reset_sets sp) sp'"
    by (auto simp: sort_objects_def map_foreach_objs)
  have sr: "same_rest sp sp'" using rs(2) 1(3) by (simp add: same_rest_def)
  have h: "sp_heap sp' = (\<lambda>a. map_option settle (?h a))" using as(1) unfolding 1(4) by (auto simp: fun_eq_iff)
  have fl: "flag ?h k a \<Longrightarrow> a \<in> set ?as" for k a using as(1) by (auto simp: flag_def split: option.splits)
  have "ainv (sp_hot sp) (\<lambda>_. 0) sp'"
  proof (rule ainvI)
    show "linked (amap (sp_object sp')) (sp_heap sp') ob_id"
      using D(2) sr unfolding linked_def h by (auto simp: same_rest_def)
    show "pair_ok (sp_heap sp') p" if "p \<in> set (sp_hot sp)" for p
      using D(5) [OF that] unfolding h by (auto simp: pair_ok_def)
    show "obj_inv (sp_hot sp) 0 (sp_maxAoiCount sp') a ob" if "sp_heap sp' a = Some ob" for a ob
      using that D(4) [of a] settle_inv sr unfolding h by (auto simp: same_rest_def)
    show "a < sp_brk sp'" if "sp_heap sp' a = Some ob" for a ob
      using that D(3) [of a] sr unfolding h by (auto simp: same_rest_def)
  qed (use D sr in \<open>auto simp: same_rest_def\<close>)
  then have "aoi_inv sp'" using assms 1(2) sr by (auto simp: aoi_inv_def same_rest_def)
  moreover have "set_slot (sp_watcher_move (reset_sets sp)) = []" "set_slot (sp_watcher_static (reset_sets sp)) = []"
    "set_slot (sp_marker_move (reset_sets sp)) = []" "set_slot (sp_marker_static (reset_sets sp)) = []"
    by (simp_all add: reset_sets_def)
  ultimately show ?thesis using 1(1,5) sr h fl by (auto simp: sorted_into_def)
qed

section \<open>Generating pairs\<close>

text \<open>What generating pairs may change: new pairs in front, each of objects in reach of one another.\<close>

definition gen_step :: "aoi_space \<Rightarrow> aoi_space \<Rightarrow> bool" where
  "gen_step sp sp' \<longleftrightarrow> (\<exists>xs. sp_hot sp' = xs @ sp_hot sp \<and> (\<forall>p \<in> set xs. pair_near (sp_aoi_radis2 sp) (sp_heap sp') p)) \<and>
     (\<forall>a. map_option view (sp_heap sp' a) = map_option view (sp_heap sp a)) \<and>
     sp_aoi_radis2 sp' = sp_aoi_radis2 sp \<and> sp_maxAoiCount sp' = sp_maxAoiCount sp"

text \<open>What has become of a watcher and a marker: a pair, or a reason why there is none.\<close>

definition gen_goal :: "aoi_space \<Rightarrow> addr \<Rightarrow> addr \<Rightarrow> bool" where
  "gen_goal sp a b \<longleftrightarrow> a = b \<or> sp_maxAoiCount sp \<le> wcount (sp_hot sp) a \<or>
     (\<exists>w m. sp_heap sp a = Some w \<and> sp_heap sp b = Some m \<and>
       ((\<exists>p \<in> set (sp_hot sp). p_key p = make_unique_int64 (ob_id w) (ob_id m) PAIR_KEY_LEN) \<or>
        f32_lt (sp_aoi_radis2 sp) (dist2 w m)))"

lemma pair_near_view:
  assumes "\<forall>a. map_option view (h' a) = map_option view (h a)"
  shows "pair_near r h' p = pair_near r h p"
proof -
  have "pair_near r g' p" if v: "\<forall>a. map_option view (g' a) = map_option view (g a)" and n: "pair_near r g p" for g g'
  proof -
    obtain w m where wm: "g (p_watcher p) = Some w" "g (p_marker p) = Some m"
      "\<not> has_mode w MODE_DROP" "\<not> has_mode m MODE_DROP" "\<not> f32_lt r (dist2 w m)" using n by (auto simp: pair_near_def)
    then obtain w' m' where "g' (p_watcher p) = Some w'" "g' (p_marker p) = Some m'" "view w' = view w" "view m' = view m"
      using v [rule_format, of "p_watcher p"] v [rule_format, of "p_marker p"] by auto
    with wm show ?thesis by (auto simp: pair_near_def view_def dist2_def)
  qed
  from this [of h' h] this [of h h'] assms show ?thesis by auto
qed

lemma gen_step_refl [simp]: "gen_step sp sp"
  by (simp add: gen_step_def)

lemma gen_step_trans:
  assumes "gen_step sp sp'" and "gen_step sp' sp''"
  shows "gen_step sp sp''"
proof -
  from assms obtain xs ys where xs: "sp_hot sp' = xs @ sp_hot sp" "\<forall>p \<in> set xs. pair_near (sp_aoi_radis2 sp) (sp_heap sp') p"
    and ys: "sp_hot sp'' = ys @ sp_hot sp'" "\<forall>p \<in> set ys. pair_near (sp_aoi_radis2 sp') (sp_heap sp'') p"
    unfolding gen_step_def by blast
  have "\<forall>p \<in> set (ys @ xs). pair_near (sp_aoi_radis2 sp) (sp_heap sp'') p"
    using xs(2) ys(2) assms pair_near_view [of "sp_heap sp''" "sp_heap sp'"] by (auto simp: gen_step_def)
  moreover have "sp_hot sp'' = (ys @ xs) @ sp_hot sp" using xs ys by simp
  ultimately show ?thesis using assms unfolding gen_step_def by auto
qed

lemma gen_goal_mono:
  assumes "gen_step sp sp'" and "gen_goal sp a b"
  shows "gen_goal sp' a b"
proof -
  obtain xs where xs: "sp_hot sp' = xs @ sp_hot sp" using assms(1) by (auto simp: gen_step_def)
  have v: "map_option view (sp_heap sp' c) = map_option view (sp_heap sp c)" for c using assms(1) by (simp add: gen_step_def)
  have "\<exists>w' m'. sp_heap sp' a = Some w' \<and> sp_heap sp' b = Some m' \<and> view w' = view w \<and> view m' = view m"
    if "sp_heap sp a = Some w" "sp_heap sp b = Some m" for w m using that v [of a] v [of b] by auto
  then show ?thesis using assms xs unfolding gen_goal_def
    by (fastforce simp: gen_step_def view_def dist2_def)
qed

lemma gen_pair_ok:
  assumes inv: "aoi_inv sp" and w: "sp_heap sp a = Some w" "\<not> has_mode w MODE_DROP"
    and m: "sp_heap sp b = Some m" "\<not> has_mode m MODE_DROP"
  shows "\<exists>sp' evs'. gen_pair (sp, evs) a b = Inr (sp', evs') \<and> aoi_inv sp' \<and> gen_step sp sp' \<and> gen_goal sp' a b"
proof -
  have ai: "ainv (sp_hot sp) (\<lambda>_. 0) sp" and mx: "sp_maxAoiCount sp < 2 ^ 32" using inv by (auto simp: aoi_inv_def)
  note D = ainvD [OF ai]
  let ?key = "make_unique_int64 (ob_id w) (ob_id m) PAIR_KEY_LEN"
  have oi: "obj_inv (sp_hot sp) 0 (sp_maxAoiCount sp) a w" "obj_inv (sp_hot sp) 0 (sp_maxAoiCount sp) b m"
    using D(4) w m by auto
  then have cnt: "ob_aoiCount w mod 2 ^ 32 = int (wcount (sp_hot sp) a)" using mx by (simp add: obj_inv_def)
  have keys: "?key \<in> set (sp_pair_hash sp) \<longleftrightarrow> (\<exists>p \<in> set (sp_hot sp). p_key p = ?key)"
    using mset_eq_setD [OF D(7)] by force
  show ?thesis
  proof (cases "gen_goal sp a b")
    case True
    then have "gen_pair (sp, evs) a b = Inr (sp, evs)"
      using w(1) m(1) cnt keys by (auto simp: gen_goal_def gen_pair_def deref_def Let_def)
    then show ?thesis using True inv by auto
  next
    case False
    let ?p = "\<lparr>p_key = ?key, p_watcher = a, p_marker = b\<rparr>"
    let ?sp1 = "store b (grab_object m) (store a ((grab_object w)\<lparr>ob_aoiCount := ob_aoiCount w + 1\<rparr>) sp)"
    let ?sp = "?sp1\<lparr>sp_hot := ?p # sp_hot ?sp1, sp_pair_hash := ?key # sp_pair_hash ?sp1\<rparr>"
    have ng: "a \<noteq> b" "wcount (sp_hot sp) a < sp_maxAoiCount sp" "\<forall>p \<in> set (sp_hot sp). p_key p \<noteq> ?key"
      "\<not> f32_lt (sp_aoi_radis2 sp) (dist2 w m)"
      using False w(1) m(1) by (auto simp: gen_goal_def)
    have run: "gen_pair (sp, evs) a b = Inr (?sp, evs @ [aoi_cb sp w m ''m''])"
      using ng w(1) m(1) cnt keys by (auto simp: gen_pair_def deref_def Let_def)
    have "ainv (sp_hot ?sp) (\<lambda>_. 0) ?sp"
    proof (rule ainvI)
      show "linked (amap (sp_object ?sp)) (sp_heap ?sp) ob_id"
        using linked_store [OF linked_store [OF D(2) w(1)], of _ b m] m(1) ng(1) by (simp add: grab_object_def)
      show "obj_inv (sp_hot ?sp) 0 (sp_maxAoiCount ?sp) c ob" if "sp_heap ?sp c = Some ob" for c ob
        using that D(4) [of c] oi ng(1,2) by (auto simp: obj_inv_def grab_object_def split: if_splits)
      show "pair_ok (sp_heap ?sp) p" if "p \<in> set (sp_hot ?sp)" for p
        using that D(5) [of p] w(1) m(1) ng(1) by (auto simp: pair_ok_def grab_object_def)
      show "distinct (map p_key (sp_hot ?sp))" using D(6) ng(3) by auto
      show "c < sp_brk ?sp" if "sp_heap ?sp c = Some ob" for c ob
        using that D(3) [OF w(1)] D(3) [OF m(1)] D(3) [of c] by (auto split: if_splits)
    qed (use D(1,7) in simp_all)
    then have "aoi_inv ?sp" using inv by (auto simp: aoi_inv_def sets_inv_def store_def)
    moreover have "gen_step sp ?sp"
      using w m ng by (auto simp: gen_step_def pair_near_def grab_object_def view_def dist2_def)
    moreover have "gen_goal ?sp a b" using ng(1) by (auto simp: gen_goal_def grab_object_def)
    ultimately show ?thesis using run by blast
  qed
qed

definition alive :: "aoi_space \<Rightarrow> addr \<Rightarrow> bool" where
  "alive sp a \<longleftrightarrow> (\<exists>ob. sp_heap sp a = Some ob \<and> \<not> has_mode ob MODE_DROP)"

lemma alive_step:
  assumes "gen_step sp sp'" and "alive sp a"
  shows "alive sp' a"
proof -
  have "map_option view (sp_heap sp' a) = map_option view (sp_heap sp a)" using assms(1) by (simp add: gen_step_def)
  with assms(2) show ?thesis by (auto simp: alive_def view_def)
qed

lemma gen_row_ok:
  assumes "aoi_inv sp" and "alive sp a" and "\<And>b. b \<in> set ms \<Longrightarrow> alive sp b"
  shows "\<exists>sp' evs'. foldl (\<lambda>r m. bind_res r (\<lambda>st. gen_pair st a m)) (Inr (sp, evs)) ms = Inr (sp', evs') \<and>
    aoi_inv sp' \<and> gen_step sp sp' \<and> (\<forall>b \<in> set ms. gen_goal sp' a b)"
  using assms
proof (induction ms arbitrary: sp evs)
  case (Cons b ms)
  then obtain sp1 evs1 where 1: "gen_pair (sp, evs) a b = Inr (sp1, evs1)" "aoi_inv sp1" "gen_step sp sp1" "gen_goal sp1 a b"
    using gen_pair_ok [OF Cons.prems(1)] unfolding alive_def by (metis list.set_intros(1))
  have "\<exists>sp' evs'. foldl (\<lambda>r m. bind_res r (\<lambda>st. gen_pair st a m)) (Inr (sp1, evs1)) ms = Inr (sp', evs') \<and>
    aoi_inv sp' \<and> gen_step sp1 sp' \<and> (\<forall>b \<in> set ms. gen_goal sp' a b)"
    by (rule Cons.IH) (use 1 Cons.prems alive_step in auto)
  then obtain sp2 evs2 where 2: "foldl (\<lambda>r m. bind_res r (\<lambda>st. gen_pair st a m)) (Inr (sp1, evs1)) ms = Inr (sp2, evs2)"
    "aoi_inv sp2" "gen_step sp1 sp2" "\<forall>b \<in> set ms. gen_goal sp2 a b" by blast
  then show ?case using 1 gen_step_trans [OF 1(3) 2(3)] gen_goal_mono [OF 2(3) 1(4)] by auto
qed auto

lemma gen_pair_list_ok:
  assumes "aoi_inv sp" and "\<And>a. a \<in> set ws \<Longrightarrow> alive sp a" and "\<And>b. b \<in> set ms \<Longrightarrow> alive sp b"
  shows "\<exists>sp' evs'. gen_pair_list ws ms (sp, evs) = Inr (sp', evs') \<and>
    aoi_inv sp' \<and> gen_step sp sp' \<and> (\<forall>a \<in> set ws. \<forall>b \<in> set ms. gen_goal sp' a b)"
  using assms unfolding gen_pair_list_def
proof (induction ws arbitrary: sp evs)
  case (Cons a ws)
  let ?row = "\<lambda>r w. foldl (\<lambda>r m. bind_res r (\<lambda>st. gen_pair st w m)) r ms"
  obtain sp1 evs1 where 1: "?row (Inr (sp, evs)) a = Inr (sp1, evs1)" "aoi_inv sp1" "gen_step sp sp1"
    "\<forall>b \<in> set ms. gen_goal sp1 a b"
    using gen_row_ok [OF Cons.prems(1), of a ms evs] Cons.prems by auto
  have "\<exists>sp' evs'. foldl ?row (Inr (sp1, evs1)) ws = Inr (sp', evs') \<and>
    aoi_inv sp' \<and> gen_step sp1 sp' \<and> (\<forall>a \<in> set ws. \<forall>b \<in> set ms. gen_goal sp' a b)"
    by (rule Cons.IH) (use 1 Cons.prems alive_step in auto)
  then obtain sp2 evs2 where 2: "foldl ?row (Inr (sp1, evs1)) ws = Inr (sp2, evs2)"
    "aoi_inv sp2" "gen_step sp1 sp2" "\<forall>a \<in> set ws. \<forall>b \<in> set ms. gen_goal sp2 a b" by blast
  moreover have "\<forall>b \<in> set ms. gen_goal sp2 a b" using gen_goal_mono [OF 2(3)] 1(4) by blast
  ultimately show ?case using 1 gen_step_trans [OF 1(3) 2(3)] by auto
qed auto

lemma flag_alive:
  assumes "aoi_inv sp" and "flag (sp_heap sp) 0 a \<or> flag (sp_heap sp) 1 a"
  shows "alive sp a"
proof (cases "sp_heap sp a")
  case (Some ob)
  then have "obj_inv (sp_hot sp) 0 (sp_maxAoiCount sp) a ob"
    using assms(1) by (auto simp: aoi_inv_def dest: ainvD(4))
  then show ?thesis using assms(2) Some by (auto simp: alive_def flag_def obj_inv_def mode_bits)
qed (use assms(2) in \<open>simp add: flag_def\<close>)

lemma flag_flush:
  assumes "aoi_inv sp" and "heap_le h (sp_heap sp)" and "flag (sp_heap sp) 0 a \<or> flag (sp_heap sp) 1 a"
  shows "flag h k a = flag (sp_heap sp) k a"
proof -
  obtain ob where ob: "sp_heap sp a = Some ob" "\<not> has_mode ob MODE_DROP"
    using flag_alive [OF assms(1,3)] by (auto simp: alive_def)
  then obtain ob' where "h a = Some ob'" "view ob' = view ob" using assms(2) unfolding heap_le_def by blast
  with ob show ?thesis by (simp add: flag_def view_def)
qed

lemma pair_near_settle: "pair_near r h p \<Longrightarrow> pair_near r (\<lambda>a. map_option settle (h a)) p"
  by (auto simp: pair_near_def mode_bits dist2_def)

text \<open>The id and the position of an object, which a message leaves as they are.\<close>

definition place :: "aobject \<Rightarrow> u64 \<times> pos" where
  "place ob = (ob_id ob, ob_position ob)"

lemma aoi_message_ok:
  assumes inv: "aoi_inv sp"
  shows "\<exists>sp' evs. aoi_message sp = Inr (sp', evs) \<and> aoi_inv sp' \<and>
    sp_aoi_radis2 sp' = sp_aoi_radis2 sp \<and> sp_maxAoiCount sp' = sp_maxAoiCount sp \<and>
    (\<forall>p \<in> set (sp_hot sp'). pair_near (sp_aoi_radis2 sp) (sp_heap sp') p) \<and>
    (\<forall>a b. flag (sp_heap sp) 0 a \<longrightarrow> flag (sp_heap sp) 1 b \<longrightarrow> flag (sp_heap sp) 2 a \<or> flag (sp_heap sp) 2 b \<longrightarrow>
      gen_goal sp' a b) \<and>
    (\<forall>a. flag (sp_heap sp) 0 a \<or> flag (sp_heap sp) 1 a \<longrightarrow>
      map_option place (sp_heap sp' a) = map_option place (sp_heap sp a))"
proof -
  obtain sp1 ev1 where 1: "flush_pair sp = Inr (sp1, ev1)" "aoi_inv sp1" "heap_le (sp_heap sp1) (sp_heap sp)"
    "sp_aoi_radis2 sp1 = sp_aoi_radis2 sp" "sp_maxAoiCount sp1 = sp_maxAoiCount sp"
    "\<forall>p \<in> set (sp_hot sp1). pair_near (sp_aoi_radis2 sp) (sp_heap sp1) p" using flush_pair_ok [OF inv] by blast
  obtain sp2 where 2: "sort_objects sp1 = Inr sp2" "aoi_inv sp2" "same_rest sp1 sp2"
    "sp_heap sp2 = (\<lambda>a. map_option settle (sp_heap sp1 a))"
    and wm: "set (set_slot (sp_watcher_move sp2)) = {a. flag (sp_heap sp1) 0 a \<and> flag (sp_heap sp1) 2 a}"
    and ws: "set (set_slot (sp_watcher_static sp2)) = {a. flag (sp_heap sp1) 0 a \<and> \<not> flag (sp_heap sp1) 2 a}"
    and mm: "set (set_slot (sp_marker_move sp2)) = {a. flag (sp_heap sp1) 1 a \<and> flag (sp_heap sp1) 2 a}"
    and ms: "set (set_slot (sp_marker_static sp2)) = {a. flag (sp_heap sp1) 1 a \<and> \<not> flag (sp_heap sp1) 2 a}"
    using sort_objects_ok [OF 1(2)] by blast
  have al: "alive sp2 a" if fl: "flag (sp_heap sp1) 0 a \<or> flag (sp_heap sp1) 1 a" for a
    using flag_alive [OF 1(2) fl] 2(4) by (auto simp: alive_def mode_bits)
  obtain sp3 ev3 where 3: "gen_pair_list (set_slot (sp_watcher_static sp2)) (set_slot (sp_marker_move sp2)) (sp2, ev1) = Inr (sp3, ev3)"
    "aoi_inv sp3" "gen_step sp2 sp3" "\<forall>a \<in> set (set_slot (sp_watcher_static sp2)). \<forall>b \<in> set (set_slot (sp_marker_move sp2)). gen_goal sp3 a b"
    using gen_pair_list_ok [OF 2(2)] al ws mm by (metis (no_types, lifting) mem_Collect_eq)
  obtain sp4 ev4 where 4: "gen_pair_list (set_slot (sp_watcher_move sp2)) (set_slot (sp_marker_static sp2)) (sp3, ev3) = Inr (sp4, ev4)"
    "aoi_inv sp4" "gen_step sp3 sp4" "\<forall>a \<in> set (set_slot (sp_watcher_move sp2)). \<forall>b \<in> set (set_slot (sp_marker_static sp2)). gen_goal sp4 a b"
    using gen_pair_list_ok [OF 3(2)] al alive_step [OF 3(3)] wm ms by (metis (no_types, lifting) mem_Collect_eq)
  obtain sp5 ev5 where 5: "gen_pair_list (set_slot (sp_watcher_move sp2)) (set_slot (sp_marker_move sp2)) (sp4, ev4) = Inr (sp5, ev5)"
    "aoi_inv sp5" "gen_step sp4 sp5" "\<forall>a \<in> set (set_slot (sp_watcher_move sp2)). \<forall>b \<in> set (set_slot (sp_marker_move sp2)). gen_goal sp5 a b"
    using gen_pair_list_ok [OF 4(2)] al alive_step [OF gen_step_trans [OF 3(3) 4(3)]] wm mm by (metis (no_types, lifting) mem_Collect_eq)
  have run: "aoi_message sp = Inr (sp5, ev5)"
    using 1(1) 2(1) 3(1) 4(1) 5(1) by (simp add: aoi_message_def sort_objects_def)
  have st: "gen_step sp2 sp5" using gen_step_trans [OF 3(3) gen_step_trans [OF 4(3) 5(3)]] .
  have near: "pair_near (sp_aoi_radis2 sp) (sp_heap sp5) p" if p: "p \<in> set (sp_hot sp5)" for p
  proof -
    obtain xs where xs: "sp_hot sp5 = xs @ sp_hot sp1" "\<forall>p \<in> set xs. pair_near (sp_aoi_radis2 sp) (sp_heap sp5) p"
      using st 2(3) 1(4) by (auto simp: gen_step_def same_rest_def)
    have "pair_near (sp_aoi_radis2 sp) (sp_heap sp5) p" if "p \<in> set (sp_hot sp1)"
      using that 1(6) pair_near_view [of "sp_heap sp5" "sp_heap sp2"] st pair_near_settle
      unfolding gen_step_def 2(4) by blast
    then show ?thesis using p xs by auto
  qed
  have goal: "gen_goal sp5 a b"
    if fa: "flag (sp_heap sp) 0 a" and fb: "flag (sp_heap sp) 1 b" and mv: "flag (sp_heap sp) 2 a \<or> flag (sp_heap sp) 2 b" for a b
  proof -
    have f: "flag (sp_heap sp1) 0 a" "flag (sp_heap sp1) 1 b" "flag (sp_heap sp1) 2 a \<or> flag (sp_heap sp1) 2 b"
      using flag_flush [OF inv 1(3)] fa fb mv by auto
    consider "flag (sp_heap sp1) 2 a" "flag (sp_heap sp1) 2 b" | "\<not> flag (sp_heap sp1) 2 a" "flag (sp_heap sp1) 2 b"
      | "flag (sp_heap sp1) 2 a" "\<not> flag (sp_heap sp1) 2 b" using f(3) by blast
    then show ?thesis
    proof cases
      case 1
      then show ?thesis using f 5(4) wm mm by simp
    next
      case 2
      then have "gen_goal sp3 a b" using f 3(4) ws mm by simp
      then show ?thesis by (rule gen_goal_mono [OF gen_step_trans [OF 4(3) 5(3)]])
    next
      case 3
      then have "gen_goal sp4 a b" using f 4(4) wm ms by simp
      then show ?thesis by (rule gen_goal_mono [OF 5(3)])
    qed
  qed
  have place: "map_option place (sp_heap sp5 a) = map_option place (sp_heap sp a)"
    if fa: "flag (sp_heap sp) 0 a \<or> flag (sp_heap sp) 1 a" for a
  proof -
    obtain ob ob1 where ob: "sp_heap sp a = Some ob" "sp_heap sp1 a = Some ob1" "view ob1 = view ob"
      using flag_alive [OF inv fa] 1(3) unfolding alive_def heap_le_def by metis
    then obtain ob5 where "sp_heap sp5 a = Some ob5" "view ob5 = view (settle ob1)"
      using st 2(4) unfolding gen_step_def by (metis (no_types, lifting) map_option_eq_Some option.simps(9))
    then show ?thesis using ob by (simp add: place_def view_def)
  qed
  have "sp_aoi_radis2 sp5 = sp_aoi_radis2 sp" "sp_maxAoiCount sp5 = sp_maxAoiCount sp"
    using st 2(3) 1(4,5) by (simp_all add: gen_step_def same_rest_def)
  then show ?thesis using run 5(2) near goal place by blast
qed

section \<open>Updating\<close>

lemma ucast_valid: "(ucast (i :: u32) :: u64) \<noteq> INVALID_ID"
proof
  assume "(ucast i :: u64) = INVALID_ID"
  then have "bit (ucast i :: u64) 63 = bit INVALID_ID 63" by simp
  moreover have "\<not> bit i 63" by (auto dest: bit_imp_le_length)
  ultimately show False by (simp add: INVALID_ID_def bit_simps)
qed

lemma fresh_count:
  assumes "ainv ps e sp" and "sp_heap sp a = None"
  shows "wcount ps a = 0" and "mcount ps a = 0"
  using ainvD(5) [OF assms(1)] assms(2) by (fastforce simp: count_0 pair_ok_def)+

lemma query_object_ok:
  assumes inv: "ainv ps (\<lambda>_. 0) sp"
  shows "\<exists>a sp' ob. query_object sp i = Inr (a, sp') \<and> ainv ps (\<lambda>_. 0) sp' \<and> sp_heap sp' a = Some ob \<and>
    ob_id ob = ucast i \<and> (sp_heap sp a = Some ob \<or> sp_heap sp a = None \<and> ob = new_object i) \<and>
    (\<forall>b. b \<noteq> a \<longrightarrow> sp_heap sp' b = sp_heap sp b) \<and>
    sp_hot sp' = sp_hot sp \<and> sets_inv sp' = sets_inv sp \<and> sp_maxAoiCount sp' = sp_maxAoiCount sp"
proof -
  note D = ainvD [OF inv]
  have fresh: "sp_heap sp (sp_brk sp) = None" using D(3) by (cases "sp_heap sp (sp_brk sp)") auto
  have "ob_id (new_object i) = ucast i" by (simp add: new_object_def)
  from map.query_linked [OF D(1,2) ucast_valid fresh this]
  consider (old) a x where "sp_heap sp a = Some x" "ob_id x = ucast i" "map_query (sp_object sp) (ucast i) (sp_brk sp) = Inr (a, False, sp_object sp)"
    | (new) m' where "map_query (sp_object sp) (ucast i) (sp_brk sp) = Inr (sp_brk sp, True, m')" "mwf m'"
      "linked (amap m') ((sp_heap sp)(sp_brk sp \<mapsto> new_object i)) ob_id" by blast
  then show ?thesis
  proof cases
    case old
    then have "query_object sp i = Inr (a, sp)" by (simp add: query_object_def)
    then show ?thesis using old inv by auto
  next
    case new
    let ?sp = "store (sp_brk sp) (new_object i) (sp\<lparr>sp_object := m', sp_brk := sp_brk sp + 1\<rparr>)"
    have "query_object sp i = Inr (sp_brk sp, ?sp)" using new(1) by (simp add: query_object_def Let_def)
    moreover have "ainv ps (\<lambda>_. 0) ?sp"
    proof (rule ainvI)
      show "a < sp_brk ?sp" if "sp_heap ?sp a = Some ob" for a ob
        using that D(3) [of a] by (auto simp: less_Suc_eq split: if_splits)
      show "obj_inv ps 0 (sp_maxAoiCount ?sp) a ob" if "sp_heap ?sp a = Some ob" for a ob
        using that D(4) [of a] fresh_count [OF inv fresh] ucast_valid
        by (auto simp: obj_inv_def new_object_def split: if_splits)
      show "pair_ok (sp_heap ?sp) p" if "p \<in> set ps" for p using D(5) [OF that] fresh by (auto simp: pair_ok_def)
    qed (use new(2,3) D(6,7) in simp_all)
    moreover have "sets_inv ?sp = sets_inv sp" by (simp add: sets_inv_def store_def)
    ultimately show ?thesis using fresh by (auto simp: new_object_def)
  qed
qed

lemma sets_inv_store [simp]: "sets_inv (store a ob sp) = sets_inv sp"
  by (simp add: sets_inv_def store_def)

lemma aoi_update_ok:
  assumes inv: "aoi_inv sp"
  shows "\<exists>sp'. aoi_update sp i modestring rtype pos tpos = Inr sp' \<and> aoi_inv sp'"
proof -
  have "ainv (sp_hot sp) (\<lambda>_. 0) sp" using inv by (simp add: aoi_inv_def)
  from query_object_ok [OF this, of i] obtain a sp1 ob where 1: "query_object sp i = Inr (a, sp1)"
    "ainv (sp_hot sp1) (\<lambda>_. 0) sp1" "sp_heap sp1 a = Some ob" "sets_inv sp1" "sp_maxAoiCount sp1 < 2 ^ 32"
    using inv unfolding aoi_inv_def by metis
  note oi = ainvD(4) [OF 1(2,3)]
  show ?thesis
  proof (cases "scan_mode modestring False False")
    case (Some wm)
    obtain w m where wm: "wm = (w, m)" by fastforce
    let ?ob = "update_object ob w m rtype pos tpos"
    have "obj_inv (sp_hot sp1) 0 (sp_maxAoiCount sp1) a ?ob"
      using oi update_object_fields [of ob w m rtype pos tpos] by (auto simp: obj_inv_def mode_bits split: if_splits)
    then have "ainv (sp_hot sp1) (\<lambda>_. 0) (store a ?ob sp1)"
      by (intro ainv_store [OF 1(2,3)]) (simp_all add: update_object_fields)
    then show ?thesis using 1 Some wm by (auto simp: aoi_update_def deref_def aoi_inv_def)
  next
    case None
    show ?thesis
    proof (cases "has_mode ob MODE_DROP")
      case True
      then show ?thesis using 1 None by (auto simp: aoi_update_def deref_def aoi_inv_def)
    next
      case False
      let ?ob = "ob\<lparr>ob_mode := MODE_DROP\<rparr>" and ?e = "(\<lambda>_. 0)(a := 1) :: addr \<Rightarrow> nat"
      have "ainv (sp_hot sp1) ?e (store a ?ob sp1)"
        by (rule ainv_store [OF 1(2,3)]) (use oi False in \<open>auto simp: obj_inv_def mode_bits MODE_DROP_def\<close>)
      from drop_object_ok [OF this, of a ?ob 0] obtain sp2 where 2: "drop_object (store a ?ob sp1) a = Inr sp2"
        "ainv (sp_hot sp1) (?e(a := 0)) sp2" "frame (store a ?ob sp1) sp2" by auto
      moreover have "?e(a := 0) = (\<lambda>_. 0)" by auto
      moreover have "sets_inv sp2" using sets_inv_frame [OF 2(3)] 1(4) by simp
      ultimately have "aoi_inv sp2" using 1(5) by (simp add: aoi_inv_def frame_def)
      then show ?thesis using 1 2(1) None False by (simp add: aoi_update_def deref_def)
    qed
  qed
qed

section \<open>Reachable states\<close>

text \<open>The states a space can be in: new, and then any sequence of updates and messages.\<close>

inductive aoi_reach :: "aoi_space \<Rightarrow> bool" where
  reach_new: "maxCount < 2 ^ 32 \<Longrightarrow> aoi_reach (lnew mapId maxCount radius)"
| reach_update: "aoi_reach sp \<Longrightarrow> aoi_update sp i md rtype pos tpos = Inr sp' \<Longrightarrow> aoi_reach sp'"
| reach_message: "aoi_reach sp \<Longrightarrow> aoi_message sp = Inr (sp', evs) \<Longrightarrow> aoi_reach sp'"

lemma lnew_inv: "maxCount < 2 ^ 32 \<Longrightarrow> aoi_inv (lnew mapId maxCount radius)"
  using map.linked_empty [of ob_id] map_new_wf
  by (auto simp: lnew_def aoi_new_def aoi_create_def aoi_inv_def ainv_def sets_inv_def set_inv_def set_new_def
      PRE_ALLOC_def)

lemma reach_inv: "aoi_reach sp \<Longrightarrow> aoi_inv sp"
proof (induction rule: aoi_reach.induct)
  case (reach_new maxCount mapId radius)
  then show ?case by (rule lnew_inv)
next
  case (reach_update sp i md rtype pos tpos sp')
  then show ?case using aoi_update_ok [of sp i md rtype pos tpos] by auto
next
  case (reach_message sp sp' evs)
  then show ?case using aoi_message_ok [of sp] by auto
qed

lemma aoi_run_ok: "aoi_inv sp \<Longrightarrow> \<exists>sp' evs. aoi_run cs sp = Inr (sp', evs) \<and> aoi_inv sp'"
proof (induction cs sp rule: aoi_run.induct)
  case (2 i md rtype pos tpos cs sp)
  then show ?case using aoi_update_ok [of sp i md rtype pos tpos] by fastforce
next
  case (3 cs sp)
  then show ?case using aoi_message_ok [of sp] by fastforce
qed simp

lemma release_list:
  assumes "set as \<subseteq> dom (sp_heap sp)" and "distinct as"
  shows "\<exists>sp'. foldl (\<lambda>r a. bind_res r (\<lambda>sp. bind_res (deref sp a) (\<lambda>_. Inr (delete_object a sp)))) (Inr sp) as = Inr sp' \<and>
    sp_heap sp' = (\<lambda>a. if a \<in> set as then None else sp_heap sp a)"
  using assms
proof (induction as arbitrary: sp)
  case (Cons a as)
  then have "deref sp a = Inr (the (sp_heap sp a))" by (auto simp: deref_def)
  moreover have "set as \<subseteq> dom (sp_heap (delete_object a sp))" "distinct as" using Cons.prems by (auto simp: delete_object_def)
  from Cons.IH [OF this] obtain sp' where
    "foldl (\<lambda>r a. bind_res r (\<lambda>sp. bind_res (deref sp a) (\<lambda>_. Inr (delete_object a sp)))) (Inr (delete_object a sp)) as = Inr sp'"
    "sp_heap sp' = (\<lambda>b. if b \<in> set as then None else sp_heap (delete_object a sp) b)" by blast
  ultimately show ?case by (auto simp: delete_object_def fun_eq_iff)
qed auto

lemma aoi_run_reach: "aoi_reach sp \<Longrightarrow> aoi_run cs sp = Inr (sp', evs) \<Longrightarrow> aoi_reach sp'"
proof (induction cs sp arbitrary: sp' evs rule: aoi_run.induct)
  case (2 i md rtype pos tpos cs sp)
  then obtain sp1 where "aoi_update sp i md rtype pos tpos = Inr sp1" "aoi_run cs sp1 = Inr (sp', evs)"
    by (auto simp: bind_res_eq_Inr)
  then show ?case using 2(1) reach_update [OF 2(2)] by blast
next
  case (3 cs sp)
  then obtain sp1 ev1 ev2 where 1: "aoi_message sp = Inr (sp1, ev1)" "aoi_run cs sp1 = Inr (sp', ev2)"
    by (auto simp: bind_res_eq_Inr)
  show ?case by (rule 3(1) [OF reach_message [OF 3(2) 1(1)] 1(2)])
qed auto

text \<open>Two objects side by side, for the examples.\<close>

definition demo_space :: aoi_space where "demo_space = lnew 7 10 (fi 5)"

definition demo_calls :: "aoi_call list" where
  "demo_calls = [Update 1 ''wm'' 5 (fi 1, fi 2, fi 0) (fi 9, fi 0, fi 0),
     Update 2 ''wm'' 5 (fi 4, fi 2, fi 0) (fi 9, fi 0, fi 0), Message]"

lemma demo_reach: "aoi_reach demo_space"
  unfolding demo_space_def by (rule reach_new) simp

lemma demo_run: "\<exists>sp evs. aoi_run demo_calls demo_space = Inr (sp, evs) \<and> length (sp_hot sp) = 2"
proof -
  have "map_sum id (\<lambda>(sp, _). length (sp_hot sp)) (aoi_run demo_calls demo_space) = Inr 2" by code_simp
  then show ?thesis by (cases "aoi_run demo_calls demo_space") auto
qed

section \<open>Properties\<close>

text \<open>
  C23. No sequence of updates and messages on a new space, whatever the ids, modes and
  positions, makes the library fail: it never uses a freed object, trips the assertion in the
  hash table, loops, or writes past a set, and every call returns.
\<close>

theorem aoi_run_safe:
  assumes "maxCount < 2 ^ 32"
  shows "\<exists>sp evs. aoi_run calls (lnew mapId maxCount radius) = Inr (sp, evs)"
  using aoi_run_ok [OF lnew_inv [OF assms]] by blast

theorem aoi_run_safe_witness:
  "\<exists>sp evs. aoi_run [Update 1 ''wm'' 5 (fi 1, fi 2, fi 0) (fi 9, fi 0, fi 0), Message,
     Update 1 ''d'' 5 (fi 1, fi 2, fi 0) (fi 9, fi 0, fi 0), Message] (lnew 7 10 (fi 5)) = Inr (sp, evs)"
  using aoi_run_safe [of 10 "[Update 1 ''wm'' 5 (fi 1, fi 2, fi 0) (fi 9, fi 0, fi 0), Message,
     Update 1 ''d'' 5 (fi 1, fi 2, fi 0) (fi 9, fi 0, fi 0), Message]" 7 "fi 5"] by simp

text \<open>
  C24. In every reachable state an object's reference count is one for being in use and one for
  each pair it is part of, its \<open>aoiCount\<close> is the number of pairs it watches and within the limit,
  and both objects of every pair are live.
\<close>

theorem aoi_counts:
  assumes "aoi_reach sp"
  shows "(\<forall>a ob. sp_heap sp a = Some ob \<longrightarrow>
      ob_ref ob = (if has_mode ob MODE_DROP then 0 else 1) + int (wcount (sp_hot sp) a + mcount (sp_hot sp) a) \<and>
      0 < ob_ref ob \<and> ob_aoiCount ob = int (wcount (sp_hot sp) a) \<and> wcount (sp_hot sp) a \<le> sp_maxAoiCount sp) \<and>
    (\<forall>p \<in> set (sp_hot sp). p_watcher p \<noteq> p_marker p \<and> sp_heap sp (p_watcher p) \<noteq> None \<and> sp_heap sp (p_marker p) \<noteq> None)"
proof -
  have "ainv (sp_hot sp) (\<lambda>_. 0) sp" using reach_inv [OF assms] by (simp add: aoi_inv_def)
  note D = ainvD(4,5) [OF this]
  then show ?thesis by (fastforce simp: obj_inv_def pair_ok_def)
qed

theorem aoi_counts_witness:
  "\<exists>sp evs. aoi_run demo_calls demo_space = Inr (sp, evs) \<and> length (sp_hot sp) = 2 \<and>
     (\<forall>p \<in> set (sp_hot sp). p_watcher p \<noteq> p_marker p)"
proof -
  obtain sp evs where run: "aoi_run demo_calls demo_space = Inr (sp, evs)" "length (sp_hot sp) = 2"
    using demo_run by blast
  with aoi_counts [OF aoi_run_reach [OF demo_reach run(1)]] show ?thesis by blast
qed

text \<open>
  C25. After a message every pair consists of two objects that have not been dropped and are
  not further apart than the radius.
\<close>

theorem aoi_message_near:
  assumes "aoi_reach sp" and "aoi_message sp = Inr (sp', evs)"
  shows "\<forall>p \<in> set (sp_hot sp'). \<exists>w m. sp_heap sp' (p_watcher p) = Some w \<and> sp_heap sp' (p_marker p) = Some m \<and>
    \<not> has_mode w MODE_DROP \<and> \<not> has_mode m MODE_DROP \<and> \<not> f32_lt (sp_aoi_radis2 sp') (dist2 w m)"
  using aoi_message_ok [OF reach_inv [OF assms(1)]] assms(2) by (auto simp: pair_near_def)

theorem aoi_message_near_witness:
  "\<exists>sp evs. aoi_message demo_space = Inr (sp, evs) \<and> (\<forall>p \<in> set (sp_hot sp). sp_heap sp (p_watcher p) \<noteq> None)"
proof -
  obtain sp evs where run: "aoi_message demo_space = Inr (sp, evs)"
    using aoi_message_ok [OF reach_inv [OF demo_reach]] by blast
  with aoi_message_near [OF demo_reach run] show ?thesis by fastforce
qed

text \<open>
  C26. A message leaves no watcher and marker unnoticed: when one of the two has moved and they
  are within the radius, then afterwards there is a pair with their key, unless the watcher has
  as many pairs as the space allows.
\<close>

theorem aoi_message_complete:
  assumes "aoi_reach sp" and "aoi_message sp = Inr (sp', evs)" and "a \<noteq> b"
    and "sp_heap sp a = Some w" and "has_mode w MODE_WATCHER" and "sp_heap sp b = Some m" and "has_mode m MODE_MARKER"
    and "has_mode w MODE_MOVE \<or> has_mode m MODE_MOVE" and "\<not> f32_lt (sp_aoi_radis2 sp') (dist2 w m)"
  shows "(\<exists>p \<in> set (sp_hot sp'). p_key p = make_unique_int64 (ob_id w) (ob_id m) PAIR_KEY_LEN) \<or>
    sp_maxAoiCount sp' \<le> wcount (sp_hot sp') a"
proof -
  have inv: "aoi_inv sp" using reach_inv [OF assms(1)] .
  have fl: "flag (sp_heap sp) 0 a" "flag (sp_heap sp) 1 b" "flag (sp_heap sp) 2 a \<or> flag (sp_heap sp) 2 b"
    using assms(4-8) by (auto simp: flag_def mode_bits)
  then have "gen_goal sp' a b" using aoi_message_ok [OF inv] assms(2) by auto
  moreover have "map_option place (sp_heap sp' a) = Some (place w)" "map_option place (sp_heap sp' b) = Some (place m)"
    using aoi_message_ok [OF inv] assms(2,4,6) fl(1,2) by auto
  then obtain w' m' where "sp_heap sp' a = Some w'" "place w' = place w" "sp_heap sp' b = Some m'" "place m' = place m" by auto
  ultimately show ?thesis using assms(3,9) by (auto simp: gen_goal_def place_def dist2_def)
qed

theorem aoi_message_complete_witness:
  "\<exists>sp sp' evs. aoi_run (take 2 demo_calls) demo_space = Inr (sp, []) \<and> aoi_message sp = Inr (sp', evs) \<and>
     ((\<exists>p \<in> set (sp_hot sp'). p_key p = ''12'') \<or> sp_maxAoiCount sp' \<le> wcount (sp_hot sp') 0)"
proof -
  let ?r = "aoi_run (take 2 demo_calls) demo_space"
  have c: "map_sum id (\<lambda>(sp, ev). (ev = [], map_option (\<lambda>w. ob_mode w = 7 \<and> ob_id w = 1) (sp_heap sp 0),
      map_option (\<lambda>w. ob_mode w = 7 \<and> ob_id w = 2) (sp_heap sp 1))) ?r = Inr (True, Some True, Some True)" by code_simp
  have d: "map_sum id (\<lambda>(sp, ev). f32_lt (sp_aoi_radis2 sp) (dist2 (the (sp_heap sp 0)) (the (sp_heap sp 1)))) ?r = Inr False"
    by code_simp
  have k: "make_unique_int64 1 2 PAIR_KEY_LEN = ''12''" by code_simp
  from c d obtain sp w m where r: "?r = Inr (sp, [])" and w: "sp_heap sp 0 = Some w" "ob_mode w = 7" "ob_id w = 1"
    and m: "sp_heap sp 1 = Some m" "ob_mode m = 7" "ob_id m = 2" and n: "\<not> f32_lt (sp_aoi_radis2 sp) (dist2 w m)"
    by (cases ?r) auto
  have reach: "aoi_reach sp" using aoi_run_reach [OF demo_reach r] .
  obtain sp' evs where run: "aoi_message sp = Inr (sp', evs)" "sp_aoi_radis2 sp' = sp_aoi_radis2 sp"
    using aoi_message_ok [OF reach_inv [OF reach]] by blast
  have "has_mode w MODE_WATCHER" "has_mode m MODE_MARKER" "has_mode w MODE_MOVE"
    by (simp_all add: w(2) m(2) MODE_WATCHER_def MODE_MARKER_def MODE_MOVE_def)
  then show ?thesis using aoi_message_complete [OF reach run(1), of 0 1 w m] w m n run k r by auto
qed

text \<open>
  C38. The key of a pair does not determine the pair: a watcher with id 1 and a marker with id
  23 have the key of watcher 12 and marker 3. Of the four objects below, all in one place, every
  one comes to watch every other one but for 1, which never sees 23.
\<close>

definition crowd :: "aoi_call list" where
  "crowd = [Update 12 ''wm'' 5 (fi 0, fi 0, fi 0) (fi 0, fi 0, fi 0), Update 3 ''wm'' 5 (fi 0, fi 0, fi 0) (fi 0, fi 0, fi 0), Message,
     Update 1 ''wm'' 5 (fi 0, fi 0, fi 0) (fi 0, fi 0, fi 0), Update 23 ''wm'' 5 (fi 0, fi 0, fi 0) (fi 0, fi 0, fi 0), Message]"

fun seen :: "aoi_event \<Rightarrow> u32 \<times> u32" where
  "seen (Aoi_cb _ w m _ _ _ _) = (w, m)"

theorem pair_key_collision:
  "make_unique_int64 1 23 PAIR_KEY_LEN = make_unique_int64 12 3 PAIR_KEY_LEN \<and>
   map_sum id (\<lambda>(sp, evs). set (map seen evs) = {(a, b) |a b. a \<in> {1, 3, 12, 23} \<and> b \<in> {1, 3, 12, 23} \<and> a \<noteq> b} - {(1, 23)})
     (aoi_run crowd (lnew 7 10 (fi 5))) = Inr True"
proof -
  have k: "make_unique_int64 1 23 PAIR_KEY_LEN = make_unique_int64 12 3 PAIR_KEY_LEN" by code_simp
  have r: "map_sum id (\<lambda>(sp, evs). map seen evs) (aoi_run crowd (lnew 7 10 (fi 5))) =
    Inr [(3, 12), (12, 3), (3, 1), (3, 23), (12, 1), (12, 23), (1, 3), (1, 12), (23, 3), (23, 12), (23, 1)]" by code_simp
  then obtain sp evs where "aoi_run crowd (lnew 7 10 (fi 5)) = Inr (sp, evs)"
    "map seen evs = [(3, 12), (12, 3), (3, 1), (3, 23), (12, 1), (12, 23), (1, 3), (1, 12), (23, 3), (23, 12), (23, 1)]"
    by (cases "aoi_run crowd (lnew 7 10 (fi 5))") auto
  with k show ?thesis by auto
qed

lemma DIST2_nonneg: "f32_nonneg (DIST2 p q)"
  by (cases p; cases q) (simp add: f32_nonneg_add f32_nonneg_square)

text \<open>
  No two positions are near one another in the sense of \<open>is_near\<close>, so that every update that
  does not drop an object marks it as moved, whether it has moved or not.
\<close>

theorem update_always_moves:
  "\<not> is_near p q \<and> has_mode (update_object ob w m rtype pos tpos) MODE_MOVE"
proof -
  have near: "\<not> is_near p q" for p q using DIST2_nonneg [of p q] by (simp add: is_near_def f32_nonneg_def)
  then show ?thesis by (auto simp: update_object_def Let_def grap_move_def mode_bits split: prod.split)
qed

text \<open>
  Releasing a space, in whatever state, frees every object, each of them once.
\<close>

theorem lrelease_frees:
  assumes "aoi_reach sp"
  shows "\<exists>sp'. lrelease sp = Inr sp' \<and> sp_heap sp' = (\<lambda>_. None)"
proof -
  have "ainv (sp_hot sp) (\<lambda>_. 0) sp" using reach_inv [OF assms] by (simp add: aoi_inv_def)
  note D = ainvD [OF this]
  note as = map.objs_linked [OF D(1,2)]
  obtain sp' where "lrelease sp = Inr sp'"
    "sp_heap sp' = (\<lambda>a. if a \<in> set (map_objs (sp_object sp)) then None else sp_heap sp a)"
    using release_list [of "map_objs (sp_object sp)" "sp\<lparr>sp_pair_hash := []\<rparr>"] as
    by (auto simp: lrelease_def aoi_release_def map_foreach_objs cong: if_cong)
  then show ?thesis using as(1) by (auto simp: fun_eq_iff)
qed

theorem lrelease_frees_witness: "\<exists>sp'. lrelease (lnew 7 10 (fi 5)) = Inr sp' \<and> sp_heap sp' = (\<lambda>_. None)"
  using lrelease_frees [OF reach_new [of 10 7 "fi 5"]] by simp

text \<open>
  For coordinates that are integers of at most 1000 in size the distance the space compares
  with its radius is exact and the same both ways.
\<close>

theorem dist2_exact:
  assumes "\<bar>x1\<bar> \<le> 1000" "\<bar>y1\<bar> \<le> 1000" "\<bar>z1\<bar> \<le> 1000" "\<bar>x2\<bar> \<le> 1000" "\<bar>y2\<bar> \<le> 1000" "\<bar>z2\<bar> \<le> 1000"
  shows "DIST2 (fi x1, fi y1, fi z1) (fi x2, fi y2, fi z2) = fi ((x1 - x2)\<^sup>2 + (y1 - y2)\<^sup>2 + (z1 - z2)\<^sup>2)"
proof -
  have sq: "(a - b)\<^sup>2 \<le> 4000000 \<and> 0 \<le> (a - b)\<^sup>2" if "\<bar>a\<bar> \<le> 1000" "\<bar>b\<bar> \<le> 1000" for a b :: int
  proof -
    have "\<bar>a - b\<bar> \<le> 2000" using that by linarith
    then show ?thesis using abs_le_square_iff [of "a - b" 2000] by simp
  qed
  have d: "f32_sub (fi a) (fi b) = fi (a - b)" if "\<bar>a\<bar> \<le> 1000" "\<bar>b\<bar> \<le> 1000" for a b
    using that by (intro f32_sub_fi) simp
  have m: "f32_mul (fi (a - b)) (fi (a - b)) = fi ((a - b)\<^sup>2)" if "\<bar>a\<bar> \<le> 1000" "\<bar>b\<bar> \<le> 1000" for a b
    using sq [OF that] f32_mul_fi [of "a - b" "a - b"] by (simp add: power2_eq_square)
  show ?thesis using assms sq [of x1 x2] sq [of y1 y2] sq [of z1 z2] by (simp add: d m f32_add_fi)
qed

theorem dist2_exact_witness: "DIST2 (fi 1, fi 2, fi 3) (fi 4, fi 6, fi 3) = fi 25"
  using dist2_exact [of 1 2 3 4 6 3] by simp

end
