(* ===== verification/AStar_Nodes.thy ===== *)
theory AStar_Nodes
  imports Float32
begin

text \<open>
  The nodes a path search has visited (\<open>astar/AStar.c\<close>): the records of the nodes, the index that
  finds the record of a node key by binary search, and the open set, a binary heap of record
  numbers with a pointer from each record back to its place in the heap. A node key is the
  \<open>nodeSize\<close> bytes of the caller's structure. Allocations succeed; cells of an array that have
  been allocated and not written hold zeros, and no theorem rests on what they hold.
\<close>

section \<open>The model\<close>

declare bind_res_cong [fundef_cong]

type_synonym key = "byte list"

record ASPathNodeSource =
  nodeSize :: nat
  nodeNeighbors :: "(key \<Rightarrow> (key \<times> f32) list) option"
  pathCostHeuristic :: "(key \<Rightarrow> key \<Rightarrow> f32) option"
  earlyExit :: "(nat \<Rightarrow> key \<Rightarrow> key option \<Rightarrow> int) option"
  nodeComparator :: "(key \<Rightarrow> key \<Rightarrow> int) option"

record node_record =
  isClosed :: bool
  isOpen :: bool
  isGoal :: bool
  hasParent :: bool
  hasEstimatedCost :: bool
  estimatedCost :: f32
  cost :: f32
  openIndex :: nat
  parentIndex :: nat
  nodeKey :: key

text \<open>The records below \<open>nodeRecordsCount\<close> are the elements of the list.\<close>

record visited_nodes =
  nodeRecordsCapacity :: nat
  nodeRecords :: "node_record list"
  nodeRecordsIndex :: "nat list"
  openNodesCapacity :: nat
  openNodesCount :: nat
  openNodes :: "nat list"

text \<open>A \<open>Node\<close> is the number of a record; \<open>NodeNull\<close> is \<open>None\<close>.\<close>

type_synonym node = "nat option"

abbreviation nodeRecordsCount :: "visited_nodes \<Rightarrow> nat" where
  "nodeRecordsCount v \<equiv> length (nodeRecords v)"

definition VisitedNodesCreate :: visited_nodes where
  "VisitedNodesCreate = \<lparr>nodeRecordsCapacity = 0, nodeRecords = [], nodeRecordsIndex = [],
     openNodesCapacity = 0, openNodesCount = 0, openNodes = []\<rparr>"

definition NodeIsNull :: "node \<Rightarrow> bool" where
  "NodeIsNull n \<longleftrightarrow> n = None"

definition NodeGetRecord :: "visited_nodes \<Rightarrow> node \<Rightarrow> node_record cres" where
  "NodeGetRecord v n = (case n of None \<Rightarrow> Inl NullDeref | Some i \<Rightarrow> aget (nodeRecords v) i)"

text \<open>An assignment to the fields of a record through its pointer.\<close>

definition set_record :: "visited_nodes \<Rightarrow> node \<Rightarrow> (node_record \<Rightarrow> node_record) \<Rightarrow> visited_nodes cres" where
  "set_record v n f =
     bind_res (NodeGetRecord v n) (\<lambda>r. Inr (v\<lparr>nodeRecords := (nodeRecords v)[the n := f r]\<rparr>))"

definition GetNodeKey :: "visited_nodes \<Rightarrow> node \<Rightarrow> key cres" where
  "GetNodeKey v n = bind_res (NodeGetRecord v n) (\<lambda>r. Inr (nodeKey r))"

definition NodeIsInOpenSet :: "visited_nodes \<Rightarrow> node \<Rightarrow> bool cres" where
  "NodeIsInOpenSet v n = bind_res (NodeGetRecord v n) (\<lambda>r. Inr (isOpen r))"

definition NodeIsInClosedSet :: "visited_nodes \<Rightarrow> node \<Rightarrow> bool cres" where
  "NodeIsInClosedSet v n = bind_res (NodeGetRecord v n) (\<lambda>r. Inr (isClosed r))"

definition RemoveNodeFromClosedSet :: "visited_nodes \<Rightarrow> node \<Rightarrow> visited_nodes cres" where
  "RemoveNodeFromClosedSet v n = set_record v n (\<lambda>r. r\<lparr>isClosed := False\<rparr>)"

definition AddNodeToClosedSet :: "visited_nodes \<Rightarrow> node \<Rightarrow> visited_nodes cres" where
  "AddNodeToClosedSet v n = set_record v n (\<lambda>r. r\<lparr>isClosed := True\<rparr>)"

definition rank :: "node_record \<Rightarrow> f32" where
  "rank r = f32_add (estimatedCost r) (cost r)"

definition GetNodeRank :: "visited_nodes \<Rightarrow> node \<Rightarrow> f32 cres" where
  "GetNodeRank v n = bind_res (NodeGetRecord v n) (\<lambda>r. Inr (rank r))"

definition GetNodeCost :: "visited_nodes \<Rightarrow> node \<Rightarrow> f32 cres" where
  "GetNodeCost v n = bind_res (NodeGetRecord v n) (\<lambda>r. Inr (cost r))"

definition SetNodeEstimatedCost :: "visited_nodes \<Rightarrow> node \<Rightarrow> f32 \<Rightarrow> visited_nodes cres" where
  "SetNodeEstimatedCost v n c =
     set_record v n (\<lambda>r. r\<lparr>estimatedCost := c, hasEstimatedCost := True\<rparr>)"

definition NodeHasEstimatedCost :: "visited_nodes \<Rightarrow> node \<Rightarrow> bool cres" where
  "NodeHasEstimatedCost v n = bind_res (NodeGetRecord v n) (\<lambda>r. Inr (hasEstimatedCost r))"

definition SetNodeIsGoal :: "visited_nodes \<Rightarrow> node \<Rightarrow> visited_nodes cres" where
  "SetNodeIsGoal v n =
     (if \<not> NodeIsNull n then set_record v n (\<lambda>r. r\<lparr>isGoal := True\<rparr>) else Inr v)"

definition NodeIsGoal :: "visited_nodes \<Rightarrow> node \<Rightarrow> bool cres" where
  "NodeIsGoal v n =
     (if NodeIsNull n then Inr False else bind_res (NodeGetRecord v n) (\<lambda>r. Inr (isGoal r)))"

definition GetParentNode :: "visited_nodes \<Rightarrow> node \<Rightarrow> node cres" where
  "GetParentNode v n =
     bind_res (NodeGetRecord v n) (\<lambda>r. Inr (if hasParent r then Some (parentIndex r) else None))"

definition rank_compare :: "f32 \<Rightarrow> f32 \<Rightarrow> int" where
  "rank_compare r1 r2 = (if f32_lt r1 r2 then -1 else if f32_lt r2 r1 then 1 else 0)"

definition NodeRankCompare :: "visited_nodes \<Rightarrow> node \<Rightarrow> node \<Rightarrow> int cres" where
  "NodeRankCompare v n1 n2 =
     bind_res (GetNodeRank v n1) (\<lambda>rank1.
     bind_res (GetNodeRank v n2) (\<lambda>rank2. Inr (rank_compare rank1 rank2)))"

definition GetPathCostHeuristic ::
    "ASPathNodeSource \<Rightarrow> visited_nodes \<Rightarrow> node \<Rightarrow> node \<Rightarrow> f32 cres" where
  "GetPathCostHeuristic src v a b =
     (case pathCostHeuristic src of
        Some h \<Rightarrow>
          if \<not> NodeIsNull a \<and> \<not> NodeIsNull b
          then bind_res (GetNodeKey v a) (\<lambda>ka. bind_res (GetNodeKey v b) (\<lambda>kb. Inr (h ka kb)))
          else Inr (Fin 0)
      | None \<Rightarrow> Inr (Fin 0))"

text \<open>The sign of the first difference of two byte strings, which the C library compares as
  unsigned characters.\<close>

fun memcmp :: "key \<Rightarrow> key \<Rightarrow> int" where
  "memcmp (a # as) (b # bs) = (if a < b then -1 else if b < a then 1 else memcmp as bs)"
| "memcmp _ _ = 0"

definition key_compare :: "ASPathNodeSource \<Rightarrow> key \<Rightarrow> key \<Rightarrow> int" where
  "key_compare src k1 k2 =
     (case nodeComparator src of Some c \<Rightarrow> c k1 k2 | None \<Rightarrow> memcmp k1 k2)"

definition NodeKeyCompare :: "ASPathNodeSource \<Rightarrow> visited_nodes \<Rightarrow> node \<Rightarrow> key \<Rightarrow> int cres" where
  "NodeKeyCompare src v n k = bind_res (GetNodeKey v n) (\<lambda>k'. Inr (key_compare src k' k))"

subsection \<open>The index\<close>

text \<open>The binary search: the record found (left) or the position to insert at (right).\<close>

function find_node ::
    "ASPathNodeSource \<Rightarrow> visited_nodes \<Rightarrow> key \<Rightarrow> nat \<Rightarrow> nat \<Rightarrow> (nat + nat) cres" where
  "find_node src v k first lst =
     (if first \<le> lst then
        let mid = (first + lst) div 2 in
        bind_res (aget (nodeRecordsIndex v) mid) (\<lambda>i.
        bind_res (NodeKeyCompare src v (Some i) k) (\<lambda>comp.
          if comp < 0 then find_node src v k (mid + 1) lst
          else if comp > 0 \<and> mid > 0 then find_node src v k first (mid - 1)
          else if comp > 0 then Inr (Inr first)
          else Inr (Inl i)))
      else Inr (Inr first))"
  by pat_completeness auto
termination
  by (relation "measure (\<lambda>(src, v, k, first, lst). lst + 1 - first)") auto

declare find_node.simps [simp del]

text \<open>The memory a reallocation of an array to a number of cells gives.\<close>

definition grow :: "'a \<Rightarrow> nat \<Rightarrow> 'a list \<Rightarrow> 'a list" where
  "grow z n xs = take n (xs @ replicate (n - length xs) z)"

definition new_record :: "ASPathNodeSource \<Rightarrow> key \<Rightarrow> node_record" where
  "new_record src k = \<lparr>isClosed = False, isOpen = False, isGoal = False, hasParent = False,
     hasEstimatedCost = False, estimatedCost = Fin 0, cost = Fin 0, openIndex = 0,
     parentIndex = 0, nodeKey = take (nodeSize src) k\<rparr>"

definition grow_records :: "visited_nodes \<Rightarrow> visited_nodes" where
  "grow_records v =
     (if nodeRecordsCount v = nodeRecordsCapacity v then
        let cap = 1 + nodeRecordsCapacity v * 2
        in v\<lparr>nodeRecordsCapacity := cap, nodeRecordsIndex := grow 0 cap (nodeRecordsIndex v)\<rparr>
      else v)"

text \<open>\<open>memmove\<close> of the cells from \<open>first\<close> on by one cell, then the new record's number.\<close>

definition index_insert :: "nat list \<Rightarrow> nat \<Rightarrow> nat \<Rightarrow> nat \<Rightarrow> nat list cres" where
  "index_insert idx cap first i =
     (if cap \<le> length idx \<and> first < cap
      then Inr (take first idx @ i # take (cap - first - 1) (drop first idx) @ drop cap idx)
      else Inl OutOfBounds)"

definition insert_record ::
    "ASPathNodeSource \<Rightarrow> visited_nodes \<Rightarrow> key \<Rightarrow> nat \<Rightarrow> (node \<times> visited_nodes) cres" where
  "insert_record src v k first =
     (let v = grow_records v; n = nodeRecordsCount v in
      bind_res (index_insert (nodeRecordsIndex v) (nodeRecordsCapacity v) first n) (\<lambda>idx.
        Inr (Some n, v\<lparr>nodeRecordsIndex := idx, nodeRecords := nodeRecords v @ [new_record src k]\<rparr>)))"

definition GetNode ::
    "ASPathNodeSource \<Rightarrow> visited_nodes \<Rightarrow> key option \<Rightarrow> (node \<times> visited_nodes) cres" where
  "GetNode src v k =
     (case k of
        None \<Rightarrow> Inr (None, v)
      | Some k \<Rightarrow>
          bind_res
            (if nodeRecordsCount v > 0 then find_node src v k 0 (nodeRecordsCount v - 1)
             else Inr (Inr 0))
            (\<lambda>found. case found of
               Inl i \<Rightarrow> Inr (Some i, v)
             | Inr first \<Rightarrow> insert_record src v k first))"

subsection \<open>The open set\<close>

definition SwapOpenSetNodesAtIndexes :: "visited_nodes \<Rightarrow> nat \<Rightarrow> nat \<Rightarrow> visited_nodes cres" where
  "SwapOpenSetNodesAtIndexes v index1 index2 =
     (if index1 \<noteq> index2 then
        bind_res (aget (openNodes v) index1) (\<lambda>n1.
        bind_res (aget (openNodes v) index2) (\<lambda>n2.
        bind_res (NodeGetRecord v (Some n1)) (\<lambda>record1.
        bind_res (NodeGetRecord v (Some n2)) (\<lambda>record2.
        bind_res (set_record v (Some n1) (\<lambda>r. r\<lparr>openIndex := openIndex record2\<rparr>)) (\<lambda>v.
        bind_res (set_record v (Some n2) (\<lambda>r. r\<lparr>openIndex := openIndex record1\<rparr>)) (\<lambda>v.
          Inr (v\<lparr>openNodes := (openNodes v)[index1 := n2, index2 := n1]\<rparr>)))))))
      else Inr v)"

text \<open>Whether the node at one place of the heap is before the node at another.\<close>

definition open_before :: "visited_nodes \<Rightarrow> nat \<Rightarrow> nat \<Rightarrow> bool cres" where
  "open_before v i j =
     bind_res (aget (openNodes v) i) (\<lambda>n1.
     bind_res (aget (openNodes v) j) (\<lambda>n2.
     bind_res (NodeRankCompare v (Some n1) (Some n2)) (\<lambda>c. Inr (c < 0))))"

definition smaller_child :: "visited_nodes \<Rightarrow> nat \<Rightarrow> nat \<Rightarrow> nat cres" where
  "smaller_child v child smallest =
     (if child < openNodesCount v
      then bind_res (open_before v child smallest) (\<lambda>b. Inr (if b then child else smallest))
      else Inr smallest)"

definition smallest_of :: "visited_nodes \<Rightarrow> nat \<Rightarrow> nat cres" where
  "smallest_of v index =
     bind_res (smaller_child v (2 * index + 1) index) (smaller_child v (2 * index + 2))"

lemma openNodesCount_swap:
  "SwapOpenSetNodesAtIndexes v i j = Inr v' \<Longrightarrow> openNodesCount v' = openNodesCount v"
  by (auto simp: SwapOpenSetNodesAtIndexes_def set_record_def bind_res_eq_Inr split: if_splits)

lemma smallest_of_cases:
  "smallest_of v i = Inr s \<Longrightarrow> s = i \<or> i < s \<and> s < openNodesCount v"
  by (auto simp: smallest_of_def smaller_child_def bind_res_eq_Inr split: if_splits)

text \<open>The loop that moves the node at a place of the heap down: once round, the node is swapped
  with its smaller child.\<close>

function DidRemoveFromOpenSetAtIndex :: "visited_nodes \<Rightarrow> nat \<Rightarrow> visited_nodes cres" where
  "DidRemoveFromOpenSetAtIndex v index =
     bind_res (smallest_of v index) (\<lambda>smallest.
       if smallest \<noteq> index
       then bind_res (SwapOpenSetNodesAtIndexes v smallest index) (\<lambda>v.
              DidRemoveFromOpenSetAtIndex v smallest)
       else Inr v)"
  by pat_completeness auto
termination
  by (relation "measure (\<lambda>(v, index). openNodesCount v - index)")
    (auto simp: openNodesCount_swap dest!: smallest_of_cases)

declare DidRemoveFromOpenSetAtIndex.simps [simp del]

definition RemoveNodeFromOpenSet :: "visited_nodes \<Rightarrow> node \<Rightarrow> visited_nodes cres" where
  "RemoveNodeFromOpenSet v n =
     bind_res (NodeGetRecord v n) (\<lambda>record.
       if isOpen record then
         bind_res (set_record v n (\<lambda>r. r\<lparr>isOpen := False\<rparr>)) (\<lambda>v.
         let v = v\<lparr>openNodesCount := openNodesCount v - 1\<rparr>; index = openIndex record in
         bind_res (SwapOpenSetNodesAtIndexes v index (openNodesCount v)) (\<lambda>v.
           DidRemoveFromOpenSetAtIndex v index))
       else Inr v)"

text \<open>\<open>floorf ((index - 1) / 2)\<close>: the quotient is converted to \<open>float\<close> and back.\<close>

definition parent_index :: "nat \<Rightarrow> nat" where
  "parent_index index =
     (case f32_trunc (f32_of_int (int ((index - 1) div 2))) of Some p \<Rightarrow> nat p | None \<Rightarrow> 0)"

lemma parent_index_less:
  assumes "0 < i"
  shows "parent_index i < i"
proof -
  define n where "n = int ((i - 1) div 2)"
  define a where "a = round_abs (n * 2 ^ 149) 0"
  have n: "0 \<le> n" "2 * n < int i" using assms by (auto simp: n_def)
  have "2 * a \<le> 3 * (n * 2 ^ 149)" using round_abs_near [of "n * 2 ^ 149"] n(1) by (simp add: a_def)
  also have "\<dots> < 2 * (int i * 2 ^ 149)" using n by simp
  finally have "a < int i * 2 ^ 149" by simp
  then have "a div 2 ^ 149 < int i" by (simp add: div_less_iff_less_mult)
  moreover have "0 \<le> a" using n(1) by (simp add: a_def round_abs_nonneg)
  moreover have "parent_index i = (if a \<ge> f32_limit then 0 else nat (a div 2 ^ 149))"
    unfolding parent_index_def n_def [symmetric] f32_of_int_def f32_round_def
    using n(1) \<open>0 \<le> a\<close> by (simp add: Let_def a_def)
  ultimately show ?thesis using assms by auto
qed

function DidInsertIntoOpenSetAtIndex :: "visited_nodes \<Rightarrow> nat \<Rightarrow> visited_nodes cres" where
  "DidInsertIntoOpenSetAtIndex v index =
     (if index > 0 then
        let parent = parent_index index in
        bind_res (open_before v parent index) (\<lambda>b.
          if b then Inr v
          else bind_res (SwapOpenSetNodesAtIndexes v parent index) (\<lambda>v.
                 DidInsertIntoOpenSetAtIndex v parent))
      else Inr v)"
  by pat_completeness auto
termination
  by (relation "measure snd") (auto simp: parent_index_less)

declare DidInsertIntoOpenSetAtIndex.simps [simp del]

definition grow_open :: "visited_nodes \<Rightarrow> visited_nodes" where
  "grow_open v =
     (if openNodesCount v = openNodesCapacity v then
        let cap = 1 + openNodesCapacity v * 2
        in v\<lparr>openNodesCapacity := cap, openNodes := grow 0 cap (openNodes v)\<rparr>
      else v)"

definition set_parent :: "node \<Rightarrow> node_record \<Rightarrow> node_record" where
  "set_parent parent r =
     (if \<not> NodeIsNull parent then r\<lparr>hasParent := True, parentIndex := the parent\<rparr>
      else r\<lparr>hasParent := False\<rparr>)"

definition AddNodeToOpenSet :: "visited_nodes \<Rightarrow> node \<Rightarrow> f32 \<Rightarrow> node \<Rightarrow> visited_nodes cres" where
  "AddNodeToOpenSet v n c parent =
     bind_res (set_record v n (set_parent parent)) (\<lambda>v.
     let v = grow_open v; index = openNodesCount v in
     bind_res (aset (openNodes v) index (the n)) (\<lambda>ns.
     let v = v\<lparr>openNodes := ns, openNodesCount := openNodesCount v + 1\<rparr> in
     bind_res (set_record v n (\<lambda>r. r\<lparr>openIndex := index, isOpen := True, cost := c\<rparr>)) (\<lambda>v.
       DidInsertIntoOpenSetAtIndex v index)))"

definition HasOpenNode :: "visited_nodes \<Rightarrow> bool" where
  "HasOpenNode v \<longleftrightarrow> openNodesCount v > 0"

definition GetOpenNode :: "visited_nodes \<Rightarrow> node cres" where
  "GetOpenNode v = bind_res (aget (openNodes v) 0) (\<lambda>i. Inr (Some i))"

section \<open>Comparison of keys\<close>

text \<open>
  What the search relies on in a comparison: a total order on the keys of the source, which
  is zero for equal keys only.
\<close>

locale node_order =
  fixes cmp :: "key \<Rightarrow> key \<Rightarrow> int" and n :: nat
  assumes cmp_zero: "length a = n \<Longrightarrow> length b = n \<Longrightarrow> cmp a b = 0 \<longleftrightarrow> a = b"
    and cmp_swap: "length a = n \<Longrightarrow> length b = n \<Longrightarrow> 0 < cmp a b \<longleftrightarrow> cmp b a < 0"
    and cmp_trans: "length a = n \<Longrightarrow> length b = n \<Longrightarrow> length c = n \<Longrightarrow>
      cmp a b < 0 \<Longrightarrow> cmp b c < 0 \<Longrightarrow> cmp a c < 0"

lemma memcmp_less_Cons:
  "memcmp (a # as) (b # bs) < 0 \<longleftrightarrow> a < b \<or> a = b \<and> memcmp as bs < 0"
  by auto

lemma memcmp_zero: "length a = length b \<Longrightarrow> memcmp a b = 0 \<longleftrightarrow> a = b"
  by (induction a b rule: memcmp.induct) auto

lemma memcmp_swap: "0 < memcmp a b \<longleftrightarrow> memcmp b a < 0"
  by (induction a b rule: memcmp.induct) auto

lemma memcmp_trans:
  "length a = length b \<Longrightarrow> length b = length c \<Longrightarrow> memcmp a b < 0 \<Longrightarrow> memcmp b c < 0 \<Longrightarrow> memcmp a c < 0"
proof (induction a c arbitrary: b rule: memcmp.induct)
  case (1 x as z cs)
  then obtain y bs where b: "b = y # bs" by (cases b) auto
  have "memcmp as cs < 0" if "x = z" "memcmp as bs < 0" "memcmp bs cs < 0"
    using 1 b that by simp
  then show ?case using "1.prems"(3, 4) unfolding b memcmp_less_Cons by (metis less_trans)
qed auto

interpretation memcmp: node_order memcmp n for n
proof
  show "memcmp a c < 0" if "length a = n" "length b = n" "length c = n" "memcmp a b < 0" "memcmp b c < 0"
    for a b c
    using memcmp_trans [of a b c] that by simp
qed (simp_all add: memcmp_zero memcmp_swap)

section \<open>The index finds nodes\<close>

lemma NodeGetRecord_in [simp]: "i < nodeRecordsCount v \<Longrightarrow> NodeGetRecord v (Some i) = Inr (nodeRecords v ! i)"
  by (simp add: NodeGetRecord_def)

lemma set_record_in [simp]:
  "i < nodeRecordsCount v \<Longrightarrow>
   set_record v (Some i) f = Inr (v\<lparr>nodeRecords := (nodeRecords v)[i := f (nodeRecords v ! i)]\<rparr>)"
  by (simp add: set_record_def)

lemma GetNodeKey_in [simp]: "i < nodeRecordsCount v \<Longrightarrow> GetNodeKey v (Some i) = Inr (nodeKey (nodeRecords v ! i))"
  by (simp add: GetNodeKey_def)

definition rec_key :: "visited_nodes \<Rightarrow> nat \<Rightarrow> key" where
  "rec_key v i = nodeKey (nodeRecords v ! i)"

text \<open>The record numbers in the order of the index, and the keys in that order.\<close>

definition sorted_records :: "visited_nodes \<Rightarrow> nat list" where
  "sorted_records v = take (nodeRecordsCount v) (nodeRecordsIndex v)"

definition sorted_keys :: "visited_nodes \<Rightarrow> key list" where
  "sorted_keys v = map (rec_key v) (sorted_records v)"

definition index_ok :: "ASPathNodeSource \<Rightarrow> visited_nodes \<Rightarrow> bool" where
  "index_ok src v \<longleftrightarrow>
     length (nodeRecordsIndex v) = nodeRecordsCapacity v \<and>
     nodeRecordsCount v \<le> nodeRecordsCapacity v \<and>
     set (sorted_records v) = {..<nodeRecordsCount v} \<and>
     sorted_wrt (\<lambda>a b. key_compare src a b < 0) (sorted_keys v) \<and>
     (\<forall>r\<in>set (nodeRecords v). length (nodeKey r) = nodeSize src)"

lemma index_okD:
  assumes "index_ok src v"
  shows "length (sorted_records v) = nodeRecordsCount v"
    and "i < nodeRecordsCount v \<Longrightarrow> nodeRecordsIndex v ! i = sorted_records v ! i"
    and "i < nodeRecordsCount v \<Longrightarrow> sorted_records v ! i < nodeRecordsCount v"
    and "i < nodeRecordsCount v \<Longrightarrow> i < length (nodeRecordsIndex v)"
    and "i < nodeRecordsCount v \<Longrightarrow> length (rec_key v i) = nodeSize src"
    and "length (sorted_keys v) = nodeRecordsCount v"
proof -
  show l: "length (sorted_records v) = nodeRecordsCount v"
    using assms by (simp add: index_ok_def sorted_records_def)
  show "i < nodeRecordsCount v \<Longrightarrow> nodeRecordsIndex v ! i = sorted_records v ! i"
    by (simp add: sorted_records_def)
  show "sorted_records v ! i < nodeRecordsCount v" if "i < nodeRecordsCount v"
    using assms nth_mem [of i "sorted_records v"] that l by (auto simp: index_ok_def)
  show "i < nodeRecordsCount v \<Longrightarrow> i < length (nodeRecordsIndex v)"
    and "i < nodeRecordsCount v \<Longrightarrow> length (rec_key v i) = nodeSize src"
    using assms by (auto simp: index_ok_def rec_key_def)
  show "length (sorted_keys v) = nodeRecordsCount v" using l by (simp add: sorted_keys_def)
qed

text \<open>What the binary search returns on a sorted list of keys.\<close>

definition search_result :: "ASPathNodeSource \<Rightarrow> visited_nodes \<Rightarrow> key \<Rightarrow> nat + nat \<Rightarrow> bool" where
  "search_result src v k s =
     (case s of
        Inl i \<Rightarrow> i < nodeRecordsCount v \<and> rec_key v i = k
      | Inr p \<Rightarrow> p \<le> nodeRecordsCount v \<and>
          (\<forall>x\<in>set (take p (sorted_keys v)). key_compare src x k < 0) \<and>
          (\<forall>x\<in>set (drop p (sorted_keys v)). 0 < key_compare src x k))"

lemma length_grow [simp, len_simps]: "length (grow z n xs) = n"
  by (simp add: grow_def)

lemma take_grow: "k \<le> length xs \<Longrightarrow> length xs \<le> n \<Longrightarrow> take k (grow z n xs) = take k xs"
  by (simp add: grow_def min_def)

lemma grow_records:
  assumes "index_ok src v"
  shows "nodeRecords (grow_records v) = nodeRecords v"
    and "openNodes (grow_records v) = openNodes v"
    and "openNodesCount (grow_records v) = openNodesCount v"
    and "openNodesCapacity (grow_records v) = openNodesCapacity v"
    and "length (nodeRecordsIndex (grow_records v)) = nodeRecordsCapacity (grow_records v)"
    and "nodeRecordsCount v < nodeRecordsCapacity (grow_records v)"
    and "take (nodeRecordsCount v) (nodeRecordsIndex (grow_records v)) = sorted_records v"
  using assms by (auto simp: grow_records_def index_ok_def Let_def sorted_records_def take_grow)

lemma take_index_insert:
  assumes "index_insert idx cap p i = Inr idx'" "length idx = cap" "p \<le> n" "n < cap"
  shows "length idx' = cap" and "take (Suc n) idx' = take p (take n idx) @ i # drop p (take n idx)"
  using assms by (auto simp: index_insert_def min_def drop_take Suc_diff_le)

lemma insert_record_spec:
  assumes ok: "index_ok src v" and k: "length k = nodeSize src"
    and p: "search_result src v k (Inr p)" and swap: "\<And>x. x \<in> set (sorted_keys v) \<Longrightarrow> 0 < key_compare src x k \<Longrightarrow> key_compare src k x < 0"
  shows "\<exists>v'. insert_record src v k p = Inr (Some (nodeRecordsCount v), v') \<and> index_ok src v' \<and>
    nodeRecords v' = nodeRecords v @ [new_record src k] \<and> openNodes v' = openNodes v \<and>
    openNodesCount v' = openNodesCount v \<and> openNodesCapacity v' = openNodesCapacity v"
proof -
  let ?n = "nodeRecordsCount v" and ?g = "grow_records v"
  note g = grow_records [OF ok] and okD = index_okD [OF ok]
  have pn: "p \<le> ?n" using p by (simp add: search_result_def)
  then obtain idx where idx: "index_insert (nodeRecordsIndex ?g) (nodeRecordsCapacity ?g) p ?n = Inr idx"
    using g(5,6) by (auto simp: index_insert_def)
  define v' where "v' = ?g\<lparr>nodeRecordsIndex := idx, nodeRecords := nodeRecords v @ [new_record src k]\<rparr>"
  have len: "length idx = nodeRecordsCapacity ?g" and
    tk: "take (Suc ?n) idx = take p (sorted_records v) @ ?n # drop p (sorted_records v)"
    using take_index_insert [OF idx g(5) pn g(6)] g(7) by simp_all
  have recs: "nodeRecords v' = nodeRecords v @ [new_record src k]" by (simp add: v'_def)
  have rec_key: "rec_key v' i = rec_key v i" if "i < ?n" for i
    using that by (simp add: rec_key_def recs nth_append)
  have key: "rec_key v' ?n = k" using k by (simp add: rec_key_def recs new_record_def)
  have sr: "sorted_records v' = take p (sorted_records v) @ ?n # drop p (sorted_records v)"
    using tk by (simp add: sorted_records_def recs) (simp add: v'_def sorted_records_def)
  have set_sr: "set (sorted_records v) = {..<?n}" using ok by (simp add: index_ok_def)
  have mapeq: "map (rec_key v') xs = map (rec_key v) xs" if "set xs \<subseteq> {..<?n}" for xs
    using that by (auto simp: rec_key)
  have sub: "set (take p (sorted_records v)) \<subseteq> {..<?n}" "set (drop p (sorted_records v)) \<subseteq> {..<?n}"
    using set_sr set_take_subset [of p "sorted_records v"] set_drop_subset [of p "sorted_records v"] by blast+
  have sk: "sorted_keys v' = take p (sorted_keys v) @ k # drop p (sorted_keys v)"
    using sub by (simp add: sorted_keys_def sr mapeq key take_map drop_map)
  have "sorted_wrt (\<lambda>a b. key_compare src a b < 0) (take p (sorted_keys v) @ drop p (sorted_keys v))"
    using ok by (simp add: index_ok_def)
  then have "sorted_wrt (\<lambda>a b. key_compare src a b < 0) (sorted_keys v')"
    unfolding sk sorted_wrt_append using p swap
    by (auto simp: search_result_def dest: in_set_dropD)
  moreover have "set (sorted_records v') = {..<nodeRecordsCount v'}"
    using set_sr by (simp add: sr recs lessThan_Suc) (simp flip: set_sr set_append)
  ultimately have "index_ok src v'" using ok k g(5,6) len
    by (simp add: index_ok_def recs new_record_def) (simp add: v'_def)
  moreover have "insert_record src v k p = Inr (Some ?n, v')"
    using idx by (simp add: insert_record_def Let_def g(1) v'_def)
  ultimately show ?thesis using recs g(2-4) by (intro exI [of _ v']) (simp add: v'_def)
qed

locale astar_source = node_order "key_compare src" "nodeSize src"
  for src :: ASPathNodeSource
begin

lemma sorted_below:
  assumes "index_ok src v" "length k = nodeSize src" "m < nodeRecordsCount v"
    and "key_compare src (sorted_keys v ! m) k < 0" and "x \<in> set (take (Suc m) (sorted_keys v))"
  shows "key_compare src x k < 0"
proof -
  note ok = index_okD [OF assms(1)]
  obtain i where i: "x = sorted_keys v ! i" "i \<le> m" "i < nodeRecordsCount v"
    using assms(5) ok(6) by (auto simp: in_set_conv_nth less_Suc_eq_le)
  have len: "length (sorted_keys v ! j) = nodeSize src" if "j < nodeRecordsCount v" for j
    using ok(1,3,5) that by (simp add: sorted_keys_def)
  show ?thesis
  proof (cases "i = m")
    case False
    then have "key_compare src x (sorted_keys v ! m) < 0" using i assms(1,3) ok(6)
      by (simp add: index_ok_def sorted_wrt_iff_nth_less)
    then show ?thesis using cmp_trans [of x "sorted_keys v ! m" k] len i assms(2-4) by simp
  qed (use i assms in simp)
qed

lemma sorted_above:
  assumes "index_ok src v" "length k = nodeSize src" "m < nodeRecordsCount v"
    and "0 < key_compare src (sorted_keys v ! m) k" and "x \<in> set (drop m (sorted_keys v))"
  shows "0 < key_compare src x k"
proof -
  note ok = index_okD [OF assms(1)]
  obtain i where i: "x = sorted_keys v ! (m + i)" "m + i < nodeRecordsCount v"
    using assms(5) ok(6) by (auto simp: in_set_conv_nth)
  have len: "length (sorted_keys v ! j) = nodeSize src" if "j < nodeRecordsCount v" for j
    using ok(1,3,5) that by (simp add: sorted_keys_def)
  have "key_compare src k (sorted_keys v ! m) < 0" using assms len cmp_swap by simp
  moreover have "key_compare src (sorted_keys v ! m) x < 0" if "0 < i"
    using i assms(1) ok(6) that by (simp add: index_ok_def sorted_wrt_iff_nth_less)
  ultimately have "key_compare src k x < 0"
    using cmp_trans [of k "sorted_keys v ! m" x] len i assms(2,3) by (cases "i = 0") auto
  then show ?thesis using cmp_swap [of x k] len i assms(2) by simp
qed

lemma find_node_spec:
  assumes "index_ok src v" "length k = nodeSize src"
    and "first \<le> Suc lst" "lst < nodeRecordsCount v"
    and "\<forall>x\<in>set (take first (sorted_keys v)). key_compare src x k < 0"
    and "\<forall>x\<in>set (drop (Suc lst) (sorted_keys v)). 0 < key_compare src x k"
  shows "\<exists>s. find_node src v k first lst = Inr s \<and> search_result src v k s"
  using assms(3-6)
proof (induction "Suc lst - first" arbitrary: first lst rule: less_induct)
  case less
  note ok = index_okD [OF assms(1)]
  show ?case
  proof (cases "first \<le> lst")
    case True
    define m where "m = (first + lst) div 2"
    define i where "i = sorted_records v ! m"
    define comp where "comp = key_compare src (sorted_keys v ! m) k"
    have m: "first \<le> m" "m \<le> lst" "m < nodeRecordsCount v" using True less.prems by (auto simp: m_def)
    have i: "i < nodeRecordsCount v" "rec_key v i = sorted_keys v ! m"
      using ok m(3) by (simp_all add: i_def sorted_keys_def)
    have eq: "find_node src v k first lst =
        (if comp < 0 then find_node src v k (m + 1) lst
         else if comp > 0 \<and> m > 0 then find_node src v k first (m - 1)
         else if comp > 0 then Inr (Inr first) else Inr (Inl i))"
      using True m i ok(2,4) [OF m(3)] unfolding find_node.simps [of src v k first lst]
      by (simp add: NodeKeyCompare_def comp_def rec_key_def flip: m_def i_def)
    consider "comp < 0" | "comp > 0" "m > 0" | "comp > 0" "m = 0" | "comp = 0" by linarith
    then show ?thesis
    proof cases
      case 1
      then have "\<forall>x\<in>set (take (m + 1) (sorted_keys v)). key_compare src x k < 0"
        using sorted_below [OF assms(1,2) m(3)] by (simp add: comp_def)
      then show ?thesis using less.hyps [of lst "m + 1"] less.prems m 1 eq by simp
    next
      case 2
      then have "\<forall>x\<in>set (drop (Suc (m - 1)) (sorted_keys v)). 0 < key_compare src x k"
        using sorted_above [OF assms(1,2) m(3)] by (simp add: comp_def)
      then show ?thesis using less.hyps [of "m - 1" first] less.prems m 2 eq by simp
    next
      case 3
      then have "\<forall>x\<in>set (drop 0 (sorted_keys v)). 0 < key_compare src x k"
        using sorted_above [OF assms(1,2) m(3)] by (simp add: comp_def)
      then show ?thesis using eq 3 m by (simp add: search_result_def)
    next
      case 4
      then have "rec_key v i = k" using cmp_zero [of "sorted_keys v ! m" k] ok(5) [OF i(1)] i(2) assms(2)
        by (simp add: comp_def)
      then show ?thesis using eq 4 i by (simp add: search_result_def)
    qed
  next
    case False
    then have "find_node src v k first lst = Inr (Inr first)" by (simp add: find_node.simps)
    moreover have "first = Suc lst" using False less.prems by simp
    ultimately show ?thesis using less.prems by (simp add: search_result_def)
  qed
qed

lemma rec_key_inj:
  assumes "index_ok src v" "i < nodeRecordsCount v" "j < nodeRecordsCount v" "rec_key v i = rec_key v j"
  shows "i = j"
proof -
  note ok = index_okD [OF assms(1)]
  have "irreflp_on (set (sorted_keys v)) (\<lambda>a b. key_compare src a b < 0)"
    using ok(1,3,5) cmp_zero [of x x for x] by (force simp: irreflp_on_def sorted_keys_def in_set_conv_nth)
  then have "distinct (sorted_keys v)" using assms(1)
    by (fastforce simp: index_ok_def irreflp_on_def distinct_conv_nth sorted_wrt_iff_nth_less nat_neq_iff)
  moreover have "i \<in> set (sorted_records v)" "j \<in> set (sorted_records v)"
    using assms by (auto simp: index_ok_def)
  ultimately show ?thesis using assms(4) by (auto simp: sorted_keys_def distinct_map dest: inj_onD)
qed

text \<open>
  A node key has at most one record: a lookup returns the record of the key, or a new one at
  the end of the records when there is none; nothing else changes.
\<close>

lemma GetNode_spec:
  assumes "index_ok src v" and "length k = nodeSize src"
  shows "\<exists>i v'. GetNode src v (Some k) = Inr (Some i, v') \<and> index_ok src v' \<and>
    i < nodeRecordsCount v' \<and> rec_key v' i = k \<and>
    (v' = v \<or>
     (\<forall>j < nodeRecordsCount v. rec_key v j \<noteq> k) \<and> i = nodeRecordsCount v \<and>
     nodeRecords v' = nodeRecords v @ [new_record src k] \<and> openNodes v' = openNodes v \<and>
     openNodesCount v' = openNodesCount v \<and> openNodesCapacity v' = openNodesCapacity v)"
proof -
  note ok = index_okD [OF assms(1)]
  define find where "find = (if nodeRecordsCount v > 0 then find_node src v k 0 (nodeRecordsCount v - 1)
    else Inr (Inr 0))"
  have eq: "GetNode src v (Some k) =
      bind_res find (\<lambda>found. case found of Inl i \<Rightarrow> Inr (Some i, v) | Inr p \<Rightarrow> insert_record src v k p)"
    by (simp add: GetNode_def find_def)
  have len: "length x = nodeSize src" if "x \<in> set (sorted_keys v)" for x
    using that ok(1,3,5) by (auto simp: sorted_keys_def in_set_conv_nth)
  obtain s where s: "find = Inr s" "search_result src v k s"
  proof (cases "nodeRecordsCount v > 0")
    case True
    then show ?thesis using find_node_spec [OF assms, of 0 "nodeRecordsCount v - 1"] that ok(6)
      by (auto simp: find_def)
  next
    case False
    then show ?thesis using that ok(6) by (simp add: find_def search_result_def)
  qed
  show ?thesis
  proof (cases s)
    case (Inl i)
    then show ?thesis using eq s assms(1) by (simp add: search_result_def)
  next
    case (Inr p)
    have "x \<noteq> k" if "x \<in> set (sorted_keys v)" for x
    proof -
      have "x \<in> set (take p (sorted_keys v)) \<or> x \<in> set (drop p (sorted_keys v))"
        using that by (metis append_take_drop_id set_append UnE)
      then have "key_compare src x k \<noteq> 0" using s Inr by (auto simp: search_result_def)
      then show ?thesis using cmp_zero [of x k] len [OF that] assms(2) by auto
    qed
    then have "\<forall>j < nodeRecordsCount v. rec_key v j \<noteq> k"
      using assms(1) by (auto simp: sorted_keys_def index_ok_def)
    moreover obtain v' where "insert_record src v k p = Inr (Some (nodeRecordsCount v), v') \<and> index_ok src v' \<and>
        nodeRecords v' = nodeRecords v @ [new_record src k] \<and> openNodes v' = openNodes v \<and>
        openNodesCount v' = openNodesCount v \<and> openNodesCapacity v' = openNodesCapacity v"
      using insert_record_spec [OF assms s(2) [unfolded Inr]] cmp_swap len assms(2) by blast
    ultimately show ?thesis using eq s(1) Inr assms(2)
      by (intro exI [of _ "nodeRecordsCount v"] exI [of _ v']) (auto simp: rec_key_def new_record_def)
  qed
qed

end

section \<open>Properties\<close>

text \<open>The heap of the open set.\<close>

definition open_records :: "visited_nodes \<Rightarrow> nat \<times> nat \<times> nat list" where
  "open_records v = (openNodesCount v, openNodesCapacity v, openNodes v)"

text \<open>The keys that have a record, with the number of the record.\<close>

definition node_map :: "visited_nodes \<Rightarrow> key \<Rightarrow> nat option" where
  "node_map v k = find (\<lambda>i. rec_key v i = k) [0..<nodeRecordsCount v]"

lemma find_upt_Some: "find P [0..<n] = Some i \<Longrightarrow> i < n \<and> P i"
  by (auto simp: find_Some_iff)

context astar_source
begin

lemma node_map_Some:
  assumes "index_ok src v"
  shows "node_map v k = Some i \<longleftrightarrow> i < nodeRecordsCount v \<and> rec_key v i = k"
proof
  assume i: "i < nodeRecordsCount v \<and> rec_key v i = k"
  then have "node_map v k \<noteq> None" by (auto simp: node_map_def find_None_iff)
  then obtain j where j: "node_map v k = Some j" by auto
  then have "j < nodeRecordsCount v \<and> rec_key v j = k" unfolding node_map_def by (rule find_upt_Some)
  with i rec_key_inj [OF assms] have "j = i" by blast
  with j show "node_map v k = Some i" by simp
qed (auto simp: node_map_def dest: find_upt_Some)

end

text \<open>
  C21. The index implements a map from node keys to records: a lookup keeps the index sorted and
  complete, returns the record of the key or a new one at the end of the records, and leaves the
  records of the other keys as they are.
\<close>

theorem GetNode_refines:
  assumes "astar_source src" and "index_ok src v" and "length k = nodeSize src"
  shows "\<exists>i v'. GetNode src v (Some k) = Inr (Some i, v') \<and> index_ok src v' \<and> open_records v' = open_records v \<and>
    node_map v' = (node_map v)(k \<mapsto> i) \<and>
    (case node_map v k of Some j \<Rightarrow> i = j \<and> nodeRecords v' = nodeRecords v
     | None \<Rightarrow> i = nodeRecordsCount v \<and> nodeRecords v' = nodeRecords v @ [new_record src k])"
proof -
  note nm = astar_source.node_map_Some [OF assms(1)]
  obtain i v' where v': "GetNode src v (Some k) = Inr (Some i, v')" "index_ok src v'"
      "i < nodeRecordsCount v'" "rec_key v' i = k"
      "v' = v \<or> (\<forall>j < nodeRecordsCount v. rec_key v j \<noteq> k) \<and> i = nodeRecordsCount v \<and>
         nodeRecords v' = nodeRecords v @ [new_record src k] \<and> openNodes v' = openNodes v \<and>
         openNodesCount v' = openNodesCount v \<and> openNodesCapacity v' = openNodesCapacity v"
    using astar_source.GetNode_spec [OF assms] by blast
  have ki: "node_map v' k = Some i" using nm [OF v'(2)] v'(3,4) by simp
  from v'(5) show ?thesis
  proof
    assume "v' = v"
    then show ?thesis using v'(1,2) ki by (auto simp: fun_upd_idem)
  next
    assume new: "(\<forall>j < nodeRecordsCount v. rec_key v j \<noteq> k) \<and> i = nodeRecordsCount v \<and>
      nodeRecords v' = nodeRecords v @ [new_record src k] \<and> openNodes v' = openNodes v \<and>
      openNodesCount v' = openNodesCount v \<and> openNodesCapacity v' = openNodesCapacity v"
    have old: "rec_key v' j = rec_key v j" if "j < nodeRecordsCount v" for j
      using new that by (simp add: rec_key_def nth_append)
    have "node_map v' x = node_map v x" if "x \<noteq> k" for x
    proof -
      have "node_map v' x = Some j \<longleftrightarrow> node_map v x = Some j" for j
        using nm [OF v'(2), of x j] nm [OF assms(2), of x j] new old [of j] v'(4) that by (auto simp: less_Suc_eq)
      then show ?thesis by (metis option.exhaust)
    qed
    moreover have "node_map v k = None" using nm [OF assms(2), of k] new by (metis not_None_eq)
    ultimately show ?thesis using v'(1,2) ki new by (auto simp: open_records_def)
  qed
qed

text \<open>Two nodes whose keys are one byte, inserted in descending order.\<close>

definition byte_source :: "(key \<Rightarrow> (key \<times> f32) list) \<Rightarrow> ASPathNodeSource" where
  "byte_source nb = \<lparr>nodeSize = 1, nodeNeighbors = Some nb, pathCostHeuristic = None, earlyExit = None,
     nodeComparator = None\<rparr>"

lemma byte_source: "astar_source (byte_source nb)"
proof -
  have "key_compare (byte_source nb) = memcmp" by (simp add: fun_eq_iff key_compare_def byte_source_def)
  then show ?thesis using memcmp.node_order_axioms by (simp add: astar_source_def)
qed

definition two_nodes :: visited_nodes where
  "two_nodes = \<lparr>nodeRecordsCapacity = 3, nodeRecords = map (new_record (byte_source (\<lambda>_. []))) [[7], [2]],
     nodeRecordsIndex = [1, 0, 0], openNodesCapacity = 0, openNodesCount = 0, openNodes = []\<rparr>"

theorem GetNode_refines_witness:
  "\<exists>i v'. GetNode (byte_source (\<lambda>_. [])) two_nodes (Some [5]) = Inr (Some i, v') \<and>
     node_map two_nodes [5] = None \<and> node_map v' = (node_map two_nodes)([5] \<mapsto> i) \<and> i = 2"
proof -
  have "index_ok (byte_source (\<lambda>_. [])) two_nodes"
    by (auto simp: index_ok_def two_nodes_def sorted_records_def sorted_keys_def rec_key_def new_record_def
        byte_source_def key_compare_def)
  moreover have "node_map two_nodes [5] = None"
    by (simp add: node_map_def two_nodes_def rec_key_def new_record_def byte_source_def upt_rec)
  moreover have "length [5 :: byte] = nodeSize (byte_source (\<lambda>_. []))" "nodeRecordsCount two_nodes = 2"
    by (simp_all add: byte_source_def two_nodes_def)
  ultimately show ?thesis
    using GetNode_refines [OF byte_source, of "\<lambda>_. []" two_nodes "[5]"] by auto
qed

interpretation byte: astar_source "byte_source nb" for nb
  by (rule byte_source)

end
