(* ===== verification/AStar_Open.thy ===== *)
theory AStar_Open
  imports AStar_Nodes
begin

text \<open>
  The open set of the path search is a heap: the pointers from the records to their places stay
  right, no access leaves the arrays, and insertion and removal of the first node keep the order
  of the heap. Removal of another node may break it.
\<close>

section \<open>Pointers into the heap\<close>

text \<open>A record without the pointer to its place in the heap.\<close>

definition strip :: "node_record \<Rightarrow> node_record" where
  "strip r = r\<lparr>openIndex := 0\<rparr>"

definition view :: "visited_nodes \<Rightarrow> node_record list" where
  "view v = map strip (nodeRecords v)"

definition back_ptrs :: "visited_nodes \<Rightarrow> nat \<Rightarrow> bool" where
  "back_ptrs v m \<longleftrightarrow> m \<le> length (openNodes v) \<and>
     (\<forall>i<m. openNodes v ! i < nodeRecordsCount v \<and> openIndex (nodeRecords v ! (openNodes v ! i)) = i)"

definition open_set :: "visited_nodes \<Rightarrow> nat set" where
  "open_set v = set (take (openNodesCount v) (openNodes v))"

definition open_ok :: "visited_nodes \<Rightarrow> bool" where
  "open_ok v \<longleftrightarrow> length (openNodes v) = openNodesCapacity v \<and> openNodesCount v \<le> openNodesCapacity v \<and>
     back_ptrs v (openNodesCount v) \<and>
     (\<forall>i<nodeRecordsCount v. isOpen (nodeRecords v ! i) \<longleftrightarrow> i \<in> open_set v)"

text \<open>Two states that differ in the order of the first cells of the heap only.\<close>

definition reordered :: "nat \<Rightarrow> visited_nodes \<Rightarrow> visited_nodes \<Rightarrow> bool" where
  "reordered m v v' \<longleftrightarrow>
     nodeRecordsIndex v' = nodeRecordsIndex v \<and> nodeRecordsCapacity v' = nodeRecordsCapacity v \<and>
     openNodesCount v' = openNodesCount v \<and> openNodesCapacity v' = openNodesCapacity v \<and>
     length (openNodes v') = length (openNodes v) \<and> view v' = view v \<and>
     mset (take m (openNodes v')) = mset (take m (openNodes v))"

lemma reordered_refl [simp]: "reordered m v v"
  by (simp add: reordered_def)

lemma reordered_trans: "reordered m v v' \<Longrightarrow> reordered m v' v'' \<Longrightarrow> reordered m v v''"
  by (simp add: reordered_def)

lemma strip_simps [simp]:
  "isClosed (strip r) = isClosed r" "isOpen (strip r) = isOpen r" "isGoal (strip r) = isGoal r"
  "hasParent (strip r) = hasParent r" "hasEstimatedCost (strip r) = hasEstimatedCost r"
  "estimatedCost (strip r) = estimatedCost r" "cost (strip r) = cost r"
  "parentIndex (strip r) = parentIndex r" "nodeKey (strip r) = nodeKey r" "rank (strip r) = rank r"
  "strip (r\<lparr>openIndex := k\<rparr>) = strip r" "strip (strip r) = strip r"
  by (simp_all add: strip_def rank_def)

lemma strip_update [simp]:
  "strip (r\<lparr>isOpen := b\<rparr>) = (strip r)\<lparr>isOpen := b\<rparr>"
  "strip (r\<lparr>isClosed := b\<rparr>) = (strip r)\<lparr>isClosed := b\<rparr>"
  "strip (r\<lparr>isGoal := b\<rparr>) = (strip r)\<lparr>isGoal := b\<rparr>"
  "strip (r\<lparr>cost := c\<rparr>) = (strip r)\<lparr>cost := c\<rparr>"
  "strip (r\<lparr>estimatedCost := c\<rparr>) = (strip r)\<lparr>estimatedCost := c\<rparr>"
  "strip (r\<lparr>hasEstimatedCost := b\<rparr>) = (strip r)\<lparr>hasEstimatedCost := b\<rparr>"
  "strip (set_parent p r) = set_parent p (strip r)"
  by (simp_all add: strip_def set_parent_def)

lemma length_view [simp]: "length (view v) = nodeRecordsCount v"
  by (simp add: view_def)

lemma view_nth: "i < nodeRecordsCount v \<Longrightarrow> view v ! i = strip (nodeRecords v ! i)"
  by (simp add: view_def)

lemma view_eq_length: "view v' = view v \<Longrightarrow> nodeRecordsCount v' = nodeRecordsCount v"
  by (metis length_view)

lemma back_ptrs_less: "back_ptrs v m \<Longrightarrow> k \<le> m \<Longrightarrow> back_ptrs v k"
  by (simp add: back_ptrs_def)

lemma back_ptrs_inj:
  assumes "back_ptrs v m" "i < m" "j < m" "openNodes v ! i = openNodes v ! j"
  shows "i = j"
  using assms by (metis back_ptrs_def)

lemma swap_spec:
  assumes "back_ptrs v m" "i < m" "j < m"
  shows "\<exists>v'. SwapOpenSetNodesAtIndexes v i j = Inr v' \<and> back_ptrs v' m \<and> reordered m v v' \<and>
    openNodes v' = (openNodes v)[i := openNodes v ! j, j := openNodes v ! i]"
proof (cases "i = j")
  case False
  let ?a = "openNodes v ! i" and ?b = "openNodes v ! j" and ?rs = "nodeRecords v"
  have ab: "?a < length ?rs" "?b < length ?rs" "openIndex (?rs ! ?a) = i" "openIndex (?rs ! ?b) = j"
    and len: "i < length (openNodes v)" "j < length (openNodes v)" "m \<le> length (openNodes v)"
    using assms by (auto simp: back_ptrs_def)
  have ne: "?a \<noteq> ?b" using False ab by auto
  define rs' where "rs' = ?rs[?a := (?rs ! ?a)\<lparr>openIndex := j\<rparr>, ?b := (?rs ! ?b)\<lparr>openIndex := i\<rparr>]"
  define v' where "v' = v\<lparr>nodeRecords := rs', openNodes := (openNodes v)[i := ?b, j := ?a]\<rparr>"
  have swap: "SwapOpenSetNodesAtIndexes v i j = Inr v'"
    using False ab len ne by (simp add: SwapOpenSetNodesAtIndexes_def v'_def rs'_def)
  have "openNodes v' ! k < nodeRecordsCount v' \<and> openIndex (nodeRecords v' ! (openNodes v' ! k)) = k"
    if "k < m" for k
  proof -
    have "openNodes v ! k < length ?rs" "openIndex (?rs ! (openNodes v ! k)) = k"
      using assms(1) that by (auto simp: back_ptrs_def)
    moreover have "openNodes v ! k \<noteq> ?a" if "k \<noteq> i" using back_ptrs_inj [OF assms(1) \<open>k < m\<close> assms(2)] that by blast
    moreover have "openNodes v ! k \<noteq> ?b" if "k \<noteq> j" using back_ptrs_inj [OF assms(1) \<open>k < m\<close> assms(3)] that by blast
    ultimately show ?thesis using ab ne len False
      by (cases "k = i"; cases "k = j") (simp_all add: v'_def rs'_def nth_list_update)
  qed
  then have "back_ptrs v' m" using len by (simp add: back_ptrs_def v'_def)
  moreover have "view v' = view v" using ab ne
    by (intro nth_equalityI) (auto simp: view_def v'_def rs'_def nth_list_update)
  moreover have "mset (take m (openNodes v')) = mset (take m (openNodes v))"
    using assms(2,3) len mset_swap [of j "take m (openNodes v)" i]
    by (simp add: v'_def take_update_swap)
  ultimately show ?thesis using swap by (auto simp: reordered_def v'_def)
qed (use assms in \<open>simp add: SwapOpenSetNodesAtIndexes_def\<close>)

section \<open>Moving nodes in the heap\<close>

definition rank_at :: "visited_nodes \<Rightarrow> nat \<Rightarrow> f32" where
  "rank_at v i = rank (nodeRecords v ! (openNodes v ! i))"

lemma rank_view: "n < nodeRecordsCount v \<Longrightarrow> rank (nodeRecords v ! n) = rank (view v ! n)"
  by (simp add: view_nth)

lemma open_before_in:
  assumes "back_ptrs v m" "i < m" "j < m"
  shows "open_before v i j = Inr (f32_lt (rank_at v i) (rank_at v j))"
  using assms
  by (auto simp: open_before_def back_ptrs_def NodeRankCompare_def GetNodeRank_def rank_compare_def rank_at_def)

lemma rank_at_swap:
  assumes "back_ptrs v m" "i < m" "j < m" "reordered m v v'" "k < m"
    and "openNodes v' = (openNodes v)[i := openNodes v ! j, j := openNodes v ! i]"
  shows "rank_at v' k = (if k = j then rank_at v i else if k = i then rank_at v j else rank_at v k)"
proof -
  have view: "view v' = view v" using assms(4) by (simp add: reordered_def)
  have bound: "openNodes v ! n < nodeRecordsCount v" if "n < m" for n
    using assms(1) that by (simp add: back_ptrs_def)
  have "rank (nodeRecords v' ! n) = rank (nodeRecords v ! n)" if "n < nodeRecordsCount v" for n
    using that view view_eq_length [OF view] by (simp add: rank_view)
  then show ?thesis using assms bound by (auto simp: rank_at_def nth_list_update back_ptrs_def)
qed

text \<open>The place the loop of a removal goes on with.\<close>

definition lesser :: "(nat \<Rightarrow> f32) \<Rightarrow> nat \<Rightarrow> nat \<Rightarrow> nat \<Rightarrow> nat" where
  "lesser rk m child s = (if child < m \<and> f32_lt (rk child) (rk s) then child else s)"

lemma smallest_of_in:
  assumes "back_ptrs v (openNodesCount v)"
  shows "smallest_of v i = Inr (lesser (rank_at v) (openNodesCount v) (2 * i + 2)
    (lesser (rank_at v) (openNodesCount v) (2 * i + 1) i))"
proof -
  have child: "smaller_child v c s = Inr (lesser (rank_at v) (openNodesCount v) c s)"
    if "c < openNodesCount v \<Longrightarrow> s < openNodesCount v" for c s
    using that assms by (simp add: smaller_child_def lesser_def open_before_in)
  have "smallest_of v i = smaller_child v (2 * i + 2) (lesser (rank_at v) (openNodesCount v) (2 * i + 1) i)"
    unfolding smallest_of_def by (subst child) auto
  then show ?thesis by (subst (asm) child) (auto simp: lesser_def)
qed

subsection \<open>Order\<close>

definition up :: "nat \<Rightarrow> nat" where "up i = (i - 1) div 2"

text \<open>No node of the first \<open>m\<close> places, those of a set apart, is before the node above it.\<close>

definition heap_but :: "nat set \<Rightarrow> (nat \<Rightarrow> f32) \<Rightarrow> nat \<Rightarrow> bool" where
  "heap_but X rk m \<longleftrightarrow> (\<forall>c. 0 < c \<longrightarrow> c < m \<longrightarrow> c \<notin> X \<longrightarrow> \<not> f32_lt (rk c) (rk (up c)))"

definition heap_order :: "visited_nodes \<Rightarrow> bool" where
  "heap_order v \<longleftrightarrow> heap_but {} (rank_at v) (openNodesCount v)"

text \<open>The nodes below a place are not before the node above it.\<close>

definition skip_ok :: "(nat \<Rightarrow> f32) \<Rightarrow> nat \<Rightarrow> nat \<Rightarrow> bool" where
  "skip_ok rk m i \<longleftrightarrow>
     (0 < i \<longrightarrow> (\<forall>c. 0 < c \<longrightarrow> c < m \<longrightarrow> up c = i \<longrightarrow> \<not> f32_lt (rk c) (rk (up i))))"

definition no_nan :: "(nat \<Rightarrow> f32) \<Rightarrow> nat \<Rightarrow> bool" where
  "no_nan rk m \<longleftrightarrow> (\<forall>i<m. rk i \<noteq> NaN)"

lemma f32_lt_asym: "f32_lt x y \<Longrightarrow> \<not> f32_lt y x"
  by (cases x; cases y) auto

lemma f32_lt_irrefl [simp]: "\<not> f32_lt x x"
  by (cases x) auto

lemma f32_not_lt_trans: "y \<noteq> NaN \<Longrightarrow> \<not> f32_lt y x \<Longrightarrow> \<not> f32_lt z y \<Longrightarrow> \<not> f32_lt z x"
  by (cases x; cases y; cases z) auto

lemma f32_lt_trans: "f32_lt x y \<Longrightarrow> f32_lt y z \<Longrightarrow> f32_lt x z"
  by (cases x; cases y; cases z) auto

lemma f32_lt_le_trans: "y \<noteq> NaN \<Longrightarrow> z \<noteq> NaN \<Longrightarrow> f32_lt x y \<Longrightarrow> \<not> f32_lt z y \<Longrightarrow> f32_lt x z"
  by (cases x; cases y; cases z) auto

lemma up_less: "0 < i \<Longrightarrow> up i < i"
  by (auto simp: up_def)

lemma up_child [simp]: "up (Suc (2 * i)) = i" "up (Suc (Suc (2 * i))) = i"
  by (simp_all add: up_def)

lemma up_eq: "0 < c \<Longrightarrow> up c = i \<longleftrightarrow> c = 2 * i + 1 \<or> c = 2 * i + 2"
  by (auto simp: up_def)

lemma lesser_lt: "lesser rk m c s = s \<or> f32_lt (rk (lesser rk m c s)) (rk s)"
  by (simp add: lesser_def)

lemma lesser_not: "c < m \<Longrightarrow> lesser rk m c s = c \<or> lesser rk m c s = s \<and> \<not> f32_lt (rk c) (rk s)"
  by (simp add: lesser_def)

definition swapped :: "(nat \<Rightarrow> f32) \<Rightarrow> nat \<Rightarrow> nat \<Rightarrow> nat \<Rightarrow> f32" where
  "swapped rk i j k = (if k = j then rk i else if k = i then rk j else rk k)"

lemma sift_down_order:
  assumes "heap_but {2 * i + 1, 2 * i + 2} rk m" "skip_ok rk m i" "no_nan rk m" "i < m"
    and s: "s = lesser rk m (2 * i + 2) (lesser rk m (2 * i + 1) i)" "s \<noteq> i"
  shows "heap_but {2 * s + 1, 2 * s + 2} (swapped rk s i) m" and "skip_ok (swapped rk s i) m s"
proof -
  have sm: "s < m" "up s = i" "0 < s" using s by (auto simp: lesser_def up_def split: if_splits)
  define l where "l = lesser rk m (2 * i + 1) i"
  have l: "l = i \<or> f32_lt (rk l) (rk i)" "s = l \<or> f32_lt (rk s) (rk l)"
    using lesser_lt [of rk m "2 * i + 1" i] lesser_lt [of rk m "2 * i + 2" l] s(1) by (simp_all add: l_def)
  then have lt: "f32_lt (rk s) (rk i)" using s(2) f32_lt_trans by blast
  have kids: "\<not> f32_lt (rk c) (rk s)" if "0 < c" "c < m" "up c = i" for c
  proof -
    have nan: "rk i \<noteq> NaN" "rk c \<noteq> NaN" "rk s \<noteq> NaN" using assms(3,4) that sm by (auto simp: no_nan_def)
    have "c = 2 * i + 1 \<or> c = 2 * i + 2" using that up_eq by blast
    then show ?thesis
    proof
      assume c: "c = 2 * i + 1"
      have "l = c \<or> \<not> f32_lt (rk c) (rk i)" using lesser_not [of c m rk i] that(2) c by (auto simp: l_def)
      then show ?thesis
      proof
        assume "l = c"
        then show ?thesis using l(2) f32_lt_asym by auto
      next
        assume "\<not> f32_lt (rk c) (rk i)"
        then show ?thesis using f32_lt_le_trans [OF nan(1,2) lt] f32_lt_asym by blast
      qed
    next
      assume c: "c = 2 * i + 2"
      have "s = c \<or> s = l \<and> \<not> f32_lt (rk c) (rk l)" using lesser_not [of c m rk l] that(2) s(1) c by (simp add: l_def)
      then show ?thesis by auto
    qed
  qed
  show "heap_but {2 * s + 1, 2 * s + 2} (swapped rk s i) m" unfolding heap_but_def
  proof (intro allI impI)
    fix c assume c: "0 < c" "c < m" "c \<notin> {2 * s + 1, 2 * s + 2}"
    then have "up c \<noteq> s" using up_eq [of c s] by blast
    consider "up c = i" "c = s" | "up c = i" "c \<noteq> s" | "c = i" | "up c \<noteq> i" "c \<noteq> i" by blast
    then show "\<not> f32_lt (swapped rk s i c) (swapped rk s i (up c))"
    proof cases
      case 1
      then show ?thesis using lt sm c f32_lt_asym by (auto simp: swapped_def)
    next
      case 2
      then show ?thesis using kids [of c] sm c by (auto simp: swapped_def)
    next
      case 3
      then have "\<not> f32_lt (rk s) (rk (up i))" using assms(2) sm c by (auto simp: skip_ok_def)
      moreover have "up i \<noteq> s" "up i \<noteq> i" using up_less [of i] up_less [of s] sm 3 c(1) by auto
      ultimately show ?thesis using 3 sm(3) by (auto simp: swapped_def)
    next
      case 4
      then have "c \<noteq> s" "c \<notin> {2 * i + 1, 2 * i + 2}" using sm by (auto simp: up_def)
      then have "\<not> f32_lt (rk c) (rk (up c))" using assms(1) c by (simp add: heap_but_def)
      then show ?thesis using 4 \<open>up c \<noteq> s\<close> \<open>c \<noteq> s\<close> by (simp add: swapped_def)
    qed
  qed
  show "skip_ok (swapped rk s i) m s" unfolding skip_ok_def
  proof (intro allI impI)
    fix c assume c: "0 < c" "c < m" "up c = s"
    then have "c \<noteq> i" "c \<noteq> s" using sm up_less [of c] up_less [of s] by auto
    moreover have "c \<notin> {2 * i + 1, 2 * i + 2}" using c sm up_eq [of c i] up_less [of s] by auto
    ultimately have "\<not> f32_lt (rk c) (rk s)" using assms(1) c by (auto simp: heap_but_def)
    then show "\<not> f32_lt (swapped rk s i c) (swapped rk s i (up s))"
      using \<open>c \<noteq> i\<close> \<open>c \<noteq> s\<close> sm by (simp add: swapped_def)
  qed
qed

lemma sift_up_order:
  assumes "heap_but {i} rk m" "skip_ok rk m i" "no_nan rk m" "i < m" "0 < i"
    and le: "\<not> f32_lt (rk (up i)) (rk i)"
  shows "heap_but {up i} (swapped rk (up i) i) m" and "skip_ok (swapped rk (up i) i) m (up i)"
proof -
  let ?p = "up i"
  have p: "?p < i" "?p < m" using assms up_less [of i] by auto
  have nan: "rk ?p \<noteq> NaN" using assms(3) p by (simp add: no_nan_def)
  have old: "\<not> f32_lt (rk c) (rk (up c))" if "0 < c" "c < m" "c \<noteq> i" for c
    using assms(1) that by (simp add: heap_but_def)
  show "heap_but {?p} (swapped rk ?p i) m" unfolding heap_but_def
  proof (intro allI impI)
    fix c assume c: "0 < c" "c < m" "c \<notin> {?p}"
    consider "c = i" | "c \<noteq> i" "up c = ?p" | "up c = i" | "c \<noteq> i" "up c \<noteq> ?p" "up c \<noteq> i" by blast
    then show "\<not> f32_lt (swapped rk ?p i c) (swapped rk ?p i (up c))"
    proof cases
      case 1
      then show ?thesis using le p by (auto simp: swapped_def)
    next
      case 2
      then have "\<not> f32_lt (rk c) (rk ?p)" using old [of c] c by auto
      then have "\<not> f32_lt (rk c) (rk i)" using f32_not_lt_trans [OF nan] le by blast
      then show ?thesis using 2 c p by (auto simp: swapped_def)
    next
      case 3
      then have "\<not> f32_lt (rk c) (rk ?p)" using assms(2,5) c by (simp add: skip_ok_def)
      moreover have "c \<noteq> i" using 3 c up_less [of c] by auto
      ultimately show ?thesis using 3 c by (auto simp: swapped_def)
    next
      case 4
      then show ?thesis using old [of c] c by (simp add: swapped_def)
    qed
  qed
  show "skip_ok (swapped rk ?p i) m ?p" unfolding skip_ok_def
  proof (intro allI impI)
    fix c assume c: "0 < ?p" "0 < c" "c < m" "up c = ?p"
    have up: "\<not> f32_lt (rk ?p) (rk (up ?p))" using old [of ?p] c(1) p by simp
    have ne: "up ?p \<noteq> ?p" "up ?p \<noteq> i" "c \<noteq> ?p" using c p up_less [of ?p] up_less [of c] by auto
    show "\<not> f32_lt (swapped rk ?p i c) (swapped rk ?p i (up ?p))"
    proof (cases "c = i")
      case True
      then show ?thesis using up ne p by (simp add: swapped_def)
    next
      case False
      then have "\<not> f32_lt (rk c) (rk ?p)" using old [of c] c by simp
      then have "\<not> f32_lt (rk c) (rk (up ?p))" using f32_not_lt_trans [OF nan up] by blast
      then show ?thesis using False ne by (simp add: swapped_def)
    qed
  qed
qed

lemma up_less_bound: "0 < c \<Longrightarrow> c < m \<Longrightarrow> up c < m"
  using up_less [of c] by simp

lemma heap_but_cong: "(\<And>k. k < m \<Longrightarrow> rk k = rk' k) \<Longrightarrow> heap_but X rk m = heap_but X rk' m"
  by (auto simp: heap_but_def up_less_bound)

lemma skip_ok_cong: "(\<And>k. k < m \<Longrightarrow> rk k = rk' k) \<Longrightarrow> i < m \<Longrightarrow> skip_ok rk m i = skip_ok rk' m i"
  by (simp add: skip_ok_def up_less_bound cong: conj_cong)

lemma no_nan_cong: "(\<And>k. k < m \<Longrightarrow> rk k = rk' k) \<Longrightarrow> no_nan rk m = no_nan rk' m"
  by (auto simp: no_nan_def)

lemma no_nan_swapped: "no_nan rk m \<Longrightarrow> i < m \<Longrightarrow> j < m \<Longrightarrow> no_nan (swapped rk i j) m"
  by (simp add: no_nan_def swapped_def)

subsection \<open>The two loops\<close>

lemma DidRemove_spec:
  assumes "back_ptrs v (openNodesCount v)"
  shows "\<exists>v'. DidRemoveFromOpenSetAtIndex v i = Inr v' \<and> back_ptrs v' (openNodesCount v) \<and>
    reordered (openNodesCount v) v v' \<and>
    (i < openNodesCount v \<longrightarrow> heap_but {2 * i + 1, 2 * i + 2} (rank_at v) (openNodesCount v) \<longrightarrow>
     skip_ok (rank_at v) (openNodesCount v) i \<longrightarrow> no_nan (rank_at v) (openNodesCount v) \<longrightarrow> heap_order v')"
  using assms
proof (induction v i rule: DidRemoveFromOpenSetAtIndex.induct)
  case (1 v i)
  let ?m = "openNodesCount v" and ?rk = "rank_at v"
  define s where "s = lesser ?rk ?m (2 * i + 2) (lesser ?rk ?m (2 * i + 1) i)"
  have small: "smallest_of v i = Inr s" using smallest_of_in [OF "1.prems"] by (simp add: s_def)
  note simps = DidRemoveFromOpenSetAtIndex.simps [of v i]
  show ?case
  proof (cases "s = i")
    case True
    have stop: "heap_order v" if but: "i < ?m" "heap_but {2 * i + 1, 2 * i + 2} ?rk ?m"
    proof -
      have "\<not> f32_lt (?rk c) (?rk i)" if "c \<in> {2 * i + 1, 2 * i + 2}" "c < ?m" for c
        using True that unfolding s_def by (auto simp: lesser_def split: if_splits)
      moreover have "up c = i" if "c \<in> {2 * i + 1, 2 * i + 2}" for c using that by auto
      ultimately show ?thesis using but(2) unfolding heap_order_def heap_but_def by (metis empty_iff)
    qed
    show ?thesis using "1.prems" stop small True unfolding simps by simp
  next
    case False
    then have s: "i < s" "s < ?m" using smallest_of_cases [OF small] by auto
    obtain w where w: "SwapOpenSetNodesAtIndexes v s i = Inr w" "back_ptrs w ?m" "reordered ?m v w"
        "openNodes w = (openNodes v)[s := openNodes v ! i, i := openNodes v ! s]"
      using swap_spec [OF "1.prems" s(2), of i] s by auto
    have m: "openNodesCount w = ?m" using w(3) by (simp add: reordered_def)
    have rk: "rank_at w k = swapped ?rk s i k" if "k < ?m" for k
      using rank_at_swap [OF "1.prems" s(2) _ w(3) that w(4)] s by (simp add: swapped_def)
    have order: "heap_but {2 * s + 1, 2 * s + 2} (rank_at w) ?m \<and> skip_ok (rank_at w) ?m s \<and> no_nan (rank_at w) ?m"
      if "heap_but {2 * i + 1, 2 * i + 2} ?rk ?m" "skip_ok ?rk ?m i" "no_nan ?rk ?m"
      using sift_down_order [OF that _ s_def False] s no_nan_swapped [OF that(3), of s i]
      by (simp add: heap_but_cong [OF rk] skip_ok_cong [OF rk] no_nan_cong [OF rk])
    from "1.IH" [OF small False w(1)] w(2) obtain v' where v':
        "DidRemoveFromOpenSetAtIndex w s = Inr v'" "back_ptrs v' ?m" "reordered ?m w v'"
        "s < ?m \<longrightarrow> heap_but {2 * s + 1, 2 * s + 2} (rank_at w) ?m \<longrightarrow>
          skip_ok (rank_at w) ?m s \<longrightarrow> no_nan (rank_at w) ?m \<longrightarrow> heap_order v'"
      unfolding m by blast
    show ?thesis
      using v' order s(2) w(1) small False reordered_trans [OF w(3) v'(3)] unfolding simps by simp
  qed
qed

lemma parent_index_up: "i < 2 ^ 24 \<Longrightarrow> parent_index i = up i"
proof -
  assume "i < 2 ^ 24"
  then have "int ((i - 1) div 2) < 2 ^ 24" by simp
  then have "f32_of_int (int ((i - 1) div 2)) = fi (int ((i - 1) div 2))" by (simp add: f32_of_int_exact)
  then show ?thesis by (simp add: parent_index_def fi_def up_def)
qed

lemma DidInsert_spec:
  assumes "back_ptrs v (openNodesCount v)" "i < openNodesCount v"
  shows "\<exists>v'. DidInsertIntoOpenSetAtIndex v i = Inr v' \<and> back_ptrs v' (openNodesCount v) \<and>
    reordered (openNodesCount v) v v' \<and>
    (openNodesCount v \<le> 2 ^ 24 \<longrightarrow> heap_but {i} (rank_at v) (openNodesCount v) \<longrightarrow>
     skip_ok (rank_at v) (openNodesCount v) i \<longrightarrow> no_nan (rank_at v) (openNodesCount v) \<longrightarrow> heap_order v')"
  using assms
proof (induction v i rule: DidInsertIntoOpenSetAtIndex.induct)
  case (1 v i)
  let ?m = "openNodesCount v" and ?rk = "rank_at v" and ?p = "parent_index i"
  note simps = DidInsertIntoOpenSetAtIndex.simps [of v i]
  show ?case
  proof (cases "i = 0")
    case True
    then show ?thesis using "1.prems" unfolding simps by (auto simp: heap_order_def heap_but_def)
  next
    case False
    then have p: "?p < i" "?p < ?m" using parent_index_less [of i] "1.prems"(2) by auto
    note before = open_before_in [OF "1.prems"(1) p(2) "1.prems"(2)]
    show ?thesis
    proof (cases "f32_lt (?rk ?p) (?rk i)")
      case True
      have "heap_order v" if "?m \<le> 2 ^ 24" "heap_but {i} ?rk ?m"
      proof -
        have "?p = up i" using parent_index_up "1.prems"(2) that(1) by simp
        then have "\<not> f32_lt (?rk i) (?rk (up i))" using True f32_lt_asym by simp
        then show ?thesis using that(2) by (auto simp: heap_order_def heap_but_def)
      qed
      then show ?thesis using True False "1.prems" before unfolding simps by (simp add: Let_def)
    next
      case stay: False
      obtain w where w: "SwapOpenSetNodesAtIndexes v ?p i = Inr w" "back_ptrs w ?m" "reordered ?m v w"
          "openNodes w = (openNodes v)[?p := openNodes v ! i, i := openNodes v ! ?p]"
        using swap_spec [OF "1.prems"(1) p(2) "1.prems"(2)] by auto
      have m: "openNodesCount w = ?m" using w(3) by (simp add: reordered_def)
      have rk: "rank_at w k = swapped ?rk ?p i k" if "k < ?m" for k
        using rank_at_swap [OF "1.prems"(1) p(2) "1.prems"(2) w(3) that w(4)] by (simp add: swapped_def)
      have order: "heap_but {?p} (rank_at w) ?m \<and> skip_ok (rank_at w) ?m ?p \<and> no_nan (rank_at w) ?m"
        if "?m \<le> 2 ^ 24" "heap_but {i} ?rk ?m" "skip_ok ?rk ?m i" "no_nan ?rk ?m"
      proof -
        have "?p = up i" using parent_index_up "1.prems"(2) that(1) by simp
        then show ?thesis
          using sift_up_order [OF that(2-4) "1.prems"(2)] stay False p no_nan_swapped [OF that(4) p(2) "1.prems"(2)]
          by (simp add: heap_but_cong [OF rk] skip_ok_cong [OF rk] no_nan_cong [OF rk])
      qed
      have "0 < i" "?p = ?p" using False by simp_all
      from "1.IH" [OF this before stay w(1)] w(2) p(2) obtain v' where v':
          "DidInsertIntoOpenSetAtIndex w ?p = Inr v'" "back_ptrs v' ?m" "reordered ?m w v'"
          "?m \<le> 2 ^ 24 \<longrightarrow> heap_but {?p} (rank_at w) ?m \<longrightarrow>
            skip_ok (rank_at w) ?m ?p \<longrightarrow> no_nan (rank_at w) ?m \<longrightarrow> heap_order v'"
        unfolding m by blast
      show ?thesis
        using v' order w(1) stay False before reordered_trans [OF w(3) v'(3)] unfolding simps
        by (simp add: Let_def)
    qed
  qed
qed

section \<open>Removal and insertion\<close>

lemma open_okD:
  assumes "open_ok v"
  shows "back_ptrs v (openNodesCount v)" and "openNodesCount v \<le> length (openNodes v)"
    and "k < openNodesCount v \<Longrightarrow> openNodes v ! k < nodeRecordsCount v"
    and "k < openNodesCount v \<Longrightarrow> openIndex (nodeRecords v ! (openNodes v ! k)) = k"
    and "k < openNodesCount v \<Longrightarrow> isOpen (nodeRecords v ! (openNodes v ! k))"
proof -
  show *: "back_ptrs v (openNodesCount v)" "openNodesCount v \<le> length (openNodes v)"
    and **: "k < openNodesCount v \<Longrightarrow> openNodes v ! k < nodeRecordsCount v"
    and "k < openNodesCount v \<Longrightarrow> openIndex (nodeRecords v ! (openNodes v ! k)) = k"
    using assms by (auto simp: open_ok_def back_ptrs_def)
  show "isOpen (nodeRecords v ! (openNodes v ! k))" if "k < openNodesCount v"
    using assms * ** that nth_mem [of k "take (openNodesCount v) (openNodes v)"]
    by (simp add: open_ok_def open_set_def)
qed

lemma open_ok_place:
  assumes "open_ok v" "i < nodeRecordsCount v" "isOpen (nodeRecords v ! i)"
  shows "openIndex (nodeRecords v ! i) < openNodesCount v"
    and "openNodes v ! openIndex (nodeRecords v ! i) = i"
proof -
  obtain k where "k < openNodesCount v" "openNodes v ! k = i"
    using assms by (auto simp: open_ok_def open_set_def in_set_conv_nth)
  then show "openIndex (nodeRecords v ! i) < openNodesCount v"
    and "openNodes v ! openIndex (nodeRecords v ! i) = i"
    using open_okD(4) [OF assms(1), of k] by auto
qed

lemma open_distinct: "back_ptrs v m \<Longrightarrow> distinct (take m (openNodes v))"
  unfolding distinct_conv_nth by (auto dest: back_ptrs_inj)

definition same_index :: "visited_nodes \<Rightarrow> visited_nodes \<Rightarrow> bool" where
  "same_index v v' \<longleftrightarrow> nodeRecordsIndex v' = nodeRecordsIndex v \<and> nodeRecordsCapacity v' = nodeRecordsCapacity v"

lemma swap_root_order:
  assumes "heap_but {} rk c"
  shows "heap_but {1, 2} (swapped rk 0 (c - 1)) (c - 1)"
  unfolding heap_but_def
proof (intro allI impI)
  fix n :: nat assume n: "0 < n" "n < c - 1" "n \<notin> {1, 2}"
  then have "up n \<noteq> 0" "up n < n" using up_eq [of n 0] up_less [of n] by auto
  moreover have "\<not> f32_lt (rk n) (rk (up n))" using assms n by (simp add: heap_but_def)
  ultimately show "\<not> f32_lt (swapped rk 0 (c - 1) n) (swapped rk 0 (c - 1) (up n))"
    using n by (simp add: swapped_def)
qed

lemma Remove_spec:
  assumes ok: "open_ok v" and i: "i < nodeRecordsCount v" "isOpen (nodeRecords v ! i)"
  shows "\<exists>v'. RemoveNodeFromOpenSet v (Some i) = Inr v' \<and> open_ok v' \<and> same_index v v' \<and>
    view v' = (view v)[i := (view v ! i)\<lparr>isOpen := False\<rparr>] \<and> openNodesCount v' = openNodesCount v - 1 \<and>
    (i = openNodes v ! 0 \<longrightarrow> heap_order v \<longrightarrow> no_nan (rank_at v) (openNodesCount v) \<longrightarrow> heap_order v')"
proof -
  define c k where "c = openNodesCount v" and "k = openIndex (nodeRecords v ! i)"
  have k: "k < c" "openNodes v ! k = i" using open_ok_place [OF assms] by (simp_all add: c_def k_def)
  define v1 where "v1 = v\<lparr>nodeRecords := (nodeRecords v)[i := (nodeRecords v ! i)\<lparr>isOpen := False\<rparr>],
    openNodesCount := c - 1\<rparr>"
  have op: "openNodes v1 = openNodes v" "nodeRecordsCount v1 = nodeRecordsCount v" "openNodesCount v1 = c - 1"
    by (simp_all add: v1_def)
  have view1: "view v1 = (view v)[i := (view v ! i)\<lparr>isOpen := False\<rparr>]"
    using i by (simp add: v1_def view_def map_update)
  have "openIndex (nodeRecords v1 ! n) = openIndex (nodeRecords v ! n)" for n
    using i by (cases "n = i") (simp_all add: v1_def)
  then have bp1: "back_ptrs v1 c" using open_okD(1,2) [OF ok] by (simp add: back_ptrs_def op c_def)
  have rk1: "rank_at v1 n = rank_at v n" if "n < c" for n
    using i by (cases "openNodes v ! n = i") (simp_all add: rank_at_def op v1_def rank_def)
  obtain w where w: "SwapOpenSetNodesAtIndexes v1 k (c - 1) = Inr w" "back_ptrs w c" "reordered c v1 w"
      "openNodes w = (openNodes v1)[k := openNodes v1 ! (c - 1), c - 1 := openNodes v1 ! k]"
    using swap_spec [OF bp1 k(1), of "c - 1"] k by auto
  have cw: "openNodesCount w = c - 1" using w(3) by (simp add: reordered_def op)
  obtain v' where v': "DidRemoveFromOpenSetAtIndex w k = Inr v'" "back_ptrs v' (c - 1)" "reordered (c - 1) w v'"
      "k < c - 1 \<longrightarrow> heap_but {2 * k + 1, 2 * k + 2} (rank_at w) (c - 1) \<longrightarrow> skip_ok (rank_at w) (c - 1) k \<longrightarrow>
        no_nan (rank_at w) (c - 1) \<longrightarrow> heap_order v'"
    using DidRemove_spec [of w k] back_ptrs_less [OF w(2), of "c - 1"] unfolding cw by auto
  have run: "RemoveNodeFromOpenSet v (Some i) = Inr v'"
    using i w(1) v'(1) by (simp add: RemoveNodeFromOpenSet_def Let_def v1_def c_def k_def)
  have eqs: "same_index v v'" "view v' = view v1" "openNodesCount v' = c - 1"
      "length (openNodes v') = openNodesCapacity v'"
    using w(3) v'(3) ok by (simp_all add: reordered_def same_index_def v1_def open_ok_def)
  have len: "c \<le> length (openNodes w)" "openNodes w ! (c - 1) = i"
    using w(2,4) k op by (auto simp: back_ptrs_def)
  then have tk: "take c (openNodes w) = take (c - 1) (openNodes w) @ [i]"
    using k take_Suc_conv_app_nth [of "c - 1" "openNodes w"] by simp
  have "mset (take c (openNodes w)) = mset (take c (openNodes v))" using w(3) by (simp add: reordered_def op)
  then have "set (take c (openNodes v)) = insert i (set (take (c - 1) (openNodes w)))"
    unfolding tk by (metis list.set(2) mset_eq_setD mset_rev rev.simps(2) rev_rev_ident set_rev)
  moreover have "i \<notin> set (take (c - 1) (openNodes w))" using open_distinct [OF w(2)] tk by simp
  moreover have "set (take (c - 1) (openNodes v')) = set (take (c - 1) (openNodes w))"
    using v'(3) mset_eq_setD by (auto simp: reordered_def)
  ultimately have os: "open_set v' = open_set v - {i}" by (simp add: open_set_def eqs c_def)
  have n: "nodeRecordsCount v' = nodeRecordsCount v" using view_eq_length [OF eqs(2)] op by simp
  have "isOpen (nodeRecords v' ! j) \<longleftrightarrow> j \<in> open_set v'" if "j < nodeRecordsCount v'" for j
  proof -
    have "isOpen (nodeRecords v' ! j) = isOpen (view v' ! j)" using that by (simp add: view_nth)
    also have "\<dots> = (j \<noteq> i \<and> isOpen (view v ! j))" using that n i by (simp add: eqs(2) view1 nth_list_update)
    also have "\<dots> = (j \<in> open_set v')" using that n ok by (auto simp: os view_nth open_ok_def)
    finally show ?thesis .
  qed
  then have "open_ok v'" using v'(2) eqs by (simp add: open_ok_def back_ptrs_def)
  moreover have "heap_order v'" if root: "i = openNodes v ! 0" "heap_order v" "no_nan (rank_at v) c"
  proof -
    have "k = 0" using open_okD(4) [OF ok, of 0] k root(1) by (simp add: k_def c_def)
    have "rank_at w n = swapped (rank_at v) 0 (c - 1) n" if "n < c - 1" for n
      using rank_at_swap [OF bp1 k(1) _ w(3) _ w(4), of n] rk1 that \<open>k = 0\<close> by (simp add: swapped_def)
    note cong = heap_but_cong [OF this] no_nan_cong [OF this]
    have "heap_but {1, 2} (swapped (rank_at v) 0 (c - 1)) (c - 1)"
      using swap_root_order root(2) by (simp add: heap_order_def c_def)
    moreover have "no_nan (swapped (rank_at v) 0 (c - 1)) (c - 1)"
      using root(3) k by (auto simp: no_nan_def swapped_def)
    ultimately show ?thesis
    proof (cases "0 < c - 1")
      case True
      then show ?thesis using v'(4) \<open>k = 0\<close> \<open>heap_but {1, 2} _ _\<close> \<open>no_nan (swapped _ _ _) _\<close>
        by (simp add: cong skip_ok_def numeral_2_eq_2)
    qed (simp add: heap_order_def heap_but_def eqs)
  qed
  ultimately show ?thesis using run eqs view1 by (auto simp: c_def)
qed

lemma open_ok_update:
  assumes "open_ok v" "isOpen r = isOpen (nodeRecords v ! i)" "openIndex r = openIndex (nodeRecords v ! i)"
  shows "open_ok (v\<lparr>nodeRecords := (nodeRecords v)[i := r]\<rparr>)"
proof -
  have "isOpen ((nodeRecords v)[i := r] ! j) = isOpen (nodeRecords v ! j)"
    "openIndex ((nodeRecords v)[i := r] ! j) = openIndex (nodeRecords v ! j)" for j
    using assms(2,3) by (simp_all add: nth_update_if)
  then show ?thesis using assms(1) by (simp add: open_ok_def open_set_def back_ptrs_def)
qed

lemma grow_open:
  assumes "open_ok v"
  shows "open_ok (grow_open v)" and "openNodesCount v < length (openNodes (grow_open v))"
    and "openNodesCount (grow_open v) = openNodesCount v" and "nodeRecords (grow_open v) = nodeRecords v"
    and "same_index v (grow_open v)" and "k < openNodesCount v \<Longrightarrow> openNodes (grow_open v) ! k = openNodes v ! k"
proof -
  have le: "openNodesCount v \<le> length (openNodes v)" "length (openNodes v) = openNodesCapacity v"
    using assms by (simp_all add: open_ok_def)
  then have tk: "take (openNodesCount v) (openNodes (grow_open v)) = take (openNodesCount v) (openNodes v)"
    by (simp add: grow_open_def Let_def take_grow)
  show nth: "openNodes (grow_open v) ! k = openNodes v ! k" if "k < openNodesCount v" for k
    using arg_cong [OF tk, of "\<lambda>xs. xs ! k"] that by simp
  show len: "openNodesCount v < length (openNodes (grow_open v))"
    and cnt: "openNodesCount (grow_open v) = openNodesCount v" "nodeRecords (grow_open v) = nodeRecords v"
    and "same_index v (grow_open v)"
    using le by (auto simp: grow_open_def Let_def same_index_def)
  have "length (openNodes (grow_open v)) = openNodesCapacity (grow_open v)"
    using le by (simp add: grow_open_def Let_def)
  then show "open_ok (grow_open v)" using assms tk nth cnt len
    by (simp add: open_ok_def open_set_def back_ptrs_def)
qed

lemma Add_spec:
  assumes ok: "open_ok v" and i: "i < nodeRecordsCount v" "\<not> isOpen (nodeRecords v ! i)"
  shows "\<exists>v'. AddNodeToOpenSet v (Some i) c p = Inr v' \<and> open_ok v' \<and> same_index v v' \<and>
    view v' = (view v)[i := (set_parent p (view v ! i))\<lparr>isOpen := True, cost := c\<rparr>] \<and>
    openNodesCount v' = openNodesCount v + 1 \<and>
    (openNodesCount v < 2 ^ 24 \<longrightarrow> heap_order v \<longrightarrow> no_nan (rank_at v) (openNodesCount v) \<longrightarrow>
     f32_add (estimatedCost (nodeRecords v ! i)) c \<noteq> NaN \<longrightarrow> heap_order v')"
proof -
  let ?rs = "nodeRecords v" and ?m = "openNodesCount v"
  define v1 where "v1 = v\<lparr>nodeRecords := ?rs[i := set_parent p (?rs ! i)]\<rparr>"
  have sp: "isOpen (set_parent p r) = isOpen r" "openIndex (set_parent p r) = openIndex r"
    "estimatedCost (set_parent p r) = estimatedCost r" "cost (set_parent p r) = cost r" for r
    by (simp_all add: set_parent_def)
  have ok1: "open_ok v1" using open_ok_update [OF ok] by (simp add: v1_def sp)
  have m1: "openNodesCount v1 = ?m" "nodeRecordsCount v1 = nodeRecordsCount v" by (simp_all add: v1_def)
  note g = grow_open [OF ok1]
  define r where "r = (set_parent p (?rs ! i))\<lparr>openIndex := ?m, isOpen := True, cost := c\<rparr>"
  define v3 where "v3 = (grow_open v1)\<lparr>openNodes := (openNodes (grow_open v1))[?m := i],
    openNodesCount := ?m + 1, nodeRecords := ?rs[i := r]\<rparr>"
  have run: "AddNodeToOpenSet v (Some i) c p = DidInsertIntoOpenSetAtIndex v3 ?m"
    using i g(2-4) m1 by (simp add: AddNodeToOpenSet_def Let_def flip: v1_def)
      (simp add: v3_def r_def v1_def sp)
  have nth: "openNodes v3 ! k = (if k = ?m then i else openNodes v ! k)" if "k \<le> ?m" for k
    using g(2,6) that m1 by (auto simp: v3_def nth_list_update) (simp add: v1_def)
  have ne: "openNodes v ! k \<noteq> i" if "k < ?m" for k using open_okD(5) [OF ok that] i by auto
  have "openNodes v3 ! k < nodeRecordsCount v3 \<and> openIndex (nodeRecords v3 ! (openNodes v3 ! k)) = k"
    if "k < ?m + 1" for k
    using nth [of k] ne [of k] open_okD(3,4) [OF ok, of k] i that
    by (cases "k = ?m") (simp_all add: v3_def r_def nth_update_if)
  then have bp: "back_ptrs v3 (?m + 1)" using g(2) m1 by (simp add: back_ptrs_def) (simp add: v3_def)
  have cnt: "openNodesCount v3 = ?m + 1" by (simp add: v3_def)
  obtain v' where v': "DidInsertIntoOpenSetAtIndex v3 ?m = Inr v'" "back_ptrs v' (?m + 1)"
      "reordered (?m + 1) v3 v'"
      "?m + 1 \<le> 2 ^ 24 \<longrightarrow> heap_but {?m} (rank_at v3) (?m + 1) \<longrightarrow>
        skip_ok (rank_at v3) (?m + 1) ?m \<longrightarrow> no_nan (rank_at v3) (?m + 1) \<longrightarrow> heap_order v'"
    using DidInsert_spec [of v3 ?m] bp unfolding cnt by auto
  have view3: "view v3 = (view v)[i := (set_parent p (view v ! i))\<lparr>isOpen := True, cost := c\<rparr>]"
    using i by (simp add: view_def v3_def map_update r_def)
  have eqs: "view v' = view v3" "openNodesCount v' = ?m + 1" "same_index v v'"
      "length (openNodes v') = openNodesCapacity v'"
    using v'(3) g(1,5) by (simp_all add: reordered_def v3_def same_index_def v1_def open_ok_def)
  have "openNodes v3 ! k = openNodes v ! k" if "k < ?m" for k using nth [of k] that by simp
  then have "take (?m + 1) (openNodes v3) = take ?m (openNodes v) @ [i]"
    using take_Suc_conv_app_nth [of ?m "openNodes v3"] g(2) m1 nth [of ?m] open_okD(2) [OF ok]
      nth_take_lemma [of ?m "openNodes v3" "openNodes v"] by (simp add: v3_def)
  moreover have "mset (take (?m + 1) (openNodes v')) = mset (take (?m + 1) (openNodes v3))"
    using v'(3) by (simp only: reordered_def)
  ultimately have "set (take (?m + 1) (openNodes v')) = insert i (set (take ?m (openNodes v)))"
    by (metis Un_insert_right list.set(1,2) mset_eq_setD set_append sup_bot_right)
  then have "open_set v' = insert i (open_set v)" by (simp only: open_set_def eqs)
  moreover have "isOpen (nodeRecords v' ! j) = (j = i \<or> isOpen (nodeRecords v ! j))"
    if "j < nodeRecordsCount v" for j
  proof -
    have "j < nodeRecordsCount v'" using that view_eq_length [OF eqs(1)] by (simp add: v3_def)
    then have "isOpen (nodeRecords v' ! j) = isOpen (view v' ! j)" by (simp add: view_nth)
    also have "\<dots> = (j = i \<or> isOpen (view v ! j))" using that i by (simp add: eqs(1) view3 nth_list_update)
    finally show ?thesis using that by (simp add: view_nth)
  qed
  ultimately have "open_ok v'"
    using v'(2) eqs i ok view_eq_length [OF eqs(1)] by (auto simp: open_ok_def back_ptrs_def v3_def)
  moreover have "heap_order v'" if h: "?m < 2 ^ 24" "heap_order v" "no_nan (rank_at v) ?m"
    "f32_add (estimatedCost (?rs ! i)) c \<noteq> NaN"
  proof -
    have rk: "rank_at v3 k = (if k = ?m then f32_add (estimatedCost (?rs ! i)) c else rank_at v k)" if "k \<le> ?m" for k
      using nth [OF that] ne [of k] that i by (auto simp: rank_at_def v3_def r_def rank_def sp)
    have "heap_but {?m} (rank_at v3) (?m + 1)" unfolding heap_but_def
    proof (intro allI impI)
      fix k assume k: "0 < k" "k < ?m + 1" "k \<notin> {?m}"
      then have "k < ?m" "up k < ?m" using up_less [of k] by auto
      then show "\<not> f32_lt (rank_at v3 k) (rank_at v3 (up k))" using rk h(2) k by (simp add: heap_order_def heap_but_def)
    qed
    moreover have "skip_ok (rank_at v3) (?m + 1) ?m"
      by (metis add.commute less_Suc_eq_le not_le plus_1_eq_Suc skip_ok_def up_less)
    moreover have "no_nan (rank_at v3) (?m + 1)" using h(3,4) rk by (simp add: no_nan_def less_Suc_eq_le)
    ultimately show ?thesis using v'(4) h(1) by simp
  qed
  ultimately show ?thesis using run v'(1) eqs view3 by auto
qed

section \<open>Properties\<close>

lemma open_set_view: "open_ok v \<Longrightarrow> open_set v = {i. i < nodeRecordsCount v \<and> isOpen (view v ! i)}"
proof -
  assume ok: "open_ok v"
  have "j < nodeRecordsCount v" if "j \<in> open_set v" for j
    using that open_okD(3) [OF ok] by (auto simp: open_set_def in_set_conv_nth)
  then show ?thesis using ok by (auto simp: open_ok_def view_nth)
qed

lemma heap_root:
  assumes "heap_order v" "no_nan (rank_at v) (openNodesCount v)" "k < openNodesCount v"
  shows "\<not> f32_lt (rank_at v k) (rank_at v 0)"
  using assms(3)
proof (induction k rule: less_induct)
  case (less k)
  show ?case
  proof (cases "k = 0")
    case False
    then have "up k < k" "up k < openNodesCount v" using up_less [of k] less.prems by auto
    then have "\<not> f32_lt (rank_at v (up k)) (rank_at v 0)" using less.IH by blast
    moreover have "\<not> f32_lt (rank_at v k) (rank_at v (up k))"
      using assms(1) False less.prems by (simp add: heap_order_def heap_but_def)
    ultimately show ?thesis
      using f32_not_lt_trans [of "rank_at v (up k)" "rank_at v 0" "rank_at v k"] assms(2) \<open>up k < openNodesCount v\<close>
      by (simp add: no_nan_def)
  qed simp
qed


text \<open>
  Adding a node whose rank is a number to such an open set of fewer than \<open>2 ^ 24\<close> nodes keeps
  the heap order and the pointers, sets the node's cost and parent and adds that node only.
\<close>

theorem add_open:
  assumes "open_ok v" and "heap_order v" and "no_nan (rank_at v) (openNodesCount v)" and "openNodesCount v < 2 ^ 24"
    and "i < nodeRecordsCount v" and "\<not> isOpen (nodeRecords v ! i)" and "f32_add (estimatedCost (nodeRecords v ! i)) c \<noteq> NaN"
  shows "\<exists>v'. AddNodeToOpenSet v (Some i) c p = Inr v' \<and> open_ok v' \<and> heap_order v' \<and> open_set v' = insert i (open_set v) \<and>
    view v' = (view v)[i := (set_parent p (view v ! i))\<lparr>isOpen := True, cost := c\<rparr>]"
proof -
  obtain v' where v': "AddNodeToOpenSet v (Some i) c p = Inr v'" "open_ok v'" "heap_order v'"
      "view v' = (view v)[i := (set_parent p (view v ! i))\<lparr>isOpen := True, cost := c\<rparr>]"
    using Add_spec [OF assms(1,5,6), of c p] assms(2-4,7) by blast
  have "nodeRecordsCount v' = nodeRecordsCount v" using v'(4) by (metis length_list_update length_view)
  then have "open_set v' = insert i (open_set v)"
    using assms(5) by (auto simp: open_set_view assms(1) v'(2,4) nth_list_update)
  then show ?thesis using v' by blast
qed

text \<open>An open set with nodes of given costs, added one after the other.\<close>

definition add_cost :: "byte \<times> int \<Rightarrow> visited_nodes \<Rightarrow> visited_nodes cres" where
  "add_cost = (\<lambda>(k, c) v. bind_res (GetNode (byte_source (\<lambda>_. [])) v (Some [k])) (\<lambda>(n, v). AddNodeToOpenSet v n (fi c) None))"

definition demo_open :: "visited_nodes cres" where
  "demo_open = for_res add_cost [(0, 1), (1, 10), (2, 2), (3, 11), (4, 12), (5, 3), (6, 4)] VisitedNodesCreate"

lemma heap_but_code [code]:
  "heap_but X rk m \<longleftrightarrow> (\<forall>c\<in>set [1..<m]. c \<notin> X \<longrightarrow> \<not> f32_lt (rk c) (rk (up c)))"
  by (auto simp: heap_but_def)

lemma no_nan_code [code]: "no_nan rk m \<longleftrightarrow> (\<forall>c\<in>set [0..<m]. rk c \<noteq> NaN)"
  by (auto simp: no_nan_def)

lemma back_ptrs_code [code]:
  "back_ptrs v m \<longleftrightarrow> m \<le> length (openNodes v) \<and> (\<forall>i\<in>set [0..<m]. openNodes v ! i < nodeRecordsCount v \<and>
     openIndex (nodeRecords v ! (openNodes v ! i)) = i)"
  by (auto simp: back_ptrs_def)

lemma open_ok_code [code]:
  "open_ok v \<longleftrightarrow> length (openNodes v) = openNodesCapacity v \<and> openNodesCount v \<le> openNodesCapacity v \<and>
     back_ptrs v (openNodesCount v) \<and>
     (\<forall>i\<in>set [0..<nodeRecordsCount v]. isOpen (nodeRecords v ! i) \<longleftrightarrow> i \<in> open_set v)"
  by (auto simp: open_ok_def)

definition demo_heap :: visited_nodes where
  "demo_heap = (case demo_open of Inr v \<Rightarrow> v | Inl e \<Rightarrow> VisitedNodesCreate)"

lemma demo_heap_ok: "open_ok demo_heap \<and> heap_order demo_heap \<and> no_nan (rank_at demo_heap) (openNodesCount demo_heap)"
  by code_simp


text \<open>The heap without its first node, to which the node is added again at another cost.\<close>

definition demo_rest :: visited_nodes where
  "demo_rest = (case RemoveNodeFromOpenSet demo_heap (Some 0) of Inr v \<Rightarrow> v | Inl e \<Rightarrow> VisitedNodesCreate)"

theorem add_open_witness:
  "\<exists>v'. AddNodeToOpenSet demo_rest (Some 0) (fi 5) None = Inr v' \<and> heap_order v' \<and>
     open_set v' = insert 0 (open_set demo_rest)"
proof -
  have "open_ok demo_rest \<and> heap_order demo_rest \<and> no_nan (rank_at demo_rest) (openNodesCount demo_rest)" by code_simp
  moreover have "openNodesCount demo_rest = 6" "0 < nodeRecordsCount demo_rest" "\<not> isOpen (nodeRecords demo_rest ! 0)"
    "f32_add (estimatedCost (nodeRecords demo_rest ! 0)) (fi 5) \<noteq> NaN" by code_simp+
  ultimately show ?thesis using add_open [of demo_rest 0 "fi 5" None] by auto
qed


end
