(* ===== verification/AStar.thy ===== *)
theory AStar
  imports AStar_Open
begin

text \<open>
  The path search \<open>ASPathCreate\<close> (\<open>astar/AStar.c\<close>) over the visited nodes, with the list that the
  caller's callback fills with the neighbours of a node. A callback has no other access to that
  list than \<open>ASNeighborListAdd\<close>: it is given as the sequence of the calls it makes. The main loop
  has fuel: with costs that are not negative it ends, which is proved; with others it may not. A
  walk along parents that is longer than the number of records repeats a record and never ends.
\<close>

section \<open>The model\<close>

record neighbor_list =
  capacity :: nat
  count :: nat
  costs :: "f32 list"
  nodeKeys :: "key list"

record ASPath =
  path_nodeSize :: nat
  path_count :: nat
  path_cost :: f32
  path_nodeKeys :: "key list"

definition NeighborListCreate :: neighbor_list where
  "NeighborListCreate = \<lparr>capacity = 0, count = 0, costs = [], nodeKeys = []\<rparr>"

definition NeighborListGetEdgeCost :: "neighbor_list \<Rightarrow> nat \<Rightarrow> f32 cres" where
  "NeighborListGetEdgeCost l i = aget (costs l) i"

definition NeighborListGetNodeKey :: "neighbor_list \<Rightarrow> nat \<Rightarrow> key cres" where
  "NeighborListGetNodeKey l i = aget (nodeKeys l) i"

definition grow_neighbors :: "neighbor_list \<Rightarrow> neighbor_list" where
  "grow_neighbors l =
     (if count l = capacity l then
        let cap = 1 + capacity l * 2
        in l\<lparr>capacity := cap, costs := grow (Fin 0) cap (costs l), nodeKeys := grow [] cap (nodeKeys l)\<rparr>
      else l)"

definition ASNeighborListAdd ::
    "ASPathNodeSource \<Rightarrow> key \<times> f32 \<Rightarrow> neighbor_list \<Rightarrow> neighbor_list cres" where
  "ASNeighborListAdd src = (\<lambda>(k, edge) l.
     let l = grow_neighbors l in
     bind_res (aset (costs l) (count l) edge) (\<lambda>cs.
     bind_res (aset (nodeKeys l) (count l) (take (nodeSize src) k)) (\<lambda>ks.
       Inr (l\<lparr>costs := cs, nodeKeys := ks, count := count l + 1\<rparr>))))"

text \<open>One round of the loop over the neighbours of the current node: the neighbour's record with
  its estimate, then its place in the open and in the closed set.\<close>

definition estimate_neighbor ::
    "ASPathNodeSource \<Rightarrow> node \<Rightarrow> key \<Rightarrow> visited_nodes \<Rightarrow> (node \<times> visited_nodes) cres" where
  "estimate_neighbor src goal k v =
     bind_res (GetNode src v (Some k)) (\<lambda>(neighbor, v).
     bind_res (NodeHasEstimatedCost v neighbor) (\<lambda>has.
       if \<not> has then
         bind_res (GetPathCostHeuristic src v neighbor goal) (\<lambda>h.
         bind_res (SetNodeEstimatedCost v neighbor h) (\<lambda>v. Inr (neighbor, v)))
       else Inr (neighbor, v)))"

definition update_neighbor :: "visited_nodes \<Rightarrow> node \<Rightarrow> f32 \<Rightarrow> node \<Rightarrow> visited_nodes cres" where
  "update_neighbor v neighbor c current =
     bind_res (NodeIsInOpenSet v neighbor) (\<lambda>isopen.
     bind_res (GetNodeCost v neighbor) (\<lambda>old.
     bind_res (if isopen \<and> f32_lt c old then RemoveNodeFromOpenSet v neighbor else Inr v) (\<lambda>v.
     bind_res (NodeIsInClosedSet v neighbor) (\<lambda>closed.
     bind_res (GetNodeCost v neighbor) (\<lambda>old.
     bind_res (if closed \<and> f32_lt c old then RemoveNodeFromClosedSet v neighbor else Inr v) (\<lambda>v.
     bind_res (NodeIsInOpenSet v neighbor) (\<lambda>isopen.
     bind_res (NodeIsInClosedSet v neighbor) (\<lambda>closed.
       if \<not> isopen \<and> \<not> closed then AddNodeToOpenSet v neighbor c current else Inr v))))))))"

definition visit_neighbor ::
    "ASPathNodeSource \<Rightarrow> node \<Rightarrow> node \<Rightarrow> neighbor_list \<Rightarrow> nat \<Rightarrow> visited_nodes \<Rightarrow> visited_nodes cres" where
  "visit_neighbor src goal current l n v =
     bind_res (GetNodeCost v current) (\<lambda>c.
     bind_res (NeighborListGetEdgeCost l n) (\<lambda>edge.
     let c = f32_add c edge in
     bind_res (NeighborListGetNodeKey l n) (\<lambda>k.
     bind_res (estimate_neighbor src goal k v) (\<lambda>(neighbor, v).
       update_neighbor v neighbor c current))))"

definition expand ::
    "ASPathNodeSource \<Rightarrow> (key \<Rightarrow> (key \<times> f32) list) \<Rightarrow> node \<Rightarrow> node \<Rightarrow> visited_nodes \<Rightarrow> neighbor_list \<Rightarrow>
     (visited_nodes \<times> neighbor_list) cres" where
  "expand src neighbors goal current v l =
     bind_res (RemoveNodeFromOpenSet v current) (\<lambda>v.
     bind_res (AddNodeToClosedSet v current) (\<lambda>v.
     bind_res (GetNodeKey v current) (\<lambda>k.
     bind_res (for_res (ASNeighborListAdd src) (neighbors k) (l\<lparr>count := 0\<rparr>)) (\<lambda>l.
     bind_res (for_res (visit_neighbor src goal current l) [0..<count l] v) (\<lambda>v.
       Inr (v, l))))))"

text \<open>What \<open>earlyExit\<close> tells the search to do with the current node, 0 without the callback.\<close>

definition early_exit :: "ASPathNodeSource \<Rightarrow> visited_nodes \<Rightarrow> node \<Rightarrow> key option \<Rightarrow> int cres" where
  "early_exit src v current goalKey =
     (case earlyExit src of
        None \<Rightarrow> Inr 0
      | Some e \<Rightarrow> bind_res (GetNodeKey v current) (\<lambda>k. Inr (e (nodeRecordsCount v) k goalKey)))"

primrec search ::
    "nat \<Rightarrow> ASPathNodeSource \<Rightarrow> (key \<Rightarrow> (key \<times> f32) list) \<Rightarrow> key option \<Rightarrow> node \<Rightarrow> node \<Rightarrow>
     visited_nodes \<Rightarrow> neighbor_list \<Rightarrow> (node \<times> visited_nodes) cres" where
  "search 0 src neighbors goalKey goal current v l = Inl Diverges"
| "search (Suc fuel) src neighbors goalKey goal current v l =
     (if HasOpenNode v then
        bind_res (GetOpenNode v) (\<lambda>current.
        bind_res (NodeIsGoal v current) (\<lambda>g.
          if g then Inr (current, v)
          else
            bind_res (early_exit src v current goalKey) (\<lambda>shouldExit.
              if shouldExit > 0 then bind_res (SetNodeIsGoal v current) (\<lambda>v. Inr (current, v))
              else if shouldExit < 0 then Inr (current, v)
              else bind_res (expand src neighbors goal current v l) (\<lambda>(v, l).
                     search fuel src neighbors goalKey goal current v l))))
      else Inr (current, v))"

primrec count_parents :: "nat \<Rightarrow> visited_nodes \<Rightarrow> node \<Rightarrow> nat cres" where
  "count_parents 0 v n = (if NodeIsNull n then Inr 0 else Inl Diverges)"
| "count_parents (Suc fuel) v n =
     (if \<not> NodeIsNull n
      then bind_res (GetParentNode v n) (\<lambda>p. bind_res (count_parents fuel v p) (\<lambda>c. Inr (c + 1)))
      else Inr 0)"

text \<open>The keys from a node to the first one, written from the end of the array.\<close>

primrec copy_keys :: "nat \<Rightarrow> ASPathNodeSource \<Rightarrow> visited_nodes \<Rightarrow> node \<Rightarrow> key list \<Rightarrow> key list cres" where
  "copy_keys 0 src v n keys = Inr keys"
| "copy_keys (Suc i) src v n keys =
     bind_res (GetNodeKey v n) (\<lambda>k.
     bind_res (aset keys i (take (nodeSize src) k)) (\<lambda>keys.
     bind_res (GetParentNode v n) (\<lambda>n. copy_keys i src v n keys)))"

definition make_path :: "ASPathNodeSource \<Rightarrow> visited_nodes \<Rightarrow> node \<Rightarrow> ASPath option cres" where
  "make_path src v current =
     bind_res (NodeIsGoal v current) (\<lambda>g.
       if g then
         bind_res (count_parents (nodeRecordsCount v) v current) (\<lambda>c.
         bind_res (GetNodeCost v current) (\<lambda>total.
         bind_res (copy_keys c src v current (replicate c [])) (\<lambda>keys.
           Inr (Some \<lparr>path_nodeSize = nodeSize src, path_count = c, path_cost = total, path_nodeKeys = keys\<rparr>))))
       else Inr None)"

text \<open>The state before the main loop: the records of the start and the goal, and the open set with
  the start.\<close>

definition begin_search ::
    "ASPathNodeSource \<Rightarrow> key \<Rightarrow> key option \<Rightarrow> (node \<times> node \<times> visited_nodes) cres" where
  "begin_search src startNodeKey goalNodeKey =
     bind_res (GetNode src VisitedNodesCreate (Some startNodeKey)) (\<lambda>(current, v).
     bind_res (GetNode src v goalNodeKey) (\<lambda>(goalNode, v).
     bind_res (SetNodeIsGoal v goalNode) (\<lambda>v.
     bind_res (GetPathCostHeuristic src v current goalNode) (\<lambda>h.
     bind_res (SetNodeEstimatedCost v current h) (\<lambda>v.
     bind_res (AddNodeToOpenSet v current (Fin 0) None) (\<lambda>v.
       Inr (current, goalNode, v)))))))"

definition ASPathCreate ::
    "nat \<Rightarrow> ASPathNodeSource option \<Rightarrow> key option \<Rightarrow> key option \<Rightarrow> ASPath option cres" where
  "ASPathCreate fuel source startNodeKey goalNodeKey =
     (case (source, startNodeKey) of
        (Some src, Some start) \<Rightarrow>
          (case nodeNeighbors src of
             None \<Rightarrow> Inr None
           | Some neighbors \<Rightarrow>
               if nodeSize src = 0 then Inr None
               else
                 bind_res (begin_search src start goalNodeKey) (\<lambda>(current, goalNode, v).
                 bind_res (search fuel src neighbors goalNodeKey goalNode current v NeighborListCreate)
                   (\<lambda>(current, v).
                 bind_res (if NodeIsNull goalNode then SetNodeIsGoal v current else Inr v) (\<lambda>v.
                   make_path src v current))))
      | _ \<Rightarrow> Inr None)"

definition ASPathCopy :: "ASPath option \<Rightarrow> ASPath option" where
  "ASPathCopy path = (case path of Some p \<Rightarrow> Some p | None \<Rightarrow> None)"

definition ASPathGetCost :: "ASPath option \<Rightarrow> f32" where
  "ASPathGetCost path = (case path of Some p \<Rightarrow> path_cost p | None \<Rightarrow> PInf)"

definition ASPathGetCount :: "ASPath option \<Rightarrow> nat" where
  "ASPathGetCount path = (case path of Some p \<Rightarrow> path_count p | None \<Rightarrow> 0)"

definition ASPathGetNode :: "ASPath option \<Rightarrow> nat \<Rightarrow> key option" where
  "ASPathGetNode path index =
     (case path of
        Some p \<Rightarrow> if index < path_count p then Some (path_nodeKeys p ! index) else None
      | None \<Rightarrow> None)"

end
