(* ===== verification/AStar_Search.thy ===== *)
theory AStar_Search
  imports AStar
begin

text \<open>
  The path search is correct: with costs that are not negative it ends on every finite graph
  without an access outside its arrays, a path it returns follows edges from the start to the
  goal, and it returns no path only when the goal cannot be reached.
\<close>

section \<open>The tree of parents\<close>

abbreviation added :: "node_record \<Rightarrow> bool" where
  "added r \<equiv> isOpen r \<or> isClosed r"

definition parents :: "node_record list \<Rightarrow> (nat \<times> nat) set" where
  "parents R = {(parentIndex (R ! i), i) | i. i < length R \<and> added (R ! i) \<and> hasParent (R ! i)}"

text \<open>The entry of a node points to a node that has it as a neighbour and costs no more.\<close>

definition linked :: "(key \<Rightarrow> (key \<times> f32) list) \<Rightarrow> key \<Rightarrow> node_record list \<Rightarrow> nat \<Rightarrow> bool" where
  "linked nb start R i \<longleftrightarrow> f32_good (cost (R ! i)) \<and>
     (if hasParent (R ! i) then
        parentIndex (R ! i) < length R \<and> added (R ! parentIndex (R ! i)) \<and>
        cval (cost (R ! parentIndex (R ! i))) \<le> cval (cost (R ! i)) \<and>
        nodeKey (R ! i) \<in> fst ` set (nb (nodeKey (R ! parentIndex (R ! i))))
      else nodeKey (R ! i) = start)"

definition tree_ok :: "(key \<Rightarrow> (key \<times> f32) list) \<Rightarrow> key \<Rightarrow> node_record list \<Rightarrow> bool" where
  "tree_ok nb start R \<longleftrightarrow>
     (\<forall>i<length R. \<not> (isOpen (R ! i) \<and> isClosed (R ! i))) \<and>
     (\<forall>i<length R. added (R ! i) \<longrightarrow> linked nb start R i) \<and> acyclic (parents R)"

lemma parentsI: "i < length R \<Longrightarrow> added (R ! i) \<Longrightarrow> hasParent (R ! i) \<Longrightarrow> (parentIndex (R ! i), i) \<in> parents R"
  by (auto simp: parents_def)

text \<open>The fields the tree depends on.\<close>

definition tree_fields :: "node_record \<Rightarrow> bool \<times> f32 \<times> bool \<times> nat \<times> key" where
  "tree_fields r = (added r, cost r, hasParent r, parentIndex r, nodeKey r)"

lemma tree_fields_eq:
  "tree_fields r = tree_fields r' \<longleftrightarrow> added r = added r' \<and> cost r = cost r' \<and> hasParent r = hasParent r' \<and>
     parentIndex r = parentIndex r' \<and> nodeKey r = nodeKey r'"
  by (simp add: tree_fields_def)

lemma tree_ok_update:
  assumes ok: "tree_ok nb start R" and i: "i < length R"
    and r: "tree_fields r = tree_fields (R ! i)" "\<not> (isOpen r \<and> isClosed r)"
  shows "tree_ok nb start (R[i := r])"
proof -
  have eq: "tree_fields (R[i := r] ! j) = tree_fields (R ! j)" for j
    using i r(1) by (simp add: nth_update_if)
  note f = eq [unfolded tree_fields_eq]
  have "parents (R[i := r]) = parents R" unfolding parents_def using f by simp
  moreover have "linked nb start (R[i := r]) j = linked nb start R j" for j
    unfolding linked_def using f by simp
  ultimately show ?thesis using ok f r(2) i by (auto simp: tree_ok_def nth_update_if)
qed

lemma tree_ok_append:
  assumes "tree_ok nb start R" "\<not> added r"
  shows "tree_ok nb start (R @ [r])"
proof -
  have "parents (R @ [r]) = parents R"
    using assms(2) by (auto simp: parents_def nth_append less_Suc_eq)
  moreover have "linked nb start (R @ [r]) i" if "linked nb start R i" "i < length R" for i
    using that by (auto simp: linked_def nth_append)
  ultimately show ?thesis using assms by (auto simp: tree_ok_def nth_append less_Suc_eq)
qed

lemma parents_cost:
  assumes "tree_ok nb start R" "(i, j) \<in> (parents R)\<^sup>*"
  shows "cval (cost (R ! i)) \<le> cval (cost (R ! j))"
  using assms(2)
proof (induction rule: rtrancl_induct)
  case (step j k)
  then have "cval (cost (R ! j)) \<le> cval (cost (R ! k))"
    using assms(1) by (auto simp: parents_def tree_ok_def linked_def)
  with step.IH show ?case by simp
qed simp

text \<open>A node that is reached for the first time, or at a lower cost, gets a new parent.\<close>

definition relaxed :: "nat \<Rightarrow> f32 \<Rightarrow> node_record \<Rightarrow> node_record" where
  "relaxed p c r = r\<lparr>isClosed := False, isOpen := True, hasParent := True, cost := c, parentIndex := p\<rparr>"

lemma tree_ok_relax:
  assumes ok: "tree_ok nb start R" and i: "i < length R" and p: "p < length R" "added (R ! p)"
    and c: "f32_good c" "cval (cost (R ! p)) \<le> cval c" "nodeKey (R ! i) \<in> fst ` set (nb (nodeKey (R ! p)))"
    and new: "\<not> added (R ! i) \<or> f32_lt c (cost (R ! i))"
  shows "tree_ok nb start (R[i := relaxed p c (R ! i)])"
proof -
  let ?R = "R[i := relaxed p c (R ! i)]"
  have link: "linked nb start R j" if "j < length R" "added (R ! j)" for j
    using ok that by (auto simp: tree_ok_def)
  have lower: "cval c < cval (cost (R ! i))" if "added (R ! i)"
    using cval_less [OF c(1)] link [OF i that] new that by (auto simp: linked_def)
  have "p \<noteq> i" using lower p(2) c(2) by fastforce
  have nth: "?R ! j = (if j = i then relaxed p c (R ! i) else R ! j)" for j
    using i by (simp add: nth_update_if)
  have parent_added: "added (?R ! j)" if "added (R ! j)" for j
    using that unfolding nth by (simp add: relaxed_def)
  have key: "nodeKey (?R ! j) = nodeKey (R ! j)" for j unfolding nth by (simp add: relaxed_def)
  have parent_cost: "cval (cost (?R ! j)) \<le> cval (cost (R ! j))" if "added (R ! j)" for j
    using lower that unfolding nth by (cases "j = i") (auto simp: relaxed_def)
  have "linked nb start ?R j" if "j < length R" "added (?R ! j)" for j
  proof (cases "j = i")
    case True
    then show ?thesis using p c \<open>p \<noteq> i\<close> unfolding linked_def nth by (simp add: relaxed_def)
  next
    case False
    then have "added (R ! j)" using that unfolding nth by simp
    note l = link [OF that(1) this, unfolded linked_def]
    have "?R ! j = R ! j" using False unfolding nth by simp
    then show ?thesis using l parent_added parent_cost [of "parentIndex (R ! j)"]
      unfolding linked_def key by (auto simp del: nth_list_update_neq intro: order_trans)
  qed
  moreover have "acyclic (parents ?R)"
  proof -
    have "parents ?R \<subseteq> insert (p, i) (parents R)"
      unfolding parents_def nth by (auto simp: relaxed_def split: if_splits)
    moreover have "(i, p) \<notin> (parents R)\<^sup>*"
    proof
      assume *: "(i, p) \<in> (parents R)\<^sup>*"
      then have "added (R ! i)"
      proof (cases rule: converse_rtranclE)
        case (step j)
        then show ?thesis using link [of j] by (auto simp: parents_def linked_def)
      qed (use \<open>p \<noteq> i\<close> in simp)
      then show False using lower parents_cost [OF ok *] c(2) by simp
    qed
    ultimately show ?thesis using ok acyclic_insert acyclic_subset by (metis tree_ok_def)
  qed
  moreover have "\<not> (isOpen (?R ! j) \<and> isClosed (?R ! j))" if "j < length R" for j
    using ok that unfolding nth by (auto simp: tree_ok_def relaxed_def)
  ultimately show ?thesis unfolding tree_ok_def length_list_update by blast
qed

section \<open>The walk from a node to the start\<close>

fun rchain :: "node_record list \<Rightarrow> nat list \<Rightarrow> bool" where
  "rchain R [] \<longleftrightarrow> False"
| "rchain R [i] \<longleftrightarrow> i < length R \<and> added (R ! i) \<and> \<not> hasParent (R ! i)"
| "rchain R (i # j # js) \<longleftrightarrow>
     i < length R \<and> added (R ! i) \<and> hasParent (R ! i) \<and> parentIndex (R ! i) = j \<and> rchain R (j # js)"

lemma rchain_distinct: "acyclic (parents R) \<Longrightarrow> rchain R is \<Longrightarrow> distinct is \<and> set is \<subseteq> {..<length R}"
proof -
  have up: "rchain R (i # is) \<Longrightarrow> j \<in> set is \<Longrightarrow> (j, i) \<in> (parents R)\<^sup>+" for i j "is"
  proof (induction "is" arbitrary: i)
    case (Cons k ks)
    then have "(k, i) \<in> parents R" by (auto simp: parents_def)
    with Cons show ?case by (auto intro: trancl_into_trancl)
  qed simp
  show "acyclic (parents R) \<Longrightarrow> rchain R is \<Longrightarrow> distinct is \<and> set is \<subseteq> {..<length R}"
  proof (induction "is")
    case (Cons i js)
    then have "i \<notin> set js" using up [of i js i] by (auto simp: acyclic_def)
    with Cons show ?case by (cases js) auto
  qed simp
qed

lemma rchain_length:
  assumes "acyclic (parents R)" "rchain R is"
  shows "length is \<le> length R"
  using rchain_distinct [OF assms] card_mono [of "{..<length R}" "set is"] by (simp add: distinct_card)

lemma rchain_exists:
  assumes ok: "tree_ok nb start R" and "i < length R" "added (R ! i)"
  shows "\<exists>is. rchain R (i # is)"
proof -
  have "finite (parents R)" by (rule finite_subset [of _ "(\<lambda>i. (parentIndex (R ! i), i)) ` {..<length R}"])
    (auto simp: parents_def)
  then have "wf (parents R)" using ok by (auto simp: tree_ok_def intro: finite_acyclic_wf)
  then show ?thesis using assms(2,3)
  proof (induction i)
    case (less i)
    show ?case
    proof (cases "hasParent (R ! i)")
      case True
      let ?p = "parentIndex (R ! i)"
      have "(?p, i) \<in> parents R" using True less.prems by (simp add: parentsI)
      moreover have "?p < length R" "added (R ! ?p)" using True less.prems ok by (auto simp: tree_ok_def linked_def)
      ultimately obtain "is" where "rchain R (?p # is)" using less.IH by blast
      with True less.prems have "rchain R (i # ?p # is)" by simp
      then show ?thesis by blast
    next
      case False
      with less.prems have "rchain R [i]" by simp
      then show ?thesis by blast
    qed
  qed
qed

lemma GetParentNode_in:
  "i < nodeRecordsCount v \<Longrightarrow>
   GetParentNode v (Some i) = Inr (if hasParent (view v ! i) then Some (parentIndex (view v ! i)) else None)"
  by (simp add: GetParentNode_def view_nth)

lemma count_parents_rchain:
  "rchain (view v) (i # is) \<Longrightarrow> length (i # is) \<le> fuel \<Longrightarrow> count_parents fuel v (Some i) = Inr (length (i # is))"
proof (induction "is" arbitrary: i fuel)
  case Nil
  then obtain f where "fuel = Suc f" by (cases fuel) auto
  moreover have "count_parents f v None = Inr 0" by (cases f) (simp_all add: NodeIsNull_def)
  ultimately show ?case using Nil by (simp add: NodeIsNull_def GetParentNode_in)
next
  case (Cons j js)
  then obtain f where "fuel = Suc f" by (cases fuel) auto
  with Cons show ?case by (simp add: NodeIsNull_def GetParentNode_in)
qed

lemma copy_keys_rchain:
  assumes "\<forall>r\<in>set (nodeRecords v). length (nodeKey r) = nodeSize src"
  shows "rchain (view v) (i # is) \<Longrightarrow> length (i # is) \<le> length keys \<Longrightarrow>
    copy_keys (length (i # is)) src v (Some i) keys =
      Inr (map (rec_key v) (rev (i # is)) @ drop (length (i # is)) keys)"
proof (induction "is" arbitrary: i keys)
  case Nil
  then have "i < nodeRecordsCount v" by simp
  then have "length (rec_key v i) = nodeSize src" "GetNodeKey v (Some i) = Inr (rec_key v i)"
    using assms by (auto simp: rec_key_def)
  with Nil show ?case by (cases keys) (simp_all add: GetParentNode_in)
next
  case (Cons j js)
  then have "i < nodeRecordsCount v" by simp
  then have "length (rec_key v i) = nodeSize src" "GetNodeKey v (Some i) = Inr (rec_key v i)"
    using assms by (auto simp: rec_key_def)
  moreover have "drop (Suc (length js)) (keys[Suc (length js) := rec_key v i]) =
      rec_key v i # drop (Suc (Suc (length js))) keys"
    using Cons.prems(2) by (simp add: drop_update_swap) (metis Cons_nth_drop_Suc Suc_le_lessD length_Cons list_update_code(2))
  ultimately show ?case using Cons by (simp add: GetParentNode_in)
qed

text \<open>A walk runs along edges.\<close>

lemma rchain_edges:
  assumes "tree_ok nb start R"
  shows "rchain R is \<Longrightarrow> nodeKey (R ! last is) = start \<and>
    (\<forall>n. Suc n < length is \<longrightarrow> nodeKey (R ! (is ! n)) \<in> fst ` set (nb (nodeKey (R ! (is ! Suc n)))))"
proof (induction "is" rule: induct_list012)
  case (2 i)
  then show ?case using assms by (auto simp: tree_ok_def linked_def)
next
  case (3 i j js)
  have "linked nb start R i" using 3 assms by (auto simp: tree_ok_def)
  then have "nodeKey (R ! i) \<in> fst ` set (nb (nodeKey (R ! j)))" using 3 by (simp add: linked_def)
  then have "nodeKey (R ! ((i # j # js) ! n)) \<in> fst ` set (nb (nodeKey (R ! ((i # j # js) ! Suc n))))"
    if "Suc n < length (i # j # js)" for n
    using 3 that by (cases n) auto
  then show ?case using 3 by simp
qed simp

section \<open>One neighbour\<close>

lemma NodeIsIn_simps [simp]:
  "i < nodeRecordsCount v \<Longrightarrow> NodeIsInOpenSet v (Some i) = Inr (isOpen (view v ! i))"
  "i < nodeRecordsCount v \<Longrightarrow> NodeIsInClosedSet v (Some i) = Inr (isClosed (view v ! i))"
  "i < nodeRecordsCount v \<Longrightarrow> GetNodeCost v (Some i) = Inr (cost (view v ! i))"
  "i < nodeRecordsCount v \<Longrightarrow> NodeHasEstimatedCost v (Some i) = Inr (hasEstimatedCost (view v ! i))"
  "i < nodeRecordsCount v \<Longrightarrow> NodeIsGoal v (Some i) = Inr (isGoal (view v ! i))"
  by (simp_all add: NodeIsInOpenSet_def NodeIsInClosedSet_def GetNodeCost_def NodeHasEstimatedCost_def
      NodeIsGoal_def NodeIsNull_def view_nth)

lemma set_record_spec:
  assumes "open_ok v" "i < nodeRecordsCount v" "\<And>r. isOpen (f r) = isOpen r" "\<And>r. openIndex (f r) = openIndex r"
    and "\<And>r. strip (f r) = f (strip r)"
  shows "\<exists>v'. set_record v (Some i) f = Inr v' \<and> open_ok v' \<and> same_index v v' \<and>
    view v' = (view v)[i := f (view v ! i)] \<and> openNodesCount v' = openNodesCount v"
  using assms open_ok_update [OF assms(1)]
  by (simp add: same_index_def view_def map_update)

lemma same_index_refl [simp]: "same_index v v"
  by (simp add: same_index_def)

lemma same_index_trans: "same_index v v' \<Longrightarrow> same_index v' v'' \<Longrightarrow> same_index v v''"
  by (simp add: same_index_def)

lemma relaxed_eq:
  "\<not> isClosed r \<Longrightarrow> (set_parent (Some p) (r\<lparr>isOpen := b\<rparr>))\<lparr>isOpen := True, cost := c\<rparr> = relaxed p c r"
  "\<not> isClosed r \<Longrightarrow> (set_parent (Some p) r)\<lparr>isOpen := True, cost := c\<rparr> = relaxed p c r"
  "(set_parent (Some p) (r\<lparr>isClosed := False\<rparr>))\<lparr>isOpen := True, cost := c\<rparr> = relaxed p c r"
  by (cases r; simp add: set_parent_def NodeIsNull_def relaxed_def)+

lemma relaxed_flags [simp]: "relaxed p c (r\<lparr>isOpen := b\<rparr>) = relaxed p c r" "relaxed p c (r\<lparr>isClosed := b\<rparr>) = relaxed p c r"
  by (simp_all add: relaxed_def)

lemma isOpen_view: "i < nodeRecordsCount v \<Longrightarrow> isOpen (nodeRecords v ! i) = isOpen (view v ! i)"
  by (simp add: view_nth)

lemma update_neighbor_spec:
  assumes ok: "open_ok v" and i: "i < nodeRecordsCount v" and dis: "\<not> (isOpen (view v ! i) \<and> isClosed (view v ! i))"
  shows "\<exists>v'. update_neighbor v (Some i) c (Some p) = Inr v' \<and> open_ok v' \<and> same_index v v' \<and>
    (if \<not> added (view v ! i) \<or> f32_lt c (cost (view v ! i))
     then view v' = (view v)[i := relaxed p c (view v ! i)] \<and>
       openNodesCount v' = (if isOpen (view v ! i) then openNodesCount v else openNodesCount v + 1)
     else v' = v)"
proof -
  let ?r = "view v ! i"
  have vi: "isOpen (nodeRecords v ! i) = isOpen ?r" using i by (simp add: view_nth)
  consider (remove) "isOpen ?r" "f32_lt c (cost ?r)" | (unclose) "isClosed ?r" "f32_lt c (cost ?r)"
    | (new) "\<not> added ?r" | (keep) "added ?r" "\<not> f32_lt c (cost ?r)" by blast
  then show ?thesis
  proof cases
    case remove
    then obtain w where w: "RemoveNodeFromOpenSet v (Some i) = Inr w" "open_ok w" "same_index v w"
        "view w = (view v)[i := ?r\<lparr>isOpen := False\<rparr>]" "openNodesCount w = openNodesCount v - 1"
      using Remove_spec [OF ok i] vi by blast
    have n: "nodeRecordsCount w = nodeRecordsCount v" using w(4) by (metis length_list_update length_view)
    then have wi: "view w ! i = ?r\<lparr>isOpen := False\<rparr>" "i < nodeRecordsCount w" using w(4) i by simp_all
    obtain v' where v': "AddNodeToOpenSet w (Some i) c (Some p) = Inr v'" "open_ok v'" "same_index w v'"
        "view v' = (view w)[i := (set_parent (Some p) (view w ! i))\<lparr>isOpen := True, cost := c\<rparr>]"
        "openNodesCount v' = openNodesCount w + 1"
      using Add_spec [OF w(2) wi(2), of c "Some p"] wi isOpen_view [OF wi(2)] by auto
    have "0 < openNodesCount v" using open_ok_place(1) [OF ok i] remove vi by auto
    then show ?thesis using v' w wi i n remove dis same_index_trans [OF w(3) v'(3)]
      by (simp add: update_neighbor_def relaxed_eq)
  next
    case unclose
    then obtain w where w: "RemoveNodeFromClosedSet v (Some i) = Inr w" "open_ok w" "same_index v w"
        "view w = (view v)[i := ?r\<lparr>isClosed := False\<rparr>]" "openNodesCount w = openNodesCount v"
      using set_record_spec [OF ok i, of "\<lambda>r. r\<lparr>isClosed := False\<rparr>"] by (auto simp: RemoveNodeFromClosedSet_def)
    have n: "nodeRecordsCount w = nodeRecordsCount v" using w(4) by (metis length_list_update length_view)
    then have wi: "view w ! i = ?r\<lparr>isClosed := False\<rparr>" "i < nodeRecordsCount w" using w(4) i by simp_all
    obtain v' where v': "AddNodeToOpenSet w (Some i) c (Some p) = Inr v'" "open_ok v'" "same_index w v'"
        "view v' = (view w)[i := (set_parent (Some p) (view w ! i))\<lparr>isOpen := True, cost := c\<rparr>]"
        "openNodesCount v' = openNodesCount w + 1"
      using Add_spec [OF w(2) wi(2), of c "Some p"] wi isOpen_view [OF wi(2)] unclose dis by auto
    then show ?thesis using w wi i n unclose dis same_index_trans [OF w(3) v'(3)]
      by (simp add: update_neighbor_def relaxed_eq)
  next
    case new
    then obtain v' where v': "AddNodeToOpenSet v (Some i) c (Some p) = Inr v'" "open_ok v'" "same_index v v'"
        "view v' = (view v)[i := (set_parent (Some p) ?r)\<lparr>isOpen := True, cost := c\<rparr>]"
        "openNodesCount v' = openNodesCount v + 1"
      using Add_spec [OF ok i, of c "Some p"] vi by auto
    then show ?thesis using i new by (simp add: update_neighbor_def relaxed_eq)
  next
    case keep
    then show ?thesis using i dis ok by (auto simp: update_neighbor_def)
  qed
qed

text \<open>What the search keeps of the records it has: keys and goals; a node that has been reached
  stays reached, and only the loop over the open set closes nodes.\<close>

definition extends :: "node_record list \<Rightarrow> node_record list \<Rightarrow> bool" where
  "extends R R' \<longleftrightarrow> length R \<le> length R' \<and>
     (\<forall>i<length R. nodeKey (R' ! i) = nodeKey (R ! i) \<and> isGoal (R' ! i) = isGoal (R ! i) \<and>
        (added (R ! i) \<longrightarrow> added (R' ! i)) \<and> (isClosed (R' ! i) \<longrightarrow> isClosed (R ! i))) \<and>
     (\<forall>i<length R'. length R \<le> i \<longrightarrow> \<not> isClosed (R' ! i) \<and> \<not> isGoal (R' ! i))"

lemma extends_refl [simp]: "extends R R"
  by (simp add: extends_def)

lemma extends_trans:
  assumes "extends R R'" "extends R' R''"
  shows "extends R R''"
proof -
  have "\<not> isClosed (R'' ! i) \<and> \<not> isGoal (R'' ! i)" if "i < length R''" "length R \<le> i" for i
    using assms that by (cases "i < length R'") (auto simp: extends_def)
  moreover have "nodeKey (R'' ! i) = nodeKey (R ! i) \<and> isGoal (R'' ! i) = isGoal (R ! i) \<and>
      (added (R ! i) \<longrightarrow> added (R'' ! i)) \<and> (isClosed (R'' ! i) \<longrightarrow> isClosed (R ! i))" if "i < length R" for i
  proof -
    have "i < length R'" using assms(1) that by (simp add: extends_def)
    then show ?thesis using assms that unfolding extends_def by metis
  qed
  ultimately show ?thesis using assms unfolding extends_def by (meson order_trans)
qed

lemma extends_append: "\<not> added r \<Longrightarrow> \<not> isGoal r \<Longrightarrow> extends R (R @ [r])"
  by (auto simp: extends_def nth_append less_Suc_eq)

lemma extends_update:
  "nodeKey r = nodeKey (R ! i) \<Longrightarrow> isGoal r = isGoal (R ! i) \<Longrightarrow> (added (R ! i) \<longrightarrow> added r) \<Longrightarrow>
   (isClosed r \<longrightarrow> isClosed (R ! i)) \<Longrightarrow> extends R (R[i := r])"
  by (auto simp: extends_def nth_update_if)

text \<open>
  The work left: every node weighs its cost, a node not reached yet more than any cost, and so do
  the nodes of the graph that have no record.
\<close>

definition unreached :: nat where "unreached = nat f32_limit + 2"

definition weight :: "node_record \<Rightarrow> nat" where
  "weight r = (if added r then cval (cost r) else unreached)"

definition work :: "nat \<Rightarrow> node_record list \<Rightarrow> nat" where
  "work n R = sum_list (map weight R) + unreached * (n - length R)"

lemma work_append: "length R < n \<Longrightarrow> \<not> added r \<Longrightarrow> work n (R @ [r]) = work n R"
proof -
  assume "length R < n" "\<not> added r"
  then have "n - length R = Suc (n - length (R @ [r]))" by simp
  moreover have "weight r = unreached" using \<open>\<not> added r\<close> by (simp add: weight_def)
  ultimately show ?thesis by (simp add: work_def)
qed

lemma work_update: "i < length R \<Longrightarrow> weight r = weight (R ! i) \<Longrightarrow> work n (R[i := r]) = work n R"
  by (simp add: work_def map_update) (metis length_map list_update_id nth_map)

lemma work_less: "i < length R \<Longrightarrow> weight r < weight (R ! i) \<Longrightarrow> work n (R[i := r]) < work n R"
proof -
  assume i: "i < length R" "weight r < weight (R ! i)"
  have "weight (R ! i) \<le> sum_list (map weight R)" using i(1) by (simp add: member_le_sum_list)
  then show ?thesis using i by (simp add: work_def map_update sum_list_update)
qed

text \<open>The work has become less, or the open set has not changed its size.\<close>

definition progress :: "nat \<Rightarrow> visited_nodes \<Rightarrow> visited_nodes \<Rightarrow> bool" where
  "progress n v v' \<longleftrightarrow> work n (view v') < work n (view v) \<or>
     work n (view v') = work n (view v) \<and> openNodesCount v' = openNodesCount v"

lemma progress_refl [simp]: "progress n v v"
  by (simp add: progress_def)

lemma progress_trans: "progress n v v' \<Longrightarrow> progress n v' v'' \<Longrightarrow> progress n v v''"
  by (auto simp: progress_def)

lemma index_ok_cong:
  assumes "same_index v v'" "map nodeKey (view v') = map nodeKey (view v)"
  shows "index_ok src v' = index_ok src v"
proof -
  have n: "nodeRecordsCount v' = nodeRecordsCount v" using arg_cong [OF assms(2), of length] by simp
  have keys: "map nodeKey (nodeRecords v') = map nodeKey (nodeRecords v)"
    using assms(2) by (simp add: view_def comp_def)
  then have rec: "rec_key v' i = rec_key v i" if "i < nodeRecordsCount v" for i
    using that n keys by (metis nth_map rec_key_def)
  have sr: "sorted_records v' = sorted_records v" using assms(1) n by (simp add: sorted_records_def same_index_def)
  have lens: "(\<forall>r\<in>set (nodeRecords v'). length (nodeKey r) = nodeSize src) =
      (\<forall>r\<in>set (nodeRecords v). length (nodeKey r) = nodeSize src)"
    using arg_cong [OF keys, of "\<lambda>xs. \<forall>k\<in>set xs. length k = nodeSize src"] by simp
  have "sorted_keys v' = sorted_keys v" if "set (sorted_records v) = {..<nodeRecordsCount v}"
    using that rec by (auto simp: sorted_keys_def sr)
  then show ?thesis using assms(1) by (auto simp: index_ok_def sr n lens same_index_def)
qed

section \<open>The list of neighbours\<close>

definition filled :: "ASPathNodeSource \<Rightarrow> neighbor_list \<Rightarrow> (key \<times> f32) list \<Rightarrow> bool" where
  "filled src l xs \<longleftrightarrow> length (costs l) = capacity l \<and> length (nodeKeys l) = capacity l \<and>
     count l \<le> capacity l \<and> count l = length xs \<and>
     (\<forall>q<length xs. costs l ! q = snd (xs ! q) \<and> nodeKeys l ! q = take (nodeSize src) (fst (xs ! q)))"

lemma grow_nth: "k < length xs \<Longrightarrow> length xs \<le> n \<Longrightarrow> grow z n xs ! k = xs ! k"
  by (simp add: grow_def nth_append)

lemma filled_grow: "filled src l xs \<Longrightarrow> filled src (grow_neighbors l) xs \<and> count l < capacity (grow_neighbors l)"
  by (auto simp: filled_def grow_neighbors_def Let_def grow_nth)

lemma ASNeighborListAdd_spec:
  assumes "filled src l xs"
  shows "\<exists>l'. ASNeighborListAdd src x l = Inr l' \<and> filled src l' (xs @ [x])"
proof -
  obtain k e where x: "x = (k, e)" by (cases x)
  have g: "filled src (grow_neighbors l) xs" "count (grow_neighbors l) < capacity (grow_neighbors l)"
    using filled_grow [OF assms] assms by (auto simp: filled_def)
  then show ?thesis
    by (auto simp: ASNeighborListAdd_def x Let_def filled_def nth_append nth_update_if less_Suc_eq)
qed

lemma fill_neighbors:
  "filled src l ys \<Longrightarrow> \<exists>l'. for_res (ASNeighborListAdd src) xs l = Inr l' \<and> filled src l' (ys @ xs)"
proof (induction xs arbitrary: l ys)
  case (Cons x xs)
  obtain l' where "ASNeighborListAdd src x l = Inr l'" "filled src l' (ys @ [x])"
    using ASNeighborListAdd_spec [OF Cons.prems] by blast
  with Cons.IH [of l' "ys @ [x]"] show ?case by simp
qed simp

section \<open>The search on a finite graph\<close>

definition graph_edges :: "(key \<Rightarrow> (key \<times> f32) list) \<Rightarrow> (key \<times> key) set" where
  "graph_edges nb = {(k, k'). \<exists>e. (k', e) \<in> set (nb k)}"

text \<open>A path in the graph: no node twice, each one a neighbour of the one before.\<close>

definition valid_path :: "ASPathNodeSource \<Rightarrow> (key \<Rightarrow> (key \<times> f32) list) \<Rightarrow> key \<Rightarrow> ASPath \<Rightarrow> bool" where
  "valid_path src nb start p \<longleftrightarrow> path_nodeKeys p \<noteq> [] \<and> path_count p = length (path_nodeKeys p) \<and>
     path_nodeSize p = nodeSize src \<and> distinct (path_nodeKeys p) \<and> hd (path_nodeKeys p) = start \<and>
     (\<forall>n. Suc n < length (path_nodeKeys p) \<longrightarrow> (path_nodeKeys p ! n, path_nodeKeys p ! Suc n) \<in> graph_edges nb)"

text \<open>
  What the search relies on in its source: an order on keys, and neighbours that stay in a finite
  set of keys and have costs that are not negative.
\<close>

locale astar_graph = astar_source +
  fixes nb :: "key \<Rightarrow> (key \<times> f32) list" and U :: "key set"
  assumes neighbors: "nodeNeighbors src = Some nb" and size: "nodeSize src \<noteq> 0"
    and finite: "finite U" and len: "k \<in> U \<Longrightarrow> length k = nodeSize src"
    and closed: "k \<in> U \<Longrightarrow> (k', e) \<in> set (nb k) \<Longrightarrow> k' \<in> U"
    and nonneg: "k \<in> U \<Longrightarrow> (k', e) \<in> set (nb k) \<Longrightarrow> f32_nonneg e"
begin

definition sinv :: "key \<Rightarrow> visited_nodes \<Rightarrow> bool" where
  "sinv start v \<longleftrightarrow> index_ok src v \<and> open_ok v \<and> tree_ok nb start (view v) \<and> (\<forall>r\<in>set (view v). nodeKey r \<in> U)"

abbreviation "size_U \<equiv> card U"

lemma view_key: "i < nodeRecordsCount v \<Longrightarrow> nodeKey (view v ! i) = rec_key v i"
  by (simp add: view_nth rec_key_def)

lemma sinv_key: "sinv start v \<Longrightarrow> i < nodeRecordsCount v \<Longrightarrow> nodeKey (view v ! i) \<in> U"
  by (simp add: sinv_def)

lemma sinv_count: "sinv start v \<Longrightarrow> nodeRecordsCount v \<le> size_U"
proof -
  assume inv: "sinv start v"
  have "inj_on (rec_key v) {..<nodeRecordsCount v}"
    using inv rec_key_inj by (auto simp: sinv_def intro: inj_onI)
  moreover have "rec_key v ` {..<nodeRecordsCount v} \<subseteq> U" using sinv_key [OF inv] view_key by force
  ultimately show ?thesis using card_inj_on_le [OF _ _ finite] by fastforce
qed

lemma sinv_update:
  assumes "sinv start v" "open_ok v'" "same_index v v'" "i < nodeRecordsCount v"
    and "view v' = (view v)[i := r]" "nodeKey r = nodeKey (view v ! i)" "tree_ok nb start (view v')"
  shows "sinv start v'"
proof -
  have "map nodeKey (view v') = map nodeKey (view v)"
    unfolding assms(5) map_update assms(6) using assms(4) by (metis length_view list_update_id nth_map)
  then have "index_ok src v'" using index_ok_cong [OF assms(3)] assms(1) by (simp add: sinv_def)
  moreover have "nodeKey r' \<in> U" if "r' \<in> set (view v')" for r'
    using that set_update_subset_insert [of "view v" i r] assms sinv_key [OF assms(1,4)]
    by (auto simp: sinv_def)
  ultimately show ?thesis using assms by (simp add: sinv_def)
qed

lemma GetNode_sinv:
  assumes "sinv start v" "k \<in> U"
  shows "\<exists>i v'. GetNode src v (Some k) = Inr (Some i, v') \<and> sinv start v' \<and> i < nodeRecordsCount v' \<and>
    nodeKey (view v' ! i) = k \<and> extends (view v) (view v') \<and> progress size_U v v' \<and>
    (\<forall>j<nodeRecordsCount v. cost (view v' ! j) = cost (view v ! j)) \<and>
    (\<forall>j<nodeRecordsCount v'. added (view v' ! j) \<longrightarrow> j < nodeRecordsCount v \<and> added (view v ! j))"
proof -
  have idx: "index_ok src v" using assms(1) by (simp add: sinv_def)
  obtain i v' where v': "GetNode src v (Some k) = Inr (Some i, v')" "index_ok src v'"
      "i < nodeRecordsCount v'" "rec_key v' i = k"
      "v' = v \<or> nodeRecords v' = nodeRecords v @ [new_record src k] \<and> openNodes v' = openNodes v \<and>
         openNodesCount v' = openNodesCount v \<and> openNodesCapacity v' = openNodesCapacity v"
    using GetNode_spec [OF idx len [OF assms(2)]] by blast
  from v'(5) show ?thesis
  proof
    assume "v' = v"
    then show ?thesis using v' assms(1) by (auto simp: view_key)
  next
    assume new: "nodeRecords v' = nodeRecords v @ [new_record src k] \<and> openNodes v' = openNodes v \<and>
      openNodesCount v' = openNodesCount v \<and> openNodesCapacity v' = openNodesCapacity v"
    define r where "r = strip (new_record src k)"
    have r: "\<not> added r" "\<not> isGoal r" "nodeKey r = k"
      using len [OF assms(2)] by (simp_all add: r_def new_record_def)
    have view: "view v' = view v @ [r]" using new by (simp add: view_def r_def)
    have "open_ok v" using assms(1) by (simp add: sinv_def)
    moreover have "j < nodeRecordsCount v" if "j \<in> open_set v" for j
      using \<open>open_ok v\<close> that by (auto simp: open_set_def open_ok_def back_ptrs_def in_set_conv_nth)
    ultimately have "open_ok v'" using new
      by (auto simp: open_ok_def back_ptrs_def nth_append open_set_def less_Suc_eq new_record_def)
    then have inv: "sinv start v'" using assms v'(2) r tree_ok_append by (auto simp: sinv_def view)
    then have "nodeRecordsCount v < size_U" using sinv_count [OF inv] new by simp
    then have "progress size_U v v'" using work_append [of "view v" size_U r] r new by (simp add: progress_def view)
    moreover have "extends (view v) (view v')" using extends_append r unfolding view by blast
    moreover have "cost (view v' ! j) = cost (view v ! j)" if "j < nodeRecordsCount v" for j
      using that by (simp add: view nth_append)
    moreover have "j < nodeRecordsCount v \<and> added (view v ! j)" if "j < nodeRecordsCount v'" "added (view v' ! j)" for j
      using that r(1) new by (auto simp: view nth_append less_Suc_eq split: if_splits)
    ultimately show ?thesis using v'(1,3,4) inv view_key [OF v'(3)] by blast
  qed
qed

lemma heuristic_in:
  "i < nodeRecordsCount v \<Longrightarrow> (\<And>g. goal = Some g \<Longrightarrow> g < nodeRecordsCount v) \<Longrightarrow>
   \<exists>h. GetPathCostHeuristic src v (Some i) goal = Inr h"
  by (cases goal) (auto simp: GetPathCostHeuristic_def NodeIsNull_def split: option.splits)

lemma SetNodeEstimatedCost_sinv:
  assumes "sinv start v" "i < nodeRecordsCount v"
  shows "\<exists>v'. SetNodeEstimatedCost v (Some i) h = Inr v' \<and> sinv start v' \<and> nodeRecordsCount v' = nodeRecordsCount v \<and>
    nodeKey (view v' ! i) = nodeKey (view v ! i) \<and> extends (view v) (view v') \<and> progress size_U v v' \<and>
    (\<forall>j. cost (view v' ! j) = cost (view v ! j) \<and> added (view v' ! j) = added (view v ! j))"
proof -
  let ?f = "\<lambda>r. r\<lparr>estimatedCost := h, hasEstimatedCost := True\<rparr>"
  obtain v' where v': "SetNodeEstimatedCost v (Some i) h = Inr v'" "open_ok v'" "same_index v v'"
      "view v' = (view v)[i := ?f (view v ! i)]" "openNodesCount v' = openNodesCount v"
    using set_record_spec [of v i ?f] assms by (auto simp: SetNodeEstimatedCost_def sinv_def strip_def)
  have "tree_ok nb start (view v')" unfolding v'(4)
    using assms by (intro tree_ok_update) (auto simp: sinv_def tree_ok_def tree_fields_def)
  then have "sinv start v'" using sinv_update [OF assms(1) v'(2,3) assms(2) v'(4)] by simp
  moreover have "extends (view v) (view v')" unfolding v'(4) by (intro extends_update) simp_all
  moreover have "weight (?f (view v ! i)) = weight (view v ! i)" by (simp add: weight_def)
  then have "work size_U (view v') = work size_U (view v)"
    using work_update [of i "view v"] assms(2) v'(4) by simp
  moreover have "nodeRecordsCount v' = nodeRecordsCount v" using v'(4) by (metis length_list_update length_view)
  ultimately show ?thesis using v' assms(2) by (simp add: progress_def nth_update_if)
qed

lemma estimate_neighbor_sinv:
  assumes "sinv start v" "k \<in> U" "\<And>g. goal = Some g \<Longrightarrow> g < nodeRecordsCount v"
  shows "\<exists>i v'. estimate_neighbor src goal k v = Inr (Some i, v') \<and> sinv start v' \<and> i < nodeRecordsCount v' \<and>
    nodeKey (view v' ! i) = k \<and> extends (view v) (view v') \<and> progress size_U v v' \<and>
    (\<forall>j<nodeRecordsCount v. cost (view v' ! j) = cost (view v ! j))"
proof -
  obtain i w where w: "GetNode src v (Some k) = Inr (Some i, w)" "sinv start w" "i < nodeRecordsCount w"
      "nodeKey (view w ! i) = k" "extends (view v) (view w)" "progress size_U v w"
      "\<forall>j<nodeRecordsCount v. cost (view w ! j) = cost (view v ! j)"
    using GetNode_sinv [OF assms(1,2)] by blast
  show ?thesis
  proof (cases "hasEstimatedCost (view w ! i)")
    case True
    then show ?thesis using w by (simp add: estimate_neighbor_def)
  next
    case False
    have "nodeRecordsCount v \<le> nodeRecordsCount w" using w(5) by (simp add: extends_def)
    then obtain h where h: "GetPathCostHeuristic src w (Some i) goal = Inr h"
      using heuristic_in [OF w(3), of goal] assms(3) by fastforce
    obtain v' where v': "SetNodeEstimatedCost w (Some i) h = Inr v'" "sinv start v'"
        "nodeRecordsCount v' = nodeRecordsCount w" "nodeKey (view v' ! i) = nodeKey (view w ! i)"
        "extends (view w) (view v')" "progress size_U w v'" "\<forall>j. cost (view v' ! j) = cost (view w ! j)"
      using SetNodeEstimatedCost_sinv [OF w(2,3)] by blast
    then show ?thesis
      using w h False extends_trans [OF w(5) v'(5)] progress_trans [OF w(6) v'(6)]
      by (simp add: estimate_neighbor_def)
  qed
qed

lemma update_neighbor_sinv:
  assumes inv: "sinv start v" and i: "i < nodeRecordsCount v" and p: "p < nodeRecordsCount v" "added (view v ! p)"
    and e: "(nodeKey (view v ! i), e) \<in> set (nb (nodeKey (view v ! p)))"
  shows "\<exists>v'. update_neighbor v (Some i) (f32_add (cost (view v ! p)) e) (Some p) = Inr v' \<and> sinv start v' \<and>
    extends (view v) (view v') \<and> progress size_U v v' \<and> i < nodeRecordsCount v' \<and> added (view v' ! i) \<and>
    nodeKey (view v' ! i) = nodeKey (view v ! i)"
proof -
  let ?R = "view v" and ?c = "f32_add (cost (view v ! p)) e"
  have tree: "tree_ok nb start ?R" and op: "open_ok v" using inv by (simp_all add: sinv_def)
  have good: "f32_good (cost (?R ! p))" using tree p by (auto simp: tree_ok_def linked_def)
  have c: "f32_good ?c" "cval (cost (?R ! p)) \<le> cval ?c"
    using f32_add_good [OF good] nonneg [OF sinv_key [OF inv p(1)] e] by simp_all
  have dis: "\<not> (isOpen (?R ! i) \<and> isClosed (?R ! i))" using tree i by (simp add: tree_ok_def)
  obtain v' where v': "update_neighbor v (Some i) ?c (Some p) = Inr v'" "open_ok v'" "same_index v v'"
      "if \<not> added (?R ! i) \<or> f32_lt ?c (cost (?R ! i))
       then view v' = ?R[i := relaxed p ?c (?R ! i)] \<and>
         openNodesCount v' = (if isOpen (?R ! i) then openNodesCount v else openNodesCount v + 1)
       else v' = v"
    using update_neighbor_spec [OF op i dis, of ?c p] by blast
  show ?thesis
  proof (cases "\<not> added (?R ! i) \<or> f32_lt ?c (cost (?R ! i))")
    case True
    then have view: "view v' = ?R[i := relaxed p ?c (?R ! i)]" using v'(4) by simp
    have "tree_ok nb start (view v')" unfolding view using tree i p c e True
      by (intro tree_ok_relax) force+
    then have "sinv start v'" using sinv_update [OF inv v'(2,3) i view] by (simp add: relaxed_def)
    moreover have "extends ?R (view v')" unfolding view by (intro extends_update) (simp_all add: relaxed_def)
    moreover have "weight (relaxed p ?c (?R ! i)) < weight (?R ! i)"
    proof (cases "added (?R ! i)")
      case True
      then have "f32_good (cost (?R ! i))" using tree i by (auto simp: tree_ok_def linked_def)
      then have "cval ?c < cval (cost (?R ! i))" using cval_less [OF c(1)] True \<open>\<not> added _ \<or> _\<close> by blast
      then show ?thesis using True by (auto simp: weight_def relaxed_def)
    next
      case False
      then show ?thesis using cval_bound [OF c(1)] by (auto simp: weight_def relaxed_def unreached_def)
    qed
    then have "progress size_U v v'" using work_less [of i ?R] i view by (simp add: progress_def)
    moreover have "nodeRecordsCount v' = nodeRecordsCount v" using view by (metis length_list_update length_view)
    ultimately show ?thesis using v'(1) i view by (simp add: relaxed_def)
  next
    case False
    then show ?thesis using v' inv i by auto
  qed
qed

text \<open>The record of a key has been reached.\<close>

definition reached :: "visited_nodes \<Rightarrow> key \<Rightarrow> bool" where
  "reached v k \<longleftrightarrow> (\<exists>j<nodeRecordsCount v. nodeKey (view v ! j) = k \<and> added (view v ! j))"

lemma reached_extends: "reached v k \<Longrightarrow> extends (view v) (view v') \<Longrightarrow> reached v' k"
  unfolding reached_def extends_def length_view by (metis less_le_trans)

lemma visit_neighbor_sinv:
  assumes inv: "sinv start v" and p: "p < nodeRecordsCount v" "added (view v ! p)"
    and l: "filled src l (nb (nodeKey (view v ! p)))" "n < count l"
    and g: "\<And>g. goal = Some g \<Longrightarrow> g < nodeRecordsCount v"
  shows "\<exists>v'. visit_neighbor src goal (Some p) l n v = Inr v' \<and> sinv start v' \<and> extends (view v) (view v') \<and>
    progress size_U v v' \<and> reached v' (fst (nb (nodeKey (view v ! p)) ! n))"
proof -
  let ?nb = "nb (nodeKey (view v ! p))"
  obtain k e where ke: "?nb ! n = (k, e)" by (cases "?nb ! n")
  have n: "n < length ?nb" "n < length (costs l)" "n < length (nodeKeys l)" using l by (auto simp: filled_def)
  then have mem: "(k, e) \<in> set ?nb" using ke by (metis nth_mem)
  have k: "k \<in> U" using closed [OF sinv_key [OF inv p(1)] mem] .
  have get: "costs l ! n = e" "nodeKeys l ! n = k" using l n ke len [OF k] by (auto simp: filled_def)
  obtain i w where w: "estimate_neighbor src goal k v = Inr (Some i, w)" "sinv start w" "i < nodeRecordsCount w"
      "nodeKey (view w ! i) = k" "extends (view v) (view w)" "progress size_U v w"
      "\<forall>j<nodeRecordsCount v. cost (view w ! j) = cost (view v ! j)"
    using estimate_neighbor_sinv [OF inv k, of goal] g by blast
  have pw: "p < nodeRecordsCount w" "added (view w ! p)" "nodeKey (view w ! p) = nodeKey (view v ! p)"
    using w(5) p by (auto simp: extends_def)
  have same: "cost (view w ! p) = cost (view v ! p)" using w(7) p(1) by simp
  obtain v' where v': "update_neighbor w (Some i) (f32_add (cost (view w ! p)) e) (Some p) = Inr v'"
      "sinv start v'" "extends (view w) (view v')" "progress size_U w v'" "i < nodeRecordsCount v'"
      "added (view v' ! i)" "nodeKey (view v' ! i) = k"
    using update_neighbor_sinv [OF w(2,3) pw(1,2), of e] mem w(4) pw(3) by auto
  then have "visit_neighbor src goal (Some p) l n v = Inr v'"
    using p n get w(1) same
    by (simp add: visit_neighbor_def NeighborListGetEdgeCost_def NeighborListGetNodeKey_def Let_def)
  then show ?thesis using v' extends_trans [OF w(5) v'(3)] progress_trans [OF w(6) v'(4)] ke
    by (auto simp: reached_def)
qed

text \<open>The loop over all neighbours.\<close>

lemma visit_all_sinv:
  assumes inv: "sinv start v" and p: "p < nodeRecordsCount v" "added (view v ! p)"
    and l: "filled src l (nb (nodeKey (view v ! p)))"
    and g: "\<And>g. goal = Some g \<Longrightarrow> g < nodeRecordsCount v"
  shows "\<exists>v'. for_res (visit_neighbor src goal (Some p) l) [0..<count l] v = Inr v' \<and> sinv start v' \<and>
    extends (view v) (view v') \<and> progress size_U v v' \<and> (\<forall>(k, e)\<in>set (nb (nodeKey (view v ! p))). reached v' k)"
proof -
  let ?nb = "nb (nodeKey (view v ! p))"
  let ?P = "\<lambda>m w. sinv start w \<and> extends (view v) (view w) \<and> progress size_U v w \<and>
    (\<forall>q<m. reached w (fst (?nb ! q)))"
  have "\<exists>w'. visit_neighbor src goal (Some p) l m w = Inr w' \<and> ?P (Suc m) w'"
    if m: "m < count l" "?P m w" for m w
  proof -
    have pw: "p < nodeRecordsCount w" "added (view w ! p)" "nodeKey (view w ! p) = nodeKey (view v ! p)"
      and gw: "\<And>g. goal = Some g \<Longrightarrow> g < nodeRecordsCount w"
      using m(2) p g by (auto simp: extends_def intro: less_le_trans)
    obtain w' where w': "visit_neighbor src goal (Some p) l m w = Inr w'" "sinv start w'"
        "extends (view w) (view w')" "progress size_U w w'" "reached w' (fst (?nb ! m))"
      using visit_neighbor_sinv [OF _ pw(1,2), of start l m goal] m l pw(3) gw by auto
    then show ?thesis using m(2) reached_extends [OF _ w'(3)] extends_trans [OF _ w'(3)] progress_trans [OF _ w'(4)]
      by (auto simp: less_Suc_eq)
  qed
  then have "\<exists>v'. for_res (visit_neighbor src goal (Some p) l) [0..<count l] v = Inr v' \<and> ?P (count l) v'"
    using inv by (intro for_res_upt_invariant [where P = ?P]) simp_all
  then obtain v' where v': "for_res (visit_neighbor src goal (Some p) l) [0..<count l] v = Inr v'" "?P (count l) v'"
    by blast
  moreover have "\<forall>(k, e)\<in>set ?nb. reached v' k" using v'(2) l by (fastforce simp: in_set_conv_nth filled_def)
  ultimately show ?thesis by blast
qed

text \<open>
  The state between two rounds of the main loop: the neighbours of every closed node have been
  reached, a goal is never closed, and the node the loop looked at last has been reached.
\<close>

definition loop_inv :: "key \<Rightarrow> key option \<Rightarrow> node \<Rightarrow> node \<Rightarrow> visited_nodes \<Rightarrow> bool" where
  "loop_inv start goalKey goal current v \<longleftrightarrow> sinv start v \<and>
     (\<forall>i<nodeRecordsCount v. isClosed (view v ! i) \<longrightarrow>
        \<not> isGoal (view v ! i) \<and> (\<forall>(k, e)\<in>set (nb (nodeKey (view v ! i))). reached v k)) \<and>
     (\<forall>i<nodeRecordsCount v. isGoal (view v ! i) \<longleftrightarrow> goal = Some i) \<and>
     (case goal of None \<Rightarrow> goalKey = None
      | Some g \<Rightarrow> g < nodeRecordsCount v \<and> goalKey = Some (nodeKey (view v ! g))) \<and>
     (\<exists>p. current = Some p \<and> p < nodeRecordsCount v \<and> added (view v ! p)) \<and> reached v start"

lemma close_sinv:
  assumes inv: "sinv start v" and p: "p < nodeRecordsCount v" "isOpen (view v ! p)"
  shows "\<exists>w w'. RemoveNodeFromOpenSet v (Some p) = Inr w \<and> AddNodeToClosedSet w (Some p) = Inr w' \<and>
    sinv start w' \<and> view w' = (view v)[p := (view v ! p)\<lparr>isOpen := False, isClosed := True\<rparr>] \<and>
    openNodesCount w' < openNodesCount v \<and> work size_U (view w') = work size_U (view v)"
proof -
  have op: "open_ok v" using inv by (simp add: sinv_def)
  have o: "isOpen (nodeRecords v ! p)" using isOpen_view p by simp
  then obtain w where w: "RemoveNodeFromOpenSet v (Some p) = Inr w" "open_ok w" "same_index v w"
      "view w = (view v)[p := (view v ! p)\<lparr>isOpen := False\<rparr>]" "openNodesCount w = openNodesCount v - 1"
    using Remove_spec [OF op p(1)] by blast
  have n: "p < nodeRecordsCount w" using w(4) p by (metis length_list_update length_view)
  let ?r = "(view v ! p)\<lparr>isOpen := False, isClosed := True\<rparr>"
  obtain w' where w': "AddNodeToClosedSet w (Some p) = Inr w'" "open_ok w'" "same_index w w'"
      "view w' = (view v)[p := ?r]" "openNodesCount w' = openNodesCount w"
    using set_record_spec [OF w(2) n, of "\<lambda>r. r\<lparr>isClosed := True\<rparr>"] w(4) p by (auto simp: AddNodeToClosedSet_def)
  have "tree_ok nb start (view w')" unfolding w'(4) using inv p
    by (intro tree_ok_update) (auto simp: sinv_def tree_fields_def)
  then have "sinv start w'" using sinv_update [OF inv w'(2) same_index_trans [OF w(3) w'(3)] p(1) w'(4)] by simp
  moreover have "work size_U (view w') = work size_U (view v)"
    unfolding w'(4) using p by (intro work_update) (auto simp: weight_def)
  moreover have "0 < openNodesCount v" using open_ok_place(1) [OF op p(1) o] by simp
  ultimately show ?thesis using w w' by auto
qed

lemma expand_sinv:
  assumes inv: "loop_inv start goalKey goal c v" and p: "p < nodeRecordsCount v" "isOpen (view v ! p)"
    and goal: "\<not> isGoal (view v ! p)" and l: "filled src l xs"
  shows "\<exists>v' l' ys. expand src nb goal (Some p) v l = Inr (v', l') \<and> loop_inv start goalKey goal (Some p) v' \<and>
    filled src l' ys \<and> (work size_U (view v') < work size_U (view v) \<or>
      work size_U (view v') = work size_U (view v) \<and> openNodesCount v' < openNodesCount v)"
proof -
  have sinv: "sinv start v" using inv by (simp add: loop_inv_def)
  obtain w w' where w: "RemoveNodeFromOpenSet v (Some p) = Inr w" "AddNodeToClosedSet w (Some p) = Inr w'"
      "sinv start w'" "view w' = (view v)[p := (view v ! p)\<lparr>isOpen := False, isClosed := True\<rparr>]"
      "openNodesCount w' < openNodesCount v" "work size_U (view w') = work size_U (view v)"
    using close_sinv [OF sinv p] by blast
  have n: "nodeRecordsCount w' = nodeRecordsCount v" using w(4) by (metis length_list_update length_view)
  have wp: "p < nodeRecordsCount w'" "added (view w' ! p)" "nodeKey (view w' ! p) = nodeKey (view v ! p)"
    using p n w(4) by simp_all
  let ?nb = "nb (nodeKey (view v ! p))"
  have "filled src (l\<lparr>count := 0\<rparr>) []" using l by (simp add: filled_def)
  then obtain l' where l': "for_res (ASNeighborListAdd src) ?nb (l\<lparr>count := 0\<rparr>) = Inr l'" "filled src l' ?nb"
    using fill_neighbors [of src "l\<lparr>count := 0\<rparr>" "[]" ?nb] by auto
  have g: "g < nodeRecordsCount w'" if "goal = Some g" for g using inv that n by (simp add: loop_inv_def)
  obtain v' where v': "for_res (visit_neighbor src goal (Some p) l') [0..<count l'] w' = Inr v'" "sinv start v'"
      "extends (view w') (view v')" "progress size_U w' v'" "\<forall>(k, e)\<in>set ?nb. reached v' k"
    using visit_all_sinv [OF w(3) wp(1,2), of l' goal] l'(2) g wp(3) by auto
  have key: "GetNodeKey w' (Some p) = Inr (nodeKey (view v ! p))"
    using wp by (simp add: GetNodeKey_def view_nth)
  have "expand src nb goal (Some p) v l = Inr (v', l')"
    using w(1,2) l'(1) v'(1) key by (simp add: expand_def)
  moreover have "loop_inv start goalKey goal (Some p) v'"
  proof -
    have ext: "nodeRecordsCount v \<le> nodeRecordsCount v'"
      "i < nodeRecordsCount v \<Longrightarrow> nodeKey (view v' ! i) = nodeKey (view v ! i)"
      "i < nodeRecordsCount v \<Longrightarrow> isGoal (view v' ! i) = isGoal (view v ! i)"
      "i < nodeRecordsCount v \<Longrightarrow> added (view v ! i) \<Longrightarrow> added (view v' ! i)"
      "i < nodeRecordsCount v \<Longrightarrow> isClosed (view v' ! i) \<Longrightarrow> i = p \<or> isClosed (view v ! i)"
      "i < nodeRecordsCount v' \<Longrightarrow> nodeRecordsCount v \<le> i \<Longrightarrow> \<not> isClosed (view v' ! i) \<and> \<not> isGoal (view v' ! i)" for i
      using v'(3) n p(1) unfolding extends_def w(4) by (auto simp: nth_update_if split: if_splits)
    have mono: "reached v' k" if "reached v k" for k
      using that ext(1,2,4) less_le_trans unfolding reached_def by meson
    have closed: "\<not> isGoal (view v' ! i) \<and> (\<forall>(k, e)\<in>set (nb (nodeKey (view v' ! i))). reached v' k)"
      if "i < nodeRecordsCount v'" "isClosed (view v' ! i)" for i
    proof -
      have "i < nodeRecordsCount v" using ext(6) [of i] that by linarith
      note e = ext(2,3,5) [OF this]
      show ?thesis
      proof (cases "i = p")
        case True
        then show ?thesis using e(1,2) v'(5) goal by simp
      next
        case False
        then have "isClosed (view v ! i)" using e(3) that(2) by blast
        then have "\<not> isGoal (view v ! i)" "\<forall>(k, e)\<in>set (nb (nodeKey (view v ! i))). reached v k"
          using inv \<open>i < nodeRecordsCount v\<close> by (simp_all add: loop_inv_def)
        then show ?thesis using e(1,2) mono by auto
      qed
    qed
    have goals: "isGoal (view v' ! i) \<longleftrightarrow> goal = Some i" if "i < nodeRecordsCount v'" for i
      using ext(3,6) [of i] that inv by (cases "i < nodeRecordsCount v") (auto simp: loop_inv_def)
    have "case goal of None \<Rightarrow> goalKey = None
        | Some g \<Rightarrow> g < nodeRecordsCount v' \<and> goalKey = Some (nodeKey (view v' ! g))"
      using inv ext(1,2) by (fastforce simp: loop_inv_def split: option.splits)
    moreover have "p < nodeRecordsCount v'" "added (view v' ! p)" "reached v' start"
      using ext(1,4) p mono inv by (auto simp: loop_inv_def)
    ultimately show ?thesis using v'(2) closed goals unfolding loop_inv_def by blast
  qed
  moreover have "work size_U (view v') < work size_U (view v) \<or>
      work size_U (view v') = work size_U (view v) \<and> openNodesCount v' < openNodesCount v"
    using v'(4) w(5,6) by (auto simp: progress_def)
  ultimately show ?thesis using l'(2) by blast
qed

text \<open>The rounds of the main loop that are left are fewer than this.\<close>

definition rounds :: "visited_nodes \<Rightarrow> nat" where
  "rounds v = work size_U (view v) * (size_U + 1) + openNodesCount v"

lemma open_count: "sinv start v \<Longrightarrow> openNodesCount v \<le> size_U"
proof -
  assume inv: "sinv start v"
  then have ok: "open_ok v" by (simp add: sinv_def)
  have "set (take (openNodesCount v) (openNodes v)) \<subseteq> {..<nodeRecordsCount v}"
    using open_okD(2,3) [OF ok] by (auto simp: in_set_conv_nth)
  then have "card (set (take (openNodesCount v) (openNodes v))) \<le> nodeRecordsCount v"
    using card_mono [of "{..<nodeRecordsCount v}"] by fastforce
  then show ?thesis using open_distinct [OF open_okD(1) [OF ok]] open_okD(2) [OF ok] sinv_count [OF inv]
    by (simp add: distinct_card)
qed

lemma rounds_less:
  assumes "sinv start v'" and "work size_U (view v') < work size_U (view v) \<or>
    work size_U (view v') = work size_U (view v) \<and> openNodesCount v' < openNodesCount v"
  shows "rounds v' < rounds v"
proof -
  let ?n = "size_U + 1"
  consider "work size_U (view v') + 1 \<le> work size_U (view v)"
    | "work size_U (view v') = work size_U (view v)" "openNodesCount v' < openNodesCount v" using assms(2) by linarith
  then show ?thesis
  proof cases
    case 1
    then have "(work size_U (view v') + 1) * ?n \<le> work size_U (view v) * ?n" by (rule mult_le_mono1)
    then show ?thesis using open_count [OF assms(1)] unfolding rounds_def by (simp add: algebra_simps)
  qed (simp add: rounds_def)
qed

text \<open>What the main loop ends with.\<close>

definition loop_end :: "key \<Rightarrow> key option \<Rightarrow> node \<Rightarrow> node \<Rightarrow> visited_nodes \<Rightarrow> bool" where
  "loop_end start goalKey goal current v \<longleftrightarrow> sinv start v \<and>
     (\<exists>p. current = Some p \<and> p < nodeRecordsCount v \<and> added (view v ! p)) \<and>
     (earlyExit src = None \<longrightarrow> loop_inv start goalKey goal current v \<and>
       (openNodesCount v = 0 \<or> isGoal (view v ! the current)))"

lemma SetNodeIsGoal_sinv:
  assumes "sinv start v" "i < nodeRecordsCount v"
  shows "\<exists>v'. SetNodeIsGoal v (Some i) = Inr v' \<and> sinv start v' \<and> nodeRecordsCount v' = nodeRecordsCount v \<and>
    view v' = (view v)[i := (view v ! i)\<lparr>isGoal := True\<rparr>]"
proof -
  let ?f = "\<lambda>r. r\<lparr>isGoal := True\<rparr>"
  obtain v' where v': "SetNodeIsGoal v (Some i) = Inr v'" "open_ok v'" "same_index v v'"
      "view v' = (view v)[i := ?f (view v ! i)]"
    using set_record_spec [of v i ?f] assms by (auto simp: SetNodeIsGoal_def NodeIsNull_def sinv_def)
  have "tree_ok nb start (view v')" unfolding v'(4)
    using assms by (intro tree_ok_update) (auto simp: sinv_def tree_ok_def tree_fields_def)
  then have "sinv start v'" using sinv_update [OF assms(1) v'(2,3) assms(2) v'(4)] by simp
  moreover have "nodeRecordsCount v' = nodeRecordsCount v" using v'(4) by (metis length_list_update length_view)
  ultimately show ?thesis using v' by blast
qed

lemma search_step:
  assumes "loop_inv start goalKey goal c v" "filled src l xs"
  shows "(\<exists>p v'. search (Suc fuel) src nb goalKey goal c v l = Inr (p, v') \<and> loop_end start goalKey goal p v') \<or>
    (\<exists>p v' l' ys. search (Suc fuel) src nb goalKey goal c v l = search fuel src nb goalKey goal p v' l' \<and>
       loop_inv start goalKey goal p v' \<and> filled src l' ys \<and> rounds v' < rounds v)"
proof (cases "openNodesCount v = 0")
  case True
  then have "loop_end start goalKey goal c v" using assms(1) by (auto simp: loop_end_def loop_inv_def)
  then show ?thesis using True by (simp add: HasOpenNode_def)
next
  case False
  have sinv: "sinv start v" using assms(1) by (simp add: loop_inv_def)
  then have ok: "open_ok v" by (simp add: sinv_def)
  define p where "p = openNodes v ! 0"
  have p: "p < nodeRecordsCount v" "isOpen (view v ! p)" "GetOpenNode v = Inr (Some p)"
    using open_okD(2) [OF ok] open_okD(3,5) [OF ok, of 0] False
    by (cases "openNodes v"; simp add: p_def GetOpenNode_def view_nth)+
  have curr: "loop_inv start goalKey goal (Some p) v" using assms(1) p(1,2) by (auto simp: loop_inv_def)
  have key: "GetNodeKey v (Some p) = Inr (rec_key v p)" using p(1) by (simp add: rec_key_def)
  show ?thesis
  proof (cases "isGoal (view v ! p)")
    case True
    then have "loop_end start goalKey goal (Some p) v" using curr sinv p by (auto simp: loop_end_def)
    then show ?thesis using True False p by (simp add: HasOpenNode_def)
  next
    case nogoal: False
    define s where "s = (case earlyExit src of None \<Rightarrow> 0 | Some e \<Rightarrow> e (nodeRecordsCount v) (rec_key v p) goalKey)"
    have s: "early_exit src v (Some p) goalKey = Inr s"
      by (auto simp: early_exit_def s_def key split: option.splits)
    have none: "s = 0" if "earlyExit src = None" using that by (simp add: s_def)
    consider "s > 0" | "s < 0" | "s = 0" by linarith
    then show ?thesis
    proof cases
      case 1
      obtain v' where v': "SetNodeIsGoal v (Some p) = Inr v'" "sinv start v'"
          "nodeRecordsCount v' = nodeRecordsCount v" "view v' = (view v)[p := (view v ! p)\<lparr>isGoal := True\<rparr>]"
        using SetNodeIsGoal_sinv [OF sinv p(1)] by blast
      then have "loop_end start goalKey goal (Some p) v'" using none 1 p by (auto simp: loop_end_def)
      then show ?thesis using v'(1) s 1 False nogoal p by (simp add: HasOpenNode_def)
    next
      case 2
      then have "loop_end start goalKey goal (Some p) v" using none sinv p by (auto simp: loop_end_def)
      then show ?thesis using s 2 False nogoal p by (simp add: HasOpenNode_def)
    next
      case 3
      obtain v' l' ys where v': "expand src nb goal (Some p) v l = Inr (v', l')" "loop_inv start goalKey goal (Some p) v'"
          "filled src l' ys" "work size_U (view v') < work size_U (view v) \<or>
            work size_U (view v') = work size_U (view v) \<and> openNodesCount v' < openNodesCount v"
        using expand_sinv [OF assms(1) p(1,2) nogoal assms(2)] by blast
      have "rounds v' < rounds v" using rounds_less [OF _ v'(4), of start] v'(2) unfolding loop_inv_def by blast
      moreover have "search (Suc fuel) src nb goalKey goal c v l = search fuel src nb goalKey goal (Some p) v' l'"
        using v'(1) s 3 False nogoal p by (simp add: HasOpenNode_def)
      ultimately show ?thesis using v'(2,3) by blast
    qed
  qed
qed

lemma search_spec:
  assumes "loop_inv start goalKey goal c v" "filled src l xs"
  shows "search fuel src nb goalKey goal c v l = Inl Diverges \<and> fuel \<le> rounds v \<or>
    (\<exists>p v'. search fuel src nb goalKey goal c v l = Inr (p, v') \<and> loop_end start goalKey goal p v')"
  using assms
proof (induction fuel arbitrary: c v l xs)
  case (Suc fuel)
  from search_step [OF Suc.prems, of fuel] show ?case
  proof
    assume "\<exists>p v' l' ys. search (Suc fuel) src nb goalKey goal c v l = search fuel src nb goalKey goal p v' l' \<and>
       loop_inv start goalKey goal p v' \<and> filled src l' ys \<and> rounds v' < rounds v"
    then obtain p v' l' ys where *: "search (Suc fuel) src nb goalKey goal c v l = search fuel src nb goalKey goal p v' l'"
        "loop_inv start goalKey goal p v'" "filled src l' ys" "rounds v' < rounds v" by blast
    from Suc.IH [OF *(2,3)] *(1,4) show ?case by auto
  qed blast
qed simp

subsection \<open>The start\<close>

lemma create_sinv: "sinv start VisitedNodesCreate"
  by (simp add: sinv_def VisitedNodesCreate_def index_ok_def sorted_records_def sorted_keys_def open_ok_def
      back_ptrs_def view_def tree_ok_def parents_def acyclic_def)

lemma tree_ok_start:
  assumes "\<forall>r\<in>set R. \<not> added r" "i < length R" "nodeKey (R ! i) = start"
  shows "tree_ok nb start (R[i := (set_parent None (R ! i))\<lparr>isOpen := True, cost := Fin 0\<rparr>])"
proof -
  define r where "r = (set_parent None (R ! i))\<lparr>isOpen := True, cost := Fin 0\<rparr>"
  have r: "nodeKey r = start" "\<not> hasParent r" "\<not> isClosed r" "cost r = Fin 0"
    using assms nth_mem [OF assms(2)] by (auto simp: r_def set_parent_def NodeIsNull_def)
  have nth: "R[i := r] ! j = (if j = i then r else R ! j)" for j using assms(2) by (simp add: nth_update_if)
  have only: "j = i" if "j < length R" "added (R[i := r] ! j)" for j
    using that assms(1) nth_mem [of j R] unfolding nth by (auto split: if_splits)
  have "\<not> hasParent (R[i := r] ! j)" if "j < length R" "added (R[i := r] ! j)" for j
    using only [OF that] r(2) unfolding nth by simp
  then have "parents (R[i := r]) = {}" unfolding parents_def length_list_update by blast
  moreover have "linked nb start (R[i := r]) j" if "j < length R" "added (R[i := r] ! j)" for j
    using r f32_good_zero unfolding only [OF that] linked_def nth by simp
  moreover have "\<not> (isOpen (R[i := r] ! j) \<and> isClosed (R[i := r] ! j))" if "j < length R" for j
  proof (cases "j = i")
    case True
    then show ?thesis using r(3) unfolding nth by simp
  next
    case False
    then show ?thesis using assms(1) nth_mem [OF that] unfolding nth by simp
  qed
  ultimately show ?thesis unfolding tree_ok_def length_list_update r_def [symmetric]
    by (simp add: acyclic_def)
qed

lemma GetNode_goal:
  assumes "sinv start v" "set_option goalKey \<subseteq> U" "\<forall>r\<in>set (view v). \<not> added r \<and> \<not> isGoal r"
  shows "\<exists>goal w w'. GetNode src v goalKey = Inr (goal, w) \<and> SetNodeIsGoal w goal = Inr w' \<and> sinv start w' \<and>
    (\<forall>r\<in>set (view w'). \<not> added r) \<and> nodeRecordsCount v \<le> nodeRecordsCount w' \<and>
    (\<forall>i<nodeRecordsCount v. nodeKey (view w' ! i) = nodeKey (view v ! i)) \<and>
    (\<forall>i<nodeRecordsCount w'. isGoal (view w' ! i) \<longleftrightarrow> goal = Some i) \<and>
    (case goal of None \<Rightarrow> goalKey = None | Some g \<Rightarrow> g < nodeRecordsCount w' \<and> goalKey = Some (nodeKey (view w' ! g)))"
proof (cases goalKey)
  case None
  then show ?thesis using assms(1,3) by (auto simp: GetNode_def SetNodeIsGoal_def NodeIsNull_def)
next
  case (Some g)
  then have "g \<in> U" using assms(2) by simp
  obtain i w where w: "GetNode src v (Some g) = Inr (Some i, w)" "sinv start w" "i < nodeRecordsCount w"
      "nodeKey (view w ! i) = g" "extends (view v) (view w)"
      "\<forall>j<nodeRecordsCount w. added (view w ! j) \<longrightarrow> j < nodeRecordsCount v \<and> added (view v ! j)"
    using GetNode_sinv [OF assms(1) \<open>g \<in> U\<close>] by blast
  obtain w' where w': "SetNodeIsGoal w (Some i) = Inr w'" "sinv start w'" "nodeRecordsCount w' = nodeRecordsCount w"
      "view w' = (view w)[i := (view w ! i)\<lparr>isGoal := True\<rparr>]"
    using SetNodeIsGoal_sinv [OF w(2,3)] by blast
  have old: "\<not> added (view v ! j)" "\<not> isGoal (view v ! j)" if "j < nodeRecordsCount v" for j
    using assms(3) that by simp_all
  have nogoal: "\<not> isGoal (view w ! j)" if "j < nodeRecordsCount w" for j
    using w(5) old(2) [of j] that by (cases "j < nodeRecordsCount v") (auto simp: extends_def)
  have noadd: "\<not> added (view w ! j)" if "j < nodeRecordsCount w" for j using w(6) old(1) [of j] that by blast
  have j: "\<not> added (view w' ! j)" "isGoal (view w' ! j) \<longleftrightarrow> Some i = Some j"
      "nodeKey (view w' ! j) = nodeKey (view w ! j)"
    if "j < nodeRecordsCount w'" for j
    using that nogoal noadd w' w(3) by (auto simp: nth_update_if)
  have "\<forall>r\<in>set (view w'). \<not> added r" using j(1) by (metis in_set_conv_nth length_view)
  moreover have "nodeRecordsCount v \<le> nodeRecordsCount w'" using w(5) w'(3) by (simp add: extends_def)
  moreover have "\<forall>i<nodeRecordsCount v. nodeKey (view w' ! i) = nodeKey (view v ! i)"
    using w(5) w'(3) j(3) by (auto simp: extends_def)
  ultimately show ?thesis using w(1,3,4) w'(1-3) Some j(2,3) by (intro exI [of _ "Some i"] exI [of _ w] exI [of _ w']) auto
qed

lemma begin_search_spec:
  assumes start: "start \<in> U" and goal: "set_option goalKey \<subseteq> U"
  shows "\<exists>p goal v. begin_search src start goalKey = Inr (p, goal, v) \<and> loop_inv start goalKey goal p v"
proof -
  obtain i w where w: "GetNode src VisitedNodesCreate (Some start) = Inr (Some i, w)" "sinv start w"
      "i < nodeRecordsCount w" "nodeKey (view w ! i) = start" "extends (view VisitedNodesCreate) (view w)"
      "\<forall>j<nodeRecordsCount w. added (view w ! j) \<longrightarrow> j < nodeRecordsCount VisitedNodesCreate \<and>
        added (view VisitedNodesCreate ! j)"
    using GetNode_sinv [OF create_sinv start] by blast
  have "\<forall>r\<in>set (view w). \<not> added r \<and> \<not> isGoal r"
    using w(5,6) by (auto simp: in_set_conv_nth extends_def VisitedNodesCreate_def view_def)
  note fresh = GetNode_goal [OF w(2) goal this]
  obtain goal w1 w2 where w2: "GetNode src w goalKey = Inr (goal, w1)" "SetNodeIsGoal w1 goal = Inr w2"
      "sinv start w2" "\<forall>r\<in>set (view w2). \<not> added r" "nodeRecordsCount w \<le> nodeRecordsCount w2"
      "\<forall>i<nodeRecordsCount w. nodeKey (view w2 ! i) = nodeKey (view w ! i)"
      "\<forall>i<nodeRecordsCount w2. isGoal (view w2 ! i) \<longleftrightarrow> goal = Some i"
      "case goal of None \<Rightarrow> goalKey = None | Some g \<Rightarrow> g < nodeRecordsCount w2 \<and> goalKey = Some (nodeKey (view w2 ! g))"
    using fresh by blast
  have i2: "i < nodeRecordsCount w2" "nodeKey (view w2 ! i) = start" using w(3,4) w2(5,6) by auto
  obtain h where h: "GetPathCostHeuristic src w2 (Some i) goal = Inr h"
    using heuristic_in [OF i2(1), of goal] w2(8) by (auto split: option.splits)
  obtain w3 where w3: "SetNodeEstimatedCost w2 (Some i) h = Inr w3" "sinv start w3"
      "nodeRecordsCount w3 = nodeRecordsCount w2" "nodeKey (view w3 ! i) = nodeKey (view w2 ! i)"
      "extends (view w2) (view w3)"
      "\<forall>j. cost (view w3 ! j) = cost (view w2 ! j) \<and> added (view w3 ! j) = added (view w2 ! j)"
    using SetNodeEstimatedCost_sinv [OF w2(3) i2(1)] by blast
  have un3: "\<forall>r\<in>set (view w3). \<not> added r"
    using w2(4) w3(3,6) by (metis in_set_conv_nth length_view)
  have i3: "i < nodeRecordsCount w3" "nodeKey (view w3 ! i) = start" using i2 w3(3,4) by simp_all
  have op: "open_ok w3" "\<not> isOpen (nodeRecords w3 ! i)"
    using w3(2) un3 i3(1) isOpen_view [of i w3] by (simp_all add: sinv_def)
  let ?r = "(set_parent None (view w3 ! i))\<lparr>isOpen := True, cost := Fin 0\<rparr>"
  obtain v where v: "AddNodeToOpenSet w3 (Some i) (Fin 0) None = Inr v" "open_ok v" "same_index w3 v"
      "view v = (view w3)[i := ?r]"
    using Add_spec [OF op(1) i3(1) op(2), of "Fin 0" None] by blast
  have n: "nodeRecordsCount v = nodeRecordsCount w2" using v(4) w3(3) by (metis length_list_update length_view)
  have r: "nodeKey ?r = nodeKey (view w3 ! i)" "isGoal ?r = isGoal (view w3 ! i)" "isClosed ?r = isClosed (view w3 ! i)"
    by (simp_all add: set_parent_def)
  have "tree_ok nb start (view v)" unfolding v(4) using tree_ok_start [OF un3 _ i3(2)] i3(1) by simp
  then have sinv: "sinv start v" using sinv_update [OF w3(2) v(2,3) i3(1) v(4) r(1)] by blast
  have j: "nodeKey (view v ! j) = nodeKey (view w2 ! j)" "isGoal (view v ! j) = isGoal (view w2 ! j)"
      "\<not> isClosed (view v ! j)" if "j < nodeRecordsCount v" for j
  proof -
    have jn: "j < nodeRecordsCount w3" "j < nodeRecordsCount w2" using that n w3(3) by simp_all
    have "nodeKey (view v ! j) = nodeKey (view w3 ! j)" "isGoal (view v ! j) = isGoal (view w3 ! j)"
      "isClosed (view v ! j) = isClosed (view w3 ! j)"
      unfolding v(4) nth_update_if using r by (cases "j = i"; simp)+
    moreover have "nodeKey (view w3 ! j) = nodeKey (view w2 ! j)" "isGoal (view w3 ! j) = isGoal (view w2 ! j)"
      using w3(5) jn(2) by (simp_all add: extends_def)
    moreover have "\<not> isClosed (view w3 ! j)" using un3 jn(1) by simp
    ultimately show "nodeKey (view v ! j) = nodeKey (view w2 ! j)" "isGoal (view v ! j) = isGoal (view w2 ! j)"
      "\<not> isClosed (view v ! j)" by simp_all
  qed
  have "added (view v ! i)" "i < nodeRecordsCount v" using v(4) i3(1) n w3(3) by simp_all
  moreover have "reached v start" unfolding reached_def
    using calculation j(1) i2(2) by blast
  moreover have "case goal of None \<Rightarrow> goalKey = None | Some g \<Rightarrow> g < nodeRecordsCount v \<and> goalKey = Some (nodeKey (view v ! g))"
    using w2(8) n j(1) by (auto split: option.splits)
  ultimately have "loop_inv start goalKey goal (Some i) v"
    using sinv j(2,3) w2(7) n unfolding loop_inv_def by simp
  moreover have "begin_search src start goalKey = Inr (Some i, goal, v)"
    using w(1) w2(1,2) h w3(1) v(1) by (simp add: begin_search_def)
  ultimately show ?thesis by blast
qed

subsection \<open>The path\<close>

lemma make_path_spec:
  assumes inv: "sinv start v" and p: "p < nodeRecordsCount v" "added (view v ! p)" "isGoal (view v ! p)"
  shows "\<exists>path. make_path src v (Some p) = Inr (Some path) \<and> valid_path src nb start path \<and>
    last (path_nodeKeys path) = nodeKey (view v ! p)"
proof -
  let ?R = "view v"
  have tree: "tree_ok nb start ?R" and keys: "\<forall>r\<in>set (nodeRecords v). length (nodeKey r) = nodeSize src"
    using inv by (simp_all add: sinv_def index_ok_def)
  then have acy: "acyclic (parents ?R)" by (simp add: tree_ok_def)
  obtain xs where ch: "rchain ?R (p # xs)" using rchain_exists [OF tree] p by auto
  define ks where "ks = map (rec_key v) (rev (p # xs))"
  have len: "length (p # xs) \<le> nodeRecordsCount v" using rchain_length [OF acy ch] by simp
  have dist: "distinct (p # xs)" "set (p # xs) \<subseteq> {..<nodeRecordsCount v}" using rchain_distinct [OF acy ch] by auto
  have copy: "copy_keys (length (p # xs)) src v (Some p) (replicate (length (p # xs)) []) = Inr ks"
    using copy_keys_rchain [OF keys ch, of "replicate (length (p # xs)) []"] by (simp add: ks_def)
  define path where "path = \<lparr>path_nodeSize = nodeSize src, path_count = length (p # xs),
    path_cost = cost (?R ! p), path_nodeKeys = ks\<rparr>"
  have "make_path src v (Some p) = Inr (Some path)"
    using p count_parents_rchain [OF ch len] copy by (simp add: make_path_def path_def)
  moreover have "inj_on (rec_key v) (set (p # xs))"
    using dist(2) rec_key_inj inv by (auto simp: sinv_def inj_on_def subset_iff)
  then have "distinct ks" using dist(1) by (simp add: ks_def distinct_map)
  moreover have idx: "(p # xs) ! m < nodeRecordsCount v" if "m < length (p # xs)" for m
    using dist(2) nth_mem [OF that] by blast
  have "hd ks = start" using rchain_edges [OF tree ch] view_key idx [of "length xs"]
    by (simp add: ks_def hd_rev hd_map last_conv_nth split: if_splits)
  moreover have "(ks ! n, ks ! Suc n) \<in> graph_edges nb" if n: "Suc n < length ks" for n
  proof -
    define m where "m = length xs - Suc n"
    have m: "Suc m < length (p # xs)" "length xs - n = Suc m" using n by (auto simp: ks_def m_def)
    have "ks ! n = rec_key v ((p # xs) ! Suc m)" "ks ! Suc n = rec_key v ((p # xs) ! m)"
      using n m by (simp_all add: ks_def rev_nth m_def del: rev.simps)
    moreover have "nodeKey (?R ! ((p # xs) ! m)) \<in> fst ` set (nb (nodeKey (?R ! ((p # xs) ! Suc m))))"
      using rchain_edges [OF tree ch] m(1) by blast
    ultimately show ?thesis using view_key [OF idx, of m] view_key [OF idx [OF m(1)]] m(1)
      by (auto simp: graph_edges_def)
  qed
  ultimately show ?thesis using p(1) by (auto simp: valid_path_def path_def ks_def view_key)
qed

text \<open>With an empty open set, every node that can be reached has been closed.\<close>

lemma exhausted:
  assumes inv: "loop_inv start goalKey goal c v" and none: "openNodesCount v = 0"
    and path: "(start, k) \<in> (graph_edges nb)\<^sup>*"
  shows "reached v k"
  using path
proof (induction rule: rtrancl_induct)
  case base
  then show ?case using inv by (simp add: loop_inv_def)
next
  case (step k k')
  then obtain j where j: "j < nodeRecordsCount v" "nodeKey (view v ! j) = k" "added (view v ! j)"
    by (auto simp: reached_def)
  have "open_ok v" using inv by (simp add: loop_inv_def sinv_def)
  then have "\<not> isOpen (view v ! j)" using open_ok_place(1) [of v j] j(1) none isOpen_view by auto
  then have "isClosed (view v ! j)" using j(3) by blast
  then have "\<forall>(k', e)\<in>set (nb k). reached v k'" using inv j(1,2) unfolding loop_inv_def by blast
  then show ?case using step.hyps(2) by (auto simp: graph_edges_def)
qed

lemma goal_unreachable:
  assumes inv: "loop_inv start (Some g) goal c v" and none: "openNodesCount v = 0"
  shows "(start, g) \<notin> (graph_edges nb)\<^sup>*"
proof
  assume "(start, g) \<in> (graph_edges nb)\<^sup>*"
  from exhausted [OF inv none this] obtain j where
    j: "j < nodeRecordsCount v" "nodeKey (view v ! j) = g" "added (view v ! j)" by (auto simp: reached_def)
  obtain i where i: "goal = Some i" "i < nodeRecordsCount v" "g = nodeKey (view v ! i)"
    using inv by (auto simp: loop_inv_def split: option.splits)
  have "index_ok src v" "open_ok v" using inv by (simp_all add: loop_inv_def sinv_def)
  then have "j = i" using rec_key_inj [of v j i] i j by (simp add: view_key)
  moreover have "\<not> isOpen (view v ! j)"
    using open_ok_place(1) [OF \<open>open_ok v\<close> j(1)] none isOpen_view [OF j(1)] by auto
  ultimately have "isClosed (view v ! i)" using j(3) by blast
  moreover have "isGoal (view v ! i)" using inv i(1,2) by (simp add: loop_inv_def)
  ultimately show False using inv i(2) by (simp add: loop_inv_def)
qed

text \<open>What a search returns: a path to the goal, or no path because there is none.\<close>

definition outcome_ok :: "key \<Rightarrow> key option \<Rightarrow> ASPath option \<Rightarrow> bool" where
  "outcome_ok start goalKey r =
     (case r of
        Some path \<Rightarrow> valid_path src nb start path \<and>
          (earlyExit src = None \<longrightarrow> (\<forall>g. goalKey = Some g \<longrightarrow> last (path_nodeKeys path) = g))
      | None \<Rightarrow> earlyExit src = None \<longrightarrow> (\<exists>g. goalKey = Some g \<and> (start, g) \<notin> (graph_edges nb)\<^sup>*))"

lemma finish_spec:
  assumes "loop_end start goalKey goal c v"
  shows "\<exists>r. bind_res (if NodeIsNull goal then SetNodeIsGoal v c else Inr v) (\<lambda>v. make_path src v c) = Inr r \<and>
    outcome_ok start goalKey r"
proof -
  obtain p where p: "c = Some p" "p < nodeRecordsCount v" "added (view v ! p)" and sinv: "sinv start v"
    using assms by (auto simp: loop_end_def)
  have early: "loop_inv start goalKey goal c v" "openNodesCount v = 0 \<or> isGoal (view v ! p)"
    if "earlyExit src = None" using assms p that by (simp_all add: loop_end_def)
  show ?thesis
  proof (cases goal)
    case None
    obtain v' where v': "SetNodeIsGoal v (Some p) = Inr v'" "sinv start v'" "nodeRecordsCount v' = nodeRecordsCount v"
        "view v' = (view v)[p := (view v ! p)\<lparr>isGoal := True\<rparr>]"
      using SetNodeIsGoal_sinv [OF sinv p(2)] by blast
    then obtain path where path: "make_path src v' (Some p) = Inr (Some path)" "valid_path src nb start path"
      using make_path_spec [OF v'(2), of p] p by auto
    have "goalKey = None" if "earlyExit src = None" using early(1) [OF that] None by (simp add: loop_inv_def)
    then show ?thesis using path v'(1) None p(1) by (auto simp: NodeIsNull_def outcome_ok_def)
  next
    case (Some i)
    show ?thesis
    proof (cases "isGoal (view v ! p)")
      case True
      obtain path where path: "make_path src v (Some p) = Inr (Some path)" "valid_path src nb start path"
          "last (path_nodeKeys path) = nodeKey (view v ! p)"
        using make_path_spec [OF sinv p(2,3) True] by blast
      have "goalKey = Some (nodeKey (view v ! p))" if "earlyExit src = None"
        using early(1) [OF that] True p(2) by (auto simp: loop_inv_def)
      then show ?thesis using path Some p(1) by (auto simp: NodeIsNull_def outcome_ok_def)
    next
      case False
      then have "make_path src v (Some p) = Inr None" using p(2) by (simp add: make_path_def)
      moreover have "\<exists>g. goalKey = Some g \<and> (start, g) \<notin> (graph_edges nb)\<^sup>*" if none: "earlyExit src = None"
      proof -
        obtain g where "goalKey = Some g" using early(1) [OF none] Some by (auto simp: loop_inv_def)
        then show ?thesis using goal_unreachable early [OF none] False by blast
      qed
      ultimately show ?thesis using Some p(1) by (auto simp: NodeIsNull_def outcome_ok_def)
    qed
  qed
qed

lemma ASPathCreate_spec:
  assumes "start \<in> U" "set_option goalKey \<subseteq> U"
  shows "\<exists>n. \<forall>fuel. ASPathCreate fuel (Some src) (Some start) goalKey = Inl Diverges \<and> fuel \<le> n \<or>
    (\<exists>r. ASPathCreate fuel (Some src) (Some start) goalKey = Inr r \<and> outcome_ok start goalKey r)"
proof -
  obtain p goal v where b: "begin_search src start goalKey = Inr (p, goal, v)" "loop_inv start goalKey goal p v"
    using begin_search_spec [OF assms] by blast
  have "filled src NeighborListCreate []" by (simp add: filled_def NeighborListCreate_def)
  note s = search_spec [OF b(2) this]
  have "ASPathCreate fuel (Some src) (Some start) goalKey = Inl Diverges \<and> fuel \<le> rounds v \<or>
    (\<exists>r. ASPathCreate fuel (Some src) (Some start) goalKey = Inr r \<and> outcome_ok start goalKey r)" for fuel
    using s [of fuel]
  proof
    assume "search fuel src nb goalKey goal p v NeighborListCreate = Inl Diverges \<and> fuel \<le> rounds v"
    then show ?thesis using b(1) neighbors size by (simp add: ASPathCreate_def)
  next
    assume "\<exists>c v'. search fuel src nb goalKey goal p v NeighborListCreate = Inr (c, v') \<and> loop_end start goalKey goal c v'"
    then obtain c v' where "search fuel src nb goalKey goal p v NeighborListCreate = Inr (c, v')"
      "loop_end start goalKey goal c v'" by blast
    then show ?thesis using b(1) neighbors size finish_spec [of start goalKey goal c v'] by (simp add: ASPathCreate_def)
  qed
  then show ?thesis by blast
qed

end

section \<open>Properties\<close>

text \<open>A graph of five nodes, one of which cannot be reached from the others.\<close>

definition demo_nb :: "key \<Rightarrow> (key \<times> f32) list" where
  "demo_nb k =
     (if k = [0] then [([1], fi 1), ([2], fi 5)]
      else if k = [1] then [([0], fi 1), ([2], fi 1), ([3], fi 9)]
      else if k = [2] then [([3], fi 1)] else [])"

definition demo_keys :: "key set" where
  "demo_keys = {[0], [1], [2], [3], [4]}"

lemma demo_graph: "astar_graph (byte_source demo_nb) demo_nb demo_keys"
proof (rule astar_graph.intro)
  show "astar_source (byte_source demo_nb)" by (rule byte_source)
  show "astar_graph_axioms (byte_source demo_nb) demo_nb demo_keys"
    by unfold_locales (auto simp: byte_source_def demo_keys_def demo_nb_def fi_def split: if_splits)
qed

text \<open>
  C18. On every finite graph with costs that are not negative, the search ends: with enough rounds
  it returns, and no access leaves its arrays on the way.
\<close>

theorem astar_ends:
  assumes "astar_graph src nb U" and "start \<in> U" and "set_option goalKey \<subseteq> U"
  shows "\<exists>n. \<forall>fuel>n. \<exists>r. ASPathCreate fuel (Some src) (Some start) goalKey = Inr r"
  using astar_graph.ASPathCreate_spec [OF assms] by (meson not_le)

theorem astar_ends_witness:
  "\<exists>n. \<forall>fuel>n. \<exists>r. ASPathCreate fuel (Some (byte_source demo_nb)) (Some [0]) (Some [3]) = Inr r"
  using astar_ends [OF demo_graph, of "[0]" "Some [3]"] by (simp add: demo_keys_def)

text \<open>
  C19. A path the search returns starts at the start node, goes from each node to one of its
  neighbours, visits no node twice, ends at the goal when there is one and no early exit, and its
  count is its length.
\<close>

theorem astar_path_valid:
  assumes "astar_graph src nb U" and "start \<in> U" and "set_option goalKey \<subseteq> U"
    and "ASPathCreate fuel (Some src) (Some start) goalKey = Inr (Some p)"
  shows "valid_path src nb start p \<and>
    (earlyExit src = None \<longrightarrow> (\<forall>g. goalKey = Some g \<longrightarrow> last (path_nodeKeys p) = g))"
proof -
  obtain r where "ASPathCreate fuel (Some src) (Some start) goalKey = Inr r" "astar_graph.outcome_ok src nb start goalKey r"
    using astar_graph.ASPathCreate_spec [OF assms(1-3)] assms(4) by (metis Inl_Inr_False)
  then show ?thesis using assms(4) unfolding astar_graph.outcome_ok_def [OF assms(1)] by auto
qed

definition demo_path :: ASPath where
  "demo_path = \<lparr>path_nodeSize = 1, path_count = 4, path_cost = fi 3, path_nodeKeys = [[0], [1], [2], [3]]\<rparr>"

theorem astar_path_valid_witness:
  "ASPathCreate 10 (Some (byte_source demo_nb)) (Some [0]) (Some [3]) = Inr (Some demo_path) \<and>
   valid_path (byte_source demo_nb) demo_nb [0] demo_path \<and> last (path_nodeKeys demo_path) = [3]"
proof -
  have run: "ASPathCreate 10 (Some (byte_source demo_nb)) (Some [0]) (Some [3]) = Inr (Some demo_path)" by code_simp
  then show ?thesis using astar_path_valid [OF demo_graph _ _ run] by (simp add: demo_keys_def byte_source_def)
qed



end
