(* ===== verification/Lua_Astar.thy ===== *)
theory Lua_Astar
  imports AStar_Search
begin

text \<open>
  The Lua binding of the path search on a grid (\<open>astar/lua-astar.c\<close>). The function that a script
  gives a map decides which steps are allowed and what they cost; it is a parameter, a function
  from its seven integer arguments to an error or the values it returns. A cell of the grid is a
  pair of coordinates stored as two 32-bit integers, which \<open>memcmp\<close> compares as eight bytes.
\<close>

section \<open>The model\<close>

text \<open>Lua values as \<open>lua_toboolean\<close> and \<open>lua_tonumber\<close> see them: a number is given after its
  conversion to \<open>float\<close>, and a string with the number it stands for, if any.\<close>

datatype lval = Nil | Boolean bool | Number f32 | Text "f32 option" | Other

datatype lcall = Raises | Returns "lval list"

type_synonym lfun = "int list \<Rightarrow> lcall"

text \<open>The table \<open>astar{ref}\<close> of the registry, if it exists, from references to functions.\<close>

type_synonym registry = "(int \<Rightarrow> lfun option) option"

record map_s =
  map_w :: int
  map_h :: int
  map_ref :: int
  map_uindex :: int

record pathnode_t =
  node_x :: int
  node_y :: int

fun lua_toboolean :: "lval \<Rightarrow> bool" where
  "lua_toboolean Nil \<longleftrightarrow> False"
| "lua_toboolean (Boolean b) \<longleftrightarrow> b"
| "lua_toboolean _ \<longleftrightarrow> True"

fun lua_tonumber :: "lval \<Rightarrow> f32" where
  "lua_tonumber (Number x) = x"
| "lua_tonumber (Text (Some x)) = x"
| "lua_tonumber _ = Fin 0"

text \<open>The conversion of a Lua integer to \<open>int\<close>.\<close>

definition c_int :: "int \<Rightarrow> int" where
  "c_int n = sint (word_of_int n :: u32)"

text \<open>The bytes of a cell and back.\<close>

definition enc_node :: "pathnode_t \<Rightarrow> key" where
  "enc_node n = bytes32 (word_of_int (node_x n)) @ bytes32 (word_of_int (node_y n))"

definition dec_node :: "key \<Rightarrow> pathnode_t" where
  "dec_node k = \<lparr>node_x = sint (le32 (take 4 k)), node_y = sint (le32 (drop 4 k))\<rparr>"

subsection \<open>Functions in the registry\<close>

text \<open>The function or nil that is pushed, or \<open>None\<close> for the result \<open>-1\<close>.\<close>

definition getfuncbyref :: "registry \<Rightarrow> int \<Rightarrow> lfun option option" where
  "getfuncbyref reg ref = (case reg of None \<Rightarrow> None | Some t \<Rightarrow> Some (t ref))"

definition unreffunc :: "registry \<Rightarrow> int \<Rightarrow> registry" where
  "unreffunc reg ref = (case reg of None \<Rightarrow> None | Some t \<Rightarrow> Some (t(ref := None)))"

text \<open>\<open>luaL_ref\<close> stores the function after the border that \<open>lua_rawlen\<close> reports.\<close>

definition pushfunc :: "((int \<Rightarrow> lfun option) \<Rightarrow> int) \<Rightarrow> registry \<Rightarrow> lfun \<Rightarrow> int \<times> registry" where
  "pushfunc rawlen reg f =
     (let t = (case reg of None \<Rightarrow> (\<lambda>_. None) | Some t \<Rightarrow> t); ref = rawlen t + 1
      in (ref, Some (t(ref := Some f))))"

subsection \<open>Neighbours\<close>

text \<open>The result of \<open>get_neighbors\<close> and the distance it leaves.\<close>

definition get_neighbors ::
    "registry \<Rightarrow> int \<Rightarrow> int \<Rightarrow> int \<Rightarrow> int \<Rightarrow> int \<Rightarrow> int \<Rightarrow> int \<Rightarrow> f32 \<Rightarrow> int \<Rightarrow> int \<times> f32" where
  "get_neighbors reg ref w h sx sy ex ey dis uindex =
     (case getfuncbyref reg ref of
        None \<Rightarrow> (-1, dis)
      | Some f \<Rightarrow>
          (case (case f of None \<Rightarrow> Raises | Some g \<Rightarrow> g [w, h, sx, sy, ex, ey, uindex]) of
             Raises \<Rightarrow> (-1, dis)
           | Returns [] \<Rightarrow> (-1, dis)
           | Returns (b # rs) \<Rightarrow>
               (if lua_toboolean b then 0 else 1, case rs of [] \<Rightarrow> dis | d # _ \<Rightarrow> lua_tonumber d)))"

text \<open>The steps \<open>(i, j)\<close> in the order of the two loops.\<close>

definition steps :: "(int \<times> int) list" where
  "steps = [(-1, -1), (-1, 0), (-1, 1), (0, -1), (0, 0), (0, 1), (1, -1), (1, 0), (1, 1)]"

text \<open>The calls of \<open>ASNeighborListAdd\<close> that the loops make; the distance of a call is kept when
  the next call returns none.\<close>

fun neighbor_loop ::
    "registry \<Rightarrow> map_s \<Rightarrow> int \<Rightarrow> int \<Rightarrow> f32 \<Rightarrow> (int \<times> int) list \<Rightarrow> (key \<times> f32) list" where
  "neighbor_loop reg m sx sy dis [] = []"
| "neighbor_loop reg m sx sy dis ((i, j) # ss) =
     (let tx = sx + i; ty = sy + j in
      if (i = 0 \<and> j = 0) \<or> tx > map_w m \<or> tx < 0 \<or> ty > map_h m \<or> ty < 0
      then neighbor_loop reg m sx sy dis ss
      else
        let (r, dis) = get_neighbors reg (map_ref m) (map_w m) (map_h m) sx sy tx ty dis (map_uindex m) in
        if r = 0 then (enc_node \<lparr>node_x = tx, node_y = ty\<rparr>, dis) # neighbor_loop reg m sx sy dis ss
        else neighbor_loop reg m sx sy dis ss)"

definition path_neighbors :: "registry \<Rightarrow> map_s \<Rightarrow> key \<Rightarrow> (key \<times> f32) list" where
  "path_neighbors reg m node =
     neighbor_loop reg m (node_x (dec_node node)) (node_y (dec_node node)) (Fin 0) steps"

subsection \<open>Maps\<close>

text \<open>\<open>None\<close> is an error raised in Lua, for a third argument that is not a function.\<close>

definition lua__new_map ::
    "((int \<Rightarrow> lfun option) \<Rightarrow> int) \<Rightarrow> registry \<Rightarrow> int \<Rightarrow> int \<Rightarrow> lfun option \<Rightarrow> int \<Rightarrow> (map_s \<times> registry) option" where
  "lua__new_map rawlen reg w h f uindex =
     (case f of
        None \<Rightarrow> None
      | Some f \<Rightarrow>
          let (ref, reg) = pushfunc rawlen reg f
          in Some (\<lparr>map_w = c_int w, map_h = c_int h, map_ref = ref, map_uindex = c_int uindex\<rparr>, reg))"

definition lua__gc :: "registry \<Rightarrow> map_s \<Rightarrow> registry" where
  "lua__gc reg m = unreffunc reg (map_ref m)"

text \<open>
  \<open>absY + 0.4 * absX\<close>: the product and the sum are rounded to the 53 bits of \<open>double\<close> before the
  result becomes a \<open>float\<close>. The constant is the double nearest to 0.4, a multiple of \<open>2 ^ - 53\<close>.
\<close>

definition round_double :: "int \<Rightarrow> nat \<Rightarrow> int" where
  "round_double a s = (let g = bitlen a - s - 53 in round_div a (s + g) * 2 ^ g)"

fun add_04 :: "f32 \<Rightarrow> f32 \<Rightarrow> f32" where
  "add_04 (Fin a) (Fin b) = f32_round (round_double (a + round_double (b * 3602879701896397) 53) 0) 0"
| "add_04 _ _ = NaN"

definition path_heuristic :: "key \<Rightarrow> key \<Rightarrow> f32" where
  "path_heuristic fromNode toNode =
     (let from = dec_node fromNode; to = dec_node toNode;
          absX = f32_of_int \<bar>node_x from - node_x to\<bar>;
          absY = f32_of_int \<bar>node_y from - node_y to\<bar>
      in if f32_lt absX absY then add_04 absY absX else add_04 absX absY)"

definition path_source :: "registry \<Rightarrow> map_s \<Rightarrow> ASPathNodeSource" where
  "path_source reg m = \<lparr>nodeSize = 8, nodeNeighbors = Some (path_neighbors reg m),
     pathCostHeuristic = Some path_heuristic, earlyExit = None, nodeComparator = None\<rparr>"

text \<open>The two values returned: false and a message, or the table of cells and their number.\<close>

datatype path_result = PathError string | PathFound "(int \<times> int) list" nat

definition node_pair :: "key \<Rightarrow> int \<times> int" where
  "node_pair k = (node_x (dec_node k), node_y (dec_node k))"

fun path_table :: "ASPath option \<Rightarrow> nat \<Rightarrow> nat \<Rightarrow> (int \<times> int) list cres" where
  "path_table path i 0 = Inr []"
| "path_table path i (Suc left) =
     (case ASPathGetNode path i of
        None \<Rightarrow> Inl NullDeref
      | Some k \<Rightarrow> bind_res (path_table path (i + 1) left) (\<lambda>ps. Inr (node_pair k # ps)))"

definition lua__path ::
    "nat \<Rightarrow> registry \<Rightarrow> map_s \<Rightarrow> int \<Rightarrow> int \<Rightarrow> int \<Rightarrow> int \<Rightarrow> path_result cres" where
  "lua__path fuel reg m fx fy tx ty =
     (let from = \<lparr>node_x = c_int fx, node_y = c_int fy\<rparr>; to = \<lparr>node_x = c_int tx, node_y = c_int ty\<rparr> in
      if node_x from < 0 \<or> node_x from > map_w m \<or> node_y from < 0 \<or> node_y from > map_h m
      then Inr (PathError ''from point error!'')
      else if node_x to < 0 \<or> node_x to > map_w m \<or> node_y to < 0 \<or> node_y to > map_h m
      then Inr (PathError ''to point error!'')
      else
        bind_res (ASPathCreate fuel (Some (path_source reg m)) (Some (enc_node from)) (Some (enc_node to)))
          (\<lambda>path.
        bind_res (path_table path 0 (ASPathGetCount path)) (\<lambda>ps.
          Inr (PathFound ps (ASPathGetCount path)))))"

section \<open>Cells and keys\<close>

definition in_map :: "map_s \<Rightarrow> int \<times> int \<Rightarrow> bool" where
  "in_map m a \<longleftrightarrow> 0 \<le> fst a \<and> fst a \<le> map_w m \<and> 0 \<le> snd a \<and> snd a \<le> map_h m"

definition cell_key :: "int \<times> int \<Rightarrow> key" where
  "cell_key a = enc_node \<lparr>node_x = fst a, node_y = snd a\<rparr>"

text \<open>The script allows the step from one cell to another.\<close>

definition allows :: "registry \<Rightarrow> map_s \<Rightarrow> int \<times> int \<Rightarrow> int \<times> int \<Rightarrow> bool" where
  "allows reg m a b \<longleftrightarrow>
     fst (get_neighbors reg (map_ref m) (map_w m) (map_h m) (fst a) (snd a) (fst b) (snd b) (Fin 0) (map_uindex m)) = 0"

definition grid_step :: "registry \<Rightarrow> map_s \<Rightarrow> ((int \<times> int) \<times> (int \<times> int)) set" where
  "grid_step reg m = {(a, b). in_map m a \<and> in_map m b \<and> a \<noteq> b \<and>
     \<bar>fst b - fst a\<bar> \<le> 1 \<and> \<bar>snd b - snd a\<bar> \<le> 1 \<and> allows reg m a b}"

definition grid_keys :: "map_s \<Rightarrow> key set" where
  "grid_keys m = cell_key ` {a. in_map m a}"

lemma sint_range: "0 \<le> x \<Longrightarrow> x < 2 ^ 31 \<Longrightarrow> sint (word_of_int x :: u32) = x"
  by (simp add: sint_sbintrunc' signed_take_bit_int_eq_self)

lemma length_enc_node [simp, len_simps]: "length (enc_node n) = 8"
  by (simp add: enc_node_def)

lemma le32_bytes32 [codec_simps]: "le32 (bytes32 w) = w"
  by (simp add: bytes32_def codec_simps)

lemma dec_enc_node:
  assumes "0 \<le> node_x n" "node_x n < 2 ^ 31" "0 \<le> node_y n" "node_y n < 2 ^ 31"
  shows "dec_node (enc_node n) = n"
  using assms by (cases n) (simp add: dec_node_def enc_node_def codec_simps sint_range)

lemma get_neighbors_fst:
  "fst (get_neighbors reg ref w h sx sy ex ey dis u) = fst (get_neighbors reg ref w h sx sy ex ey (Fin 0) u)"
  by (auto simp: get_neighbors_def split: option.splits lcall.splits list.splits)

text \<open>The numbers a script returns as costs are not negative.\<close>

definition costs_nonneg :: "registry \<Rightarrow> map_s \<Rightarrow> bool" where
  "costs_nonneg reg m \<longleftrightarrow>
     (\<forall>t f args b d rs. reg = Some t \<longrightarrow> t (map_ref m) = Some f \<longrightarrow> f args = Returns (b # d # rs) \<longrightarrow>
        f32_nonneg (lua_tonumber d))"

lemma get_neighbors_nonneg:
  "costs_nonneg reg m \<Longrightarrow> f32_nonneg dis \<Longrightarrow>
   f32_nonneg (snd (get_neighbors reg (map_ref m) w h sx sy ex ey dis u))"
  by (auto simp: get_neighbors_def getfuncbyref_def costs_nonneg_def split: option.splits lcall.splits list.splits)

definition step_ok :: "registry \<Rightarrow> map_s \<Rightarrow> int \<Rightarrow> int \<Rightarrow> int \<Rightarrow> int \<Rightarrow> bool" where
  "step_ok reg m sx sy i j \<longleftrightarrow> \<not> (i = 0 \<and> j = 0) \<and> in_map m (sx + i, sy + j) \<and> allows reg m (sx, sy) (sx + i, sy + j)"

lemma neighbor_loop_Cons:
  "\<exists>d. neighbor_loop reg m sx sy dis ((i, j) # ss) =
     (if step_ok reg m sx sy i j then (cell_key (sx + i, sy + j), d) # neighbor_loop reg m sx sy d ss
      else neighbor_loop reg m sx sy d ss) \<and> (costs_nonneg reg m \<longrightarrow> f32_nonneg dis \<longrightarrow> f32_nonneg d)"
proof -
  obtain r d where rd: "get_neighbors reg (map_ref m) (map_w m) (map_h m) sx sy (sx + i) (sy + j) dis (map_uindex m) = (r, d)"
    by (cases "get_neighbors reg (map_ref m) (map_w m) (map_h m) sx sy (sx + i) (sy + j) dis (map_uindex m)")
  have r: "allows reg m (sx, sy) (sx + i, sy + j) \<longleftrightarrow> r = 0"
    using arg_cong [OF rd, of fst] by (simp add: allows_def get_neighbors_fst [of _ _ _ _ _ _ _ _ dis])
  have d: "f32_nonneg d" if "costs_nonneg reg m" "f32_nonneg dis"
    using get_neighbors_nonneg [OF that] rd by (metis snd_conv)
  have skip: "(i = 0 \<and> j = 0) \<or> sx + i > map_w m \<or> sx + i < 0 \<or> sy + j > map_h m \<or> sy + j < 0 \<longleftrightarrow>
      (i = 0 \<and> j = 0) \<or> \<not> in_map m (sx + i, sy + j)" by (auto simp: in_map_def)
  show ?thesis
  proof (cases "(i = 0 \<and> j = 0) \<or> \<not> in_map m (sx + i, sy + j)")
    case True
    then have "neighbor_loop reg m sx sy dis ((i, j) # ss) = neighbor_loop reg m sx sy dis ss"
      unfolding neighbor_loop.simps Let_def skip by simp
    then show ?thesis using True by (intro exI [of _ dis]) (auto simp: step_ok_def)
  next
    case False
    then have "neighbor_loop reg m sx sy dis ((i, j) # ss) =
        (if r = 0 then (cell_key (sx + i, sy + j), d) # neighbor_loop reg m sx sy d ss
         else neighbor_loop reg m sx sy d ss)"
      unfolding neighbor_loop.simps Let_def skip by (auto simp: rd cell_key_def)
    then show ?thesis using False r d by (intro exI [of _ d]) (auto simp: step_ok_def)
  qed
qed

lemma neighbor_loop_cells:
  "(k \<in> fst ` set (neighbor_loop reg m sx sy dis ss)) \<longleftrightarrow>
   (\<exists>(i, j)\<in>set ss. step_ok reg m sx sy i j \<and> k = cell_key (sx + i, sy + j))"
proof (induction ss arbitrary: dis)
  case (Cons s ss)
  obtain i j where s: "s = (i, j)" by (cases s)
  from neighbor_loop_Cons [of reg m sx sy dis i j ss] obtain d where
    "neighbor_loop reg m sx sy dis ((i, j) # ss) =
     (if step_ok reg m sx sy i j then (cell_key (sx + i, sy + j), d) # neighbor_loop reg m sx sy d ss
      else neighbor_loop reg m sx sy d ss) \<and> (costs_nonneg reg m \<longrightarrow> f32_nonneg dis \<longrightarrow> f32_nonneg d)" ..
  then show ?case using Cons.IH [of d] by (simp add: s del: neighbor_loop.simps)
qed simp

lemma neighbor_loop_nonneg:
  "costs_nonneg reg m \<Longrightarrow> f32_nonneg dis \<Longrightarrow> (k, e) \<in> set (neighbor_loop reg m sx sy dis ss) \<Longrightarrow> f32_nonneg e"
proof (induction ss arbitrary: dis)
  case (Cons s ss)
  obtain i j where s: "s = (i, j)" by (cases s)
  from neighbor_loop_Cons [of reg m sx sy dis i j ss] obtain d where
    d: "neighbor_loop reg m sx sy dis ((i, j) # ss) =
     (if step_ok reg m sx sy i j then (cell_key (sx + i, sy + j), d) # neighbor_loop reg m sx sy d ss
      else neighbor_loop reg m sx sy d ss) \<and> (costs_nonneg reg m \<longrightarrow> f32_nonneg dis \<longrightarrow> f32_nonneg d)" ..
  then have nd: "f32_nonneg d" using Cons.prems by blast
  have "(k, e) \<in> insert (cell_key (sx + i, sy + j), d) (set (neighbor_loop reg m sx sy d ss))"
    using Cons.prems(3) d unfolding s by (cases "step_ok reg m sx sy i j") (simp_all del: neighbor_loop.simps)
  then show ?case
  proof (rule insertE)
    assume "(k, e) = (cell_key (sx + i, sy + j), d)"
    then show ?thesis using nd by simp
  next
    assume "(k, e) \<in> set (neighbor_loop reg m sx sy d ss)"
    then show ?thesis by (rule Cons.IH [OF Cons.prems(1) nd])
  qed
qed simp

lemma steps_iff: "(i, j) \<in> set steps \<longleftrightarrow> \<bar>i\<bar> \<le> 1 \<and> \<bar>j\<bar> \<le> 1"
proof -
  have "steps = List.product [-1, 0, 1] [-1, 0, 1]" by (simp add: steps_def)
  then have "set steps = set [-1, 0, 1] \<times> set [-1, 0, 1]" using set_product by metis
  moreover have "x \<in> set [-1, 0, 1] \<longleftrightarrow> \<bar>x\<bar> \<le> 1" for x :: int by auto
  ultimately show ?thesis by blast
qed

section \<open>The search on the grid\<close>

text \<open>A map whose sides fit into \<open>int\<close> and whose script returns no negative cost.\<close>

locale lua_map =
  fixes reg :: registry and m :: map_s
  assumes sides: "map_w m < 2 ^ 31" "map_h m < 2 ^ 31"
    and costs: "costs_nonneg reg m"
begin

lemma dec_cell_key: "in_map m a \<Longrightarrow> dec_node (cell_key a) = \<lparr>node_x = fst a, node_y = snd a\<rparr>"
  using sides unfolding cell_key_def by (subst dec_enc_node) (auto simp: in_map_def)

lemma node_pair_cell [simp]: "in_map m a \<Longrightarrow> node_pair (cell_key a) = a"
  by (simp add: node_pair_def dec_cell_key)

lemma neighbors_of_cell:
  assumes "in_map m a"
  shows "k \<in> fst ` set (path_neighbors reg m (cell_key a)) \<longleftrightarrow> (\<exists>b. (a, b) \<in> grid_step reg m \<and> k = cell_key b)"
proof -
  obtain x y where a: "a = (x, y)" by (cases a)
  have "k \<in> fst ` set (path_neighbors reg m (cell_key a)) \<longleftrightarrow>
      (\<exists>(i, j)\<in>set steps. step_ok reg m x y i j \<and> k = cell_key (x + i, y + j))"
    unfolding path_neighbors_def dec_cell_key [OF assms] neighbor_loop_cells by (simp add: a)
  also have "\<dots> \<longleftrightarrow> (\<exists>i j. \<bar>i\<bar> \<le> 1 \<and> \<bar>j\<bar> \<le> 1 \<and> step_ok reg m x y i j \<and> k = cell_key (x + i, y + j))"
    using steps_iff by fastforce
  also have "\<dots> \<longleftrightarrow> (\<exists>b. (a, b) \<in> grid_step reg m \<and> k = cell_key b)" (is "?L \<longleftrightarrow> ?R")
  proof
    assume ?L
    then obtain i j where "\<bar>i\<bar> \<le> 1" "\<bar>j\<bar> \<le> 1" "step_ok reg m x y i j" "k = cell_key (x + i, y + j)" by blast
    then show ?R using assms by (intro exI [of _ "(x + i, y + j)"]) (auto simp: grid_step_def step_ok_def a)
  next
    assume ?R
    then obtain p q where "(a, (p, q)) \<in> grid_step reg m" "k = cell_key (p, q)" by auto
    then show ?L by (intro exI [of _ "p - x"] exI [of _ "q - y"]) (auto simp: grid_step_def step_ok_def a)
  qed
  finally show ?thesis .
qed

lemma edge_iff:
  "in_map m a \<Longrightarrow> (cell_key a, k) \<in> graph_edges (path_neighbors reg m) \<longleftrightarrow>
    (\<exists>b. (a, b) \<in> grid_step reg m \<and> k = cell_key b)"
  using neighbors_of_cell [of a k] by (force simp: graph_edges_def)

end

sublocale lua_map \<subseteq> grid: astar_graph "path_source reg m" "path_neighbors reg m" "grid_keys m"
proof unfold_locales
  let ?src = "path_source reg m"
  have cmp: "key_compare ?src = memcmp" by (simp add: fun_eq_iff key_compare_def path_source_def)
  show "(key_compare ?src a b = 0) = (a = b)" if "length a = nodeSize ?src" "length b = nodeSize ?src" for a b
    using memcmp.cmp_zero that by (simp add: cmp)
  show "(0 < key_compare ?src a b) = (key_compare ?src b a < 0)" for a b
    by (simp add: cmp memcmp_swap)
  show "key_compare ?src a c < 0" if "length a = nodeSize ?src" "length b = nodeSize ?src" "length c = nodeSize ?src"
    "key_compare ?src a b < 0" "key_compare ?src b c < 0" for a b c
    using memcmp.cmp_trans [OF that(1-3)] that(4,5) unfolding cmp by blast
  show "nodeNeighbors ?src = Some (path_neighbors reg m)" "nodeSize ?src \<noteq> 0" by (simp_all add: path_source_def)
  have "{a. in_map m a} \<subseteq> {0..map_w m} \<times> {0..map_h m}" by (auto simp: in_map_def)
  then show "finite (grid_keys m)" unfolding grid_keys_def by (intro finite_imageI) (rule finite_subset, auto)
  show "length k = nodeSize ?src" if "k \<in> grid_keys m" for k
    using that by (auto simp: grid_keys_def cell_key_def path_source_def)
  show "k' \<in> grid_keys m" if k: "k \<in> grid_keys m" "(k', e) \<in> set (path_neighbors reg m k)" for k k' e
  proof -
    obtain a where "k = cell_key a" "in_map m a" using k(1) unfolding grid_keys_def by blast
    then show ?thesis using neighbors_of_cell [of a k'] k(2) image_eqI [of k' fst "(k', e)"]
      by (auto simp: grid_keys_def grid_step_def)
  qed
  show "f32_nonneg e" if "k \<in> grid_keys m" "(k', e) \<in> set (path_neighbors reg m k)" for k k' e
    using neighbor_loop_nonneg [OF costs _ that(2) [unfolded path_neighbors_def]] by simp
qed

text \<open>A walk on the grid from one cell to another, through no cell twice.\<close>

definition grid_path :: "registry \<Rightarrow> map_s \<Rightarrow> int \<times> int \<Rightarrow> int \<times> int \<Rightarrow> (int \<times> int) list \<Rightarrow> bool" where
  "grid_path reg m a b ps \<longleftrightarrow> ps \<noteq> [] \<and> distinct ps \<and> hd ps = a \<and> last ps = b \<and>
     (\<forall>n. Suc n < length ps \<longrightarrow> (ps ! n, ps ! Suc n) \<in> grid_step reg m)"

lemma path_table_spec:
  "path_count p = length (path_nodeKeys p) \<Longrightarrow> i + n \<le> path_count p \<Longrightarrow>
   path_table (Some p) i n = Inr (map node_pair (take n (drop i (path_nodeKeys p))))"
proof (induction n arbitrary: i)
  case (Suc n)
  then have "drop i (path_nodeKeys p) = path_nodeKeys p ! i # drop (Suc i) (path_nodeKeys p)"
    by (simp add: Cons_nth_drop_Suc)
  with Suc show ?case by (simp add: ASPathGetNode_def)
qed simp

context lua_map
begin

lemma key_cell: "k \<in> grid_keys m \<Longrightarrow> in_map m (node_pair k) \<and> cell_key (node_pair k) = k"
  by (auto simp: grid_keys_def)

lemma valid_path_grid:
  assumes p: "valid_path (path_source reg m) (path_neighbors reg m) (cell_key a) p" and a: "in_map m a"
  shows "grid_path reg m a (node_pair (last (path_nodeKeys p))) (map node_pair (path_nodeKeys p))"
proof -
  let ?ks = "path_nodeKeys p"
  have ks: "?ks \<noteq> []" "hd ?ks = cell_key a" "distinct ?ks" using p by (simp_all add: valid_path_def)
  have edge: "(?ks ! n, ?ks ! Suc n) \<in> graph_edges (path_neighbors reg m)" if "Suc n < length ?ks" for n
    using p that by (simp add: valid_path_def)
  have key: "?ks ! n \<in> grid_keys m" if "n < length ?ks" for n
    using that
  proof (induction n)
    case 0
    then show ?case using ks a by (simp add: grid_keys_def flip: hd_conv_nth)
  next
    case (Suc n)
    then show ?case using edge [of n] grid.closed [of "?ks ! n" "?ks ! Suc n"] by (auto simp: graph_edges_def)
  qed
  have step: "(node_pair (?ks ! n), node_pair (?ks ! Suc n)) \<in> grid_step reg m" if n: "Suc n < length ?ks" for n
  proof -
    define b where "b = node_pair (?ks ! n)"
    have b: "in_map m b" "cell_key b = ?ks ! n" using key_cell [OF key, of n] n by (simp_all add: b_def)
    then obtain c where "(b, c) \<in> grid_step reg m" "?ks ! Suc n = cell_key c"
      using edge_iff [OF b(1), of "?ks ! Suc n"] edge [OF n] by auto
    moreover then have "in_map m c" by (simp add: grid_step_def)
    ultimately show ?thesis by (simp flip: b_def)
  qed
  have "inj_on node_pair (grid_keys m)" by (rule inj_on_inverseI [of _ cell_key]) (simp add: key_cell)
  moreover have "set ?ks \<subseteq> grid_keys m" using key by (auto simp: in_set_conv_nth)
  ultimately have "distinct (map node_pair ?ks)" using ks(3) by (simp add: distinct_map inj_on_subset)
  then show ?thesis using ks a step by (simp add: grid_path_def hd_map last_map)
qed

lemma grid_reach:
  assumes "(a, b) \<in> (grid_step reg m)\<^sup>*" "in_map m a"
  shows "(cell_key a, cell_key b) \<in> (graph_edges (path_neighbors reg m))\<^sup>*"
  using assms(1)
proof (induction rule: rtrancl_induct)
  case (step b c)
  have "in_map m b" using step(2) by (simp add: grid_step_def)
  then have "(cell_key b, cell_key c) \<in> graph_edges (path_neighbors reg m)" using edge_iff step(2) by blast
  then show ?case using step.IH by (rule rtrancl_into_rtrancl [rotated])
qed simp

lemma lua__path_in:
  assumes a: "in_map m (c_int fx, c_int fy)" and b: "in_map m (c_int tx, c_int ty)"
  shows "\<exists>n. \<forall>fuel. lua__path fuel reg m fx fy tx ty = Inl Diverges \<and> fuel \<le> n \<or>
    (\<exists>ps. lua__path fuel reg m fx fy tx ty = Inr (PathFound ps (length ps)) \<and>
       (if ps = [] then ((c_int fx, c_int fy), (c_int tx, c_int ty)) \<notin> (grid_step reg m)\<^sup>*
        else grid_path reg m (c_int fx, c_int fy) (c_int tx, c_int ty) ps))"
proof -
  let ?a = "(c_int fx, c_int fy)" and ?b = "(c_int tx, c_int ty)"
  let ?create = "\<lambda>fuel. ASPathCreate fuel (Some (path_source reg m)) (Some (cell_key ?a)) (Some (cell_key ?b))"
  have early: "earlyExit (path_source reg m) = None" by (simp add: path_source_def)
  have U: "cell_key ?a \<in> grid_keys m" "set_option (Some (cell_key ?b)) \<subseteq> grid_keys m"
    using a b by (auto simp: grid_keys_def)
  obtain n where n: "\<And>fuel. ?create fuel = Inl Diverges \<and> fuel \<le> n \<or>
      (\<exists>r. ?create fuel = Inr r \<and> grid.outcome_ok (cell_key ?a) (Some (cell_key ?b)) r)"
    using grid.ASPathCreate_spec [OF U] by blast
  have eq: "lua__path fuel reg m fx fy tx ty = bind_res (?create fuel) (\<lambda>path.
      bind_res (path_table path 0 (ASPathGetCount path)) (\<lambda>ps. Inr (PathFound ps (ASPathGetCount path))))" for fuel
    using a b by (simp add: lua__path_def in_map_def cell_key_def)
  have "lua__path fuel reg m fx fy tx ty = Inl Diverges \<and> fuel \<le> n \<or>
    (\<exists>ps. lua__path fuel reg m fx fy tx ty = Inr (PathFound ps (length ps)) \<and>
       (if ps = [] then (?a, ?b) \<notin> (grid_step reg m)\<^sup>* else grid_path reg m ?a ?b ps))" for fuel
    using n [of fuel]
  proof
    assume "\<exists>r. ?create fuel = Inr r \<and> grid.outcome_ok (cell_key ?a) (Some (cell_key ?b)) r"
    then obtain r where r: "?create fuel = Inr r" "grid.outcome_ok (cell_key ?a) (Some (cell_key ?b)) r" by blast
    show ?thesis
    proof (cases r)
      case None
      then have "(cell_key ?a, cell_key ?b) \<notin> (graph_edges (path_neighbors reg m))\<^sup>*"
        using r(2) early unfolding grid.outcome_ok_def by simp
      then show ?thesis using eq [of fuel] r(1) None grid_reach a by (auto simp: ASPathGetCount_def)
    next
      case (Some p)
      then have p: "valid_path (path_source reg m) (path_neighbors reg m) (cell_key ?a) p"
          "last (path_nodeKeys p) = cell_key ?b"
        using r(2) early unfolding grid.outcome_ok_def by simp_all
      then have len: "path_nodeKeys p \<noteq> []" "path_count p = length (path_nodeKeys p)" by (simp_all add: valid_path_def)
      have "grid_path reg m ?a ?b (map node_pair (path_nodeKeys p))"
        using valid_path_grid [OF p(1) a] p(2) b by simp
      then show ?thesis using eq [of fuel] r(1) Some len path_table_spec [OF len(2), of 0 "path_count p"]
        by (simp add: ASPathGetCount_def)
    qed
  qed (simp add: eq)
  then show ?thesis by blast
qed

end

section \<open>Properties\<close>

text \<open>A script that closes the cells of column 1 above row 2 and gives every other step the cost 1.\<close>

definition demo_script :: lfun where
  "demo_script args = (if args ! 4 = 1 \<and> args ! 5 < 2 then Returns [Boolean False] else Returns [Boolean True, Number (fi 1)])"

definition demo_reg :: registry where
  "demo_reg = Some (\<lambda>ref. if ref = 1 then Some demo_script else None)"

definition demo_map :: map_s where
  "demo_map = \<lparr>map_w = 2, map_h = 2, map_ref = 1, map_uindex = 0\<rparr>"

lemma demo_costs: "costs_nonneg demo_reg demo_map"
  by (auto simp: costs_nonneg_def demo_reg_def demo_map_def demo_script_def fi_def split: if_splits)

interpretation demo: lua_map demo_reg demo_map
  by unfold_locales (simp add: demo_map_def, simp add: demo_map_def, rule demo_costs)

text \<open>
  C17. For a map whose sides fit into an \<open>int\<close>, a script that returns no negative cost and two
  cells of the map, there is a number of rounds after which the search has ended without an access
  outside its arrays. It returns the number of cells of a walk over allowed steps between adjacent
  cells from the first cell to the second, with no cell twice, or an empty table, and then there is
  no such walk.
\<close>

theorem lua_path_correct:
  assumes "map_w m < 2 ^ 31" and "map_h m < 2 ^ 31" and "costs_nonneg reg m"
    and "in_map m (c_int fx, c_int fy)" and "in_map m (c_int tx, c_int ty)"
  shows "\<exists>n. \<forall>fuel. lua__path fuel reg m fx fy tx ty = Inl Diverges \<and> fuel \<le> n \<or>
    (\<exists>ps. lua__path fuel reg m fx fy tx ty = Inr (PathFound ps (length ps)) \<and>
       (if ps = [] then ((c_int fx, c_int fy), (c_int tx, c_int ty)) \<notin> (grid_step reg m)\<^sup>*
        else grid_path reg m (c_int fx, c_int fy) (c_int tx, c_int ty) ps))"
proof -
  have "lua_map reg m" using assms(1-3) by unfold_locales
  then show ?thesis using lua_map.lua__path_in assms(4,5) by blast
qed

theorem lua_path_correct_witness:
  "in_map demo_map (c_int 0, c_int 0) \<and> in_map demo_map (c_int 2, c_int 0) \<and>
   (\<exists>n. \<forall>fuel. lua__path fuel demo_reg demo_map 0 0 2 0 = Inl Diverges \<and> fuel \<le> n \<or>
    (\<exists>ps. lua__path fuel demo_reg demo_map 0 0 2 0 = Inr (PathFound ps (length ps)) \<and>
       (if ps = [] then ((c_int 0, c_int 0), (c_int 2, c_int 0)) \<notin> (grid_step demo_reg demo_map)\<^sup>*
        else grid_path demo_reg demo_map (c_int 0, c_int 0) (c_int 2, c_int 0) ps)))"
proof -
  have ends: "in_map demo_map (c_int 0, c_int 0)" "in_map demo_map (c_int 2, c_int 0)"
    by (simp_all add: in_map_def demo_map_def c_int_def)
  show ?thesis using lua_path_correct [OF _ _ demo_costs ends] ends by (simp add: demo_map_def)
qed

text \<open>
  The binding answers with an error exactly when one of the two cells is outside the map, and
  does not start a search then.
\<close>

theorem lua_path_range:
  "(\<exists>msg. lua__path fuel reg m fx fy tx ty = Inr (PathError msg)) \<longleftrightarrow>
     \<not> (in_map m (c_int fx, c_int fy) \<and> in_map m (c_int tx, c_int ty))"
proof -
  have "bind_res r (\<lambda>path. bind_res (g path) (\<lambda>ps. Inr (PathFound (h path ps) (c path)))) \<noteq> Inr (PathError msg)"
    for r :: "'a cres" and g :: "'a \<Rightarrow> 'b cres" and h c msg
    by (simp add: bind_res_eq_Inr)
  then show ?thesis by (auto simp: lua__path_def in_map_def Let_def bind_res_eq_Inr)
qed

text \<open>
  Creating a map stores its function under a reference of its own: the function is found
  there, the functions of other maps stay where they are, and collecting the map removes its
  function and no other. The length that Lua reports for a table has no element after it.
\<close>

theorem map_functions:
  assumes border: "\<And>t. reg = Some t \<Longrightarrow> t (rawlen t + 1) = None"
    and new: "lua__new_map rawlen reg w h (Some f) u = Some (m, reg')"
  shows "getfuncbyref reg' (map_ref m) = Some (Some f) \<and> getfuncbyref (lua__gc reg' m) (map_ref m) = Some None \<and>
    (\<forall>ref g. getfuncbyref reg ref = Some (Some g) \<longrightarrow> ref \<noteq> map_ref m \<and>
       getfuncbyref reg' ref = Some (Some g) \<and> getfuncbyref (lua__gc reg' m) ref = Some (Some g))"
  using new border
  by (auto simp: lua__new_map_def pushfunc_def getfuncbyref_def lua__gc_def unreffunc_def Let_def split: option.splits)

definition demo_len :: "(int \<Rightarrow> lfun option) \<Rightarrow> int" where
  "demo_len t = (if t 1 = None then 0 else 1)"

theorem map_functions_witness:
  "\<exists>m reg'. lua__new_map demo_len demo_reg 2 2 (Some demo_script) 0 = Some (m, reg') \<and> map_ref m = 2 \<and>
     getfuncbyref reg' 2 = Some (Some demo_script) \<and> getfuncbyref reg' 1 = Some (Some demo_script) \<and>
     getfuncbyref (lua__gc reg' m) 1 = Some (Some demo_script)"
proof -
  obtain m reg' where new: "lua__new_map demo_len demo_reg 2 2 (Some demo_script) 0 = Some (m, reg')"
    by (simp add: lua__new_map_def pushfunc_def Let_def)
  then have "map_ref m = 2" by (auto simp: lua__new_map_def pushfunc_def demo_reg_def demo_len_def Let_def)
  moreover have "getfuncbyref demo_reg 1 = Some (Some demo_script)" by (simp add: getfuncbyref_def demo_reg_def)
  moreover have "demo_reg = Some t \<Longrightarrow> t (demo_len t + 1) = None" for t
    by (auto simp: demo_reg_def demo_len_def)
  ultimately show ?thesis using map_functions [OF _ new] new by auto
qed

end
