(* ===== verification/Log.thy ===== *)
theory Log
  imports Prelude
begin

text \<open>
  The asynchronous logger (\<open>lua-log.c\<close>). Threads that log append messages to the current buffer
  under a lock; a worker thread takes the full buffers and the current one, writes their messages
  to the files of their levels and hands the buffers back. Buffers are linked through \<open>next\<close> and
  move between the two sides, so they live in an explicit heap. The clock, the answers of the file
  system and the success of an allocation are arguments. The calls of \<open>fwrite\<close> are recorded in
  the order they are made.
\<close>

section \<open>The model\<close>

definition ONE_MB :: int where "ONE_MB = 1024 * 1024"
definition DEFAULT_ROLL_SIZE :: int where "DEFAULT_ROLL_SIZE = 512 * ONE_MB"
definition DEFAULT_BASENAME :: string where "DEFAULT_BASENAME = ''default''"
definition DEFAULT_INTERVAL :: int where "DEFAULT_INTERVAL = 5"
definition LOG_MAX :: nat where "LOG_MAX = 16 * 1024"
definition LOG_MESSAGE_SIZE :: nat where "LOG_MESSAGE_SIZE = 512"
definition LOG_LEVEL_NUM :: nat where "LOG_LEVEL_NUM = 200"
definition LOGGER_FNAME_LEN :: nat where "LOGGER_FNAME_LEN = 64"

type_synonym addr = nat

record buffer_message =
  data :: string
  level :: nat

text \<open>The messages below \<open>size\<close> are the elements of the list.\<close>

record buffer =
  bnext :: "addr option"
  message :: "buffer_message list"

record buffer_list =
  head :: "addr option"
  tail :: "addr option"
  lsize :: nat

text \<open>A file handle: none, the standard output, or the file of that name opened for appending.\<close>

datatype handle = NoFile | Stdout | File string

record log_file =
  handle :: handle
  use_basename :: bool
  dirname :: string
  written_bytes :: nat
  roll_hour :: int
  roll_day :: int
  roll_type :: int
  logger_fname :: string

record logger =
  heap :: "addr \<Rightarrow> buffer option"
  fresh :: addr
  min_level :: int
  rollsize :: int
  basename :: string
  flush_interval :: int
  files :: "nat \<Rightarrow> log_file"
  curr_buffer :: addr
  next_buffer :: "addr option"
  buffers :: buffer_list
  running :: bool
  disk :: "string \<Rightarrow> nat"
  fwrites :: "(handle \<times> buffer_message) list"

text \<open>
  The environment of one step: the hour and day, the two forms of the time in file names, and
  what \<open>opendir\<close>, \<open>mkdir\<close>, \<open>fopen\<close> and \<open>stat\<close> answer for a name.
\<close>

datatype dir_state = DirExists | DirMissing | DirError

record environment =
  tm_hour :: int
  tm_mday :: int
  time_hour :: string
  time_day :: string
  opendir :: "string \<Rightarrow> dir_state"
  mkdir_ok :: "string \<Rightarrow> bool"
  fopen_ok :: "string \<Rightarrow> bool"
  stat_ok :: "string \<Rightarrow> bool"

subsection \<open>Memory\<close>

definition deref :: "logger \<Rightarrow> addr \<Rightarrow> buffer cres" where
  "deref s a = (case heap s a of Some b \<Rightarrow> Inr b | None \<Rightarrow> Inl Dangling)"

definition store :: "addr \<Rightarrow> buffer \<Rightarrow> logger \<Rightarrow> logger" where
  "store a b s = s\<lparr>heap := (heap s)(a \<mapsto> b)\<rparr>"

definition empty_buffer :: buffer where
  "empty_buffer = \<lparr>bnext = None, message = []\<rparr>"

definition calloc_buffer :: "logger \<Rightarrow> addr \<times> logger" where
  "calloc_buffer s = (fresh s, (store (fresh s) empty_buffer s)\<lparr>fresh := fresh s + 1\<rparr>)"

definition set_next :: "addr \<Rightarrow> addr option \<Rightarrow> logger \<Rightarrow> logger cres" where
  "set_next a n s = bind_res (deref s a) (\<lambda>b. Inr (store a (b\<lparr>bnext := n\<rparr>) s))"

text \<open>A string in an array of 64 characters that \<open>strncpy\<close> filled: without a terminator when
  it has 64 characters or more, so that reading it leaves the array.\<close>

definition strncpy64 :: "string \<Rightarrow> string" where
  "strncpy64 s = take 64 s"

definition read64 :: "string \<Rightarrow> string cres" where
  "read64 s = (if length s < 64 then Inr s else Inl OutOfBounds)"

definition snprintf128 :: "string \<Rightarrow> string" where
  "snprintf128 s = take 127 s"

subsection \<open>Files\<close>

fun show_int :: "nat \<Rightarrow> string" where
  "show_int n = (if n < 10 then [char_of (n + 48)] else show_int (n div 10) @ [char_of (n mod 10 + 48)])"

declare show_int.simps [simp del]

text \<open>The time is not formatted for a roll type other than 0 and 1; the buffer is then not
  initialised.\<close>

definition timebuf :: "environment \<Rightarrow> int \<Rightarrow> string cres" where
  "timebuf e rolltype =
     (if rolltype = 0 then Inr (time_hour e) else if rolltype = 1 then Inr (time_day e) else Inl OutOfBounds)"

definition get_log_filename ::
    "environment \<Rightarrow> bool \<Rightarrow> string \<Rightarrow> int \<Rightarrow> nat \<Rightarrow> string \<Rightarrow> string cres" where
  "get_log_filename e use_base base rolltype index fname =
     bind_res (timebuf e rolltype) (\<lambda>time.
     let plain = base = DEFAULT_BASENAME \<or> \<not> use_base in
     Inr (snprintf128
       (if index = 0 then
          if plain then fname @ ''.'' @ time @ ''.log''
          else base @ ''.'' @ fname @ ''.'' @ time @ ''.log''
        else
          if plain then fname @ ''.'' @ time @ ''.'' @ show_int index @ ''.log''
          else base @ ''.'' @ fname @ ''.'' @ time @ ''.'' @ show_int index @ ''.log'')))"

definition set_file :: "nat \<Rightarrow> (log_file \<Rightarrow> log_file) \<Rightarrow> logger \<Rightarrow> logger" where
  "set_file lv f s = s\<lparr>files := (files s)(lv := f (files s lv))\<rparr>"

text \<open>\<open>inst.written_bytes >= inst.rollsize\<close> compares as \<open>size_t\<close>: a negative size counts as more
  than any number of bytes.\<close>

definition reaches :: "nat \<Rightarrow> int \<Rightarrow> bool" where
  "reaches bytes limit \<longleftrightarrow> 0 \<le> limit \<and> limit \<le> int bytes"

definition exceeds :: "nat \<Rightarrow> int \<Rightarrow> bool" where
  "exceeds bytes limit \<longleftrightarrow> 0 \<le> limit \<and> limit < int bytes"

primrec roll_loop :: "nat \<Rightarrow> environment \<Rightarrow> nat \<Rightarrow> nat \<Rightarrow> logger \<Rightarrow> logger cres" where
  "roll_loop 0 e lv index s = Inl Diverges"
| "roll_loop (Suc fuel) e lv index s =
     (let f = files s lv in
      bind_res (read64 (dirname f)) (\<lambda>dir.
      bind_res (read64 (basename s)) (\<lambda>base.
      bind_res (read64 (logger_fname f)) (\<lambda>fname.
      bind_res (get_log_filename e (use_basename f) base (roll_type f) index fname) (\<lambda>name.
      let path = snprintf128 (dir @ ''/'' @ name) in
      if \<not> fopen_ok e path then Inr (set_file lv (\<lambda>f. f\<lparr>handle := Stdout\<rparr>) s)
      else
        let s = set_file lv (\<lambda>f. f\<lparr>handle := File path,
              written_bytes := if stat_ok e path then disk s path else written_bytes f\<rparr>) s in
        if reaches (written_bytes (files s lv)) (rollsize s) then roll_loop fuel e lv (index + 1) s
        else Inr (set_file lv (\<lambda>f.
               if roll_type f = 0 then f\<lparr>roll_hour := tm_hour e\<rparr>
               else if roll_type f = 1 then f\<lparr>roll_day := tm_mday e\<rparr> else f) s))))))"

definition rollfile :: "nat \<Rightarrow> environment \<Rightarrow> nat \<Rightarrow> logger \<Rightarrow> logger cres" where
  "rollfile fuel e lv s =
     (if handle (files s lv) = Stdout then Inr s
      else
        bind_res (read64 (dirname (files s lv))) (\<lambda>dir.
          case opendir e dir of
            DirMissing \<Rightarrow>
              if \<not> mkdir_ok e dir then Inr (set_file lv (\<lambda>f. f\<lparr>handle := Stdout\<rparr>) s)
              else roll_loop fuel e lv 0 s
          | DirError \<Rightarrow> Inr (set_file lv (\<lambda>f. f\<lparr>handle := Stdout\<rparr>) s)
          | DirExists \<Rightarrow> roll_loop fuel e lv 0 s))"

subsection \<open>The threads that log\<close>

text \<open>The current buffer joins the list of full ones.\<close>

definition push_full :: "logger \<Rightarrow> logger cres" where
  "push_full s =
     bind_res
       (case head (buffers s) of
          None \<Rightarrow>
            if tail (buffers s) \<noteq> None then Inl AssertFail
            else Inr (s\<lparr>buffers := (buffers s)\<lparr>head := Some (curr_buffer s), tail := Some (curr_buffer s)\<rparr>\<rparr>)
        | Some h \<Rightarrow>
            (case tail (buffers s) of
               None \<Rightarrow> Inl NullDeref
             | Some t \<Rightarrow>
                 bind_res (set_next t (Some (curr_buffer s)) s) (\<lambda>s.
                   Inr (s\<lparr>buffers := (buffers s)\<lparr>tail := Some (curr_buffer s)\<rparr>\<rparr>))))
       (\<lambda>s.
          let s = s\<lparr>buffers := (buffers s)\<lparr>lsize := lsize (buffers s) + 1\<rparr>\<rparr> in
          bind_res (deref s (curr_buffer s)) (\<lambda>b. if bnext b \<noteq> None then Inl AssertFail else Inr s))"

text \<open>The spare buffer or a new one becomes the current one; \<open>None\<close> when there is no memory.\<close>

definition next_current :: "bool \<Rightarrow> logger \<Rightarrow> (logger \<times> bool) cres" where
  "next_current calloc_ok s =
     (case next_buffer s of
        Some n \<Rightarrow>
          bind_res (set_next (curr_buffer s) (Some n) s) (\<lambda>s.
            Inr (s\<lparr>curr_buffer := n, next_buffer := None\<rparr>, True))
      | None \<Rightarrow>
          if \<not> calloc_ok then Inr (s, False)
          else
            let (n, s) = calloc_buffer s in
            bind_res (set_next (curr_buffer s) (Some n) s) (\<lambda>s. Inr (s\<lparr>curr_buffer := n\<rparr>, True)))"

definition put_message :: "nat \<Rightarrow> buffer_message \<Rightarrow> logger \<Rightarrow> logger cres" where
  "put_message msg_size m s =
     bind_res (deref s (curr_buffer s)) (\<lambda>b.
       if LOG_MESSAGE_SIZE \<le> msg_size \<or> LOG_MAX < length (data m) then Inl OutOfBounds
       else Inr (store (curr_buffer s) (b\<lparr>message := take msg_size (message b) @ [m]\<rparr>) s))"

definition append_log ::
    "bool \<Rightarrow> string \<Rightarrow> int \<Rightarrow> string \<Rightarrow> bool \<Rightarrow> int \<Rightarrow> logger \<Rightarrow> logger cres" where
  "append_log calloc_ok logline loglevel logdir use_base rolltype s =
     (if loglevel < 0 \<or> int LOG_LEVEL_NUM \<le> loglevel then Inl OutOfBounds
      else
        let lv = nat loglevel;
            s = (if dirname (files s lv) = [] then
                   set_file lv (\<lambda>f. f\<lparr>dirname := strncpy64 logdir, use_basename := use_base\<rparr>) s
                 else s);
            s = set_file lv (\<lambda>f. f\<lparr>roll_type := rolltype\<rparr>) s in
        bind_res (deref s (curr_buffer s)) (\<lambda>b.
          let msg_size = length (message b); m = \<lparr>data = logline, level = lv\<rparr> in
          if LOG_MESSAGE_SIZE \<le> msg_size + 1 then
            bind_res (push_full s) (\<lambda>s.
            bind_res (next_current calloc_ok s) (\<lambda>(s, ok).
              if \<not> ok then Inr s else put_message 0 m s))
          else put_message msg_size m s))"

definition lwrite ::
    "bool \<Rightarrow> int \<Rightarrow> string option \<Rightarrow> string option \<Rightarrow> string option \<Rightarrow> bool \<Rightarrow> int \<Rightarrow> logger \<Rightarrow> logger cres" where
  "lwrite calloc_ok loglevel prefix line dir base rolltype s =
     (case (line, prefix, dir) of
        (Some line, Some prefix, Some dir) \<Rightarrow>
          if min_level s \<le> loglevel then
            if loglevel < 0 \<or> int LOG_LEVEL_NUM \<le> loglevel then Inl OutOfBounds
            else
              let lv = nat loglevel;
                  s = (if logger_fname (files s lv) = [] then
                         set_file lv (\<lambda>f. f\<lparr>logger_fname := strncpy64 prefix\<rparr>) s
                       else s);
                  msg = take (LOG_MAX - 1) (line @ [CHR 0x0A])
              in append_log calloc_ok msg loglevel dir base rolltype s
          else Inr s
      | _ \<Rightarrow> Inr s)"

subsection \<open>The worker\<close>

text \<open>Where the worker is: before the test of \<open>running\<close>, before the lock, writing a list of
  buffers, about to give buffers back, or at its end.\<close>

datatype position = Top | Locking | Writing "addr option" nat | Flushing | Ended

record worker =
  position :: position
  new_buffer1 :: "addr option"
  new_buffer2 :: "addr option"
  to_write :: buffer_list
  now_hour :: int
  now_day :: int
  need_flush :: "nat \<Rightarrow> bool"

definition no_buffers :: buffer_list where
  "no_buffers = \<lparr>head = None, tail = None, lsize = 0\<rparr>"

definition fresh_buffer :: "logger \<Rightarrow> addr option \<Rightarrow> bool cres" where
  "fresh_buffer s p = (case p of None \<Rightarrow> Inl NullDeref | Some a \<Rightarrow> bind_res (deref s a) (\<lambda>b. Inr (message b = [])))"

definition w_top :: "logger \<Rightarrow> worker \<Rightarrow> (logger \<times> worker) cres" where
  "w_top s w =
     (if \<not> running s then Inr (s, w\<lparr>position := Ended\<rparr>)
      else if head (to_write w) \<noteq> None then Inl AssertFail
      else
        bind_res (fresh_buffer s (new_buffer1 w)) (\<lambda>f1.
        bind_res (fresh_buffer s (new_buffer2 w)) (\<lambda>f2.
          if f1 \<and> f2 then Inr (s, w\<lparr>position := Locking\<rparr>) else Inl AssertFail)))"

text \<open>Buffers after the second are freed when more than 25 wait.\<close>

primrec free_from :: "nat \<Rightarrow> addr option \<Rightarrow> logger \<Rightarrow> logger cres" where
  "free_from 0 n s = (if n = None then Inr s else Inl Diverges)"
| "free_from (Suc fuel) n s =
     (case n of
        None \<Rightarrow> Inr s
      | Some a \<Rightarrow> bind_res (deref s a) (\<lambda>b. free_from fuel (bnext b) (s\<lparr>heap := (heap s)(a := None)\<rparr>)))"

definition drop_buffers :: "logger \<Rightarrow> buffer_list \<Rightarrow> (logger \<times> buffer_list) cres" where
  "drop_buffers s l =
     (if lsize l > 25 then
        case head l of
          None \<Rightarrow> Inl NullDeref
        | Some h \<Rightarrow>
            bind_res (deref s h) (\<lambda>hb.
              case bnext hb of
                None \<Rightarrow> Inl NullDeref
              | Some t \<Rightarrow>
                  bind_res (deref s t) (\<lambda>tb.
                  bind_res (free_from (lsize l) (bnext tb) s) (\<lambda>s.
                  bind_res (set_next t None s) (\<lambda>s.
                    Inr (s, \<lparr>head = Some h, tail = Some t, lsize = 2\<rparr>)))))
      else Inr (s, l))"

definition w_swap :: "environment \<Rightarrow> logger \<Rightarrow> worker \<Rightarrow> (logger \<times> worker) cres" where
  "w_swap e s w =
     (case new_buffer1 w of
        None \<Rightarrow> Inl NullDeref
      | Some n1 \<Rightarrow>
          let bs = buffers s;
              taken = \<lparr>head = (if head bs = None then Some (curr_buffer s) else head bs),
                       tail = Some (curr_buffer s), lsize = lsize bs + 1\<rparr>;
              s = s\<lparr>curr_buffer := n1, buffers := no_buffers\<rparr>;
              (next, n2) = (if next_buffer s = None then (new_buffer2 w, None) else (next_buffer s, new_buffer2 w));
              s = s\<lparr>next_buffer := next\<rparr> in
          if lsize taken = 0 then Inl AssertFail
          else
            bind_res (drop_buffers s taken) (\<lambda>(s, taken).
              Inr (s, w\<lparr>position := Writing (head taken) 0, new_buffer1 := None, new_buffer2 := n2,
                to_write := taken, now_hour := tm_hour e, now_day := tm_mday e, need_flush := (\<lambda>_. False)\<rparr>)))"

definition fwrite :: "nat \<Rightarrow> buffer_message \<Rightarrow> logger \<Rightarrow> logger" where
  "fwrite lv m s =
     (let h = handle (files s lv); n = length (data m);
          s = s\<lparr>fwrites := fwrites s @ [(h, m)], disk := (case h of File p \<Rightarrow> (disk s)(p := disk s p + n) | _ \<Rightarrow> disk s)\<rparr>
      in set_file lv (\<lambda>f. f\<lparr>written_bytes := written_bytes f + n\<rparr>) s)"

definition new_period :: "worker \<Rightarrow> log_file \<Rightarrow> bool" where
  "new_period w f \<longleftrightarrow>
     (roll_type f = 0 \<and> roll_hour f \<ge> 0 \<and> roll_hour f \<noteq> now_hour w) \<or>
     (roll_type f = 1 \<and> roll_day f > 0 \<and> roll_day f \<noteq> now_day w)"

definition write_message :: "nat \<Rightarrow> environment \<Rightarrow> buffer_message \<Rightarrow> logger \<Rightarrow> worker \<Rightarrow> (logger \<times> worker) cres" where
  "write_message fuel e m s w =
     (let lv = level m in
      bind_res (if handle (files s lv) = NoFile then rollfile fuel e lv s else Inr s) (\<lambda>s.
        if handle (files s lv) \<noteq> NoFile then
          bind_res (if new_period w (files s lv) then rollfile fuel e lv s else Inr s) (\<lambda>s.
            Inr (fwrite lv m s, w\<lparr>need_flush := (need_flush w)(lv := True)\<rparr>))
        else Inr (s, w)))"

definition w_write :: "nat \<Rightarrow> environment \<Rightarrow> logger \<Rightarrow> worker \<Rightarrow> (logger \<times> worker) cres" where
  "w_write fuel e s w =
     (case position w of
        Writing (Some a) i \<Rightarrow>
          bind_res (deref s a) (\<lambda>b.
            if i < length (message b) then
              bind_res (write_message fuel e (message b ! i) s w) (\<lambda>(s, w).
                Inr (s, w\<lparr>position := Writing (Some a) (i + 1)\<rparr>))
            else Inr (s, w\<lparr>position := Writing (bnext b) 0\<rparr>))
      | _ \<Rightarrow> Inr (s, w\<lparr>position := Flushing\<rparr>))"

definition flush_level :: "nat \<Rightarrow> environment \<Rightarrow> worker \<Rightarrow> nat \<Rightarrow> logger \<Rightarrow> logger cres" where
  "flush_level fuel e w lv s =
     (if need_flush w lv \<and> exceeds (written_bytes (files s lv)) (rollsize s) then rollfile fuel e lv s else Inr s)"

text \<open>The first buffer of the list is emptied and taken from it, unless there is one already.\<close>

definition recycle :: "addr option \<Rightarrow> buffer_list \<Rightarrow> logger \<Rightarrow> (addr option \<times> buffer_list \<times> logger) cres" where
  "recycle p l s =
     (if p \<noteq> None then Inr (p, l, s)
      else if lsize l = 0 then Inl AssertFail
      else case head l of
        None \<Rightarrow> Inl NullDeref
      | Some a \<Rightarrow>
          bind_res (deref s a) (\<lambda>b.
            Inr (Some a, l\<lparr>head := bnext b, lsize := lsize l - 1\<rparr>, store a empty_buffer s)))"

definition w_flush :: "nat \<Rightarrow> environment \<Rightarrow> logger \<Rightarrow> worker \<Rightarrow> (logger \<times> worker) cres" where
  "w_flush fuel e s w =
     bind_res (for_res (flush_level fuel e w) [0..<LOG_LEVEL_NUM] s) (\<lambda>s.
     bind_res (recycle (new_buffer1 w) (to_write w) s) (\<lambda>(n1, l, s).
     bind_res (recycle (new_buffer2 w) l s) (\<lambda>(n2, l, s).
     bind_res (free_from (lsize l) (head l) s) (\<lambda>s.
       Inr (s, w\<lparr>position := Top, new_buffer1 := n1, new_buffer2 := n2, to_write := no_buffers\<rparr>)))))"

definition w_step :: "nat \<Rightarrow> environment \<Rightarrow> logger \<Rightarrow> worker \<Rightarrow> (logger \<times> worker) cres" where
  "w_step fuel e s w =
     (case position w of
        Top \<Rightarrow> w_top s w
      | Locking \<Rightarrow> w_swap e s w
      | Writing n i \<Rightarrow> w_write fuel e s w
      | Flushing \<Rightarrow> w_flush fuel e s w
      | Ended \<Rightarrow> Inr (s, w))"

subsection \<open>Start and end\<close>

definition empty_file :: log_file where
  "empty_file = \<lparr>handle = NoFile, use_basename = False, dirname = [], written_bytes = 0, roll_hour = -1,
     roll_day = -1, roll_type = 0, logger_fname = []\<rparr>"

text \<open>The product with \<open>ONE_MB\<close> is an \<open>int\<close>.\<close>

definition roll_bytes :: "int \<Rightarrow> int" where
  "roll_bytes n = (if n > 0 then sint (word_of_int (n * ONE_MB) :: u32) else DEFAULT_ROLL_SIZE)"

definition linit :: "int \<Rightarrow> int \<Rightarrow> int \<Rightarrow> string option \<Rightarrow> (string \<Rightarrow> nat) \<Rightarrow> logger \<times> worker" where
  "linit lvl roll interval base on_disk =
     (let s = \<lparr>heap = (\<lambda>_. None), fresh = 0, min_level = lvl, rollsize = roll_bytes roll,
            basename = strncpy64 (case base of None \<Rightarrow> DEFAULT_BASENAME | Some b \<Rightarrow> b),
            flush_interval = (if interval > 0 then interval else DEFAULT_INTERVAL),
            files = (\<lambda>_. empty_file), curr_buffer = 0, next_buffer = None, buffers = no_buffers,
            running = True, disk = on_disk, fwrites = []\<rparr>;
          (c, s) = calloc_buffer s; (n, s) = calloc_buffer s;
          (n1, s) = calloc_buffer s; (n2, s) = calloc_buffer s
      in (s\<lparr>curr_buffer := c, next_buffer := Some n\<rparr>,
          \<lparr>position = Top, new_buffer1 = Some n1, new_buffer2 = Some n2, to_write = no_buffers,
           now_hour = 0, now_day = 0, need_flush = (\<lambda>_. False)\<rparr>))"

text \<open>What \<open>log_exit\<close> does before it waits for the worker.\<close>

definition log_exit :: "logger \<Rightarrow> logger" where
  "log_exit s = s\<lparr>running := False\<rparr>"

end
