(* ===== verification/Log_Proofs.thy ===== *)
theory Log_Proofs
  imports Log "HOL-Library.Sublist"
begin

text \<open>
  Correctness of the logger: in every interleaving of the threads no assertion fails and no freed
  buffer is used, and messages are written in the order they were appended, all of them as long
  as the worker keeps up. Three ways in which messages or the process are lost are shown.
\<close>

section \<open>Linked buffers\<close>

fun linked :: "(addr \<Rightarrow> buffer option) \<Rightarrow> addr option \<Rightarrow> addr list \<Rightarrow> bool" where
  "linked h n [] \<longleftrightarrow> n = None"
| "linked h n (x # xs) \<longleftrightarrow> n = Some x \<and> (case h x of None \<Rightarrow> False | Some b \<Rightarrow> linked h (bnext b) xs)"

definition msgs :: "(addr \<Rightarrow> buffer option) \<Rightarrow> addr list \<Rightarrow> buffer_message list" where
  "msgs h xs = concat (map (\<lambda>a. message (the (h a))) xs)"

text \<open>The messages of the buffers from an address on.\<close>

primrec collect :: "nat \<Rightarrow> (addr \<Rightarrow> buffer option) \<Rightarrow> addr option \<Rightarrow> buffer_message list" where
  "collect 0 h n = []"
| "collect (Suc fuel) h n =
     (case n of None \<Rightarrow> [] | Some a \<Rightarrow>
       (case h a of None \<Rightarrow> [] | Some b \<Rightarrow> message b @ collect fuel h (bnext b)))"

lemma msgs_simps [simp]:
  "msgs h [] = []" "msgs h (x # xs) = message (the (h x)) @ msgs h xs" "msgs h (xs @ ys) = msgs h xs @ msgs h ys"
  by (simp_all add: msgs_def)

lemma linked_cong: "(\<And>a. a \<in> set xs \<Longrightarrow> h' a = h a) \<Longrightarrow> linked h n xs \<Longrightarrow> linked h' n xs"
  by (induction xs arbitrary: n) (auto split: option.splits)

lemma msgs_cong: "(\<And>a. a \<in> set xs \<Longrightarrow> h' a = h a) \<Longrightarrow> msgs h' xs = msgs h xs"
  by (auto simp: msgs_def intro!: arg_cong [of _ _ concat] map_cong)

lemma linked_alloc: "linked h n xs \<Longrightarrow> a \<in> set xs \<Longrightarrow> \<exists>b. h a = Some b"
  by (induction xs arbitrary: n) (auto split: option.splits)

lemma linked_last: "linked h n (xs @ [c]) \<Longrightarrow> \<exists>b. h c = Some b \<and> bnext b = None"
  by (induction xs arbitrary: n) (auto split: option.splits)

lemma linked_head: "linked h n (x # xs) \<Longrightarrow> n = Some x"
  by simp

lemma linked_next: "linked h n (xs @ [c, d] @ ys) \<Longrightarrow> \<exists>b. h c = Some b \<and> bnext b = Some d"
  by (induction xs arbitrary: n) (auto split: option.splits)

lemma linked_suffix: "linked h n (xs @ ys) \<Longrightarrow> \<exists>m. linked h m ys"
  by (induction xs arbitrary: n) (auto split: option.splits)

lemma linked_extend:
  assumes "linked h n (xs @ [c])" "c \<notin> set xs" "h c = Some b" "m \<notin> set (xs @ [c])"
    and "h' c = Some (b\<lparr>bnext := Some m\<rparr>)" "h' m = Some e" "bnext e = None" "\<And>a. a \<in> set xs \<Longrightarrow> h' a = h a"
  shows "linked h' n ((xs @ [c]) @ [m])"
  using assms
proof (induction xs arbitrary: n)
  case (Cons x xs)
  then show ?case by (auto split: option.splits)
qed simp

lemma collect_linked: "linked h n xs \<Longrightarrow> length xs \<le> fuel \<Longrightarrow> collect fuel h n = msgs h xs"
proof (induction xs arbitrary: n fuel)
  case Nil
  then show ?case by (cases fuel) auto
next
  case (Cons x xs)
  then obtain f where "fuel = Suc f" by (cases fuel) auto
  with Cons show ?case by (auto split: option.splits)
qed

lemma free_from_linked:
  "linked (heap s) n xs \<Longrightarrow> distinct xs \<Longrightarrow> length xs \<le> fuel \<Longrightarrow>
   free_from fuel n s = Inr (s\<lparr>heap := (\<lambda>a. if a \<in> set xs then None else heap s a)\<rparr>)"
proof (induction xs arbitrary: n fuel s)
  case Nil
  then show ?case by (cases fuel) auto
next
  case (Cons x xs)
  then obtain f b where f: "fuel = Suc f" and b: "heap s x = Some b" "n = Some x" "linked (heap s) (bnext b) xs"
    by (cases fuel) (auto split: option.splits)
  let ?s = "s\<lparr>heap := (heap s)(x := None)\<rparr>"
  have "linked (heap ?s) (bnext b) xs" using b(3) Cons.prems(2) by (auto intro: linked_cong [rotated])
  from Cons.IH [OF this] have "free_from f (bnext b) ?s = Inr (?s\<lparr>heap := (\<lambda>a. if a \<in> set xs then None else heap ?s a)\<rparr>)"
    using Cons.prems f by simp
  moreover have "?s\<lparr>heap := (\<lambda>a. if a \<in> set xs then None else heap ?s a)\<rparr> =
      s\<lparr>heap := (\<lambda>a. if a \<in> set (x # xs) then None else heap s a)\<rparr>" by (auto simp: fun_eq_iff)
  ultimately show ?case using f b by (simp add: deref_def)
qed

section \<open>The invariant\<close>

definition opt :: "addr option \<Rightarrow> addr list" where
  "opt p = (case p of None \<Rightarrow> [] | Some a \<Rightarrow> [a])"

lemma opt_simps [simp]: "opt None = []" "opt (Some a) = [a]"
  by (simp_all add: opt_def)

text \<open>Full buffers \<open>xs\<close> before the current one, buffers \<open>ys\<close> of the worker and those of them,
  \<open>zs\<close>, that are not written yet.\<close>

definition front_ok :: "logger \<Rightarrow> addr list \<Rightarrow> bool" where
  "front_ok s xs \<longleftrightarrow>
     linked (heap s) (Some (hd (xs @ [curr_buffer s]))) (xs @ [curr_buffer s]) \<and>
     buffers s = \<lparr>head = (if xs = [] then None else Some (hd xs)), tail = (if xs = [] then None else Some (last xs)),
       lsize = length xs\<rparr> \<and> (next_buffer s = None \<longrightarrow> xs \<noteq> [])"

definition back_ok :: "logger \<Rightarrow> worker \<Rightarrow> addr list \<Rightarrow> addr list \<Rightarrow> bool" where
  "back_ok s w ys zs \<longleftrightarrow>
     linked (heap s) (head (to_write w)) ys \<and> lsize (to_write w) = length ys \<and>
     (case position w of
        Writing n i \<Rightarrow> new_buffer1 w = None \<and> ys \<noteq> [] \<and> (new_buffer2 w = None \<longrightarrow> 2 \<le> length ys) \<and>
          suffix zs ys \<and> linked (heap s) n zs \<and> (if zs = [] then i = 0 else i \<le> length (message (the (heap s (hd zs)))))
      | Flushing \<Rightarrow> new_buffer1 w = None \<and> ys \<noteq> [] \<and> (new_buffer2 w = None \<longrightarrow> 2 \<le> length ys) \<and> zs = []
      | Ended \<Rightarrow> ys = [] \<and> zs = []
      | _ \<Rightarrow> new_buffer1 w \<noteq> None \<and> new_buffer2 w \<noteq> None \<and> ys = [] \<and> zs = [])"

definition heap_ok :: "logger \<Rightarrow> worker \<Rightarrow> addr list \<Rightarrow> addr list \<Rightarrow> bool" where
  "heap_ok s w xs ys \<longleftrightarrow>
     distinct (xs @ [curr_buffer s] @ opt (next_buffer s) @ opt (new_buffer1 w) @ opt (new_buffer2 w) @ ys) \<and>
     (\<forall>a\<in>set (opt (next_buffer s) @ opt (new_buffer1 w) @ opt (new_buffer2 w)). heap s a = Some empty_buffer) \<and>
     (\<forall>a\<ge>fresh s. heap s a = None) \<and> (\<forall>a b. heap s a = Some b \<longrightarrow> length (message b) < LOG_MESSAGE_SIZE)"

definition log_ok :: "logger \<Rightarrow> worker \<Rightarrow> addr list \<Rightarrow> addr list \<Rightarrow> addr list \<Rightarrow> bool" where
  "log_ok s w xs ys zs \<longleftrightarrow> front_ok s xs \<and> back_ok s w ys zs \<and> heap_ok s w xs ys"

text \<open>The messages that have been appended and not yet written.\<close>

definition unwritten :: "logger \<Rightarrow> worker \<Rightarrow> buffer_message list" where
  "unwritten s w =
     (case position w of Writing n i \<Rightarrow> drop i (collect (fresh s) (heap s) n) | _ \<Rightarrow> []) @
     collect (fresh s) (heap s) (case head (buffers s) of None \<Rightarrow> Some (curr_buffer s) | Some a \<Rightarrow> Some a)"

lemma below_fresh:
  assumes "heap_ok s w xs ys" "linked (heap s) n zs"
  shows "set zs \<subseteq> {..<fresh s}"
  using assms linked_alloc [of "heap s" n zs] by (fastforce simp: heap_ok_def not_le [symmetric])

lemma linked_length:
  assumes "heap_ok s w xs ys" "linked (heap s) n zs" "distinct zs"
  shows "length zs \<le> fresh s"
  using below_fresh [OF assms(1,2)] assms(3) card_mono [of "{..<fresh s}" "set zs"] by (simp add: distinct_card)

lemma unwritten_eq:
  assumes "log_ok s w xs ys zs"
  shows "unwritten s w =
    (case position w of Writing n i \<Rightarrow> drop i (msgs (heap s) zs) | _ \<Rightarrow> []) @ msgs (heap s) (xs @ [curr_buffer s])"
proof -
  have front: "front_ok s xs" and bk: "back_ok s w ys zs"
    and hp: "heap_ok s w xs ys" using assms by (auto simp: log_ok_def)
  have dist: "distinct (xs @ [curr_buffer s])" "distinct ys" using hp by (auto simp: heap_ok_def)
  have first: "(case head (buffers s) of None \<Rightarrow> Some (curr_buffer s) | Some a \<Rightarrow> Some a) = Some (hd (xs @ [curr_buffer s]))"
    using front by (auto simp: front_ok_def)
  have l: "linked (heap s) (Some (hd (xs @ [curr_buffer s]))) (xs @ [curr_buffer s])" using front by (simp add: front_ok_def)
  have "collect (fresh s) (heap s) (Some (hd (xs @ [curr_buffer s]))) = msgs (heap s) (xs @ [curr_buffer s])"
    using collect_linked [OF l linked_length [OF hp l dist(1)]] .
  moreover have "collect (fresh s) (heap s) n = msgs (heap s) zs" if "position w = Writing n i" for n i
  proof -
    have n: "linked (heap s) n zs" "suffix zs ys" using bk that by (simp_all add: back_ok_def)
    then have "distinct zs" using dist(2) by (auto simp: suffix_def)
    then show ?thesis using collect_linked [OF n(1) linked_length [OF hp n(1)]] by blast
  qed
  ultimately show ?thesis unfolding unwritten_def first by (simp split: position.splits)
qed

section \<open>Appending\<close>

text \<open>The names that are read from arrays of 64 characters are terminated and the roll types known.\<close>

definition names_ok :: "logger \<Rightarrow> bool" where
  "names_ok s \<longleftrightarrow> length (basename s) < 64 \<and>
     (\<forall>lv. length (dirname (files s lv)) < 64 \<and> length (logger_fname (files s lv)) < 64 \<and> roll_type (files s lv) \<in> {0, 1})"

lemma linked_same_next:
  "(\<And>a. map_option bnext (h' a) = map_option bnext (h a)) \<Longrightarrow> linked h' n xs = linked h n xs"
proof (induction xs arbitrary: n)
  case (Cons x xs)
  have "map_option bnext (h' x) = map_option bnext (h x)" using Cons.prems .
  then show ?case using Cons by (cases "h x"; cases "h' x") auto
qed simp

lemma log_ok_cong:
  assumes "heap s' = heap s" "fresh s' = fresh s" "curr_buffer s' = curr_buffer s" "next_buffer s' = next_buffer s"
    "buffers s' = buffers s"
  shows "log_ok s' w xs ys zs = log_ok s w xs ys zs" and "unwritten s' w = unwritten s w"
  unfolding log_ok_def front_ok_def back_ok_def heap_ok_def unwritten_def assms by (rule refl)+

lemma curr_alloc:
  assumes "log_ok s w xs ys zs"
  obtains b where "heap s (curr_buffer s) = Some b" "bnext b = None" "length (message b) < LOG_MESSAGE_SIZE"
proof -
  have "linked (heap s) (Some (hd (xs @ [curr_buffer s]))) (xs @ [curr_buffer s])"
    using assms by (simp add: log_ok_def front_ok_def)
  from linked_last [OF this] obtain b where "heap s (curr_buffer s) = Some b" "bnext b = None" by blast
  moreover have "length (message b) < LOG_MESSAGE_SIZE" using calculation assms by (simp add: log_ok_def heap_ok_def)
  ultimately show ?thesis by (rule that)
qed

lemma ys_alloc: "log_ok s w xs ys zs \<Longrightarrow> set zs \<subseteq> set ys"
  by (auto simp: log_ok_def back_ok_def split: position.splits dest: set_mono_suffix)

lemma put_ok:
  assumes ok: "log_ok s w xs ys zs" and b: "heap s (curr_buffer s) = Some b"
    and size: "length (message b) + 1 < LOG_MESSAGE_SIZE" "length (data m) \<le> LOG_MAX"
  shows "\<exists>s'. put_message (length (message b)) m s = Inr s' \<and> log_ok s' w xs ys zs \<and>
    unwritten s' w = unwritten s w @ [m] \<and> fwrites s' = fwrites s \<and> running s' = running s \<and>
    names_ok s' = names_ok s"
proof -
  let ?c = "curr_buffer s" and ?b = "b\<lparr>message := message b @ [m]\<rparr>"
  define s' where "s' = store ?c ?b s"
  have run: "put_message (length (message b)) m s = Inr s'"
    using b size by (simp add: put_message_def deref_def s'_def)
  have hp: "heap s' = (heap s)(?c \<mapsto> ?b)" and rest: "fresh s' = fresh s" "curr_buffer s' = ?c"
    "next_buffer s' = next_buffer s" "buffers s' = buffers s" "fwrites s' = fwrites s" "running s' = running s" "names_ok s' = names_ok s"
    by (simp_all add: s'_def store_def names_ok_def)
  have lk: "linked (heap s') n as = linked (heap s) n as" for n as
    using b by (intro linked_same_next) (simp add: hp)
  have c: "?c \<notin> set ys" "?c \<notin> set xs" "?c \<notin> set (opt (next_buffer s) @ opt (new_buffer1 w) @ opt (new_buffer2 w))"
    using ok by (auto simp: log_ok_def heap_ok_def)
  then have zs: "?c \<notin> set zs" using ys_alloc [OF ok] by blast
  have hd: "heap s' (hd zs) = heap s (hd zs)" if "zs \<noteq> []" using zs hd_in_set [OF that] by (auto simp: hp)
  have "front_ok s' xs" using ok by (simp add: log_ok_def front_ok_def lk rest)
  moreover have "back_ok s' w ys zs" using ok hd by (auto simp: log_ok_def back_ok_def lk rest split: position.splits)
  moreover have "?c < fresh s" using ok b by (fastforce simp: log_ok_def heap_ok_def not_le [symmetric])
  then have "heap_ok s' w xs ys" using ok c size by (auto simp: log_ok_def heap_ok_def rest hp)
  ultimately have ok': "log_ok s' w xs ys zs" by (simp add: log_ok_def)
  have "msgs (heap s') zs = msgs (heap s) zs" "msgs (heap s') xs = msgs (heap s) xs"
    using zs c by (auto intro!: msgs_cong simp: hp)
  then have "unwritten s' w = unwritten s w @ [m]"
    unfolding unwritten_eq [OF ok] unwritten_eq [OF ok'] by (simp add: rest b hp split: position.splits)
  then show ?thesis using run ok' rest by blast
qed

lemma push_full_ok:
  assumes "log_ok s w xs ys zs"
  shows "push_full s = Inr (s\<lparr>buffers := \<lparr>head = Some (hd (xs @ [curr_buffer s])), tail = Some (curr_buffer s),
    lsize = length xs + 1\<rparr>\<rparr>)"
proof -
  obtain b where b: "heap s (curr_buffer s) = Some b" "bnext b = None" using curr_alloc [OF assms] by blast
  have bs: "buffers s = \<lparr>head = (if xs = [] then None else Some (hd xs)), tail = (if xs = [] then None else Some (last xs)),
       lsize = length xs\<rparr>" and l: "linked (heap s) (Some (hd (xs @ [curr_buffer s]))) (xs @ [curr_buffer s])"
    using assms by (simp_all add: log_ok_def front_ok_def)
  show ?thesis
  proof (cases "xs = []")
    case True
    then show ?thesis using b bs by (simp add: push_full_def deref_def)
  next
    case False
    then obtain us t where us: "xs = us @ [t]" by (metis append_butlast_last_id)
    obtain tb where tb: "heap s t = Some tb" "bnext tb = Some (curr_buffer s)"
      using linked_next [of "heap s" _ us t "curr_buffer s" "[]"] l us by auto
    have "tb\<lparr>bnext := Some (curr_buffer s)\<rparr> = tb" using tb(2) by simp
    then have "store t (tb\<lparr>bnext := Some (curr_buffer s)\<rparr>) s = s" using tb(1) by (simp add: store_def fun_upd_idem)
    then have "set_next t (Some (curr_buffer s)) s = Inr s" using tb(1) by (simp add: set_next_def deref_def)
    then show ?thesis using False b bs us by (simp add: push_full_def deref_def hd_append)
  qed
qed

lemma back_ok_cong:
  assumes "back_ok s w ys zs" "\<And>a. a \<in> set ys \<Longrightarrow> heap s' a = heap s a"
  shows "back_ok s' w ys zs"
proof -
  have "set zs \<subseteq> set ys" using assms(1) by (auto simp: back_ok_def split: position.splits dest: set_mono_suffix)
  then have zs: "heap s' a = heap s a" if "a \<in> set zs" for a using assms(2) that by blast
  have "linked (heap s') (head (to_write w)) ys"
    using assms linked_cong [of ys "heap s'" "heap s"] by (auto simp: back_ok_def)
  moreover have "linked (heap s') n zs" if "linked (heap s) n zs" for n using linked_cong [OF zs that] .
  moreover have "heap s' (hd zs) = heap s (hd zs)" if "zs \<noteq> []" using zs [OF hd_in_set [OF that]] .
  ultimately show ?thesis using assms(1) by (auto simp: back_ok_def split: position.splits)
qed

text \<open>A new, empty buffer after the current one becomes the current one.\<close>

lemma advance_ok:
  assumes ok: "log_ok s w xs ys zs" and b: "heap s (curr_buffer s) = Some b"
    and n: "n \<notin> set (xs @ [curr_buffer s] @ opt (new_buffer1 w) @ opt (new_buffer2 w) @ ys)" "next_buffer s \<noteq> None \<longrightarrow> next_buffer s = Some n"
    and s': "heap s' = (heap s)(n \<mapsto> empty_buffer, curr_buffer s \<mapsto> b\<lparr>bnext := Some n\<rparr>)" "curr_buffer s' = n" "next_buffer s' = None"
    "buffers s' = \<lparr>head = Some (hd (xs @ [curr_buffer s])), tail = Some (curr_buffer s), lsize = length xs + 1\<rparr>"
    "fresh s \<le> fresh s'" "n < fresh s'"
  shows "log_ok s' w (xs @ [curr_buffer s]) ys zs" and "unwritten s' w = unwritten s w"
proof -
  let ?c = "curr_buffer s" and ?h = "heap s" and ?h' = "heap s'"
  have front: "front_ok s xs" and bk: "back_ok s w ys zs" and hp: "heap_ok s w xs ys" using ok by (auto simp: log_ok_def)
  have c: "?c \<notin> set xs" "?c \<notin> set ys" using hp by (auto simp: heap_ok_def)
  have other: "?h' a = ?h a" if "a \<noteq> n" "a \<noteq> ?c" for a using that by (simp add: s')
  have new: "?h' n = Some empty_buffer" using n(1) by (auto simp: s')
  have l: "linked ?h (Some (hd (xs @ [?c]))) (xs @ [?c])" using front by (simp add: front_ok_def)
  have lk: "linked ?h' (Some (hd (xs @ [?c]))) ((xs @ [?c]) @ [n])"
    by (rule linked_extend [OF l c(1) b, of n _ empty_buffer]) (use n(1) c new in \<open>auto simp: s' empty_buffer_def\<close>)
  have "hd ((xs @ [?c]) @ [n]) = hd (xs @ [?c])" by (cases xs) simp_all
  then have "front_ok s' (xs @ [?c])" using lk unfolding front_ok_def s'(2-4) by simp
  moreover have "back_ok s' w ys zs" using n(1) c by (intro back_ok_cong [OF bk] other) auto
  moreover have "heap_ok s' w (xs @ [?c]) ys"
  proof -
    have "?c < fresh s" using hp b by (fastforce simp: heap_ok_def not_le [symmetric])
    then have "?h' a = None" if "fresh s' \<le> a" for a using that hp s'(5,6) by (auto simp: s'(1) heap_ok_def)
    moreover have "length (message b') < LOG_MESSAGE_SIZE" if "?h' a = Some b'" for a b'
    proof -
      have "length (message b) < LOG_MESSAGE_SIZE" using hp b by (simp add: heap_ok_def)
      moreover have "length (message empty_buffer) < LOG_MESSAGE_SIZE" by (simp add: empty_buffer_def LOG_MESSAGE_SIZE_def)
      ultimately show ?thesis using that hp by (auto simp: s' heap_ok_def split: if_splits)
    qed
    moreover have "distinct ((xs @ [?c]) @ [n] @ opt (new_buffer1 w) @ opt (new_buffer2 w) @ ys)"
      using hp n(1) by (auto simp: heap_ok_def)
    moreover have "?h' a = Some empty_buffer" if "a \<in> set (opt (new_buffer1 w) @ opt (new_buffer2 w))" for a
    proof -
      have "a \<noteq> n" "a \<noteq> ?c" using that n(1) hp by (auto simp: heap_ok_def)
      then show ?thesis using that hp other by (simp add: heap_ok_def)
    qed
    ultimately show ?thesis unfolding heap_ok_def s'(2,3) by simp
  qed
  ultimately show ok': "log_ok s' w (xs @ [?c]) ys zs" by (simp add: log_ok_def)
  have zs: "set zs \<subseteq> set ys" using ys_alloc [OF ok] .
  then have "msgs ?h' zs = msgs ?h zs" using n(1) c by (intro msgs_cong other) auto
  moreover have "msgs ?h' xs = msgs ?h xs" using n(1) c by (intro msgs_cong other) auto
  moreover have "message (the (?h' ?c)) = message b" by (simp add: s')
  ultimately show "unwritten s' w = unwritten s w"
    unfolding unwritten_eq [OF ok] unwritten_eq [OF ok'] using b new by (simp add: s'(2) empty_buffer_def split: position.splits)
qed

lemma next_current_ok:
  assumes ok: "log_ok s w xs ys zs"
  shows "\<exists>s'. next_current True (s\<lparr>buffers := \<lparr>head = Some (hd (xs @ [curr_buffer s])), tail = Some (curr_buffer s),
      lsize = length xs + 1\<rparr>\<rparr>) = Inr (s', True) \<and> log_ok s' w (xs @ [curr_buffer s]) ys zs \<and>
    unwritten s' w = unwritten s w \<and> fwrites s' = fwrites s \<and> running s' = running s \<and> names_ok s' = names_ok s \<and>
    heap s' (curr_buffer s') = Some empty_buffer"
proof -
  obtain b where b: "heap s (curr_buffer s) = Some b" using curr_alloc [OF ok] by blast
  have hp: "heap_ok s w xs ys" and l: "linked (heap s) (Some (hd (xs @ [curr_buffer s]))) (xs @ [curr_buffer s])"
    and bk: "linked (heap s) (head (to_write w)) ys" using ok by (auto simp: log_ok_def front_ok_def back_ok_def)
  let ?l = "\<lparr>head = Some (hd (xs @ [curr_buffer s])), tail = Some (curr_buffer s), lsize = length xs + 1\<rparr>"
  show ?thesis
  proof (cases "next_buffer s")
    case (Some n)
    define s' where "s' = s\<lparr>heap := (heap s)(curr_buffer s \<mapsto> b\<lparr>bnext := Some n\<rparr>), curr_buffer := n, next_buffer := None, buffers := ?l\<rparr>"
    have n: "n \<notin> set (xs @ [curr_buffer s] @ opt (new_buffer1 w) @ opt (new_buffer2 w) @ ys)" "heap s n = Some empty_buffer"
      using hp Some by (auto simp: heap_ok_def)
    then have "n < fresh s" using hp by (fastforce simp: heap_ok_def not_le [symmetric])
    then have "log_ok s' w (xs @ [curr_buffer s]) ys zs" "unwritten s' w = unwritten s w"
      using advance_ok [OF ok b n(1), of s'] n Some by (simp_all add: s'_def fun_upd_idem)
    moreover have "heap s' (curr_buffer s') = Some empty_buffer" using n by (auto simp: s'_def)
    ultimately show ?thesis using Some b
      by (intro exI [of _ s']) (auto simp: names_ok_def next_current_def set_next_def deref_def store_def s'_def)
  next
    case None
    let ?n = "fresh s"
    define s' where "s' = s\<lparr>heap := (heap s)(?n \<mapsto> empty_buffer, curr_buffer s \<mapsto> b\<lparr>bnext := Some ?n\<rparr>), fresh := ?n + 1,
      curr_buffer := ?n, buffers := ?l\<rparr>"
    have "heap s ?n = None" using hp by (simp add: heap_ok_def)
    then have n: "?n \<notin> set (xs @ [curr_buffer s] @ opt (new_buffer1 w) @ opt (new_buffer2 w) @ ys)" "?n \<noteq> curr_buffer s"
      using hp linked_alloc [OF l] linked_alloc [OF bk] b by (fastforce simp: heap_ok_def)+
    then have "log_ok s' w (xs @ [curr_buffer s]) ys zs" "unwritten s' w = unwritten s w"
      using advance_ok [OF ok b n(1), of s'] None by (simp_all add: s'_def)
    moreover have "heap s' (curr_buffer s') = Some empty_buffer" using n by (simp add: s'_def)
    ultimately show ?thesis using None b n(2)
      by (intro exI [of _ s']) (auto simp: names_ok_def next_current_def calloc_buffer_def set_next_def deref_def store_def s'_def Let_def)
  qed
qed

lemma append_ok:
  assumes ok: "log_ok s w xs ys zs" and lv: "0 \<le> lv" "lv < int LOG_LEVEL_NUM" and len: "length line \<le> LOG_MAX"
  shows "\<exists>s' xs'. append_log True line lv dir base rt s = Inr s' \<and> log_ok s' w xs' ys zs \<and>
    unwritten s' w = unwritten s w @ [\<lparr>data = line, level = nat lv\<rparr>] \<and> fwrites s' = fwrites s \<and> running s' = running s \<and>
    (names_ok s \<longrightarrow> length dir < 64 \<longrightarrow> rt \<in> {0, 1} \<longrightarrow> names_ok s')"
proof -
  let ?m = "\<lparr>data = line, level = nat lv\<rparr>"
  define t where "t = set_file (nat lv) (\<lambda>f. f\<lparr>roll_type := rt\<rparr>)
    (if dirname (files s (nat lv)) = [] then set_file (nat lv) (\<lambda>f. f\<lparr>dirname := strncpy64 dir, use_basename := base\<rparr>) s else s)"
  have t: "heap t = heap s" "fresh t = fresh s" "curr_buffer t = curr_buffer s" "next_buffer t = next_buffer s"
      "buffers t = buffers s" "fwrites t = fwrites s" "running t = running s"
    by (simp_all add: t_def set_file_def)
  have nm: "names_ok t" if "names_ok s" "length dir < 64" "rt \<in> {0, 1}"
    using that by (auto simp: t_def set_file_def names_ok_def strncpy64_def)
  have okt: "log_ok t w xs ys zs" and un: "unwritten t w = unwritten s w" using log_ok_cong [OF t(1-5)] ok by simp_all
  obtain b where b: "heap t (curr_buffer t) = Some b" "length (message b) < LOG_MESSAGE_SIZE" using curr_alloc [OF okt] by blast
  have eq: "append_log True line lv dir base rt s =
      (if LOG_MESSAGE_SIZE \<le> length (message b) + 1 then
         bind_res (push_full t) (\<lambda>s. bind_res (next_current True s) (\<lambda>(s, ok). if \<not> ok then Inr s else put_message 0 ?m s))
       else put_message (length (message b)) ?m t)"
    using lv b by (simp add: append_log_def Let_def deref_def t_def)
  show ?thesis
  proof (cases "LOG_MESSAGE_SIZE \<le> length (message b) + 1")
    case True
    obtain u where u: "next_current True (t\<lparr>buffers := \<lparr>head = Some (hd (xs @ [curr_buffer t])), tail = Some (curr_buffer t),
        lsize = length xs + 1\<rparr>\<rparr>) = Inr (u, True)" "log_ok u w (xs @ [curr_buffer t]) ys zs"
        "unwritten u w = unwritten t w" "fwrites u = fwrites t" "running u = running t" "names_ok u = names_ok t" "heap u (curr_buffer u) = Some empty_buffer"
      using next_current_ok [OF okt] by (elim exE conjE) (rule that)
    have "length (message empty_buffer) + 1 < LOG_MESSAGE_SIZE" by (simp add: empty_buffer_def LOG_MESSAGE_SIZE_def)
    from put_ok [OF u(2,7) this, of ?m] len
    obtain s' where s': "put_message (length (message empty_buffer)) ?m u = Inr s'" "log_ok s' w (xs @ [curr_buffer t]) ys zs"
        "unwritten s' w = unwritten u w @ [?m]" "fwrites s' = fwrites u" "running s' = running u" "names_ok s' = names_ok u" by auto
    have "length (message empty_buffer) = 0" by (simp add: empty_buffer_def)
    then have "append_log True line lv dir base rt s = Inr s'"
      unfolding eq push_full_ok [OF okt] using True u(1) s'(1) by simp
    then show ?thesis using s'(2-6) u(3-6) un t(6,7) nm by metis
  next
    case False
    then have "length (message b) + 1 < LOG_MESSAGE_SIZE" by simp
    from put_ok [OF okt b(1) this, of ?m] len
    obtain s' where s': "put_message (length (message b)) ?m t = Inr s'" "log_ok s' w xs ys zs"
        "unwritten s' w = unwritten t w @ [?m]" "fwrites s' = fwrites t" "running s' = running t" "names_ok s' = names_ok t" by auto
    have "append_log True line lv dir base rt s = Inr s'" unfolding eq using False s'(1) by simp
    then show ?thesis using s'(2-6) un t(6,7) nm by metis
  qed
qed

section \<open>The worker\<close>

lemma front_ok_cong:
  assumes "front_ok s xs" "\<And>a. a \<in> set (xs @ [curr_buffer s]) \<Longrightarrow> heap s' a = heap s a"
    "curr_buffer s' = curr_buffer s" "next_buffer s' = next_buffer s" "buffers s' = buffers s"
  shows "front_ok s' xs"
proof -
  have "linked (heap s) (Some (hd (xs @ [curr_buffer s]))) (xs @ [curr_buffer s])" using assms(1) by (simp add: front_ok_def)
  from linked_cong [OF assms(2) this] show ?thesis using assms(1) unfolding front_ok_def assms(3-5) by simp
qed

lemma top_ok:
  assumes ok: "log_ok s w xs ys zs" and pos: "position w = Top"
  shows "\<exists>w'. w_top s w = Inr (s, w') \<and> log_ok s w' xs ys zs \<and> unwritten s w' = unwritten s w"
proof -
  obtain a b where ab: "new_buffer1 w = Some a" "new_buffer2 w = Some b" "ys = []" "zs = []" "head (to_write w) = None"
    using ok pos by (auto simp: log_ok_def back_ok_def)
  have "heap s a = Some empty_buffer" "heap s b = Some empty_buffer" using ok ab by (auto simp: log_ok_def heap_ok_def)
  then have "w_top s w = Inr (s, w\<lparr>position := if running s then Locking else Ended\<rparr>)"
    using ab by (simp add: w_top_def fresh_buffer_def deref_def empty_buffer_def)
  moreover have "log_ok s (w\<lparr>position := if running s then Locking else Ended\<rparr>) xs ys zs"
    using ok ab pos by (simp add: log_ok_def front_ok_def back_ok_def heap_ok_def)
  moreover have "unwritten s (w\<lparr>position := if running s then Locking else Ended\<rparr>) = unwritten s w"
    using pos by (simp add: unwritten_def)
  ultimately show ?thesis by blast
qed

text \<open>What the worker takes: all buffers, or the first two when there are more than 25.\<close>

lemma drop_ok:
  assumes l: "linked (heap s) (Some h) as" and d: "distinct as" and len: "lsize l = length as" "head l = Some h" "length as > 25"
  shows "\<exists>t h'. drop_buffers s l = Inr (s\<lparr>heap := h'\<rparr>, \<lparr>head = Some h, tail = Some t, lsize = 2\<rparr>) \<and>
    linked h' (Some h) (take 2 as) \<and> (\<forall>a. a \<notin> set as \<longrightarrow> h' a = heap s a) \<and>
    (\<forall>a b. h' a = Some b \<longrightarrow> (\<exists>b'. heap s a = Some b' \<and> message b = message b')) \<and> msgs h' (take 2 as) = msgs (heap s) (take 2 as)"
proof -
  obtain t rs where as: "as = h # t # rs" using len l by (cases as; cases "tl as") auto
  obtain hb tb where hb: "heap s h = Some hb" "bnext hb = Some t" and tb: "heap s t = Some tb" "linked (heap s) (bnext tb) rs"
    using l as by (auto split: option.splits)
  let ?f = "\<lambda>a. if a \<in> set rs then None else heap s a"
  define h' where "h' = ?f(t \<mapsto> tb\<lparr>bnext := None\<rparr>)"
  have "free_from (lsize l) (bnext tb) s = Inr (s\<lparr>heap := ?f\<rparr>)"
    using free_from_linked [OF tb(2), of "lsize l"] d as len by simp
  moreover have dt: "t \<notin> set rs" "h \<notin> set rs" "h \<noteq> t" using d as by auto
  ultimately have "drop_buffers s l = Inr (s\<lparr>heap := h'\<rparr>, \<lparr>head = Some h, tail = Some t, lsize = 2\<rparr>)"
    using hb tb(1) len by (simp add: drop_buffers_def deref_def set_next_def store_def h'_def)
  moreover have "linked h' (Some h) (take 2 as)" using as dt hb by (simp add: h'_def numeral_2_eq_2)
  moreover have "\<forall>a. a \<notin> set as \<longrightarrow> h' a = heap s a" using as by (auto simp: h'_def)
  moreover have "\<exists>b'. heap s a = Some b' \<and> message b = message b'" if "h' a = Some b" for a b
    using that tb(1) by (auto simp: h'_def split: if_splits)
  moreover have "msgs h' (take 2 as) = msgs (heap s) (take 2 as)" using as dt tb(1) by (simp add: h'_def numeral_2_eq_2)
  ultimately show ?thesis by blast
qed

lemma taken_ok:
  assumes ok: "log_ok s w xs ys zs" and pos: "position w = Locking" and n1: "new_buffer1 w = Some n1"
    and ys': "linked (heap s') (Some (hd (xs @ [curr_buffer s]))) ys'" "set ys' \<subseteq> set (xs @ [curr_buffer s])" "distinct ys'"
    "ys' \<noteq> []" "xs \<noteq> [] \<longrightarrow> 2 \<le> length ys'" "lsize l = length ys'" "head l = Some (hd (xs @ [curr_buffer s]))"
    and same: "\<forall>a. a \<notin> set (xs @ [curr_buffer s]) \<longrightarrow> heap s' a = heap s a"
    and sub: "\<forall>a b. heap s' a = Some b \<longrightarrow> (\<exists>b'. heap s a = Some b' \<and> message b = message b')"
    and s': "fresh s' = fresh s" "curr_buffer s' = n1" "buffers s' = no_buffers"
    "next_buffer s' = (if next_buffer s = None then new_buffer2 w else next_buffer s)"
    and w': "position w' = Writing (head l) 0" "new_buffer1 w' = None" "to_write w' = l"
    "new_buffer2 w' = (if next_buffer s = None then None else new_buffer2 w)"
  shows "log_ok s' w' [] ys' ys'" and "unwritten s' w' = msgs (heap s') ys'"
proof -
  obtain n2 where n2: "new_buffer2 w = Some n2" using ok pos by (auto simp: log_ok_def back_ok_def)
  have xs: "next_buffer s = None \<Longrightarrow> xs \<noteq> []" and hp: "heap_ok s w xs ys" using ok by (auto simp: log_ok_def front_ok_def)
  have dist: "distinct (xs @ [curr_buffer s] @ opt (next_buffer s) @ [n1, n2])" using hp by (auto simp: heap_ok_def n1 n2)
  have out: "heap s' a = Some empty_buffer" if "a \<in> set (opt (next_buffer s) @ [n1, n2])" for a
  proof -
    have "a \<notin> set (xs @ [curr_buffer s])" using that dist by auto
    moreover have "heap s a = Some empty_buffer" using that hp by (auto simp: heap_ok_def n1 n2)
    ultimately show ?thesis using same by simp
  qed
  have n1': "heap s' n1 = Some empty_buffer" by (rule out) simp
  have "front_ok s' []" using n1' n2 by (auto simp: front_ok_def s' no_buffers_def empty_buffer_def)
  moreover have "back_ok s' w' ys' ys'" using ys' xs n2 by (auto simp: back_ok_def w')
  moreover have "heap_ok s' w' [] ys'"
  proof -
    have "distinct (opt (next_buffer s') @ [n1] @ opt (new_buffer2 w') @ ys')" "set (opt (next_buffer s') @ opt (new_buffer2 w')) \<subseteq> set (opt (next_buffer s) @ [n1, n2])"
      using dist ys'(2,3) by (auto simp: s' w' n2)
    moreover have "heap s' a = None" if "fresh s' \<le> a" for a using that sub hp s'(1) by (cases "heap s' a") (fastforce simp: heap_ok_def)+
    moreover have "length (message b) < LOG_MESSAGE_SIZE" if "heap s' a = Some b" for a b using that sub hp by (fastforce simp: heap_ok_def)
    ultimately show ?thesis unfolding heap_ok_def s'(2) w'(2) using out by auto
  qed
  ultimately show ok': "log_ok s' w' [] ys' ys'" by (simp add: log_ok_def)
  show "unwritten s' w' = msgs (heap s') ys'" unfolding unwritten_eq [OF ok'] using n1' by (simp add: w' s' empty_buffer_def)
qed

lemma swap_ok:
  assumes ok: "log_ok s w xs ys zs" and pos: "position w = Locking"
  shows "\<exists>s' w' ys'. w_swap e s w = Inr (s', w') \<and> log_ok s' w' [] ys' ys' \<and> fwrites s' = fwrites s \<and> running s' = running s \<and>
    files s' = files s \<and> basename s' = basename s \<and> prefix (unwritten s' w') (unwritten s w) \<and>
    (lsize (buffers s) < 25 \<longrightarrow> unwritten s' w' = unwritten s w)"
proof -
  obtain n1 where n1: "new_buffer1 w = Some n1" using ok pos by (auto simp: log_ok_def back_ok_def)
  let ?as = "xs @ [curr_buffer s]" and ?nx = "if next_buffer s = None then new_buffer2 w else next_buffer s"
    and ?w = "\<lambda>l. w\<lparr>position := Writing (head l) 0, new_buffer1 := None, new_buffer2 := if next_buffer s = None then None else new_buffer2 w,
       to_write := l, now_hour := tm_hour e, now_day := tm_mday e, need_flush := (\<lambda>_. False)\<rparr>"
  let ?s = "s\<lparr>curr_buffer := n1, buffers := no_buffers, next_buffer := ?nx\<rparr>"
    and ?l = "\<lparr>head = Some (hd ?as), tail = Some (curr_buffer s), lsize = length ?as\<rparr>"
  have front: "front_ok s xs" and d: "distinct ?as" using ok by (auto simp: log_ok_def heap_ok_def)
  then have bs: "head (buffers s) = (if xs = [] then None else Some (hd xs))" "lsize (buffers s) = length xs" by (simp_all add: front_ok_def)
  have l: "linked (heap s) (Some (hd ?as)) ?as" using front by (simp add: front_ok_def)
  have un: "unwritten s w = msgs (heap s) ?as" unfolding unwritten_eq [OF ok] by (simp add: pos)
  have eq: "w_swap e s w = bind_res (drop_buffers ?s ?l) (\<lambda>(s, l). Inr (s, ?w l))"
    using n1 bs by (simp add: w_swap_def Let_def hd_append)
  show ?thesis
  proof (cases "length xs < 25")
    case True
    note res = taken_ok [OF ok pos n1, of ?s ?as ?l "?w ?l"]
    have "log_ok ?s (?w ?l) [] ?as ?as" "unwritten ?s (?w ?l) = msgs (heap s) ?as"
      using res l d by (auto simp: Suc_le_eq)
    moreover have "w_swap e s w = Inr (?s, ?w ?l)" unfolding eq using True by (simp add: drop_buffers_def)
    ultimately show ?thesis using un by (intro exI [of _ ?s] exI [of _ "?w ?l"] exI [of _ ?as]) simp
  next
    case False
    have "\<exists>t h'. drop_buffers ?s ?l = Inr (?s\<lparr>heap := h'\<rparr>, \<lparr>head = Some (hd ?as), tail = Some t, lsize = 2\<rparr>) \<and>
      linked h' (Some (hd ?as)) (take 2 ?as) \<and> (\<forall>a. a \<notin> set ?as \<longrightarrow> h' a = heap ?s a) \<and>
      (\<forall>a b. h' a = Some b \<longrightarrow> (\<exists>b'. heap ?s a = Some b' \<and> message b = message b')) \<and> msgs h' (take 2 ?as) = msgs (heap ?s) (take 2 ?as)"
      by (rule drop_ok) (use l d False in auto)
    then obtain t h' where h': "drop_buffers ?s ?l = Inr (?s\<lparr>heap := h'\<rparr>, \<lparr>head = Some (hd ?as), tail = Some t, lsize = 2\<rparr>)"
        "linked h' (Some (hd ?as)) (take 2 ?as)" "\<forall>a. a \<notin> set ?as \<longrightarrow> h' a = heap ?s a"
        "\<forall>a b. h' a = Some b \<longrightarrow> (\<exists>b'. heap ?s a = Some b' \<and> message b = message b')" "msgs h' (take 2 ?as) = msgs (heap ?s) (take 2 ?as)"
      by (elim exE conjE) (rule that)
    let ?s2 = "?s\<lparr>heap := h'\<rparr>" and ?l2 = "\<lparr>head = Some (hd ?as), tail = Some t, lsize = 2\<rparr>"
    note res = taken_ok [OF ok pos n1, of ?s2 "take 2 ?as" ?l2 "?w ?l2"]
    have t2: "length (take 2 ?as) = 2" "set (take 2 ?as) \<subseteq> set ?as" "distinct (take 2 ?as)" "take 2 ?as \<noteq> []"
      using False d set_take_subset [of 2 ?as] by auto
    have ok2: "log_ok ?s2 (?w ?l2) [] (take 2 ?as) (take 2 ?as)" and un2: "unwritten ?s2 (?w ?l2) = msgs (heap s) (take 2 ?as)"
      using res h' t2 by simp_all
    have "unwritten s w = unwritten ?s2 (?w ?l2) @ msgs (heap s) (drop 2 ?as)"
      unfolding un un2 by (metis append_take_drop_id msgs_simps(3))
    then have pre: "prefix (unwritten ?s2 (?w ?l2)) (unwritten s w)" by (rule prefixI)
    have run: "w_swap e s w = Inr (?s2, ?w ?l2)" unfolding eq h'(1) by simp
    show ?thesis
      by (rule exI [of _ ?s2], rule exI [of _ "?w ?l2"], rule exI [of _ "take 2 ?as"], intro conjI impI run ok2 pre)
        (use False bs(2) in simp_all)
  qed
qed

subsection \<open>Writing\<close>

definition same_names :: "log_file \<Rightarrow> log_file \<Rightarrow> bool" where
  "same_names f g \<longleftrightarrow> dirname f = dirname g \<and> use_basename f = use_basename g \<and> logger_fname f = logger_fname g \<and> roll_type f = roll_type g"

text \<open>What rolling a file may change.\<close>

definition only_files :: "logger \<Rightarrow> logger \<Rightarrow> bool" where
  "only_files s s' \<longleftrightarrow> (\<exists>F. s' = s\<lparr>files := F\<rparr> \<and> (\<forall>lv. same_names (F lv) (files s lv)))"

lemma only_files_refl [simp]: "only_files s s"
  by (auto simp: only_files_def same_names_def intro: exI [of _ "files s"])

lemma only_files_trans: "only_files s s' \<Longrightarrow> only_files s' s'' \<Longrightarrow> only_files s s''"
  by (auto simp: only_files_def same_names_def)

lemma only_files_set:
  "only_files s s' \<Longrightarrow> (\<And>f. same_names (g f) f) \<Longrightarrow> only_files s (set_file lv g s')"
  unfolding only_files_def
proof (elim exE conjE)
  fix F assume "\<And>f. same_names (g f) f" "s' = s\<lparr>files := F\<rparr>" "\<forall>lv. same_names (F lv) (files s lv)"
  then show "\<exists>F. set_file lv g s' = s\<lparr>files := F\<rparr> \<and> (\<forall>lv. same_names (F lv) (files s lv))"
    by (intro exI [of _ "F(lv := g (F lv))"]) (simp add: set_file_def same_names_def)
qed

lemma only_files_names: "only_files s s' \<Longrightarrow> names_ok s' = names_ok s"
  by (auto simp: only_files_def same_names_def names_ok_def)

lemma only_files_log:
  assumes "only_files s s'"
  shows "log_ok s' w xs ys zs = log_ok s w xs ys zs" "unwritten s' w = unwritten s w"
    "fwrites s' = fwrites s" "running s' = running s"
proof -
  have eq: "heap s' = heap s" "fresh s' = fresh s" "curr_buffer s' = curr_buffer s" "next_buffer s' = next_buffer s"
    "buffers s' = buffers s" and "fwrites s' = fwrites s" "running s' = running s"
    using assms by (auto simp: only_files_def)
  then show "fwrites s' = fwrites s" "running s' = running s" by simp_all
  show "log_ok s' w xs ys zs = log_ok s w xs ys zs" "unwritten s' w = unwritten s w" using log_ok_cong [OF eq] by simp_all
qed

text \<open>The path of the file with a number, and what opening it and settling on it set.\<close>

definition log_path :: "environment \<Rightarrow> nat \<Rightarrow> logger \<Rightarrow> nat \<Rightarrow> string" where
  "log_path e lv s index =
     (let f = files s lv in
      case get_log_filename e (use_basename f) (basename s) (roll_type f) index (logger_fname f) of
        Inr name \<Rightarrow> snprintf128 (dirname f @ ''/'' @ name) | Inl _ \<Rightarrow> [])"

definition opened :: "environment \<Rightarrow> nat \<Rightarrow> string \<Rightarrow> logger \<Rightarrow> logger" where
  "opened e lv path s = set_file lv (\<lambda>f. f\<lparr>handle := File path,
     written_bytes := if stat_ok e path then disk s path else written_bytes f\<rparr>) s"

definition settled :: "environment \<Rightarrow> nat \<Rightarrow> logger \<Rightarrow> logger" where
  "settled e lv s = set_file lv (\<lambda>f. if roll_type f = 0 then f\<lparr>roll_hour := tm_hour e\<rparr>
     else if roll_type f = 1 then f\<lparr>roll_day := tm_mday e\<rparr> else f) s"

lemma opened_frame [simp]: "only_files s (opened e lv p s)" "handle (files (opened e lv p s) lv) = File p"
  "rollsize (opened e lv p s) = rollsize s" "disk (opened e lv p s) = disk s"
  "stat_ok e p \<Longrightarrow> written_bytes (files (opened e lv p s) lv) = disk s p"
  by (simp_all add: opened_def only_files_set same_names_def) (simp_all add: set_file_def)

lemma settled_frame [simp]: "only_files s (settled e lv s)" "handle (files (settled e lv s) lv) = handle (files s lv)"
  by (simp_all add: settled_def only_files_set same_names_def) (simp add: set_file_def)

lemma to_stdout_frame [simp]: "only_files s (set_file lv (handle_update (\<lambda>_. Stdout)) s)"
  "handle (files (set_file lv (handle_update (\<lambda>_. Stdout)) s) lv) = Stdout"
  by (simp_all add: only_files_set same_names_def) (simp add: set_file_def)

lemma only_files_path: "only_files s s' \<Longrightarrow> log_path e lv s' i = log_path e lv s i"
  by (auto simp: only_files_def same_names_def log_path_def Let_def split: sum.split)

lemma roll_step:
  assumes "names_ok s"
  shows "roll_loop (Suc fuel) e lv index s =
    (let p = log_path e lv s index in
     if \<not> fopen_ok e p then Inr (set_file lv (\<lambda>f. f\<lparr>handle := Stdout\<rparr>) s)
     else if reaches (written_bytes (files (opened e lv p s) lv)) (rollsize s) then roll_loop fuel e lv (index + 1) (opened e lv p s)
     else Inr (settled e lv (opened e lv p s)))"
proof -
  let ?f = "files s lv"
  have "roll_type ?f = 0 \<or> roll_type ?f = 1" "length (dirname ?f) < 64" "length (logger_fname ?f) < 64" "length (basename s) < 64"
    using assms by (auto simp: names_ok_def)
  moreover from this(1) obtain name where "get_log_filename e (use_basename ?f) (basename s) (roll_type ?f) index (logger_fname ?f) = Inr name"
    by (auto simp: get_log_filename_def timebuf_def Let_def)
  ultimately show ?thesis
    by (simp add: read64_def Let_def log_path_def opened_def [symmetric] settled_def [symmetric] del: opened_frame(1,2,4,5))
qed

lemma roll_loop_frame:
  "names_ok s \<Longrightarrow> roll_loop fuel e lv index s = Inr s' \<Longrightarrow> only_files s s' \<and> handle (files s' lv) \<noteq> NoFile"
proof (induction fuel arbitrary: index s)
  case (Suc fuel)
  let ?o = "opened e lv (log_path e lv s index) s"
  have "names_ok ?o" using Suc.prems(1) only_files_names [of s ?o] by simp
  then show ?case using Suc.prems(2) Suc.IH [of ?o "index + 1"] only_files_trans [of s ?o]
    unfolding roll_step [OF Suc.prems(1)] by (auto simp: Let_def split: if_splits)
qed simp

lemma roll_loop_fail: "names_ok s \<Longrightarrow> roll_loop fuel e lv index s = Inl err \<Longrightarrow> err = Diverges"
proof (induction fuel arbitrary: index s)
  case (Suc fuel)
  let ?o = "opened e lv (log_path e lv s index) s"
  have "names_ok ?o" using Suc.prems(1) only_files_names [of s ?o] by simp
  then show ?case using Suc.prems(2) Suc.IH [of ?o "index + 1"]
    unfolding roll_step [OF Suc.prems(1)] by (auto simp: Let_def split: if_splits)
qed simp

lemma roll_frame:
  assumes "names_ok s" "rollfile fuel e lv s = Inr s'"
  shows "only_files s s' \<and> handle (files s' lv) \<noteq> NoFile"
  using assms roll_loop_frame [OF assms(1)]
  by (auto simp: rollfile_def read64_def bind_res_def split: if_splits sum.splits dir_state.splits)

lemma roll_fail:
  assumes "names_ok s" "rollfile fuel e lv s = Inl err"
  shows "err = Diverges"
proof -
  have "length (dirname (files s lv)) < 64" using assms(1) by (simp add: names_ok_def)
  then show ?thesis using assms roll_loop_fail [OF assms(1)]
    by (auto simp: rollfile_def read64_def split: if_splits dir_state.splits)
qed

lemma write_message_ok:
  assumes nm: "names_ok s"
  obtains (ok) s1 F where "write_message fuel e m s w = Inr (fwrite (level m) m s1, w\<lparr>need_flush := F\<rparr>)" "only_files s s1"
  | (fail) "write_message fuel e m s w = Inl Diverges"
proof -
  let ?lv = "level m"
  define r1 where "r1 = (if handle (files s ?lv) = NoFile then rollfile fuel e ?lv s else Inr s)"
  show ?thesis
  proof (cases r1)
    case (Inl err)
    then have "err = Diverges" using roll_fail [OF nm] by (auto simp: r1_def split: if_splits)
    then show ?thesis using Inl fail by (simp add: write_message_def Let_def r1_def)
  next
    case (Inr s1)
    then have s1: "only_files s s1" "handle (files s1 ?lv) \<noteq> NoFile" using roll_frame [OF nm] by (auto simp: r1_def split: if_splits)
    have nm1: "names_ok s1" using only_files_names [OF s1(1)] nm by simp
    define r2 where "r2 = (if new_period w (files s1 ?lv) then rollfile fuel e ?lv s1 else Inr s1)"
    have eq: "write_message fuel e m s w = bind_res r2 (\<lambda>s. Inr (fwrite ?lv m s, w\<lparr>need_flush := (need_flush w)(?lv := True)\<rparr>))"
      using Inr s1 by (simp add: write_message_def Let_def r1_def r2_def)
    show ?thesis
    proof (cases r2)
      case (Inl err)
      then have "err = Diverges" using roll_fail [OF nm1] by (auto simp: r2_def split: if_splits)
      then show ?thesis using Inl fail eq by simp
    next
      case (Inr s2)
      then have "only_files s1 s2" using roll_frame [OF nm1] by (auto simp: r2_def split: if_splits)
      then show ?thesis using ok only_files_trans [OF s1(1)] eq Inr by simp
    qed
  qed
qed

lemma fwrite_frame:
  "heap (fwrite lv m s) = heap s" "fresh (fwrite lv m s) = fresh s" "curr_buffer (fwrite lv m s) = curr_buffer s"
  "next_buffer (fwrite lv m s) = next_buffer s" "buffers (fwrite lv m s) = buffers s"
  "running (fwrite lv m s) = running s" "names_ok (fwrite lv m s) = names_ok s"
  "map snd (fwrites (fwrite lv m s)) = map snd (fwrites s) @ [m]"
  by (auto simp: fwrite_def Let_def set_file_def names_ok_def split: handle.splits)

text \<open>One step of the loop over the messages.\<close>

lemma write_ok:
  assumes ok: "log_ok s w xs ys zs" and nm: "names_ok s" and pos: "position w = Writing n i"
  shows "w_write fuel e s w = Inl Diverges \<or> (\<exists>s' w' zs'. w_write fuel e s w = Inr (s', w') \<and> log_ok s' w' xs ys zs' \<and>
    names_ok s' \<and> running s' = running s \<and> map snd (fwrites s') @ unwritten s' w' = map snd (fwrites s) @ unwritten s w)"
proof (cases zs)
  case Nil
  have n: "n = None" "i = 0" using ok pos Nil by (auto simp: log_ok_def back_ok_def)
  let ?w = "w\<lparr>position := Flushing\<rparr>"
  have ok': "log_ok s ?w xs ys []" using ok pos Nil by (auto simp: log_ok_def back_ok_def heap_ok_def)
  have "unwritten s ?w = unwritten s w" unfolding unwritten_eq [OF ok] unwritten_eq [OF ok'] by (simp add: pos Nil)
  then show ?thesis using n pos ok' nm by (intro disjI2 exI [of _ s] exI [of _ ?w] exI [of _ "[]"]) (simp add: w_write_def)
next
  case (Cons a as)
  obtain b where b: "n = Some a" "heap s a = Some b" "linked (heap s) (bnext b) as" "i \<le> length (message b)" "suffix (a # as) ys"
    using ok pos Cons by (auto simp: log_ok_def back_ok_def split: option.splits)
  have un: "unwritten s w = drop i (message b) @ msgs (heap s) as @ msgs (heap s) (xs @ [curr_buffer s])"
    unfolding unwritten_eq [OF ok] using b(2,4) by (simp add: pos Cons)
  show ?thesis
  proof (cases "i < length (message b)")
    case False
    let ?w = "w\<lparr>position := Writing (bnext b) 0\<rparr>"
    have "suffix as ys" using b(5) by (rule suffix_ConsD)
    then have ok': "log_ok s ?w xs ys as" using ok pos b(3) by (auto simp: log_ok_def back_ok_def heap_ok_def)
    have "unwritten s ?w = unwritten s w" unfolding un unwritten_eq [OF ok'] using False by simp
    then show ?thesis using b(1,2) pos ok' nm False
      by (intro disjI2 exI [of _ s] exI [of _ ?w] exI [of _ as]) (simp add: w_write_def deref_def)
  next
    case True
    let ?m = "message b ! i"
    have eq: "w_write fuel e s w = bind_res (write_message fuel e ?m s w) (\<lambda>(s, w). Inr (s, w\<lparr>position := Writing n (i + 1)\<rparr>))"
      using pos b True by (simp add: w_write_def deref_def)
    from nm show ?thesis
    proof (cases rule: write_message_ok [of s fuel e ?m w])
      case (ok s1 F)
      let ?s = "fwrite (level ?m) ?m s1" and ?w = "w\<lparr>need_flush := F, position := Writing n (i + 1)\<rparr>"
      have "log_ok s ?w xs ys zs" using assms(1) pos b(2) True Cons by (auto simp: log_ok_def back_ok_def heap_ok_def)
      then have ok1: "log_ok s1 ?w xs ys zs" using only_files_log(1) [OF ok(2)] by simp
      then have ok': "log_ok ?s ?w xs ys zs" using log_ok_cong(1) [OF fwrite_frame(1-5)] by simp
      have "heap s1 = heap s" "curr_buffer s1 = curr_buffer s" using ok(2) by (auto simp: only_files_def)
      then have "unwritten ?s ?w = drop (i + 1) (message b) @ msgs (heap s) as @ msgs (heap s) (xs @ [curr_buffer s])"
        unfolding unwritten_eq [OF ok'] using b(2) True by (simp add: Cons fwrite_frame)
      moreover have "drop i (message b) = ?m # drop (i + 1) (message b)" using True by (simp add: Cons_nth_drop_Suc)
      ultimately have "map snd (fwrites ?s) @ unwritten ?s ?w = map snd (fwrites s) @ unwritten s w"
        unfolding un using only_files_log(3) [OF ok(2)] by (simp add: fwrite_frame)
      then show ?thesis using ok' nm ok eq only_files_names [OF ok(2)] only_files_log(4) [OF ok(2)]
        by (intro disjI2 exI [of _ ?s] exI [of _ ?w] exI [of _ zs]) (simp add: fwrite_frame)
    next
      case fail
      then show ?thesis using eq by simp
    qed
  qed
qed

subsection \<open>Giving the buffers back\<close>

lemma flush_levels_ok:
  "names_ok s \<Longrightarrow> for_res (flush_level fuel e w) lvs s = Inl Diverges \<or>
     (\<exists>s'. for_res (flush_level fuel e w) lvs s = Inr s' \<and> only_files s s')"
proof (induction lvs arbitrary: s)
  case (Cons lv lvs)
  show ?case
  proof (cases "flush_level fuel e w lv s")
    case (Inl err)
    then have "err = Diverges" using roll_fail [OF Cons.prems] by (auto simp: flush_level_def split: if_splits)
    then show ?thesis using Inl by simp
  next
    case (Inr s1)
    then have s1: "only_files s s1" using roll_frame [OF Cons.prems] by (auto simp: flush_level_def split: if_splits)
    then have "names_ok s1" using only_files_names Cons.prems by blast
    from Cons.IH [OF this] show ?thesis using Inr only_files_trans [OF s1] by auto
  qed
qed auto

lemma recycle_none:
  assumes "linked (heap s) (head l) (a # as)" "lsize l = length (a # as)" "heap s a = Some b"
  shows "recycle None l s = Inr (Some a, l\<lparr>head := bnext b, lsize := length as\<rparr>, s\<lparr>heap := (heap s)(a \<mapsto> empty_buffer)\<rparr>)"
  using assms by (simp add: recycle_def deref_def store_def)

lemma recycle_some: "recycle (Some a) l s = Inr (Some a, l, s)"
  by (simp add: recycle_def)

text \<open>The worker has two empty buffers again and the others are freed.\<close>

lemma give_back:
  assumes l: "linked (heap s) (head l) ys" "lsize l = length ys" "distinct (opt n2 @ ys)" "ys \<noteq> []" "n2 = None \<longrightarrow> 2 \<le> length ys"
    and n2: "\<forall>a\<in>set (opt n2). heap s a = Some empty_buffer"
  shows "\<exists>a b h. bind_res (recycle None l s) (\<lambda>(n1, l, s). bind_res (recycle n2 l s) (\<lambda>(n2, l, s).
        bind_res (free_from (lsize l) (head l) s) (\<lambda>s. Inr (n1, n2, s)))) = Inr (Some a, Some b, s\<lparr>heap := h\<rparr>) \<and>
      a \<noteq> b \<and> set [a, b] \<subseteq> set (opt n2 @ ys) \<and> h a = Some empty_buffer \<and> h b = Some empty_buffer \<and>
      (\<forall>c. c \<notin> set ys \<longrightarrow> h c = heap s c) \<and> (\<forall>c b. h c = Some b \<longrightarrow> heap s c \<noteq> None \<and> (b = empty_buffer \<or> heap s c = Some b))"
proof -
  obtain a as where ys: "ys = a # as" using l(4) by (cases ys) auto
  obtain ab where ab: "heap s a = Some ab" "linked (heap s) (bnext ab) as" using l(1) ys by (auto split: option.splits)
  let ?s1 = "s\<lparr>heap := (heap s)(a \<mapsto> empty_buffer)\<rparr>"
  have as: "a \<notin> set as" "distinct as" using l(3) ys by auto
  have l1: "linked (heap ?s1) (bnext ab) as" using as by (intro linked_cong [OF _ ab(2)]) auto
  have r1: "recycle None l s = Inr (Some a, l\<lparr>head := bnext ab, lsize := length as\<rparr>, ?s1)"
    using recycle_none [of s l a as ab] l(1,2) ab ys by simp
  show ?thesis
  proof (cases n2)
    case (Some b)
    let ?h = "\<lambda>c. if c \<in> set as then None else heap ?s1 c"
    have "free_from (length as) (bnext ab) ?s1 = Inr (?s1\<lparr>heap := ?h\<rparr>)" using free_from_linked [OF l1 as(2)] by simp
    moreover have "b \<noteq> a" "b \<notin> set as" "heap s b = Some empty_buffer" using Some l(3) n2 ys by auto
    ultimately show ?thesis using r1 Some as ab ys
      by (intro exI [of _ a] exI [of _ b] exI [of _ ?h]) (auto simp: recycle_some split: if_splits)
  next
    case None
    then obtain b bs where bs: "as = b # bs" using l(5) ys by (cases as) auto
    obtain bb where bb: "heap s b = Some bb" "linked (heap s) (bnext bb) bs" using ab(2) bs by (auto split: option.splits)
    let ?s2 = "?s1\<lparr>heap := (heap ?s1)(b \<mapsto> empty_buffer)\<rparr>"
    let ?h = "\<lambda>c. if c \<in> set bs then None else heap ?s2 c"
    have n: "a \<noteq> b" "a \<notin> set bs" "b \<notin> set bs" "distinct bs" using as bs by auto
    have l2: "linked (heap ?s2) (bnext bb) bs" using n by (intro linked_cong [OF _ bb(2)]) auto
    have "free_from (length bs) (bnext bb) ?s2 = Inr (?s2\<lparr>heap := ?h\<rparr>)" by (rule free_from_linked [OF l2 n(4) order_refl])
    moreover have "recycle None (l\<lparr>head := bnext ab, lsize := length as\<rparr>) ?s1 =
        Inr (Some b, l\<lparr>head := bnext bb, lsize := length bs\<rparr>, ?s2)"
      using recycle_none [of ?s1 "l\<lparr>head := bnext ab, lsize := length as\<rparr>" b bs bb] l1 bs bb(1) n(1) by simp
    ultimately show ?thesis using r1 None n ab bb ys bs
      by (intro exI [of _ a] exI [of _ b] exI [of _ ?h]) (auto split: if_splits)
  qed
qed

lemma recycled_ok:
  assumes ok: "log_ok s w xs ys zs" and pos: "position w = Flushing"
    and ab: "a \<noteq> b" "set [a, b] \<subseteq> set (opt (new_buffer2 w) @ ys)" "h a = Some empty_buffer" "h b = Some empty_buffer"
      "\<forall>c. c \<notin> set ys \<longrightarrow> h c = heap s c" "\<forall>c b. h c = Some b \<longrightarrow> heap s c \<noteq> None \<and> (b = empty_buffer \<or> heap s c = Some b)"
    and w': "position w' = Top" "new_buffer1 w' = Some a" "new_buffer2 w' = Some b" "to_write w' = no_buffers"
  shows "log_ok (s\<lparr>heap := h\<rparr>) w' xs [] []" and "unwritten (s\<lparr>heap := h\<rparr>) w' = unwritten s w"
proof -
  let ?s = "s\<lparr>heap := h\<rparr>"
  have front: "front_ok s xs" and hp: "heap_ok s w xs ys" using ok by (auto simp: log_ok_def)
  have d: "distinct (xs @ [curr_buffer s] @ opt (next_buffer s) @ opt (new_buffer2 w) @ ys)" using hp by (auto simp: heap_ok_def)
  have same: "h c = heap s c" if "c \<in> set (xs @ [curr_buffer s] @ opt (next_buffer s))" for c
    using that ab(5) d by auto
  have "front_ok ?s xs" by (rule front_ok_cong [OF front]) (use same in auto)
  moreover have "back_ok ?s w' [] []" by (simp add: back_ok_def w' no_buffers_def)
  moreover have "heap_ok ?s w' xs []"
  proof -
    have "distinct (xs @ [curr_buffer s] @ opt (next_buffer s) @ [a, b])" using d ab(1,2) by auto
    moreover have "\<forall>c\<in>set (opt (next_buffer s)). h c = Some empty_buffer" using same hp by (auto simp: heap_ok_def)
    moreover have "h c = None" if "fresh s \<le> c" for c
    proof -
      have "heap s c = None" using that hp by (simp add: heap_ok_def)
      then show ?thesis using ab(6) by (metis option.exhaust)
    qed
    moreover have "length (message b') < LOG_MESSAGE_SIZE" if "h c = Some b'" for b' c
    proof -
      have "b' = empty_buffer \<or> heap s c = Some b'" using ab(6) that by blast
      then show ?thesis using hp by (auto simp: heap_ok_def empty_buffer_def LOG_MESSAGE_SIZE_def)
    qed
    ultimately show ?thesis using ab(3,4) by (simp add: heap_ok_def w')
  qed
  ultimately show ok': "log_ok ?s w' xs [] []" by (simp add: log_ok_def)
  have "msgs h (xs @ [curr_buffer s]) = msgs (heap s) (xs @ [curr_buffer s])" by (intro msgs_cong same) auto
  then show "unwritten ?s w' = unwritten s w" unfolding unwritten_eq [OF ok] unwritten_eq [OF ok'] by (simp add: pos w')
qed

lemma flush_ok:
  assumes ok: "log_ok s w xs ys zs" and nm: "names_ok s" and pos: "position w = Flushing"
  shows "w_flush fuel e s w = Inl Diverges \<or> (\<exists>s' w'. w_flush fuel e s w = Inr (s', w') \<and> log_ok s' w' xs [] [] \<and> names_ok s' \<and>
    running s' = running s \<and> fwrites s' = fwrites s \<and> unwritten s' w' = unwritten s w)"
proof -
  from flush_levels_ok [OF nm, of fuel e w "[0..<LOG_LEVEL_NUM]"]
  consider "for_res (flush_level fuel e w) [0..<LOG_LEVEL_NUM] s = Inl Diverges"
    | t where "for_res (flush_level fuel e w) [0..<LOG_LEVEL_NUM] s = Inr t" "only_files s t" by blast
  then show ?thesis
  proof cases
    case 1
    then show ?thesis by (simp add: w_flush_def)
  next
    case 2
    note frame = only_files_log [OF 2(2)]
    have okt: "log_ok t w xs ys zs" using ok frame(1) by simp
    have bk: "linked (heap t) (head (to_write w)) ys" "lsize (to_write w) = length ys" "new_buffer1 w = None" "ys \<noteq> []"
        "new_buffer2 w = None \<longrightarrow> 2 \<le> length ys" using okt pos by (auto simp: log_ok_def back_ok_def)
    have "distinct (opt (new_buffer2 w) @ ys)" "\<forall>a\<in>set (opt (new_buffer2 w)). heap t a = Some empty_buffer"
      using okt by (auto simp: log_ok_def heap_ok_def)
    from give_back [OF bk(1,2) this(1) bk(4,5) this(2)] obtain a b h where
      run: "bind_res (recycle None (to_write w) t) (\<lambda>(n1, l, s). bind_res (recycle (new_buffer2 w) l s) (\<lambda>(n2, l, s).
        bind_res (free_from (lsize l) (head l) s) (\<lambda>s. Inr (n1, n2, s)))) = Inr (Some a, Some b, t\<lparr>heap := h\<rparr>)"
      and ab: "a \<noteq> b" "set [a, b] \<subseteq> set (opt (new_buffer2 w) @ ys)" "h a = Some empty_buffer" "h b = Some empty_buffer"
        "\<forall>c. c \<notin> set ys \<longrightarrow> h c = heap t c" "\<forall>c b. h c = Some b \<longrightarrow> heap t c \<noteq> None \<and> (b = empty_buffer \<or> heap t c = Some b)"
      by (elim exE conjE) (rule that)
    let ?w = "w\<lparr>position := Top, new_buffer1 := Some a, new_buffer2 := Some b, to_write := no_buffers\<rparr>"
    have "w_flush fuel e s w = Inr (t\<lparr>heap := h\<rparr>, ?w)"
      using run 2(1) by (auto simp: w_flush_def bk(3) bind_res_def split: sum.splits)
    moreover have "log_ok (t\<lparr>heap := h\<rparr>) ?w xs [] []" "unwritten (t\<lparr>heap := h\<rparr>) ?w = unwritten s w"
      using recycled_ok [OF okt pos ab, of ?w] frame(2) by simp_all
    moreover have "names_ok (t\<lparr>heap := h\<rparr>)" using only_files_names [OF 2(2)] nm by (simp add: names_ok_def)
    ultimately show ?thesis using frame(3,4) by auto
  qed
qed

section \<open>Runs of the threads\<close>

definition logged :: "logger \<Rightarrow> int \<Rightarrow> string \<Rightarrow> buffer_message list" where
  "logged s lv line = (if min_level s \<le> lv then [\<lparr>data = take (LOG_MAX - 1) (line @ [CHR 0x0A]), level = nat lv\<rparr>] else [])"

definition good_call :: "int \<Rightarrow> string \<Rightarrow> string \<Rightarrow> int \<Rightarrow> bool" where
  "good_call lv pref dir rt \<longleftrightarrow> 0 \<le> lv \<and> lv < int LOG_LEVEL_NUM \<and> length pref < 64 \<and> length dir < 64 \<and> rt \<in> {0, 1}"

text \<open>
  Reachable states, with the messages appended so far and whether the worker has dropped buffers.
  A thread appends under the lock, so one call is one step; the worker's steps come in between.
\<close>

inductive log_reach :: "logger \<Rightarrow> worker \<Rightarrow> buffer_message list \<Rightarrow> bool \<Rightarrow> bool" where
  start: "linit lvl roll interval base on_disk = (s, w) \<Longrightarrow> (\<forall>b. base = Some b \<longrightarrow> length b < 64) \<Longrightarrow> log_reach s w [] False"
| call: "log_reach s w ms lost \<Longrightarrow> good_call lv pref dir rt \<Longrightarrow>
    lwrite True lv (Some pref) (Some line) (Some dir) base rt s = Inr s' \<Longrightarrow> log_reach s' w (ms @ logged s lv line) lost"
| work: "log_reach s w ms lost \<Longrightarrow> w_step fuel e s w = Inr (s', w') \<Longrightarrow>
    log_reach s' w' ms (lost \<or> position w = Locking \<and> 25 \<le> lsize (buffers s))"
| stop: "log_reach s w ms lost \<Longrightarrow> log_reach (log_exit s) w ms lost"

lemma init_ok:
  assumes "linit lvl roll interval base on_disk = (s, w)" "\<forall>b. base = Some b \<longrightarrow> length b < 64"
  shows "log_ok s w [] [] []" "names_ok s" "fwrites s = []" "unwritten s w = []"
proof -
  have eq: "heap s = [0 \<mapsto> empty_buffer, 1 \<mapsto> empty_buffer, 2 \<mapsto> empty_buffer, 3 \<mapsto> empty_buffer]" "fresh s = 4" "curr_buffer s = 0"
    "next_buffer s = Some 1" "buffers s = no_buffers" "new_buffer1 w = Some 2" "new_buffer2 w = Some 3" "to_write w = no_buffers"
    "position w = Top" "fwrites s = []" "files s = (\<lambda>_. empty_file)" "basename s = strncpy64 (case base of None \<Rightarrow> DEFAULT_BASENAME | Some b \<Rightarrow> b)"
    using assms(1) by (auto simp: linit_def calloc_buffer_def store_def Let_def numeral_eq_Suc)
  show "log_ok s w [] [] []"
    by (auto simp: log_ok_def front_ok_def back_ok_def heap_ok_def eq no_buffers_def empty_buffer_def LOG_MESSAGE_SIZE_def split: if_splits)
  show "names_ok s" using assms(2)
    by (auto simp: names_ok_def eq empty_file_def strncpy64_def DEFAULT_BASENAME_def split: option.splits)
  show "fwrites s = []" by (rule eq)
  show "unwritten s w = []" by (simp add: unwritten_def eq no_buffers_def empty_buffer_def numeral_eq_Suc)
qed

lemma lwrite_ok:
  assumes ok: "log_ok s w xs ys zs" and nm: "names_ok s" and call: "good_call lv pref dir rt"
  shows "\<exists>s' xs'. lwrite True lv (Some pref) (Some line) (Some dir) base rt s = Inr s' \<and> log_ok s' w xs' ys zs \<and> names_ok s' \<and>
    unwritten s' w = unwritten s w @ logged s lv line \<and> fwrites s' = fwrites s \<and> running s' = running s"
proof -
  let ?n = "nat lv"
  define t where "t = (if logger_fname (files s ?n) = [] then set_file ?n (\<lambda>f. f\<lparr>logger_fname := strncpy64 pref\<rparr>) s else s)"
  have t: "heap t = heap s" "fresh t = fresh s" "curr_buffer t = curr_buffer s" "next_buffer t = next_buffer s"
      "buffers t = buffers s" "fwrites t = fwrites s" "running t = running s"
    by (simp_all add: t_def set_file_def)
  have okt: "log_ok t w xs ys zs" and un: "unwritten t w = unwritten s w" using log_ok_cong [OF t(1-5)] ok by simp_all
  have lv: "0 \<le> lv" "lv < int LOG_LEVEL_NUM" and args: "length pref < 64" "length dir < 64" "rt \<in> {0, 1}"
    using call by (auto simp: good_call_def)
  have nmt: "names_ok t" using nm args(1) by (auto simp: t_def set_file_def names_ok_def strncpy64_def)
  show ?thesis
  proof (cases "min_level s \<le> lv")
    case False
    then show ?thesis using ok nm by (intro exI [of _ s] exI [of _ xs]) (simp add: lwrite_def logged_def)
  next
    case True
    let ?msg = "take (LOG_MAX - 1) (line @ [CHR 0x0A])"
    have len: "length ?msg \<le> LOG_MAX" by (simp add: LOG_MAX_def)
    have eq: "lwrite True lv (Some pref) (Some line) (Some dir) base rt s = append_log True ?msg lv dir base rt t"
      using True lv unfolding lwrite_def Let_def t_def by simp
    have "logged s lv line = [\<lparr>data = ?msg, level = ?n\<rparr>]" using True by (simp add: logged_def)
    with append_ok [OF okt lv len, of dir base rt] show ?thesis
      unfolding eq using un t(6,7) nmt args(2,3) by metis
  qed
qed

text \<open>A step of the worker, from any reachable state.\<close>

lemma step_ok:
  assumes ok: "log_ok s w xs ys zs" and nm: "names_ok s"
  shows "w_step fuel e s w = Inl Diverges \<or> (\<exists>s' w' xs' ys' zs'. w_step fuel e s w = Inr (s', w') \<and> log_ok s' w' xs' ys' zs' \<and> names_ok s' \<and>
    subseq (map snd (fwrites s') @ unwritten s' w') (map snd (fwrites s) @ unwritten s w) \<and>
    ((position w = Locking \<longrightarrow> lsize (buffers s) < 25) \<longrightarrow> map snd (fwrites s') @ unwritten s' w' = map snd (fwrites s) @ unwritten s w))"
proof (cases "position w")
  case Top
  from top_ok [OF ok Top] obtain w' where "w_top s w = Inr (s, w')" "log_ok s w' xs ys zs" "unwritten s w' = unwritten s w"
    by (elim exE conjE) (rule that)
  then show ?thesis using Top nm by (auto simp: w_step_def)
next
  case Locking
  from swap_ok [OF ok Locking, of e] obtain s' w' ys' where r: "w_swap e s w = Inr (s', w')" "log_ok s' w' [] ys' ys'" "fwrites s' = fwrites s"
      "files s' = files s" "basename s' = basename s" "prefix (unwritten s' w') (unwritten s w)"
      "lsize (buffers s) < 25 \<longrightarrow> unwritten s' w' = unwritten s w" by (elim exE conjE) (rule that)
  have "names_ok s'" using nm r by (simp add: names_ok_def)
  moreover have "subseq (unwritten s' w') (unwritten s w)" using r(6) by (rule prefix_imp_subseq)
  ultimately show ?thesis using Locking r by (auto simp: w_step_def)
next
  case (Writing n i)
  from write_ok [OF ok nm Writing, of fuel e] show ?thesis using Writing by (auto simp: w_step_def)
next
  case Flushing
  from flush_ok [OF ok nm Flushing, of fuel e] show ?thesis using Flushing by (auto simp: w_step_def)
next
  case Ended
  then show ?thesis using ok nm by (auto simp: w_step_def)
qed

lemma log_invariant:
  assumes "log_reach s w ms lost"
  shows "\<exists>xs ys zs. log_ok s w xs ys zs \<and> names_ok s \<and> subseq (map snd (fwrites s) @ unwritten s w) ms \<and>
    (\<not> lost \<longrightarrow> map snd (fwrites s) @ unwritten s w = ms)"
  using assms
proof induction
  case (start lvl roll interval base on_disk s w)
  from init_ok [OF start] show ?case by (intro exI [of _ "[]"]) simp
next
  case (call s w ms lost lv pref dir rt line base s')
  then obtain xs ys zs where ok: "log_ok s w xs ys zs" "names_ok s" and rest: "subseq (map snd (fwrites s) @ unwritten s w) ms"
    "\<not> lost \<longrightarrow> map snd (fwrites s) @ unwritten s w = ms" by (elim exE conjE) (rule that)
  from lwrite_ok [OF ok call.hyps(2), of line base] call.hyps(3) obtain xs' where
    "log_ok s' w xs' ys zs" "names_ok s'" "unwritten s' w = unwritten s w @ logged s lv line" "fwrites s' = fwrites s" by auto
  moreover from this(3,4) rest have "subseq (map snd (fwrites s') @ unwritten s' w) (ms @ logged s lv line)"
    "\<not> lost \<longrightarrow> map snd (fwrites s') @ unwritten s' w = ms @ logged s lv line"
    using list_emb_append_mono [OF rest(1) subseq_order.refl, of "logged s lv line"] by auto
  ultimately show ?case by (intro exI [of _ xs'] exI [of _ ys] exI [of _ zs]) blast
next
  case (work s w ms lost fuel e s' w')
  then obtain xs ys zs where ok: "log_ok s w xs ys zs" "names_ok s" and rest: "subseq (map snd (fwrites s) @ unwritten s w) ms"
    "\<not> lost \<longrightarrow> map snd (fwrites s) @ unwritten s w = ms" by (elim exE conjE) (rule that)
  from step_ok [OF ok, of fuel e] work.hyps(2) obtain xs' ys' zs' where
    "log_ok s' w' xs' ys' zs'" "names_ok s'" and sub: "subseq (map snd (fwrites s') @ unwritten s' w') (map snd (fwrites s) @ unwritten s w)"
    and eq: "(position w = Locking \<longrightarrow> lsize (buffers s) < 25) \<longrightarrow> map snd (fwrites s') @ unwritten s' w' = map snd (fwrites s) @ unwritten s w"
    by auto
  moreover have "subseq (map snd (fwrites s') @ unwritten s' w') ms" using sub rest(1) by (rule subseq_order.order_trans)
  moreover have "map snd (fwrites s') @ unwritten s' w' = ms" if "\<not> (lost \<or> position w = Locking \<and> 25 \<le> lsize (buffers s))"
    using that eq rest(2) by (metis not_le)
  ultimately show ?case by blast
next
  case (stop s w ms lost)
  have "log_ok (log_exit s) w xs ys zs = log_ok s w xs ys zs" "unwritten (log_exit s) w = unwritten s w" for xs ys zs
    by (rule log_ok_cong; simp add: log_exit_def)+
  moreover have "names_ok (log_exit s) = names_ok s" "fwrites (log_exit s) = fwrites s" by (simp_all add: names_ok_def log_exit_def)
  ultimately show ?case using stop.IH by simp
qed

section \<open>Properties\<close>


definition demo_env :: environment where
  "demo_env = \<lparr>tm_hour = 7, tm_mday = 2, time_hour = ''2024010207'', time_day = ''20240102'', opendir = (\<lambda>_. DirExists),
     mkdir_ok = (\<lambda>_. True), fopen_ok = (\<lambda>_. True), stat_ok = (\<lambda>_. True)\<rparr>"

definition demo_init :: "logger \<times> worker" where
  "demo_init = linit 1 10 5 None (\<lambda>_. 0)"

definition demo_one :: logger where
  "demo_one = projr (lwrite True 3 (Some ''info'') (Some ''hello'') (Some ''log'') False 0 (fst demo_init))"

lemma log_demo_reach: "log_reach (fst demo_init) (snd demo_init) [] False"
  by (rule log_reach.start [of 1 10 5 None "\<lambda>_. 0"]) (simp_all add: demo_init_def)

lemma log_demo_run: "lwrite True 3 (Some ''info'') (Some ''hello'') (Some ''log'') False 0 (fst demo_init) = Inr demo_one"
  and demo_fwrites: "fwrites demo_one = []"
proof -
  have "good_call 3 ''info'' ''log'' 0" by (simp add: good_call_def LOG_LEVEL_NUM_def)
  moreover obtain xs ys zs where "log_ok (fst demo_init) (snd demo_init) xs ys zs" "names_ok (fst demo_init)"
    using log_invariant [OF log_demo_reach] by (elim exE conjE) (rule that)
  ultimately obtain s' where s': "lwrite True 3 (Some ''info'') (Some ''hello'') (Some ''log'') False 0 (fst demo_init) = Inr s'"
      "fwrites s' = fwrites (fst demo_init)"
    using lwrite_ok [of "fst demo_init" "snd demo_init" xs ys zs 3 "''info''" "''log''" 0 "''hello''" False] by auto
  then have eq: "s' = demo_one" by (simp add: demo_one_def)
  then show "lwrite True 3 (Some ''info'') (Some ''hello'') (Some ''log'') False 0 (fst demo_init) = Inr demo_one" using s' by simp
  have "fwrites (fst demo_init) = []" by (rule init_ok(3) [of 1 10 5 None "\<lambda>_. 0" _ "snd demo_init"]) (simp_all add: demo_init_def)
  then show "fwrites demo_one = []" using s'(2) eq by simp
qed

lemma demo_one_reach: "log_reach demo_one (snd demo_init) [\<lparr>data = ''hello\<newline>'', level = 3\<rparr>] False"
proof -
  have "good_call 3 ''info'' ''log'' 0" by (simp add: good_call_def LOG_LEVEL_NUM_def)
  from log_reach.call [OF log_demo_reach this log_demo_run]
  show ?thesis by (simp add: logged_def demo_init_def linit_def calloc_buffer_def store_def Let_def LOG_MAX_def)
qed




lemma roll_loop_finds:
  assumes "names_ok s" "k \<le> i" "i < k + fuel"
    "\<forall>j\<in>{k..<i}. fopen_ok e (log_path e lv s j) \<and> stat_ok e (log_path e lv s j) \<and> rollsize s \<le> int (disk s (log_path e lv s j))"
    "0 \<le> rollsize s" "fopen_ok e (log_path e lv s i)" "stat_ok e (log_path e lv s i)" "int (disk s (log_path e lv s i)) < rollsize s"
  shows "\<exists>s'. roll_loop fuel e lv k s = Inr s' \<and> handle (files s' lv) = File (log_path e lv s i) \<and>
    written_bytes (files s' lv) = disk s (log_path e lv s i)"
  using assms
proof (induction fuel arbitrary: k s)
  case (Suc fuel)
  let ?o = "opened e lv (log_path e lv s k) s"
  have of: "only_files s ?o" "names_ok ?o" using Suc.prems(1) only_files_names [of s ?o] by simp_all
  note path = only_files_path [OF of(1)]
  show ?case
  proof (cases "k = i")
    case True
    then have "roll_loop (Suc fuel) e lv k s = Inr (settled e lv ?o)"
      using Suc.prems(6-8) unfolding roll_step [OF Suc.prems(1)] by (simp add: Let_def reaches_def)
    moreover have "written_bytes (files (settled e lv ?o) lv) = written_bytes (files ?o lv)" by (simp add: settled_def set_file_def)
    ultimately show ?thesis using True Suc.prems(7) by simp
  next
    case False
    then have "roll_loop (Suc fuel) e lv k s = roll_loop fuel e lv (k + 1) ?o"
      using Suc.prems(2,4,5) unfolding roll_step [OF Suc.prems(1)] by (simp add: Let_def reaches_def)
    moreover have "\<exists>s'. roll_loop fuel e lv (k + 1) ?o = Inr s' \<and> handle (files s' lv) = File (log_path e lv ?o i) \<and>
        written_bytes (files s' lv) = disk ?o (log_path e lv ?o i)"
      by (rule Suc.IH) (use of False Suc.prems in \<open>auto simp: path\<close>)
    ultimately show ?thesis by (simp add: path)
  qed
qed simp

text \<open>Where \<open>rollfile\<close> ends. When the files with the numbers below \<open>i\<close> are full and that with the
  number \<open>i\<close> can be opened and is not, it opens that file and continues its count of bytes.\<close>

theorem log_rollfile:
  assumes "names_ok s" "handle (files s lv) \<noteq> Stdout"
    "opendir e (dirname (files s lv)) = DirExists \<or> opendir e (dirname (files s lv)) = DirMissing \<and> mkdir_ok e (dirname (files s lv))"
    "\<forall>j<i. fopen_ok e (log_path e lv s j) \<and> stat_ok e (log_path e lv s j) \<and> rollsize s \<le> int (disk s (log_path e lv s j))"
    "0 \<le> rollsize s" "fopen_ok e (log_path e lv s i)" "stat_ok e (log_path e lv s i)" "int (disk s (log_path e lv s i)) < rollsize s" "i < fuel"
  shows "\<exists>s'. rollfile fuel e lv s = Inr s' \<and> handle (files s' lv) = File (log_path e lv s i) \<and>
    written_bytes (files s' lv) = disk s (log_path e lv s i)"
proof -
  have "\<exists>s'. roll_loop fuel e lv 0 s = Inr s' \<and> handle (files s' lv) = File (log_path e lv s i) \<and>
    written_bytes (files s' lv) = disk s (log_path e lv s i)" by (rule roll_loop_finds) (use assms in auto)
  moreover have "length (dirname (files s lv)) < 64" using assms(1) by (simp add: names_ok_def)
  ultimately show ?thesis using assms(2,3) by (auto simp: rollfile_def read64_def)
qed

definition demo_disk :: "string \<Rightarrow> nat" where
  "demo_disk p = (if p = ''/.2024010207.log'' then 12582912 else 77)"

definition demo_full :: logger where
  "demo_full = fst (linit 1 10 5 None demo_disk)"

lemma demo_full_sel: "files demo_full = (\<lambda>_. empty_file)" "rollsize demo_full = roll_bytes 10" "disk demo_full = demo_disk"
  "basename demo_full = strncpy64 DEFAULT_BASENAME"
  by (simp_all add: demo_full_def linit_def calloc_buffer_def store_def Let_def)

theorem log_rollfile_witness:
  "\<exists>s'. rollfile 5 demo_env 3 demo_full = Inr s' \<and> handle (files s' 3) = File ''/.2024010207.1.log'' \<and> written_bytes (files s' 3) = 77"
proof -
  have p: "log_path demo_env 3 demo_full 0 = ''/.2024010207.log''" "log_path demo_env 3 demo_full 1 = ''/.2024010207.1.log''"
    by (simp_all add: log_path_def demo_full_sel empty_file_def get_log_filename_def timebuf_def demo_env_def snprintf128_def Let_def
        strncpy64_def DEFAULT_BASENAME_def show_int.simps char_of_def bit_0)
  have r: "rollsize demo_full = 10485760" by (simp add: demo_full_sel roll_bytes_def ONE_MB_def)
  have "names_ok demo_full" by (simp add: names_ok_def demo_full_sel empty_file_def strncpy64_def DEFAULT_BASENAME_def)
  then show ?thesis using log_rollfile [of demo_full 3 demo_env 1 5] p r by (simp add: demo_full_sel empty_file_def demo_env_def demo_disk_def)
qed

text \<open>The end of the logger. A worker that is at the top of its loop when \<open>log_exit\<close> clears \<open>running\<close>
  ends without writing: what was appended since its last swap stays in the buffers.\<close>

theorem log_exit_loses:
  assumes "log_reach s w ms False" "position w = Top"
  shows "w_step fuel e (log_exit s) w = Inr (log_exit s, w\<lparr>position := Ended\<rparr>) \<and>
    map snd (fwrites (log_exit s)) @ unwritten (log_exit s) (w\<lparr>position := Ended\<rparr>) = ms \<and>
    w_step fuel e (log_exit s) (w\<lparr>position := Ended\<rparr>) = Inr (log_exit s, w\<lparr>position := Ended\<rparr>)"
proof -
  have "map snd (fwrites s) @ unwritten s w = ms" using log_invariant [OF assms(1)] by (elim exE conjE) simp
  moreover have "unwritten (log_exit s) (w\<lparr>position := Ended\<rparr>) = unwritten s w" using assms(2) by (simp add: unwritten_def log_exit_def split: option.split)
  ultimately show ?thesis using assms(2) by (simp add: w_step_def w_top_def log_exit_def)
qed

theorem log_exit_loses_witness:
  "w_step 9 demo_env (log_exit demo_one) (snd demo_init) = Inr (log_exit demo_one, (snd demo_init)\<lparr>position := Ended\<rparr>) \<and>
   fwrites (log_exit demo_one) = [] \<and>
   unwritten (log_exit demo_one) ((snd demo_init)\<lparr>position := Ended\<rparr>) = [\<lparr>data = ''hello\<newline>'', level = 3\<rparr>]"
proof -
  have "position (snd demo_init) = Top" by (simp add: demo_init_def linit_def calloc_buffer_def Let_def)
  moreover have "fwrites (log_exit demo_one) = []" using demo_fwrites by (simp add: log_exit_def)
  ultimately show ?thesis using log_exit_loses [OF demo_one_reach, of 9 demo_env] by simp
qed

text \<open>A failed allocation. When the current buffer is full, there is no spare one and \<open>calloc\<close> fails, the
  call returns and leaves the current buffer in the list of full ones, so that the next message at
  any level fails the assertion \<open>buffers.tail->next == NULL\<close>.\<close>

theorem log_calloc_failure:
  assumes "log_ok s w xs ys zs" "next_buffer s = None" "heap s (curr_buffer s) = Some b" "length (message b) + 1 = LOG_MESSAGE_SIZE"
    "0 \<le> lv" "lv < int LOG_LEVEL_NUM" "0 \<le> lv'" "lv' < int LOG_LEVEL_NUM"
  shows "\<exists>s'. append_log False line lv dir base rt s = Inr s' \<and> append_log c line' lv' dir' base' rt' s' = Inl AssertFail"
proof -
  let ?t = "\<lambda>lv rt dir base s. set_file (nat lv) (\<lambda>f. f\<lparr>roll_type := rt\<rparr>)
    (if dirname (files s (nat lv)) = [] then set_file (nat lv) (\<lambda>f. f\<lparr>dirname := strncpy64 dir, use_basename := base\<rparr>) s else s)"
  let ?c = "curr_buffer s"
  let ?l = "\<lparr>head = Some (hd (xs @ [?c])), tail = Some ?c, lsize = length xs + 1\<rparr>"
  define t where "t = ?t lv rt dir base s"
  have t: "heap t = heap s" "fresh t = fresh s" "curr_buffer t = ?c" "next_buffer t = next_buffer s" "buffers t = buffers s"
    by (simp_all add: t_def set_file_def)
  have "log_ok t w xs ys zs" using log_ok_cong(1) [OF t] assms(1) by simp
  from push_full_ok [OF this] have push: "push_full t = Inr (t\<lparr>buffers := ?l\<rparr>)" by (simp add: t)
  define u where "u = t\<lparr>buffers := ?l\<rparr>"
  have first: "append_log False line lv dir base rt s = Inr u"
    unfolding append_log_def Let_def t_def [symmetric]
    using assms(2-6) push by (simp add: deref_def t next_current_def u_def)
  define v where "v = ?t lv' rt' dir' base' u"
  have v: "heap v = heap s" "curr_buffer v = ?c" "buffers v = ?l" by (simp_all add: v_def u_def set_file_def t)
  have "push_full v = Inl AssertFail"
    using assms(3) by (simp add: push_full_def v set_next_def deref_def store_def)
  then have "append_log c line' lv' dir' base' rt' u = Inl AssertFail"
    unfolding append_log_def Let_def v_def [symmetric] using assms(3,4,7,8) by (simp add: deref_def v)
  with first show ?thesis by blast
qed

definition demo_msgs :: "buffer_message list" where
  "demo_msgs = replicate 511 \<lparr>data = ''x'', level = 3\<rparr>"

text \<open>Two buffers full, none spare.\<close>

definition demo_busy :: logger where
  "demo_busy = (fst demo_init)\<lparr>heap := [0 \<mapsto> \<lparr>bnext = Some 1, message = demo_msgs\<rparr>, 1 \<mapsto> \<lparr>bnext = None, message = demo_msgs\<rparr>,
     2 \<mapsto> empty_buffer, 3 \<mapsto> empty_buffer], curr_buffer := 1, next_buffer := None, fresh := 4, buffers := \<lparr>head = Some 0, tail = Some 0, lsize = 1\<rparr>\<rparr>"

theorem log_calloc_failure_witness:
  "\<exists>s'. append_log False ''a'' 3 ''log'' False 0 demo_busy = Inr s' \<and> append_log True ''b'' 4 ''log'' False 0 s' = Inl AssertFail"
proof -
  have w: "position (snd demo_init) = Top" "new_buffer1 (snd demo_init) = Some 2" "new_buffer2 (snd demo_init) = Some 3" "to_write (snd demo_init) = no_buffers"
    by (simp_all add: demo_init_def linit_def calloc_buffer_def store_def Let_def)
  have len: "length demo_msgs = 511" by (simp add: demo_msgs_def)
  have "log_ok demo_busy (snd demo_init) [0] [] []"
    by (auto simp: log_ok_def front_ok_def back_ok_def heap_ok_def demo_busy_def w no_buffers_def empty_buffer_def LOG_MESSAGE_SIZE_def len split: if_splits)
  from log_calloc_failure [OF this] show ?thesis by (simp add: demo_busy_def len LOG_MESSAGE_SIZE_def LOG_LEVEL_NUM_def)
qed

text \<open>The size limit wraps. A limit of 4096 megabytes becomes 0 in the \<open>int\<close> \<open>rollsize\<close>; every file is then
  full, and the search for one that is not goes on for ever.\<close>

theorem log_rollsize_wraps:
  assumes "names_ok s" "rollsize s = roll_bytes 4096" "handle (files s lv) \<noteq> Stdout"
    "opendir e (dirname (files s lv)) = DirExists" "\<forall>p. fopen_ok e p"
  shows "rollfile fuel e lv s = Inl Diverges"
proof -
  have "names_ok s \<Longrightarrow> rollsize s = 0 \<Longrightarrow> roll_loop fuel e lv k s = Inl Diverges" for k s
  proof (induction fuel arbitrary: k s)
    case (Suc fuel)
    let ?o = "opened e lv (log_path e lv s k) s"
    have "names_ok ?o" using Suc.prems(1) only_files_names [of s ?o] by simp
    then show ?case using Suc.IH [of ?o "k + 1"] Suc.prems(2) assms(5) unfolding roll_step [OF Suc.prems(1)] by (simp add: Let_def reaches_def)
  qed simp
  moreover have "rollsize s = 0" using assms(2) by (simp add: roll_bytes_def ONE_MB_def)
  moreover have "length (dirname (files s lv)) < 64" using assms(1) by (simp add: names_ok_def)
  ultimately show ?thesis using assms(1,3,4) by (simp add: rollfile_def read64_def)
qed

theorem log_rollsize_wraps_witness:
  "rollfile 1000 demo_env 3 (fst (linit 1 4096 5 None (\<lambda>_. 0))) = Inl Diverges"
  by (rule log_rollsize_wraps)
    (simp_all add: names_ok_def linit_def calloc_buffer_def store_def Let_def empty_file_def strncpy64_def DEFAULT_BASENAME_def demo_env_def)

end
