(* ===== verification/Client.thy ===== *)
theory Client
  imports Prelude
begin

text \<open>
  The socket library of the test client (\<open>lua-client.c\<close>): packets with a length in two bytes
  before them, lines, and sending. A connection is the bytes the kernel holds and what happens
  next on it; every call of \<open>recv\<close> and \<open>send\<close> takes one event. When nothing more happens the call
  waits for ever, which is the failure \<open>Diverges\<close>, as is a loop that does not end.
\<close>

section \<open>The model\<close>

definition CACHE_SIZE :: nat where "CACHE_SIZE = 0x10000"

subsection \<open>Sockets\<close>

text \<open>Bytes arrive, the call is interrupted or times out, the peer closes, or an error occurs.\<close>

datatype event = Arrive "byte list" | Again | Intr | Closed | Failed

record socket =
  queue :: "byte list"
  events :: "event list"

text \<open>What \<open>recv\<close> returns: bytes, none of them for a closed connection, or -1 with \<open>errno\<close>.\<close>

datatype errno = EAGAIN | EINTR | EOTHER

datatype received = Bytes "byte list" | Errno errno

text \<open>The third argument of \<open>recv\<close> is a \<open>size_t\<close>.\<close>

definition to_size :: "int \<Rightarrow> nat" where
  "to_size n = nat (n mod 2 ^ 64)"

definition deliver :: "bool \<Rightarrow> nat \<Rightarrow> socket \<Rightarrow> socket \<times> received" where
  "deliver peek n k = (k\<lparr>queue := if peek then queue k else drop n (queue k)\<rparr>, Bytes (take n (queue k)))"

text \<open>The call waits while there is nothing to deliver, and returns at once when asked for no bytes.\<close>

fun recv_events :: "bool \<Rightarrow> nat \<Rightarrow> byte list \<Rightarrow> event list \<Rightarrow> (socket \<times> received) cres" where
  "recv_events peek n q [] = (if q = [] then Inl Diverges else Inr (deliver peek n \<lparr>queue = q, events = []\<rparr>))"
| "recv_events peek n q (Arrive bs # es) =
     (if q @ bs = [] then recv_events peek n [] es else Inr (deliver peek n \<lparr>queue = q @ bs, events = es\<rparr>))"
| "recv_events peek n q (Again # es) = Inr (\<lparr>queue = q, events = es\<rparr>, Errno EAGAIN)"
| "recv_events peek n q (Intr # es) = Inr (\<lparr>queue = q, events = es\<rparr>, Errno EINTR)"
| "recv_events peek n q (Failed # es) = Inr (\<lparr>queue = q, events = es\<rparr>, Errno EOTHER)"
| "recv_events peek n q (Closed # es) = Inr (deliver peek n \<lparr>queue = q, events = Closed # es\<rparr>)"

definition recv :: "bool \<Rightarrow> int \<Rightarrow> socket \<Rightarrow> (socket \<times> received) cres" where
  "recv peek n k = (if to_size n = 0 then Inr (k, Bytes []) else recv_events peek (to_size n) (queue k) (events k))"

subsection \<open>Packets\<close>

definition int32 :: "int \<Rightarrow> int" where
  "int32 n = sint (word_of_int n :: u32)"

definition memcpy :: "byte list \<Rightarrow> byte list \<Rightarrow> byte list" where
  "memcpy buffer bs = bs @ drop (length bs) buffer"

text \<open>\<open>tmp\<close> and the buffers of the callers have \<open>CACHE_SIZE\<close> bytes.\<close>

primrec recvblock :: "nat \<Rightarrow> byte list \<Rightarrow> int \<Rightarrow> nat \<Rightarrow> socket \<Rightarrow> (bool \<times> byte list \<times> socket) cres" where
  "recvblock 0 buffer sz timeout k = Inl Diverges"
| "recvblock (Suc fuel) buffer sz timeout k =
     bind_res (recv False sz k) (\<lambda>(k, r).
       case r of
         Bytes bs \<Rightarrow>
           if bs = [] then Inr (False, buffer, k)
           else if CACHE_SIZE < length bs \<or> length buffer < length bs then Inl OutOfBounds
           else
             let sz = int32 (sz - int (length bs)); buffer = memcpy buffer bs in
             if sz = 0 then Inr (True, buffer, k) else recvblock fuel buffer sz timeout k
       | Errno e \<Rightarrow>
           if e = EAGAIN \<or> e = EINTR then
             if timeout > 0 \<and> e = EAGAIN then Inr (False, buffer, k) else recvblock fuel buffer sz timeout k
           else Inr (False, buffer, k))"

definition zeroed :: "byte list" where
  "zeroed = replicate CACHE_SIZE 0"

text \<open>The length is read as a \<open>short\<close> after \<open>ntohs\<close>.\<close>

fun ntohs_short :: "byte list \<Rightarrow> int" where
  "ntohs_short (a # b # _) = sint (word_of_int (256 * uint a + uint b) :: u16)"
| "ntohs_short _ = 0"

text \<open>Header and body; \<open>None\<close> when one of them could not be received.\<close>

definition recv_packet :: "nat \<Rightarrow> nat \<Rightarrow> byte list \<Rightarrow> socket \<Rightarrow> ((int \<times> byte list) option \<times> byte list \<times> socket) cres" where
  "recv_packet fuel timeout buffer k =
     bind_res (recvblock fuel buffer 2 timeout k) (\<lambda>(ok, data, k).
       if \<not> ok then Inr (None, data, k)
       else
         let sz = ntohs_short data in
         bind_res (recvblock fuel data sz timeout k) (\<lambda>(ok, data, k).
           if \<not> ok then Inr (None, data, k) else Inr (Some (sz, data), data, k)))"

text \<open>\<open>lua_pushlstring\<close> takes a \<open>size_t\<close>.\<close>

definition push_packet :: "int \<times> byte list \<Rightarrow> byte list cres" where
  "push_packet p = (case p of (sz, data) \<Rightarrow> if to_size sz \<le> length data then Inr (take (to_size sz) data) else Inl OutOfBounds)"

definition lrecv :: "nat \<Rightarrow> int option \<Rightarrow> socket \<Rightarrow> (byte list option \<times> socket) cres" where
  "lrecv fuel timeout k =
     bind_res (recv_packet fuel (to_size (case timeout of None \<Rightarrow> 0 | Some t \<Rightarrow> t)) zeroed k) (\<lambda>(p, _, k).
       case p of
         None \<Rightarrow> Inr (None, k)
       | Some p \<Rightarrow> bind_res (push_packet p) (\<lambda>bs. Inr (Some bs, k)))"

text \<open>The callback is given the packet; without one the function returns -1.\<close>

definition lrecvpack :: "nat \<Rightarrow> socket \<Rightarrow> (int \<times> byte list option \<times> socket) cres" where
  "lrecvpack fuel k =
     bind_res (recv_packet fuel 0 zeroed k) (\<lambda>(p, _, k).
       case p of
         None \<Rightarrow> Inr (-1, None, k)
       | Some p \<Rightarrow> bind_res (push_packet p) (\<lambda>bs. Inr (0, Some bs, k)))"

text \<open>The thread that reads packets until one cannot be received; it returns how many it read.\<close>

primrec loop_worker :: "nat \<Rightarrow> nat \<Rightarrow> byte list \<Rightarrow> socket \<Rightarrow> (nat \<times> socket) cres" where
  "loop_worker 0 fuel buffer k = Inl Diverges"
| "loop_worker (Suc rounds) fuel buffer k =
     bind_res (recv_packet fuel 0 buffer k) (\<lambda>(p, buffer, k).
       case p of
         None \<Rightarrow> Inr (0, k)
       | Some _ \<Rightarrow> bind_res (loop_worker rounds fuel buffer k) (\<lambda>(n, k). Inr (n + 1, k)))"

subsection \<open>Lines\<close>

text \<open>The loop over the bytes that were peeked at. A line that can be read is returned; the buffer
  is replaced when a read returns fewer bytes.\<close>

fun scan_line :: "nat \<Rightarrow> nat \<Rightarrow> byte list \<Rightarrow> int \<Rightarrow> socket \<Rightarrow> (byte list option \<times> socket) cres" where
  "scan_line 0 i buffer r k = Inr (None, k)"
| "scan_line (Suc n) i buffer r k =
     (if \<not> int i < r then Inr (None, k)
      else if i < length buffer \<and> buffer ! i = 10 then
        bind_res (recv False (int i + 1) k) (\<lambda>(k, res).
          case res of
            Bytes bs \<Rightarrow>
              if length bs = i + 1 then Inr (Some (take i bs), k)
              else scan_line n (i + 1) (memcpy zeroed bs) (int (length bs)) k
          | Errno _ \<Rightarrow> scan_line n (i + 1) zeroed (-1) k)
      else scan_line n (i + 1) buffer r k)"

datatype line = Line "byte list" | SocketError

primrec lrecvline :: "nat \<Rightarrow> socket \<Rightarrow> (line \<times> socket) cres" where
  "lrecvline 0 k = Inl Diverges"
| "lrecvline (Suc fuel) k =
     bind_res (recv True (int CACHE_SIZE) k) (\<lambda>(k, r).
       case r of
         Bytes bs \<Rightarrow>
           if bs = [] then Inr (Line [], k)
           else
             bind_res (scan_line (length bs) 0 (memcpy zeroed bs) (int (length bs)) k) (\<lambda>(l, k).
               case l of Some bs \<Rightarrow> Inr (Line bs, k) | None \<Rightarrow> lrecvline fuel k)
       | Errno e \<Rightarrow> if e = EAGAIN \<or> e = EINTR then lrecvline fuel k else Inr (SocketError, k))"

subsection \<open>Sending\<close>

text \<open>Each call of \<open>send\<close> accepts a number of bytes, at most those offered, or fails.\<close>

datatype send_event = Sent nat | SendErr errno

datatype sent = Done | SendError

fun block_send :: "byte list \<Rightarrow> int \<Rightarrow> byte list \<Rightarrow> send_event list \<Rightarrow> (sent \<times> byte list) cres" where
  "block_send buffer sz wire es =
     (if sz \<le> 0 then Inr (Done, wire)
      else
        case es of
          [] \<Rightarrow> Inl Diverges
        | Sent r # es \<Rightarrow>
            let r = min r (nat sz) in
            block_send (drop r buffer) (sz - int r) (wire @ take r buffer) es
        | SendErr e # es \<Rightarrow>
            if e = EAGAIN \<or> e = EINTR then block_send buffer sz wire es else Inr (SendError, wire))"

declare block_send.simps [simp del]

definition lsend :: "byte list \<Rightarrow> send_event list \<Rightarrow> (sent \<times> byte list) cres" where
  "lsend msg es = block_send msg (int32 (int (length msg))) [] es"

subsection \<open>The receiving thread\<close>

text \<open>The two globals and the threads that run, by their numbers.\<close>

record loop_state =
  g_threadFlg :: bool
  g_pid :: nat
  threads :: "nat list"
  next_pid :: nat

definition lloop :: "loop_state \<Rightarrow> loop_state" where
  "lloop s = s\<lparr>threads := threads s @ [next_pid s], next_pid := next_pid s + 1, g_pid := next_pid s, g_threadFlg := True\<rparr>"

definition lstoploop :: "loop_state \<Rightarrow> loop_state" where
  "lstoploop s =
     (if g_threadFlg s then s\<lparr>threads := removeAll (g_pid s) (threads s), g_threadFlg := False\<rparr> else s)"

section \<open>Receiving\<close>

text \<open>All bytes that the peer has sent and that are not read yet, when only bytes arrive.\<close>

fun arrivals :: "event list \<Rightarrow> byte list" where
  "arrivals (Arrive bs # es) = bs @ arrivals es"
| "arrivals (_ # es) = arrivals es"
| "arrivals [] = []"

definition stream :: "socket \<Rightarrow> byte list" where
  "stream k = queue k @ arrivals (events k)"

definition only_bytes :: "socket \<Rightarrow> bool" where
  "only_bytes k \<longleftrightarrow> (\<forall>e\<in>set (events k). \<exists>bs. e = Arrive bs)"

lemma to_size_nat [simp]: "n < 2 ^ 64 \<Longrightarrow> to_size (int n) = n"
  by (simp add: to_size_def)

lemma int32_small [simp]: "- (2 ^ 31) \<le> n \<Longrightarrow> n < 2 ^ 31 \<Longrightarrow> int32 n = n"
  by (simp add: int32_def signed_of_int signed_take_bit_int_eq_self)

text \<open>A call returns when the kernel holds bytes; one that asks for no more than these gets them.\<close>

lemma recv_nonempty:
  assumes "only_bytes k" "0 < n" "queue k \<noteq> []" "n < 2 ^ 64"
  shows "\<exists>k' more. recv peek (int n) k = Inr (k', Bytes (take n (queue k @ more))) \<and> only_bytes k' \<and>
    queue k' = (if peek then queue k @ more else drop n (queue k @ more)) \<and>
    (peek \<or> n \<le> length (queue k) \<longrightarrow> stream k' = (if peek then stream k else drop n (stream k)))"
proof -
  have "\<exists>es more. recv peek (int n) k = Inr (deliver peek n \<lparr>queue = queue k @ more, events = es\<rparr>) \<and>
      more @ arrivals es = arrivals (events k) \<and> set es \<subseteq> set (events k)"
  proof (cases "events k")
    case Nil
    then show ?thesis using assms by (intro exI [of _ "[]"]) (simp add: recv_def)
  next
    case (Cons e es)
    then obtain bs where "e = Arrive bs" using assms(1) by (auto simp: only_bytes_def)
    then show ?thesis using assms Cons by (intro exI [of _ es] exI [of _ bs]) (auto simp: recv_def)
  qed
  then obtain es more where r: "recv peek (int n) k = Inr (deliver peek n \<lparr>queue = queue k @ more, events = es\<rparr>)"
      "more @ arrivals es = arrivals (events k)" "set es \<subseteq> set (events k)" by blast
  let ?k = "\<lparr>queue = if peek then queue k @ more else drop n (queue k @ more), events = es\<rparr>"
  have "recv peek (int n) k = Inr (?k, Bytes (take n (queue k @ more)))" using r(1) by (simp add: deliver_def)
  moreover have "only_bytes ?k" using r(3) assms(1) by (auto simp: only_bytes_def)
  moreover have "stream ?k = (if peek then stream k else drop n (stream k))" if "peek \<or> n \<le> length (queue k)"
    using that r(2) [symmetric] by (auto simp: stream_def)
  ultimately show ?thesis by (intro exI [of _ ?k] exI [of _ more]) simp
qed

lemma recv_queued:
  assumes "only_bytes k" "0 < n" "n \<le> length (queue k)" "n < 2 ^ 64"
  shows "\<exists>k' more. recv False (int n) k = Inr (k', Bytes (take n (queue k))) \<and> only_bytes k' \<and>
    queue k' = drop n (queue k) @ more \<and> stream k' = drop n (stream k)"
proof -
  have "queue k \<noteq> []" using assms(2,3) by auto
  from recv_nonempty [OF assms(1,2) this assms(4), of False] show ?thesis using assms(3) by auto
qed

lemma recvblock_queued:
  assumes "only_bytes k" "0 < n" "n \<le> length (queue k)" "n \<le> CACHE_SIZE" "length buffer = CACHE_SIZE"
  shows "\<exists>k' more. recvblock (Suc fuel) buffer (int n) timeout k = Inr (True, memcpy buffer (take n (queue k)), k') \<and>
    only_bytes k' \<and> queue k' = drop n (queue k) @ more \<and> stream k' = drop n (stream k)"
proof -
  have "n < 2 ^ 64" using assms(4) by (simp add: CACHE_SIZE_def)
  from recv_queued [OF assms(1-3) this] obtain k' more where
    "recv False (int n) k = Inr (k', Bytes (take n (queue k)))" "only_bytes k'" "queue k' = drop n (queue k) @ more" "stream k' = drop n (stream k)"
    by auto
  moreover have "take n (queue k) \<noteq> []" "length (take n (queue k)) = n" using assms(2,3) by auto
  ultimately show ?thesis using assms(4,5) by (simp add: Let_def)
qed

text \<open>A packet as the server sends it.\<close>

definition pack :: "byte list \<Rightarrow> byte list" where
  "pack bs = [word_of_int (int (length bs) div 256), word_of_int (int (length bs))] @ bs"

lemma pack_header:
  assumes "length bs < 2 ^ 15"
  shows "ntohs_short (word_of_int (int (length bs) div 256) # word_of_int (int (length bs)) # rest) = int (length bs)"
proof -
  let ?n = "int (length bs)"
  have n: "0 \<le> ?n" "?n < 2 ^ 15" using assms by simp_all
  have "uint (word_of_int (?n div 256) :: byte) = ?n div 256" "uint (word_of_int ?n :: byte) = ?n mod 256"
    using n by (simp add: uint_word_of_int) (simp add: unsigned_of_nat take_bit_eq_mod zmod_int)
  then have "256 * uint (word_of_int (?n div 256) :: byte) + uint (word_of_int ?n :: byte) = ?n" by simp
  then show ?thesis using n by (simp only: ntohs_short.simps) (simp add: signed_of_int signed_take_bit_int_eq_self del: of_int_of_nat_eq)
qed

lemma length_memcpy [simp]: "length bs \<le> length buffer \<Longrightarrow> length (memcpy buffer bs) = length buffer"
  by (simp add: memcpy_def)

lemma length_zeroed [simp]: "length zeroed = CACHE_SIZE"
  by (simp add: zeroed_def)

lemma recv_packet_whole:
  assumes "only_bytes k" "queue k = pack bs @ rest" "0 < length bs" "length bs < 2 ^ 15" "length buffer = CACHE_SIZE"
  shows "\<exists>k' buffer' more. recv_packet (Suc fuel) timeout buffer k = Inr (Some (int (length bs), buffer'), buffer', k') \<and>
    take (length bs) buffer' = bs \<and> length buffer' = CACHE_SIZE \<and> only_bytes k' \<and> queue k' = rest @ more \<and> stream k' = drop (2 + length bs) (stream k)"
proof -
  let ?hd = "take 2 (pack bs)"
  have hd: "take 2 (queue k) = ?hd" "drop 2 (queue k) = bs @ rest" "length ?hd = 2" "2 \<le> length (queue k)" using assms(2) by (simp_all add: pack_def)
  have two: "2 \<le> CACHE_SIZE" "length bs \<le> CACHE_SIZE" using assms(4) by (simp_all add: CACHE_SIZE_def)
  from recvblock_queued [OF assms(1) _ hd(4) two(1) assms(5), of fuel timeout] hd obtain k1 m1 where
    r1: "recvblock (Suc fuel) buffer 2 timeout k = Inr (True, memcpy buffer ?hd, k1)" and
    k1: "only_bytes k1" "queue k1 = (bs @ rest) @ m1" "stream k1 = drop 2 (stream k)" by auto
  let ?b = "memcpy buffer ?hd"
  have "length ?b = CACHE_SIZE" using assms(5) hd(3) two(1) by simp
  from recvblock_queued [OF k1(1) assms(3) _ two(2) this, of fuel timeout] k1 obtain k2 m2 where
    r2: "recvblock (Suc fuel) ?b (int (length bs)) timeout k1 = Inr (True, memcpy ?b bs, k2)" and
    k2: "only_bytes k2" "queue k2 = rest @ m2" "stream k2 = drop (length bs) (stream k1)" by auto
  have "ntohs_short ?b = int (length bs)" using pack_header [OF assms(4)] by (simp add: pack_def memcpy_def)
  then have "recv_packet (Suc fuel) timeout buffer k = Inr (Some (int (length bs), memcpy ?b bs), memcpy ?b bs, k2)"
    unfolding recv_packet_def r1 using r2 by simp
  moreover have "stream k2 = drop (2 + length bs) (stream k)" using k2(3) k1(3) by (simp add: add.commute)
  moreover have "take (length bs) (memcpy ?b bs) = bs" by (simp add: memcpy_def)
  moreover have "length (memcpy ?b bs) = CACHE_SIZE" using two \<open>length ?b = CACHE_SIZE\<close> by simp
  ultimately show ?thesis using k2 by blast
qed

text \<open>C33. Packets that arrive whole. When the kernel holds a packet of 1 to 32767 bytes, \<open>lrecv\<close> and \<open>lrecvpack\<close>
  return its body, whatever has arrived or arrives behind it, and the rest of the stream stays to be read.\<close>

theorem client_recv:
  assumes "only_bytes k" "queue k = pack bs @ rest" "0 < length bs" "length bs < 2 ^ 15"
  shows "(\<exists>k' more. lrecv (Suc fuel) timeout k = Inr (Some bs, k') \<and> queue k' = rest @ more \<and> stream k' = drop (length (pack bs)) (stream k)) \<and>
    (\<exists>k' more. lrecvpack (Suc fuel) k = Inr (0, Some bs, k') \<and> queue k' = rest @ more \<and> stream k' = drop (length (pack bs)) (stream k))"
proof -
  have push: "push_packet (int (length bs), b) = Inr bs" if "take (length bs) b = bs" "length b = CACHE_SIZE" for b
    using that assms(4) by (simp add: push_packet_def CACHE_SIZE_def)
  have len: "length (pack bs) = 2 + length bs" by (simp add: pack_def)
  note whole = recv_packet_whole [OF assms length_zeroed]
  from whole [of fuel 0] push have "\<exists>k' more. lrecvpack (Suc fuel) k = Inr (0, Some bs, k') \<and> queue k' = rest @ more \<and>
    stream k' = drop (length (pack bs)) (stream k)" unfolding len by (auto simp: lrecvpack_def)
  moreover from whole [of fuel "to_size (case timeout of None \<Rightarrow> 0 | Some t \<Rightarrow> t)"] push
  have "\<exists>k' more. lrecv (Suc fuel) timeout k = Inr (Some bs, k') \<and> queue k' = rest @ more \<and>
    stream k' = drop (length (pack bs)) (stream k)" unfolding len by (auto simp: lrecv_def)
  ultimately show ?thesis by blast
qed

theorem client_recv_witness:
  "\<exists>k'. lrecv 1 None \<lparr>queue = [0, 3, 7, 8, 9, 0, 1], events = [Arrive [5]]\<rparr> = Inr (Some [7, 8, 9], k') \<and> stream k' = [0, 1, 5]"
proof -
  let ?k = "\<lparr>queue = [0, 3, 7, 8, 9, 0, 1], events = [Arrive [5]]\<rparr>"
  have "only_bytes ?k" "queue ?k = pack [7, 8, 9] @ [0, 1]" "stream ?k = [0, 3, 7, 8, 9, 0, 1, 5]" "length (pack [7, 8, 9]) = 5"
    by (simp_all add: only_bytes_def pack_def stream_def)
  then show ?thesis using client_recv [of ?k "[7, 8, 9]" "[0, 1]" 0 None] by auto
qed

section \<open>Packets in pieces\<close>

lemma recv_piece:
  assumes "bs \<noteq> []" "length bs \<le> n" "n < 2 ^ 64"
  shows "recv False (int n) \<lparr>queue = [], events = Arrive bs # es\<rparr> = Inr (\<lparr>queue = [], events = es\<rparr>, Bytes bs)"
proof -
  have "0 < n" using assms(1,2) by (cases n) auto
  then show ?thesis using assms by (simp add: recv_def deliver_def)
qed

text \<open>A body that arrives in two pieces. \<open>recvblock\<close> copies every piece to the start of the buffer, so the
  body it returns has the right length and begins with the second piece.\<close>

theorem client_recv_split:
  assumes "a \<noteq> []" "b \<noteq> []" "length (a @ b) < 2 ^ 15"
  shows "\<exists>bs. lrecv (Suc (Suc fuel)) timeout \<lparr>queue = [], events = [Arrive (take 2 (pack (a @ b))), Arrive a, Arrive b]\<rparr> =
      Inr (Some bs, \<lparr>queue = [], events = []\<rparr>) \<and> length bs = length (a @ b) \<and> take (length b) bs = b"
proof -
  let ?n = "length (a @ b)" and ?h = "take 2 (pack (a @ b))"
  have h: "?h \<noteq> []" "length ?h = 2" "length ?h \<le> 2" by (simp_all add: pack_def)
  let ?b0 = "memcpy zeroed ?h"
  have sz: "ntohs_short ?b0 = int ?n" using pack_header [OF assms(3)] by (simp add: pack_def memcpy_def)
  have lens: "?n \<le> CACHE_SIZE" "2 \<le> CACHE_SIZE" "length a \<le> CACHE_SIZE" "length b \<le> CACHE_SIZE" "?n < 2 ^ 64"
    using assms(3) by (simp_all add: CACHE_SIZE_def)
  have r1: "recvblock (Suc (Suc fuel)) zeroed 2 t \<lparr>queue = [], events = Arrive ?h # es\<rparr> = Inr (True, ?b0, \<lparr>queue = [], events = es\<rparr>)" for es t
    using recv_piece [OF h(1), of 2 es] h lens by (simp add: Let_def)
  let ?b1 = "memcpy ?b0 a"
  have b1: "length ?b0 = CACHE_SIZE" "length ?b1 = CACHE_SIZE" using h lens by simp_all
  have r3: "recvblock (Suc fuel) ?b1 (int (length b)) t \<lparr>queue = [], events = [Arrive b]\<rparr> =
      Inr (True, memcpy ?b1 b, \<lparr>queue = [], events = []\<rparr>)" for t
    using recv_piece [OF assms(2), of "length b" "[]"] lens b1 assms(2) by (simp add: Let_def)
  have i: "int32 (int ?n - int (length a)) = int (length b)" using assms(3) by simp
  have r2: "recvblock (Suc (Suc fuel)) ?b0 (int ?n) t \<lparr>queue = [], events = [Arrive a, Arrive b]\<rparr> =
      Inr (True, memcpy ?b1 b, \<lparr>queue = [], events = []\<rparr>)" for t
    unfolding recvblock.simps(2) [of "Suc fuel"] using recv_piece [OF assms(1), of ?n "[Arrive b]"] r3 lens b1 assms(1,2) i by (simp add: Let_def del: recvblock.simps)
  have "push_packet (int ?n, memcpy ?b1 b) = Inr (take ?n (memcpy ?b1 b))" 
    using to_size_nat [OF lens(5)] lens b1 by (simp add: push_packet_def)
  then have "lrecv (Suc (Suc fuel)) timeout \<lparr>queue = [], events = [Arrive ?h, Arrive a, Arrive b]\<rparr> =
      Inr (Some (take ?n (memcpy ?b1 b)), \<lparr>queue = [], events = []\<rparr>)"
    unfolding lrecv_def recv_packet_def r1 bind_res_simps prod.case if_P sz Let_def r2 by (simp del: recvblock.simps)
  moreover have "length (take ?n (memcpy ?b1 b)) = ?n" using lens b1 by simp
  moreover have "take (length b) (take ?n (memcpy ?b1 b)) = b" by (simp add: memcpy_def)
  ultimately show ?thesis by blast
qed

theorem client_recv_split_witness:
  "\<exists>bs. lrecv 2 None \<lparr>queue = [], events = [Arrive [0, 4], Arrive [1, 2], Arrive [3, 4]]\<rparr> =
     Inr (Some bs, \<lparr>queue = [], events = []\<rparr>) \<and> take 2 bs = [3, 4] \<and> bs \<noteq> [1, 2, 3, 4]"
proof -
  have "take 2 (pack ([1, 2] @ [3, 4])) = [0, 4]" "[1, 2] \<noteq> []" "[3, 4] \<noteq> []" "length ([1, 2] @ [3, 4]) < 2 ^ 15"
    by (simp_all add: pack_def)
  from client_recv_split [OF this(2-4), of 0 None] show ?thesis unfolding \<open>take 2 _ = _\<close>
    by (elim ex_forward) (auto simp: numeral_2_eq_2)
qed

section \<open>Lines\<close>

lemma scan_line_finds:
  assumes "only_bytes k" "take (length l + 1) (queue k) = l @ [10]" "10 \<notin> set l" "i \<le> length l" "length l + 1 \<le> i + n"
    "take (length l + 1) buffer = l @ [10]" "int (length l) < r" "length l < CACHE_SIZE"
  shows "\<exists>k' more. scan_line n i buffer r k = Inr (Some l, k') \<and> queue k' = drop (length l + 1) (queue k) @ more \<and>
    stream k' = drop (length l + 1) (stream k)"
  using assms(4,5)
proof (induction n arbitrary: i)
  case (Suc n)
  have len: "length l < length buffer" "length l + 1 \<le> length (queue k)" using assms(2,6) by (metis length_append_singleton length_take min_def not_less_eq_eq le_refl Suc_eq_plus1 not_le order_less_le)+
  have nth: "buffer ! j = (l @ [10]) ! j" if "j \<le> length l" for j using that assms(6) by (metis le_imp_less_Suc nth_take Suc_eq_plus1)
  show ?case
  proof (cases "i = length l")
    case True
    have "length l + 1 < 2 ^ 64" using assms(8) by (simp add: CACHE_SIZE_def)
    from recv_queued [OF assms(1) _ len(2) this] assms(2) obtain k' more where
      "recv False (int (length l) + 1) k = Inr (k', Bytes (l @ [10]))" "queue k' = drop (length l + 1) (queue k) @ more" "stream k' = drop (length l + 1) (stream k)"
      by (auto simp: add.commute)
    then show ?thesis using True assms(7) len(1) nth [of i] by simp
  next
    case False
    then have "buffer ! i = l ! i" "i < length l" using Suc.prems nth [of i] by (simp_all add: nth_append)
    then have "buffer ! i \<noteq> 10" using assms(3) by (metis nth_mem)
    then show ?thesis using Suc.IH [of "i + 1"] Suc.prems False assms(7) \<open>i < length l\<close> by simp
  qed
qed simp

text \<open>Lines. When the kernel holds a line of less than \<open>CACHE_SIZE\<close> bytes with its newline, \<open>lrecvline\<close> returns
  the line and takes it and the newline, and nothing else, from the stream.\<close>

theorem client_line:
  assumes "only_bytes k" "queue k = l @ [10] @ rest" "10 \<notin> set l" "length l < CACHE_SIZE"
  shows "\<exists>k' more. lrecvline (Suc fuel) k = Inr (Line l, k') \<and> queue k' = rest @ more \<and> stream k' = drop (length l + 1) (stream k)"
proof -
  have c: "0 < CACHE_SIZE" "CACHE_SIZE < 2 ^ 64" by (simp_all add: CACHE_SIZE_def)
  have "queue k \<noteq> []" using assms(2) by simp
  from recv_nonempty [OF assms(1) c(1) this c(2), of True] obtain k1 m1 where
    r: "recv True (int CACHE_SIZE) k = Inr (k1, Bytes (take CACHE_SIZE (queue k @ m1)))" and
    k1: "only_bytes k1" "queue k1 = queue k @ m1" "stream k1 = stream k" by auto
  define bs where "bs = take CACHE_SIZE (queue k @ m1)"
  have ne: "bs \<noteq> []" and len: "length l < length bs" and pre: "take (length l + 1) bs = l @ [10]"
    using assms(2,4) c(1) by (simp_all add: bs_def min_def)
  have q: "take (length l + 1) (queue k1) = l @ [10]" and buf: "take (length l + 1) (memcpy zeroed bs) = l @ [10]"
    using assms(2) pre len by (simp_all add: k1(2) memcpy_def)
  have "\<exists>k' more. scan_line (length bs) 0 (memcpy zeroed bs) (int (length bs)) k1 = Inr (Some l, k') \<and>
      queue k' = drop (length l + 1) (queue k1) @ more \<and> stream k' = drop (length l + 1) (stream k1)"
    by (rule scan_line_finds [OF k1(1) q assms(3)]) (use len buf assms(4) in simp_all)
  then obtain k' more where "scan_line (length bs) 0 (memcpy zeroed bs) (int (length bs)) k1 = Inr (Some l, k')"
      "queue k' = rest @ m1 @ more" "stream k' = drop (length l + 1) (stream k)" using assms(2) k1(2,3) by auto
  then show ?thesis using r [folded bs_def] ne by (intro exI [of _ k'] exI [of _ "m1 @ more"]) simp
qed

theorem client_line_witness:
  "\<exists>k'. lrecvline 1 \<lparr>queue = [72, 105, 10, 33], events = [Arrive [33]]\<rparr> = Inr (Line [72, 105], k') \<and> stream k' = [33, 33]"
proof -
  let ?k = "\<lparr>queue = [72, 105, 10, 33], events = [Arrive [33]]\<rparr>"
  have "only_bytes ?k" "queue ?k = [72, 105] @ [10] @ [33]" "stream ?k = [72, 105, 10, 33, 33]" by (simp_all add: only_bytes_def stream_def)
  then show ?thesis using client_line [of ?k "[72, 105]" "[33]" 0] by (auto simp: CACHE_SIZE_def)
qed

section \<open>Sending\<close>

text \<open>Calls of \<open>send\<close> that take at least one byte.\<close>

fun takes_bytes :: "send_event \<Rightarrow> bool" where
  "takes_bytes (Sent r) = (0 < r)"
| "takes_bytes _ = False"

lemma block_send_prefix:
  "block_send buffer (int (length buffer)) wire es = Inr (res, out) \<Longrightarrow>
   \<exists>n. out = wire @ take n buffer \<and> (res = Done \<longrightarrow> out = wire @ buffer)"
proof (induction es arbitrary: buffer wire)
  case Nil
  then show ?case by (subst (asm) block_send.simps) (auto split: if_splits)
next
  case (Cons e es)
  show ?case
  proof (cases "buffer = []")
    case True
    then show ?thesis using Cons.prems by (subst (asm) block_send.simps) auto
  next
    case False
    show ?thesis
    proof (cases e)
      case (Sent r)
      let ?r = "min r (length buffer)"
      have "int (length buffer) - int ?r = int (length (drop ?r buffer))" by simp
      then have "block_send (drop ?r buffer) (int (length (drop ?r buffer))) (wire @ take ?r buffer) es = Inr (res, out)"
        using Cons.prems False Sent by (subst (asm) block_send.simps) (simp add: Let_def)
      from Cons.IH [OF this] obtain n where n: "out = (wire @ take ?r buffer) @ take n (drop ?r buffer)"
        "res = Done \<longrightarrow> out = (wire @ take ?r buffer) @ drop ?r buffer" by blast
      then have "out = wire @ take (?r + n) buffer" by (simp only: take_add append_assoc)
      then show ?thesis using n(2) by (metis append.assoc append_take_drop_id)
    next
      case (SendErr err)
      then show ?thesis using Cons False by (subst (asm) (2) block_send.simps) (auto split: if_splits intro: exI [of _ 0])
    qed
  qed
qed

lemma block_send_ends:
  "\<forall>e\<in>set es. e \<noteq> SendErr EOTHER \<Longrightarrow> length buffer \<le> length (filter takes_bytes es) \<Longrightarrow>
   block_send buffer (int (length buffer)) wire es = Inr (Done, wire @ buffer)"
proof (induction es arbitrary: buffer wire)
  case Nil
  then show ?case by (simp add: block_send.simps)
next
  case (Cons e es)
  show ?case
  proof (cases "buffer = []")
    case True
    then show ?thesis by (simp add: block_send.simps)
  next
    case False
    show ?thesis
    proof (cases e)
      case (Sent r)
      let ?r = "min r (length buffer)"
      have "int (length buffer) - int ?r = int (length (drop ?r buffer))" by simp
      then have "block_send buffer (int (length buffer)) wire (e # es) =
          block_send (drop ?r buffer) (int (length (drop ?r buffer))) (wire @ take ?r buffer) es"
        using False Sent by (subst block_send.simps) (simp add: Let_def)
      also have "\<dots> = Inr (Done, (wire @ take ?r buffer) @ drop ?r buffer)"
        by (rule Cons.IH) (use Cons.prems Sent False in \<open>auto split: if_splits simp: min_def\<close>)
      finally show ?thesis by simp
    next
      case (SendErr err)
      then have "err = EAGAIN \<or> err = EINTR" using Cons.prems(1) by (cases err) auto
      then have "block_send buffer (int (length buffer)) wire (e # es) = block_send buffer (int (length buffer)) wire es"
        using False SendErr by (subst block_send.simps) simp
      then show ?thesis using Cons.IH Cons.prems SendErr by simp
    qed
  qed
qed



section \<open>What is not received\<close>

text \<open>A packet without a body is taken for the end of the connection.\<close>

lemma recvblock_empty: "recvblock (Suc fuel) buffer 0 timeout k = Inr (False, buffer, k)"
  by (simp add: recv_def to_size_def)

text \<open>A length of 32768 or more is negative as a \<open>short\<close>, and the count then never comes to zero.\<close>

lemma recvblock_negative:
  "n < 0 \<Longrightarrow> - (2 ^ 31) \<le> n - int fuel * int CACHE_SIZE \<Longrightarrow> recvblock fuel buffer n timeout k \<noteq> Inr (True, buffer', k')"
proof (induction fuel arbitrary: buffer n k)
  case (Suc fuel)
  have step: "recvblock fuel buf (int32 (n - int (length bs))) timeout k1 \<noteq> Inr (True, buffer', k') \<and> int32 (n - int (length bs)) \<noteq> 0"
    if "length bs \<le> CACHE_SIZE" for buf bs k1
  proof -
    have b: "n - int (length bs) < 0" "- (2 ^ 31) \<le> n - int (length bs) - int fuel * int CACHE_SIZE"
      using that Suc.prems by (simp_all add: algebra_simps)
    have "0 \<le> int fuel * int CACHE_SIZE" by simp
    then have "int32 (n - int (length bs)) = n - int (length bs)" using b by (intro int32_small) linarith+
    then show ?thesis using Suc.IH [OF b] b(1) by simp
  qed
  have "recvblock fuel buffer n timeout k1 \<noteq> Inr (True, buffer', k')" for k1
    using Suc.prems by (intro Suc.IH) (simp_all add: algebra_simps)
  then show ?case using step
    by (auto simp: bind_res_eq_Inr Let_def not_less split: prod.splits received.splits if_splits)
qed simp

text \<open>An incomplete line of a connection that is closed is peeked at for ever.\<close>

lemma lrecvline_closed:
  assumes "queue k \<noteq> []" "10 \<notin> set (queue k)" "length (queue k) \<le> CACHE_SIZE" "events k = [Closed]"
  shows "lrecvline fuel k = Inl Diverges"
proof -
  have scan: "scan_line n i buffer r k = Inr (None, k)" if "\<And>j. int j < r \<Longrightarrow> buffer ! j \<noteq> 10" for n i buffer r
    using that by (induction n arbitrary: i) auto
  have "(memcpy zeroed (queue k)) ! j \<noteq> 10" if "int j < int (length (queue k))" for j
  proof -
    have "queue k ! j \<noteq> 10" using that assms(2) by (metis nth_mem of_nat_less_iff)
    then show ?thesis using that by (simp add: memcpy_def nth_append)
  qed
  from scan [OF this] have "scan_line n 0 (memcpy zeroed (queue k)) (int (length (queue k))) k = Inr (None, k)" for n by simp
  moreover have "recv True (int CACHE_SIZE) k = Inr (k, Bytes (queue k))"
    using assms by (simp add: recv_def deliver_def CACHE_SIZE_def to_size_def)
  ultimately show ?thesis using assms(1) by (induction fuel) auto
qed

end
