(* ===== verification/Skynet_Mq.thy ===== *)
theory Skynet_Mq
  imports Prelude
begin

text \<open>
  The message queues of the server engine (\<open>skynet_mq.c\<close>). Every service has a queue, a ring
  buffer that doubles when it is full; the queues that have messages are linked into one global
  queue, from which the worker threads take them. A queue is an address in a heap, because the
  links of the global queue are inside the queues. Every operation runs under a lock and is one
  step; allocations succeed. Indices are natural numbers: an \<open>int\<close> is exceeded by a queue of
  \<open>2 ^ 30\<close> messages only.
\<close>

section \<open>The model\<close>

definition DEFAULT_QUEUE_SIZE :: nat where "DEFAULT_QUEUE_SIZE = 64"
definition MQ_OVERLOAD :: nat where "MQ_OVERLOAD = 1024"

type_synonym qaddr = nat

text \<open>The type of a message is in the upper byte of its size.\<close>

definition MESSAGE_TYPE_SHIFT :: nat where "MESSAGE_TYPE_SHIFT = (8 - 1) * 8"
definition MESSAGE_TYPE_MASK :: nat where "MESSAGE_TYPE_MASK = drop_bit 8 (2 ^ 64 - 1)"

record skynet_message =
  source :: u32
  session :: int
  msg_data :: "nat option"
  msg_sz :: nat

text \<open>Stands for what a fresh piece of memory holds; it is not read before it is written.\<close>

definition uninit :: skynet_message where
  "uninit = \<lparr>source = 0, session = 0, msg_data = None, msg_sz = 0\<rparr>"

record message_queue =
  mq_handle :: u32
  cap :: nat
  mq_head :: nat
  mq_tail :: nat
  release :: bool
  in_global :: bool
  overload :: nat
  overload_threshold :: nat
  ring :: "skynet_message list"
  mq_next :: "qaddr option"

record mq_state =
  queues :: "qaddr \<Rightarrow> message_queue option"
  fresh :: qaddr
  g_head :: "qaddr option"
  g_tail :: "qaddr option"

definition mq_at :: "mq_state \<Rightarrow> qaddr \<Rightarrow> message_queue cres" where
  "mq_at s a = (case queues s a of Some q \<Rightarrow> Inr q | None \<Rightarrow> Inl Dangling)"

definition mq_put :: "qaddr \<Rightarrow> message_queue \<Rightarrow> mq_state \<Rightarrow> mq_state" where
  "mq_put a q s = s\<lparr>queues := (queues s)(a \<mapsto> q)\<rparr>"

subsection \<open>The global queue\<close>

definition skynet_globalmq_push :: "qaddr \<Rightarrow> mq_state \<Rightarrow> mq_state cres" where
  "skynet_globalmq_push a s =
     bind_res (mq_at s a) (\<lambda>q.
       if mq_next q \<noteq> None then Inl AssertFail
       else
         case g_tail s of
           Some t \<Rightarrow>
             bind_res (mq_at s t) (\<lambda>tq. Inr ((mq_put t (tq\<lparr>mq_next := Some a\<rparr>) s)\<lparr>g_tail := Some a\<rparr>))
         | None \<Rightarrow> Inr (s\<lparr>g_head := Some a, g_tail := Some a\<rparr>))"

definition skynet_globalmq_pop :: "mq_state \<Rightarrow> (qaddr option \<times> mq_state) cres" where
  "skynet_globalmq_pop s =
     (case g_head s of
        None \<Rightarrow> Inr (None, s)
      | Some a \<Rightarrow>
          bind_res (mq_at s a) (\<lambda>q.
            let s = s\<lparr>g_head := mq_next q\<rparr> in
            if g_head s = None \<and> g_tail s \<noteq> Some a then Inl AssertFail
            else
              let s = (if g_head s = None then s\<lparr>g_tail := None\<rparr> else s) in
              Inr (Some a, mq_put a (q\<lparr>mq_next := None\<rparr>) s)))"

subsection \<open>The ring buffer of a queue\<close>

definition skynet_mq_length :: "message_queue \<Rightarrow> nat" where
  "skynet_mq_length q = (if mq_head q \<le> mq_tail q then mq_tail q - mq_head q else mq_tail q + cap q - mq_head q)"

definition skynet_mq_overload :: "message_queue \<Rightarrow> nat \<times> message_queue" where
  "skynet_mq_overload q = (if overload q \<noteq> 0 then (overload q, q\<lparr>overload := 0\<rparr>) else (0, q))"

text \<open>The threshold is doubled until the length is not above it.\<close>

function overload_loop :: "nat \<Rightarrow> nat \<Rightarrow> nat \<Rightarrow> nat \<times> nat" where
  "overload_loop n over threshold =
     (if threshold < n \<and> 0 < threshold then overload_loop n n (threshold * 2) else (over, threshold))"
  by pat_completeness auto
termination
  by (relation "measure (\<lambda>(n, over, threshold). n - threshold)") auto

declare overload_loop.simps [simp del]

text \<open>The first message is taken and the overload of the rest noted.\<close>

definition mq_take :: "message_queue \<Rightarrow> (skynet_message option \<times> message_queue) cres" where
  "mq_take q =
     (if mq_head q \<noteq> mq_tail q then
        bind_res (aget (ring q) (mq_head q)) (\<lambda>m.
          let hd = mq_head q + 1;
              hd = (if cap q \<le> hd then 0 else hd);
              len = (if hd \<le> mq_tail q then mq_tail q - hd else mq_tail q + cap q - hd);
              (over, threshold) = overload_loop len (overload q) (overload_threshold q)
          in Inr (Some m, q\<lparr>mq_head := hd, overload := over, overload_threshold := threshold\<rparr>))
      else Inr (None, q\<lparr>overload_threshold := MQ_OVERLOAD, in_global := False\<rparr>))"

definition expand_queue :: "message_queue \<Rightarrow> message_queue cres" where
  "expand_queue q =
     bind_res (for_res (\<lambda>i new. bind_res (aget (ring q) ((mq_head q + i) mod cap q)) (\<lambda>m. aset new i m))
         [0..<cap q] (replicate (cap q * 2) uninit))
       (\<lambda>new. Inr (q\<lparr>ring := new, mq_head := 0, mq_tail := cap q, cap := cap q * 2\<rparr>))"

definition mq_add :: "skynet_message \<Rightarrow> message_queue \<Rightarrow> message_queue cres" where
  "mq_add m q =
     bind_res (aset (ring q) (mq_tail q) m) (\<lambda>r.
       let tl = (if cap q \<le> mq_tail q + 1 then 0 else mq_tail q + 1);
           q = q\<lparr>ring := r, mq_tail := tl\<rparr>
       in if mq_head q = mq_tail q then expand_queue q else Inr q)"

subsection \<open>The operations\<close>

definition skynet_mq_create :: "u32 \<Rightarrow> mq_state \<Rightarrow> qaddr \<times> mq_state" where
  "skynet_mq_create h s =
     (fresh s, (mq_put (fresh s) \<lparr>mq_handle = h, cap = DEFAULT_QUEUE_SIZE, mq_head = 0, mq_tail = 0, release = False,
         in_global = True, overload = 0, overload_threshold = MQ_OVERLOAD, ring = replicate DEFAULT_QUEUE_SIZE uninit,
         mq_next = None\<rparr> s)\<lparr>fresh := fresh s + 1\<rparr>)"

definition release_queue :: "qaddr \<Rightarrow> mq_state \<Rightarrow> mq_state cres" where
  "release_queue a s =
     bind_res (mq_at s a) (\<lambda>q. if mq_next q \<noteq> None then Inl AssertFail else Inr (s\<lparr>queues := (queues s)(a := None)\<rparr>))"

definition skynet_mq_pop :: "qaddr \<Rightarrow> mq_state \<Rightarrow> (skynet_message option \<times> mq_state) cres" where
  "skynet_mq_pop a s = bind_res (mq_at s a) (\<lambda>q. bind_res (mq_take q) (\<lambda>(m, q). Inr (m, mq_put a q s)))"

definition skynet_mq_push :: "qaddr \<Rightarrow> skynet_message \<Rightarrow> mq_state \<Rightarrow> mq_state cres" where
  "skynet_mq_push a m s =
     bind_res (mq_at s a) (\<lambda>q.
     bind_res (mq_add m q) (\<lambda>q.
       if \<not> in_global q then skynet_globalmq_push a (mq_put a (q\<lparr>in_global := True\<rparr>) s)
       else Inr (mq_put a q s)))"

definition skynet_mq_init :: mq_state where
  "skynet_mq_init = \<lparr>queues = (\<lambda>_. None), fresh = 0, g_head = None, g_tail = None\<rparr>"

definition skynet_mq_mark_release :: "qaddr \<Rightarrow> mq_state \<Rightarrow> mq_state cres" where
  "skynet_mq_mark_release a s =
     bind_res (mq_at s a) (\<lambda>q.
       if release q then Inl AssertFail
       else
         let s = mq_put a (q\<lparr>release := True\<rparr>) s in
         if \<not> in_global q then skynet_globalmq_push a s else Inr s)"

text \<open>The messages that are passed to \<open>drop_func\<close> are returned.\<close>

primrec drop_loop :: "nat \<Rightarrow> qaddr \<Rightarrow> mq_state \<Rightarrow> (skynet_message list \<times> mq_state) cres" where
  "drop_loop 0 a s = Inl Diverges"
| "drop_loop (Suc fuel) a s =
     bind_res (skynet_mq_pop a s) (\<lambda>(m, s).
       case m of
         None \<Rightarrow> bind_res (release_queue a s) (\<lambda>s. Inr ([], s))
       | Some m \<Rightarrow> bind_res (drop_loop fuel a s) (\<lambda>(ms, s). Inr (m # ms, s)))"

definition skynet_mq_release :: "nat \<Rightarrow> qaddr \<Rightarrow> mq_state \<Rightarrow> (skynet_message list \<times> mq_state) cres" where
  "skynet_mq_release fuel a s =
     bind_res (mq_at s a) (\<lambda>q.
       if release q then drop_loop fuel a s
       else bind_res (skynet_globalmq_push a s) (\<lambda>s. Inr ([], s)))"

section \<open>Queues as a contract\<close>

text \<open>
  What a service relies on: a queue holds a list of messages, adding puts one at its end and taking
  removes the first one. Whatever the interleaving of the two, messages come out in the order
  in which they went in.
\<close>

locale fifo =
  fixes ok :: "'q \<Rightarrow> bool" and view :: "'q \<Rightarrow> 'm list"
    and add :: "'m \<Rightarrow> 'q \<Rightarrow> 'q cres" and take_first :: "'q \<Rightarrow> ('m option \<times> 'q) cres"
  assumes add_view: "ok q \<Longrightarrow> \<exists>q'. add m q = Inr q' \<and> ok q' \<and> view q' = view q @ [m]"
    and take_view: "ok q \<Longrightarrow> \<exists>q'. take_first q = Inr (case view q of [] \<Rightarrow> None | m # _ \<Rightarrow> Some m, q') \<and> ok q' \<and> view q' = tl (view q)"
begin

text \<open>A sequence of operations, \<open>Some m\<close> for adding, with what was taken.\<close>

fun operate :: "'m option list \<Rightarrow> 'q \<Rightarrow> ('m list \<times> 'q) cres" where
  "operate [] q = Inr ([], q)"
| "operate (Some m # os) q = bind_res (add m q) (operate os)"
| "operate (None # os) q =
     bind_res (take_first q) (\<lambda>(r, q). bind_res (operate os q) (\<lambda>(ms, q).
       Inr (case r of None \<Rightarrow> ms | Some m \<Rightarrow> m # ms, q)))"

lemma in_order:
  "ok q \<Longrightarrow> \<exists>out q'. operate os q = Inr (out, q') \<and> ok q' \<and> out @ view q' = view q @ List.map_filter id os"
proof (induction os arbitrary: q)
  case Nil
  then show ?case by (simp add: map_filter_def)
next
  case (Cons oper os)
  show ?case
  proof (cases oper)
    case (Some m)
    obtain q1 where "add m q = Inr q1" "ok q1" "view q1 = view q @ [m]" using add_view [OF Cons.prems] by blast
    then show ?thesis using Cons.IH [of q1] Some by (auto simp: map_filter_def)
  next
    case None
    obtain q1 where q1: "take_first q = Inr (case view q of [] \<Rightarrow> None | m # _ \<Rightarrow> Some m, q1)" "ok q1" "view q1 = tl (view q)"
      using take_view [OF Cons.prems] by blast
    obtain out q' where "operate os q1 = Inr (out, q')" "ok q'" "out @ view q' = view q1 @ List.map_filter id os"
      using Cons.IH [OF q1(2)] by blast
    then show ?thesis using q1 None by (cases "view q") (auto simp: map_filter_def)
  qed
qed

end

section \<open>The ring buffer keeps the contract\<close>

definition ring_ok :: "message_queue \<Rightarrow> bool" where
  "ring_ok q \<longleftrightarrow> 0 < cap q \<and> mq_head q < cap q \<and> mq_tail q < cap q \<and> length (ring q) = cap q \<and> 0 < overload_threshold q"

definition contents :: "message_queue \<Rightarrow> skynet_message list" where
  "contents q = map (\<lambda>i. ring q ! ((mq_head q + i) mod cap q)) [0..<skynet_mq_length q]"

lemma length_contents [simp]: "length (contents q) = skynet_mq_length q"
  by (simp add: contents_def)

lemma contents_nth: "i < skynet_mq_length q \<Longrightarrow> contents q ! i = ring q ! ((mq_head q + i) mod cap q)"
  by (simp add: contents_def)

lemma mq_length_less: "ring_ok q \<Longrightarrow> skynet_mq_length q < cap q"
  by (auto simp: ring_ok_def skynet_mq_length_def)

lemma overload_loop_pos: "0 < t \<Longrightarrow> 0 < snd (overload_loop n ov t)"
  by (induction n ov t rule: overload_loop.induct) (subst overload_loop.simps, auto)

lemma tail_position:
  assumes "ring_ok q"
  shows "(mq_head q + skynet_mq_length q) mod cap q = mq_tail q"
proof (cases "mq_head q \<le> mq_tail q")
  case True
  then show ?thesis using assms by (simp add: skynet_mq_length_def ring_ok_def)
next
  case False
  then have "mq_head q + skynet_mq_length q = mq_tail q + cap q" using assms by (simp add: skynet_mq_length_def ring_ok_def)
  then show ?thesis using assms by (simp add: ring_ok_def)
qed

lemma ring_position: "h < c \<Longrightarrow> i \<le> c \<Longrightarrow> (h + i) mod c = (if h + i < c then h + i else h + i - c)" for h c i :: nat
  by (simp add: le_mod_geq)

lemma ring_step: "h < c \<Longrightarrow> (h + Suc j) mod c = ((if c \<le> h + 1 then 0 else h + 1) + j) mod c" for h c j :: nat
proof (cases "c \<le> h + 1")
  case True
  assume "h < c"
  with True have "h + Suc j = j + c" by simp
  with True show ?thesis by (simp only: mod_add_self2 if_True add_0)
qed simp

lemma mq_take_ok:
  assumes ok: "ring_ok q"
  shows "\<exists>q'. mq_take q = Inr (case contents q of [] \<Rightarrow> None | m # _ \<Rightarrow> Some m, q') \<and> ring_ok q' \<and> contents q' = tl (contents q) \<and>
    release q' = release q \<and> mq_next q' = mq_next q \<and> (contents q \<noteq> [] \<longrightarrow> in_global q' = in_global q) \<and> (contents q = [] \<longrightarrow> \<not> in_global q') \<and>
    mq_handle q' = mq_handle q"
proof (cases "mq_head q = mq_tail q")
  case True
  then have "contents q = []" by (simp add: contents_def skynet_mq_length_def)
  moreover have "contents (q\<lparr>overload_threshold := MQ_OVERLOAD, in_global := False\<rparr>) = contents q" by (simp add: contents_def skynet_mq_length_def)
  ultimately show ?thesis using True ok by (simp add: mq_take_def ring_ok_def MQ_OVERLOAD_def)
next
  case False
  let ?hd = "if cap q \<le> mq_head q + 1 then 0 else mq_head q + 1"
  define len where "len = (if ?hd \<le> mq_tail q then mq_tail q - ?hd else mq_tail q + cap q - ?hd)"
  obtain ov th where o: "overload_loop len (overload q) (overload_threshold q) = (ov, th)" by fastforce
  define q' where "q' = q\<lparr>mq_head := ?hd, overload := ov, overload_threshold := th\<rparr>"
  have sel: "ring q' = ring q" "mq_head q' = ?hd" "cap q' = cap q" by (simp_all add: q'_def)
  have b: "mq_head q < cap q" "mq_tail q < cap q" "length (ring q) = cap q" using ok by (auto simp: ring_ok_def)
  have run: "mq_take q = Inr (Some (ring q ! mq_head q), q')"
    unfolding mq_take_def Let_def len_def [symmetric] o using False b by (simp add: q'_def)
  have len: "skynet_mq_length q = Suc (skynet_mq_length q')" using False b by (auto simp: skynet_mq_length_def q'_def)
  have "ring_ok q'" using ok b overload_loop_pos [of "overload_threshold q" len "overload q"] o by (auto simp: ring_ok_def q'_def)
  moreover have "contents q = ring q ! mq_head q # contents q'"
  proof (rule nth_equalityI)
    fix i assume i: "i < length (contents q)"
    then have ic: "i < cap q" using mq_length_less [OF ok] by simp
    show "contents q ! i = (ring q ! mq_head q # contents q') ! i"
    proof (cases i)
      case 0
      then show ?thesis using i b(1) contents_nth [of 0 q] by simp
    next
      case (Suc j)
      have step: "(mq_head q + Suc j) mod cap q = (?hd + j) mod cap q" by (rule ring_step [OF b(1)])
      have j: "j < skynet_mq_length q'" "Suc j < skynet_mq_length q" using i len Suc by simp_all
      have "contents q' ! j = contents q ! Suc j"
        unfolding contents_nth [OF j(1)] contents_nth [OF j(2)] sel step by (rule refl)
      then show ?thesis using Suc by simp
    qed
  qed (use len in simp)
  ultimately show ?thesis using run by (intro exI [of _ q']) (simp add: q'_def)
qed

lemma copy_ring:
  assumes "\<And>i. i < n \<Longrightarrow> f i < length xs" "n \<le> length ys"
  shows "for_res (\<lambda>i new. bind_res (aget xs (f i)) (\<lambda>m. aset new i m)) [0..<n] ys = Inr (map (\<lambda>i. xs ! f i) [0..<n] @ drop n ys)"
  using assms
proof (induction n)
  case (Suc n)
  then have "for_res (\<lambda>i new. bind_res (aget xs (f i)) (\<lambda>m. aset new i m)) [0..<n] ys = Inr (map (\<lambda>i. xs ! f i) [0..<n] @ drop n ys)" by simp
  moreover have "drop n ys = ys ! n # drop (Suc n) ys" using Suc.prems(2) by (simp add: Cons_nth_drop_Suc)
  ultimately show ?case using Suc.prems by (simp add: for_res_append list_update_append)
qed simp

lemma mq_add_ok:
  assumes ok: "ring_ok q"
  shows "\<exists>q'. mq_add m q = Inr q' \<and> ring_ok q' \<and> contents q' = contents q @ [m] \<and>
    release q' = release q \<and> mq_next q' = mq_next q \<and> in_global q' = in_global q \<and> mq_handle q' = mq_handle q"
proof -
  have b: "mq_head q < cap q" "mq_tail q < cap q" "length (ring q) = cap q" using ok by (auto simp: ring_ok_def)
  let ?n = "skynet_mq_length q" and ?r = "(ring q)[mq_tail q := m]"
  let ?tl = "if cap q \<le> mq_tail q + 1 then 0 else mq_tail q + 1"
  define q1 where "q1 = q\<lparr>ring := ?r, mq_tail := ?tl\<rparr>"
  have n: "?n < cap q" using mq_length_less [OF ok] .
  have pos: "?r ! ((mq_head q + i) mod cap q) = (contents q @ [m]) ! i" if "i \<le> ?n" for i
  proof (cases "i = ?n")
    case True
    then show ?thesis using tail_position [OF ok] b by (simp add: nth_append)
  next
    case False
    then have "(mq_head q + i) mod cap q \<noteq> mq_tail q" using that n b tail_position [OF ok] by (auto simp: ring_position split: if_splits)
    then show ?thesis using False that by (simp add: nth_append contents_def)
  qed
  have run: "mq_add m q = (if mq_head q = ?tl then expand_queue q1 else Inr q1)" using b by (simp add: mq_add_def q1_def Let_def)
  show ?thesis
  proof (cases "mq_head q = ?tl")
    case False
    have len: "skynet_mq_length q1 = Suc ?n" using False b by (auto simp: skynet_mq_length_def q1_def split: if_splits)
    have "contents q1 = contents q @ [m]"
      by (rule nth_equalityI) (use len pos in \<open>simp_all add: contents_nth\<close>, simp add: q1_def)
    moreover have "ring_ok q1" using ok b by (auto simp: ring_ok_def q1_def)
    ultimately show ?thesis using run False by (intro exI [of _ q1]) (simp add: q1_def)
  next
    case True
    have len: "Suc ?n = cap q" using True b by (auto simp: skynet_mq_length_def split: if_splits)
    let ?new = "map (\<lambda>i. ?r ! ((mq_head q + i) mod cap q)) [0..<cap q]"
    define q2 where "q2 = q1\<lparr>ring := ?new @ replicate (cap q) uninit, mq_head := 0, mq_tail := cap q, cap := cap q * 2\<rparr>"
    have sel: "ring q2 = ?new @ replicate (cap q) uninit" "mq_head q2 = 0" "cap q2 = cap q * 2" "skynet_mq_length q2 = cap q"
      by (simp_all add: q2_def skynet_mq_length_def)
    have "for_res (\<lambda>i new. bind_res (aget ?r ((mq_head q + i) mod cap q)) (\<lambda>m. aset new i m)) [0..<cap q] (replicate (cap q * 2) uninit) =
        Inr (?new @ drop (cap q) (replicate (cap q * 2) uninit))"
      by (rule copy_ring) (use b in simp_all)
    then have "expand_queue q1 = Inr q2" by (simp add: expand_queue_def q1_def q2_def)
    moreover have new: "?new = contents q @ [m]"
      by (rule nth_equalityI) (use len pos in simp_all)
    have "contents q2 = contents q @ [m]"
      by (rule nth_equalityI) (use len in \<open>simp_all add: contents_nth sel(2-4)\<close>, simp add: sel(1) new nth_append)
    moreover have "ring_ok q2" using ok b by (auto simp: ring_ok_def q1_def q2_def)
    ultimately show ?thesis using run True by (intro exI [of _ q2]) (simp add: q1_def q2_def)
  qed
qed

interpretation service_queue: fifo ring_ok contents mq_add mq_take
  using mq_add_ok mq_take_ok by unfold_locales blast+

section \<open>The global queue and the workers\<close>

text \<open>
  Runs of all threads. \<open>H\<close> are the queues that a thread holds: one that has just been created, or one that a
  worker has taken from the global queue. The worker takes messages from it, puts it back, or, when its
  service has ended, releases it. A service that has ended no longer gets messages, because a sender
  holds a reference to the service.
\<close>

inductive mq_reach :: "mq_state \<Rightarrow> qaddr set \<Rightarrow> bool" where
  init: "mq_reach skynet_mq_init {}"
| create: "mq_reach s H \<Longrightarrow> skynet_mq_create h s = (a, s') \<Longrightarrow> mq_reach s' (insert a H)"
| push: "mq_reach s H \<Longrightarrow> queues s a = Some q \<Longrightarrow> \<not> release q \<Longrightarrow> skynet_mq_push a m s = Inr s' \<Longrightarrow> mq_reach s' H"
| take: "mq_reach s H \<Longrightarrow> skynet_globalmq_pop s = Inr (Some a, s') \<Longrightarrow> mq_reach s' (insert a H)"
| dispatch: "mq_reach s H \<Longrightarrow> a \<in> H \<Longrightarrow> queues s a = Some q \<Longrightarrow> \<not> release q \<Longrightarrow> skynet_mq_pop a s = Inr (m, s') \<Longrightarrow>
    mq_reach s' (if m = None then H - {a} else H)"
| giveback: "mq_reach s H \<Longrightarrow> a \<in> H \<Longrightarrow> skynet_globalmq_push a s = Inr s' \<Longrightarrow> mq_reach s' (H - {a})"
| mark: "mq_reach s H \<Longrightarrow> queues s a = Some q \<Longrightarrow> \<not> release q \<Longrightarrow> skynet_mq_mark_release a s = Inr s' \<Longrightarrow> mq_reach s' H"
| drop: "mq_reach s H \<Longrightarrow> a \<in> H \<Longrightarrow> skynet_mq_release fuel a s = Inr (ms, s') \<Longrightarrow> mq_reach s' (H - {a})"

abbreviation nexts :: "mq_state \<Rightarrow> qaddr \<Rightarrow> qaddr option option" where
  "nexts s a \<equiv> map_option mq_next (queues s a)"

definition glist :: "mq_state \<Rightarrow> qaddr list \<Rightarrow> bool" where
  "glist s gs \<longleftrightarrow> chain (nexts s) (g_head s) gs \<and> distinct gs \<and> g_tail s = (if gs = [] then None else Some (last gs))"

text \<open>A queue is in the global queue, held, or idle: then it has no messages and is not to be released.\<close>

definition queue_ok :: "bool \<Rightarrow> bool \<Rightarrow> message_queue \<Rightarrow> bool" where
  "queue_ok listed held q \<longleftrightarrow> ring_ok q \<and> \<not> (listed \<and> held) \<and>
     (if listed \<or> held then in_global q \<or> release q else \<not> in_global q \<and> \<not> release q \<and> contents q = [])"

definition mq_inv :: "mq_state \<Rightarrow> qaddr set \<Rightarrow> qaddr list \<Rightarrow> bool" where
  "mq_inv s H gs \<longleftrightarrow> glist s gs \<and> (\<forall>a\<ge>fresh s. queues s a = None) \<and> H \<subseteq> dom (queues s) \<and> set gs \<subseteq> dom (queues s) \<and>
     (\<forall>a q. queues s a = Some q \<longrightarrow> queue_ok (a \<in> set gs) (a \<in> H) q \<and> (a \<notin> set gs \<longrightarrow> mq_next q = None))"

lemma next_frame [simp]: "contents (q\<lparr>mq_next := n\<rparr>) = contents q" "ring_ok (q\<lparr>mq_next := n\<rparr>) = ring_ok q"
  "contents (q\<lparr>in_global := b\<rparr>) = contents q" "ring_ok (q\<lparr>in_global := b\<rparr>) = ring_ok q"
  "contents (q\<lparr>release := b\<rparr>) = contents q" "ring_ok (q\<lparr>release := b\<rparr>) = ring_ok q"
  by (simp_all add: contents_def ring_ok_def skynet_mq_length_def)

text \<open>A queue without its link.\<close>

abbreviation bare :: "mq_state \<Rightarrow> qaddr \<Rightarrow> message_queue option" where
  "bare s a \<equiv> map_option (\<lambda>q. q\<lparr>mq_next := None\<rparr>) (queues s a)"

lemma queue_ok_bare: "queue_ok l h (q\<lparr>mq_next := n\<rparr>) = queue_ok l h q"
  by (simp add: queue_ok_def)

lemma bare_queue_ok:
  assumes "bare s' a = bare s a" "queues s' a = Some q'" "\<And>q. queues s a = Some q \<Longrightarrow> queue_ok l h q"
  shows "queue_ok l h q'"
proof -
  obtain q where q: "queues s a = Some q" "q'\<lparr>mq_next := None\<rparr> = q\<lparr>mq_next := None\<rparr>" using assms(1,2) by (cases "queues s a") auto
  then show ?thesis using assms(3) queue_ok_bare by metis
qed

lemma bare_dom: "(\<And>a. bare s' a = bare s a) \<Longrightarrow> dom (queues s') = dom (queues s)"
  by (auto simp: dom_def) (metis map_option_is_None option.distinct(1) option.exhaust)+

lemma glist_cong:
  assumes "glist s gs" "\<And>a. a \<in> set gs \<Longrightarrow> nexts s' a = nexts s a" "g_head s' = g_head s" "g_tail s' = g_tail s"
  shows "glist s' gs"
  using assms chain_cong [of gs "nexts s'" "nexts s"] by (simp add: glist_def)

lemma glist_push:
  assumes g: "glist s gs" and a: "a \<notin> set gs" "queues s a = Some q" "mq_next q = None"
  shows "\<exists>s'. skynet_globalmq_push a s = Inr s' \<and> glist s' (gs @ [a]) \<and> fresh s' = fresh s \<and>
    (\<forall>b. b \<notin> set gs \<longrightarrow> queues s' b = queues s b) \<and> (\<forall>b. bare s' b = bare s b)"
proof (cases "gs = []")
  case True
  then show ?thesis using g a
    by (intro exI [of _ "s\<lparr>g_head := Some a, g_tail := Some a\<rparr>"]) (simp add: skynet_globalmq_push_def mq_at_def glist_def)
next
  case False
  then obtain us t where gs: "gs = us @ [t]" by (metis append_butlast_last_id)
  have t: "g_tail s = Some t" "t \<notin> set us" using g gs by (auto simp: glist_def)
  obtain tq where tq: "queues s t = Some tq"
  proof -
    have "chain nx n (us @ [t]) \<Longrightarrow> nx t \<noteq> None" for nx :: "qaddr \<Rightarrow> qaddr option option" and n by (induction us arbitrary: n) auto
    then show thesis using g gs that by (fastforce simp: glist_def)
  qed
  let ?s = "(mq_put t (tq\<lparr>mq_next := Some a\<rparr>) s)\<lparr>g_tail := Some a\<rparr>"
  have "chain (nexts ?s) (g_head s) (us @ [t, a])"
    by (rule chain_snoc [of "nexts s"]) (use g gs a t in \<open>auto simp: glist_def mq_put_def\<close>)
  then have "glist ?s (gs @ [a])" using g a gs by (simp add: glist_def mq_put_def)
  moreover have "skynet_globalmq_push a s = Inr ?s" using a t tq by (simp add: skynet_globalmq_push_def mq_at_def)
  moreover have "bare ?s b = bare s b" for b using tq by (simp add: mq_put_def)
  ultimately show ?thesis using gs by (intro exI [of _ ?s]) (auto simp: mq_put_def)
qed

lemma glist_pop:
  assumes g: "glist s (a # gs)" and a: "queues s a = Some q"
  shows "\<exists>s'. skynet_globalmq_pop s = Inr (Some a, s') \<and> glist s' gs \<and> fresh s' = fresh s \<and>
    queues s' = (queues s)(a \<mapsto> q\<lparr>mq_next := None\<rparr>)"
proof -
  let ?s = "mq_put a (q\<lparr>mq_next := None\<rparr>) (if mq_next q = None then s\<lparr>g_head := None, g_tail := None\<rparr> else s\<lparr>g_head := mq_next q\<rparr>)"
  have c: "chain (nexts s) (mq_next q) gs" "g_head s = Some a" "a \<notin> set gs" "g_tail s = Some (last (a # gs))" using g a by (auto simp: glist_def)
  then have e: "mq_next q = None \<longleftrightarrow> gs = []" by (cases gs) auto
  have "skynet_globalmq_pop s = Inr (Some a, ?s)" using a c e by (auto simp: skynet_globalmq_pop_def mq_at_def Let_def)
  moreover have "chain (nexts ?s) (mq_next q) gs" using c by (subst chain_cong [of gs _ "nexts s"]) (auto simp: mq_put_def)
  then have "glist ?s gs" using g c e by (auto simp: glist_def mq_put_def)
  ultimately show ?thesis by (intro exI [of _ ?s]) (simp add: mq_put_def)
qed

text \<open>The queue \<open>a\<close>, held or idle before, is put into the global queue.\<close>

lemma inv_push:
  assumes inv: "mq_inv s H gs" and q: "queues s a = Some q" "a \<notin> set gs" "ring_ok q'" "mq_next q' = None" "in_global q' \<or> release q'"
  shows "\<exists>s'. skynet_globalmq_push a (mq_put a q' s) = Inr s' \<and> mq_inv s' (H - {a}) (gs @ [a])"
proof -
  let ?s = "mq_put a q' s"
  have g: "glist ?s gs" using inv q(2) by (auto simp: mq_inv_def mq_put_def intro: glist_cong)
  have qa: "queues ?s a = Some q'" by (simp add: mq_put_def)
  from glist_push [OF g q(2) qa q(4)] obtain s' where s': "skynet_globalmq_push a ?s = Inr s'" "glist s' (gs @ [a])" "fresh s' = fresh ?s"
    "\<forall>b. b \<notin> set gs \<longrightarrow> queues s' b = queues ?s b" "\<forall>b. bare s' b = bare ?s b" by blast
  have d: "dom (queues s') = dom (queues ?s)" using s'(5) by (intro bare_dom) simp
  have "queue_ok (b \<in> set (gs @ [a])) (b \<in> H - {a}) qb \<and> (b \<notin> set (gs @ [a]) \<longrightarrow> mq_next qb = None)" if b: "queues s' b = Some qb" for b qb
  proof -
    have "queue_ok (b \<in> set (gs @ [a])) (b \<in> H - {a}) qb"
    proof (rule bare_queue_ok [OF spec [OF s'(5)] b])
      fix q0 assume q0: "queues ?s b = Some q0"
      show "queue_ok (b \<in> set (gs @ [a])) (b \<in> H - {a}) q0"
      proof (cases "b = a")
        case True
        then show ?thesis using q0 qa q(3,5) by (simp add: queue_ok_def)
      next
        case False
        then have "queues s b = Some q0" using q0 by (simp add: mq_put_def)
        then have "queue_ok (b \<in> set gs) (b \<in> H) q0" using inv by (simp add: mq_inv_def)
        then show ?thesis using False by simp
      qed
    qed
    moreover have "mq_next qb = None" if nb: "b \<notin> set (gs @ [a])"
    proof -
      have "queues s b = Some qb" using b s'(4) nb by (simp add: mq_put_def)
      then show ?thesis using inv nb by (auto simp: mq_inv_def)
    qed
    ultimately show ?thesis by blast
  qed
  moreover have "queues s' b = None" if "fresh s' \<le> b" for b
  proof -
    have "fresh s \<le> b" "b \<noteq> a" using that s'(3) q(1) inv by (auto simp: mq_put_def mq_inv_def)
    then have "b \<notin> dom (queues ?s)" using inv by (auto simp: mq_inv_def mq_put_def dom_def)
    then show ?thesis using d by blast
  qed
  moreover have "H \<subseteq> dom (queues s')" "set (gs @ [a]) \<subseteq> dom (queues s')" using inv unfolding d by (auto simp: mq_inv_def mq_put_def)
  ultimately show ?thesis using s'(1,2) by (intro exI [of _ s']) (auto simp: mq_inv_def)
qed

text \<open>The queue \<open>a\<close> changes and stays where it is, or changes between held and idle.\<close>

lemma inv_update:
  assumes inv: "mq_inv s H gs" and q: "queues s a = Some q" "mq_next q' = mq_next q" "queue_ok (a \<in> set gs) (a \<in> H') q'" "H' - {a} = H - {a}"
  shows "mq_inv (mq_put a q' s) H' gs"
proof -
  have "glist (mq_put a q' s) gs" using inv q(1,2) by (auto simp: mq_inv_def mq_put_def intro: glist_cong)
  moreover have "b \<in> H' \<longleftrightarrow> b \<in> H" if "b \<noteq> a" for b using that q(4) by blast
  ultimately show ?thesis using inv q(1-3) by (auto simp: mq_inv_def mq_put_def)
qed

subsection \<open>Every operation keeps the invariant\<close>

lemma mq_put_same: "queues s a = Some q \<Longrightarrow> mq_put a q s = s"
  by (simp add: mq_put_def fun_upd_idem)

lemma mq_invD:
  assumes "mq_inv s H gs" "queues s a = Some q"
  shows "queue_ok (a \<in> set gs) (a \<in> H) q" "a \<notin> set gs \<Longrightarrow> mq_next q = None" "ring_ok q"
proof -
  show ok: "queue_ok (a \<in> set gs) (a \<in> H) q" and "a \<notin> set gs \<Longrightarrow> mq_next q = None"
    using assms by (simp_all add: mq_inv_def)
  from ok show "ring_ok q" by (simp add: queue_ok_def)
qed

lemma mq_inv_held:
  assumes inv: "mq_inv s H gs" and a: "a \<in> H"
  obtains q where "queues s a = Some q" "a \<notin> set gs" "ring_ok q" "mq_next q = None" "in_global q \<or> release q"
proof -
  obtain q where q: "queues s a = Some q" using inv a by (auto simp: mq_inv_def)
  have "a \<notin> set gs" "in_global q \<or> release q" using mq_invD(1) [OF inv q] a by (simp_all add: queue_ok_def split: if_splits)
  then show ?thesis using mq_invD(2,3) [OF inv q] by (intro that [OF q]) simp_all
qed

lemma create_inv:
  assumes inv: "mq_inv s H gs" and c: "skynet_mq_create h s = (a, s')"
  shows "mq_inv s' (insert a H) gs"
proof -
  define q where "q = \<lparr>mq_handle = h, cap = DEFAULT_QUEUE_SIZE, mq_head = 0, mq_tail = 0, release = False,
    in_global = True, overload = 0, overload_threshold = MQ_OVERLOAD, ring = replicate DEFAULT_QUEUE_SIZE uninit, mq_next = None\<rparr>"
  have s': "a = fresh s" "s' = (mq_put a q s)\<lparr>fresh := fresh s + 1\<rparr>" using c by (auto simp: skynet_mq_create_def q_def)
  have n: "queues s a = None" using inv s'(1) by (simp add: mq_inv_def)
  then have out: "a \<notin> set gs" "a \<notin> H" using inv by (auto simp: mq_inv_def)
  have "glist s' gs" by (rule glist_cong [of s]) (use inv out in \<open>auto simp: mq_inv_def s'(2) mq_put_def\<close>)
  moreover have "queue_ok False True q" "mq_next q = None"
    by (simp_all add: queue_ok_def ring_ok_def q_def DEFAULT_QUEUE_SIZE_def MQ_OVERLOAD_def)
  ultimately show ?thesis using inv out s'(1) by (auto simp: mq_inv_def s'(2) mq_put_def)
qed

lemma push_inv:
  assumes inv: "mq_inv s H gs" and q: "queues s a = Some q" "\<not> release q"
  shows "\<exists>s' gs'. skynet_mq_push a m s = Inr s' \<and> mq_inv s' H gs'"
proof -
  note qi = mq_invD [OF inv q(1)]
  obtain q' where q': "mq_add m q = Inr q'" "ring_ok q'" "release q' = release q" "mq_next q' = mq_next q" "in_global q' = in_global q"
    using mq_add_ok [OF qi(3)] by blast
  show ?thesis
  proof (cases "in_global q")
    case True
    then have "queue_ok (a \<in> set gs) (a \<in> H) q'" using qi(1) q' by (simp add: queue_ok_def split: if_splits)
    from inv_update [OF inv q(1) q'(4) this] show ?thesis using q(1) q' True by (auto simp: skynet_mq_push_def mq_at_def)
  next
    case False
    then have out: "a \<notin> set gs" "H - {a} = H" using qi(1) q(2) by (auto simp: queue_ok_def split: if_splits)
    from inv_push [OF inv q(1) out(1), of "q'\<lparr>in_global := True\<rparr>"] show ?thesis
      using q(1) q' False qi(2) [OF out(1)] out(2) by (auto simp: skynet_mq_push_def mq_at_def)
  qed
qed

lemma global_pop_inv:
  assumes inv: "mq_inv s H gs"
  shows "(gs = [] \<and> skynet_globalmq_pop s = Inr (None, s)) \<or>
    (\<exists>a gs' s'. gs = a # gs' \<and> skynet_globalmq_pop s = Inr (Some a, s') \<and> mq_inv s' (insert a H) gs')"
proof (cases gs)
  case Nil
  then show ?thesis using inv by (simp add: mq_inv_def glist_def skynet_globalmq_pop_def)
next
  case (Cons a gs')
  then obtain q where q: "queues s a = Some q" using inv by (auto simp: mq_inv_def)
  have g: "glist s (a # gs')" using inv Cons by (simp add: mq_inv_def)
  from glist_pop [OF g q] obtain s' where s': "skynet_globalmq_pop s = Inr (Some a, s')" "glist s' gs'" "fresh s' = fresh s"
    "queues s' = (queues s)(a \<mapsto> q\<lparr>mq_next := None\<rparr>)" by blast
  have a: "a \<notin> set gs'" "queue_ok True (a \<in> H) q" using g mq_invD(1) [OF inv q] Cons by (auto simp: glist_def)
  then have "queue_ok False True q" by (auto simp: queue_ok_def)
  then have "queue_ok False True (q\<lparr>mq_next := None\<rparr>)" by (simp only: queue_ok_bare)
  moreover have "queue_ok (b \<in> set gs') (b \<in> insert a H) qb \<and> (b \<notin> set gs' \<longrightarrow> mq_next qb = None)"
    if "b \<noteq> a" "queues s b = Some qb" for b qb
    using mq_invD(1,2) [OF inv that(2)] that(1) Cons by simp
  ultimately have "mq_inv s' (insert a H) gs'" using inv s'(2,3) a(1) q Cons unfolding mq_inv_def s'(4) by auto
  then show ?thesis using s'(1) Cons by blast
qed

lemma dispatch_inv:
  assumes inv: "mq_inv s H gs" and a: "a \<in> H" and q: "queues s a = Some q" "\<not> release q"
  shows "\<exists>m s'. skynet_mq_pop a s = Inr (m, s') \<and> mq_inv s' (if m = None then H - {a} else H) gs \<and>
    m = (case contents q of [] \<Rightarrow> None | m # _ \<Rightarrow> Some m)"
proof -
  note qi = mq_invD [OF inv q(1)]
  have out: "a \<notin> set gs" "in_global q" using qi(1) a q(2) by (auto simp: queue_ok_def)
  obtain q' where q': "mq_take q = Inr (case contents q of [] \<Rightarrow> None | m # _ \<Rightarrow> Some m, q')" "ring_ok q'" "contents q' = tl (contents q)"
    "release q' = release q" "mq_next q' = mq_next q" "contents q \<noteq> [] \<longrightarrow> in_global q' = in_global q" "contents q = [] \<longrightarrow> \<not> in_global q'"
    using mq_take_ok [OF qi(3)] by blast
  let ?m = "case contents q of [] \<Rightarrow> None | m # _ \<Rightarrow> Some m" and ?H = "if contents q = [] then H - {a} else H"
  have "queue_ok (a \<in> set gs) (a \<in> ?H) q'" using a out q(2) q'(2-7) by (auto simp: queue_ok_def)
  from inv_update [OF inv q(1) q'(5) this] have "mq_inv (mq_put a q' s) ?H gs" by auto
  moreover have "?m = None \<longleftrightarrow> contents q = []" by (cases "contents q") auto
  ultimately show ?thesis using q(1) q'(1) by (intro exI [of _ ?m] exI [of _ "mq_put a q' s"]) (simp add: skynet_mq_pop_def mq_at_def)
qed

lemma giveback_inv:
  assumes inv: "mq_inv s H gs" and a: "a \<in> H"
  shows "\<exists>s' gs'. skynet_globalmq_push a s = Inr s' \<and> mq_inv s' (H - {a}) gs'"
  using inv a
proof (cases rule: mq_inv_held)
  case (1 q)
  from inv_push [OF inv this] show ?thesis unfolding mq_put_same [OF 1(1)] by blast
qed

lemma mark_inv:
  assumes inv: "mq_inv s H gs" and q: "queues s a = Some q" "\<not> release q"
  shows "\<exists>s' gs'. skynet_mq_mark_release a s = Inr s' \<and> mq_inv s' H gs'"
proof -
  note qi = mq_invD [OF inv q(1)]
  show ?thesis
  proof (cases "in_global q")
    case True
    then have "queue_ok (a \<in> set gs) (a \<in> H) (q\<lparr>release := True\<rparr>)" using qi(1) by (simp add: queue_ok_def split: if_splits)
    from inv_update [OF inv q(1) _ this] show ?thesis using q True by (auto simp: skynet_mq_mark_release_def mq_at_def)
  next
    case False
    then have out: "a \<notin> set gs" "H - {a} = H" using qi(1) q(2) by (auto simp: queue_ok_def split: if_splits)
    from inv_push [OF inv q(1) out(1), of "q\<lparr>release := True\<rparr>"] show ?thesis
      using q False qi(2) [OF out(1)] qi(3) out(2) by (auto simp: skynet_mq_mark_release_def mq_at_def)
  qed
qed

lemma drop_loop_ok:
  "queues s a = Some q \<Longrightarrow> ring_ok q \<Longrightarrow> mq_next q = None \<Longrightarrow> length (contents q) < fuel \<Longrightarrow>
   drop_loop fuel a s = Inr (contents q, s\<lparr>queues := (queues s)(a := None)\<rparr>)"
proof (induction fuel arbitrary: s q)
  case (Suc fuel)
  obtain q' where q': "mq_take q = Inr (case contents q of [] \<Rightarrow> None | m # _ \<Rightarrow> Some m, q')" "ring_ok q'" "contents q' = tl (contents q)"
    "mq_next q' = None" using mq_take_ok [OF Suc.prems(2)] Suc.prems(3) by metis
  let ?s = "mq_put a q' s"
  have pop: "skynet_mq_pop a s = Inr (case contents q of [] \<Rightarrow> None | m # _ \<Rightarrow> Some m, ?s)"
    using Suc.prems(1) q'(1) by (simp add: skynet_mq_pop_def mq_at_def)
  let ?gone = "\<lambda>s. s\<lparr>queues := (queues s)(a := None)\<rparr>"
  have at: "queues ?s a = Some q'" and same: "?gone ?s = ?gone s" by (simp_all add: mq_put_def)
  show ?case
  proof (cases "contents q")
    case Nil
    have "release_queue a ?s = Inr (?gone ?s)" using at q'(4) by (simp add: release_queue_def mq_at_def)
    then show ?thesis unfolding same using pop Nil by (simp add: fun_upd_def)
  next
    case (Cons m ms)
    have "length (contents q') < fuel" unfolding q'(3) using Suc.prems(4) Cons by (simp del: length_contents)
    from Suc.IH [OF at q'(2,4) this] have "drop_loop fuel a ?s = Inr (ms, ?gone s)" unfolding same q'(3) Cons by simp
    then show ?thesis using pop Cons by (simp add: fun_upd_def)
  qed
qed simp

lemma drop_loop_short:
  "queues s a = Some q \<Longrightarrow> ring_ok q \<Longrightarrow> fuel \<le> length (contents q) \<Longrightarrow> drop_loop fuel a s = Inl Diverges"
proof (induction fuel arbitrary: s q)
  case (Suc fuel)
  obtain q' where q': "mq_take q = Inr (case contents q of [] \<Rightarrow> None | m # _ \<Rightarrow> Some m, q')" "ring_ok q'" "contents q' = tl (contents q)"
    using mq_take_ok [OF Suc.prems(2)] by metis
  obtain m ms where ms: "contents q = m # ms" using Suc.prems(3) by (cases "contents q") (auto simp flip: length_contents)
  have at: "queues (mq_put a q' s) a = Some q'" by (simp add: mq_put_def)
  have "fuel \<le> length (contents q')" unfolding q'(3) using Suc.prems(3) ms by (simp del: length_contents)
  from Suc.IH [OF at q'(2) this] show ?case using Suc.prems(1) q'(1) ms by (simp add: skynet_mq_pop_def mq_at_def)
qed simp

lemma release_inv:
  assumes inv: "mq_inv s H gs" and a: "a \<in> H" and q: "queues s a = Some q" and fuel: "length (contents q) < fuel"
  shows "\<exists>s' gs'. skynet_mq_release fuel a s = Inr (if release q then contents q else [], s') \<and> mq_inv s' (H - {a}) gs' \<and>
    (release q \<longrightarrow> queues s' a = None)"
proof (cases "release q")
  case True
  have out: "a \<notin> set gs" "ring_ok q" "mq_next q = None" using mq_inv_held [OF inv a] q by auto
  let ?s = "s\<lparr>queues := (queues s)(a := None)\<rparr>"
  have "glist ?s gs" by (rule glist_cong [of s]) (use inv out in \<open>auto simp: mq_inv_def\<close>)
  then have "mq_inv ?s (H - {a}) gs" using inv out by (auto simp: mq_inv_def)
  then show ?thesis using drop_loop_ok [OF q out(2,3) fuel] q True
    by (intro exI [of _ ?s] exI [of _ gs]) (simp add: skynet_mq_release_def mq_at_def)
next
  case False
  then show ?thesis using giveback_inv [OF inv a] q by (auto simp: skynet_mq_release_def mq_at_def)
qed

text \<open>The steps of dropping a queue one by one.\<close>

lemma drop_pop_inv:
  assumes inv: "mq_inv s H gs" and a: "a \<in> H" and q: "queues s a = Some q" "release q"
  shows "\<exists>s'. skynet_mq_pop a s = Inr (case contents q of [] \<Rightarrow> None | m # _ \<Rightarrow> Some m, s') \<and> mq_inv s' H gs"
proof -
  note qi = mq_invD [OF inv q(1)]
  obtain q' where q': "mq_take q = Inr (case contents q of [] \<Rightarrow> None | m # _ \<Rightarrow> Some m, q')" "ring_ok q'" "release q' = release q" "mq_next q' = mq_next q"
    using mq_take_ok [OF qi(3)] by blast
  have "queue_ok (a \<in> set gs) (a \<in> H) q'" using qi(1) a q(2) q'(2,3) by (simp add: queue_ok_def)
  from inv_update [OF inv q(1) q'(4) this] show ?thesis using q(1) q'(1) by (auto simp: skynet_mq_pop_def mq_at_def)
qed

lemma free_inv:
  assumes inv: "mq_inv s H gs" and a: "a \<in> H"
  shows "release_queue a s = Inr (s\<lparr>queues := (queues s)(a := None)\<rparr>)" "mq_inv (s\<lparr>queues := (queues s)(a := None)\<rparr>) (H - {a}) gs"
proof -
  obtain q where q: "queues s a = Some q" "a \<notin> set gs" "mq_next q = None" by (rule mq_inv_held [OF inv a])
  let ?s = "s\<lparr>queues := (queues s)(a := None)\<rparr>"
  have "glist ?s gs" by (rule glist_cong [of s]) (use inv q in \<open>auto simp: mq_inv_def\<close>)
  then show "mq_inv ?s (H - {a}) gs" using inv q by (auto simp: mq_inv_def)
  show "release_queue a s = Inr ?s" using q by (simp add: release_queue_def mq_at_def)
qed

lemma mq_invariant: "mq_reach s H \<Longrightarrow> \<exists>gs. mq_inv s H gs"
proof (induction rule: mq_reach.induct)
  case init
  show ?case by (intro exI [of _ "[]"]) (simp add: mq_inv_def glist_def skynet_mq_init_def)
next
  case (create s H h a s')
  then show ?case using create_inv by blast
next
  case (push s H a q m s')
  then obtain gs where "mq_inv s H gs" by blast
  from push_inv [OF this push.hyps(2,3), of m] show ?case using push.hyps(4) by auto
next
  case (take s H a s')
  then obtain gs where "mq_inv s H gs" by blast
  from global_pop_inv [OF this] show ?case using take.hyps(2) by auto
next
  case (dispatch s H a q m s')
  then obtain gs where "mq_inv s H gs" by blast
  from dispatch_inv [OF this dispatch.hyps(2-4)] show ?case using dispatch.hyps(5) by (elim exE conjE, intro exI [of _ gs]) simp
next
  case (giveback s H a s')
  then obtain gs where "mq_inv s H gs" by blast
  from giveback_inv [OF this giveback.hyps(2)] show ?case using giveback.hyps(3) by auto
next
  case (mark s H a q s')
  then obtain gs where "mq_inv s H gs" by blast
  from mark_inv [OF this mark.hyps(2,3)] show ?case using mark.hyps(4) by auto
next
  case (drop s H a fuel ms s')
  then obtain gs where inv: "mq_inv s H gs" by blast
  obtain q where q: "queues s a = Some q" using mq_inv_held [OF inv drop.hyps(2)] by blast
  have "length (contents q) < fuel \<or> \<not> release q"
    using drop_loop_short [of s a q fuel] q mq_inv_held [OF inv drop.hyps(2)] drop.hyps(3) by (fastforce simp: skynet_mq_release_def mq_at_def)
  then show ?case
  proof
    assume "length (contents q) < fuel"
    from release_inv [OF inv drop.hyps(2) q this] show ?thesis using drop.hyps(3) by auto
  next
    assume "\<not> release q"
    then show ?thesis using giveback_inv [OF inv drop.hyps(2)] drop.hyps(3) q by (auto simp: skynet_mq_release_def mq_at_def)
  qed
qed

subsection \<open>What the operations do to the messages\<close>

text \<open>The handle, the mark and the messages of a queue.\<close>

definition qview :: "mq_state \<Rightarrow> qaddr \<Rightarrow> (u32 \<times> bool \<times> skynet_message list) option" where
  "qview s a = map_option (\<lambda>q. (mq_handle q, release q, contents q)) (queues s a)"

lemma qview_Some: "qview s a = Some (h, r, ms) \<longleftrightarrow> (\<exists>q. queues s a = Some q \<and> mq_handle q = h \<and> release q = r \<and> contents q = ms)"
  by (auto simp: qview_def)

lemma qview_put: "qview (mq_put a q s) = (qview s)(a \<mapsto> (mq_handle q, release q, contents q))"
  by (simp add: qview_def mq_put_def fun_eq_iff)

lemma qview_heads [simp]: "qview (s\<lparr>g_head := x\<rparr>) = qview s" "qview (s\<lparr>g_tail := x\<rparr>) = qview s" "qview (s\<lparr>fresh := n\<rparr>) = qview s"
  by (simp_all add: qview_def fun_eq_iff)

lemma qview_put_same:
  "queues s a = Some q \<Longrightarrow> mq_handle q' = mq_handle q \<Longrightarrow> release q' = release q \<Longrightarrow> contents q' = contents q \<Longrightarrow> qview (mq_put a q' s) = qview s"
  by (simp add: qview_put fun_eq_iff) (simp add: qview_def)

lemma qview_push: "skynet_globalmq_push a s = Inr s' \<Longrightarrow> qview s' = qview s"
  by (auto simp: skynet_globalmq_push_def bind_res_eq_Inr mq_at_def qview_put_same split: option.splits if_splits)

lemma qview_pop: "skynet_globalmq_pop s = Inr (r, s') \<Longrightarrow> qview s' = qview s"
  by (auto simp: skynet_globalmq_pop_def bind_res_eq_Inr mq_at_def qview_put_same Let_def split: option.splits if_splits)

lemma qview_mq_push:
  assumes "skynet_mq_push a m s = Inr s'" "queues s a = Some q" "ring_ok q"
  shows "qview s' = (qview s)(a \<mapsto> (mq_handle q, release q, contents q @ [m]))"
proof -
  obtain q' where q': "mq_add m q = Inr q'" "contents q' = contents q @ [m]" "release q' = release q" "mq_handle q' = mq_handle q"
    using mq_add_ok [OF assms(3)] by blast
  show ?thesis using assms(1,2) q' qview_push by (auto simp: skynet_mq_push_def mq_at_def qview_put split: if_splits)
qed

lemma qview_mq_pop:
  assumes "skynet_mq_pop a s = Inr (m, s')" "queues s a = Some q" "ring_ok q"
  shows "qview s' = (qview s)(a \<mapsto> (mq_handle q, release q, tl (contents q)))" "m = (case contents q of [] \<Rightarrow> None | m # _ \<Rightarrow> Some m)"
proof -
  obtain q' where q': "mq_take q = Inr (case contents q of [] \<Rightarrow> None | m # _ \<Rightarrow> Some m, q')" "contents q' = tl (contents q)"
      "release q' = release q" "mq_handle q' = mq_handle q" using mq_take_ok [OF assms(3)] by blast
  show "qview s' = (qview s)(a \<mapsto> (mq_handle q, release q, tl (contents q)))" "m = (case contents q of [] \<Rightarrow> None | m # _ \<Rightarrow> Some m)"
    using assms(1,2) q' by (auto simp: skynet_mq_pop_def mq_at_def qview_put)
qed

lemma qview_mark:
  assumes "skynet_mq_mark_release a s = Inr s'" "queues s a = Some q"
  shows "qview s' = (qview s)(a \<mapsto> (mq_handle q, True, contents q))"
  using assms qview_push by (auto simp: skynet_mq_mark_release_def mq_at_def qview_put Let_def split: if_splits)

lemma qview_create:
  "skynet_mq_create h s = (a, s') \<Longrightarrow> qview s' = (qview s)(a \<mapsto> (h, False, []))"
  by (auto simp: skynet_mq_create_def qview_put contents_def skynet_mq_length_def)

section \<open>Properties\<close>

text \<open>C14. Messages of a service. Through any sequence of pushes and pops on a queue of the engine, with the ring
  buffer wrapping around and doubling, the operations succeed and the messages that come out,
  followed by those still in the queue, are the messages that were in it followed by those put in.\<close>

theorem mq_in_order:
  assumes "ring_ok q"
  shows "\<exists>out q'. service_queue.operate ops q = Inr (out, q') \<and> ring_ok q' \<and> out @ contents q' = contents q @ List.map_filter id ops"
  by (rule service_queue.in_order [OF assms])

definition demo_queue :: message_queue where
  "demo_queue = \<lparr>mq_handle = 1, cap = 2, mq_head = 1, mq_tail = 1, release = False, in_global = True, overload = 0,
     overload_threshold = MQ_OVERLOAD, ring = replicate 2 uninit, mq_next = None\<rparr>"

definition demo_message :: "int \<Rightarrow> skynet_message" where
  "demo_message n = \<lparr>source = 1, session = n, msg_data = None, msg_sz = 0\<rparr>"

theorem mq_in_order_witness:
  "\<exists>out q'. service_queue.operate [Some (demo_message 1), Some (demo_message 2), None, Some (demo_message 3)] demo_queue = Inr (out, q') \<and>
     out @ contents q' = [demo_message 1, demo_message 2, demo_message 3]"
proof -
  have "ring_ok demo_queue" "contents demo_queue = []"
    by (simp_all add: ring_ok_def demo_queue_def MQ_OVERLOAD_def contents_def skynet_mq_length_def)
  then show ?thesis using mq_in_order [of demo_queue "[Some (demo_message 1), Some (demo_message 2), None, Some (demo_message 3)]"]
    by (auto simp: map_filter_def)
qed

text \<open>C12. Safety of the scheduling of queues. In every state that the threads reach, in any interleaving: a message can
  be pushed to every queue whose service lives and that queue can be marked for release; the next queue can
  be taken; a queue that is held can be read, put back and released; no assertion fails and no freed queue is used.\<close>

theorem mq_safe:
  assumes "mq_reach s H"
  shows "(\<forall>a q. queues s a = Some q \<and> \<not> release q \<longrightarrow> (\<exists>s'. skynet_mq_push a m s = Inr s') \<and> (\<exists>s'. skynet_mq_mark_release a s = Inr s')) \<and>
    (\<exists>r. skynet_globalmq_pop s = Inr r) \<and>
    (\<forall>a\<in>H. \<exists>q. queues s a = Some q \<and> (\<not> release q \<longrightarrow> (\<exists>r. skynet_mq_pop a s = Inr r)) \<and> (\<exists>s'. skynet_globalmq_push a s = Inr s') \<and>
      (\<forall>fuel>length (contents q). \<exists>s'. skynet_mq_release fuel a s = Inr (if release q then contents q else [], s') \<and> (release q \<longrightarrow> queues s' a = None)))"
proof -
  obtain gs where inv: "mq_inv s H gs" using mq_invariant [OF assms] by blast
  have "\<exists>r. skynet_globalmq_pop s = Inr r" using global_pop_inv [OF inv] by auto
  moreover have "\<exists>q. queues s a = Some q \<and> (\<not> release q \<longrightarrow> (\<exists>r. skynet_mq_pop a s = Inr r)) \<and> (\<exists>s'. skynet_globalmq_push a s = Inr s') \<and>
      (\<forall>fuel>length (contents q). \<exists>s'. skynet_mq_release fuel a s = Inr (if release q then contents q else [], s') \<and> (release q \<longrightarrow> queues s' a = None))"
    if a: "a \<in> H" for a
  proof -
    obtain q where q: "queues s a = Some q" using mq_inv_held [OF inv a] by blast
    then show ?thesis using dispatch_inv [OF inv a q] giveback_inv [OF inv a] release_inv [OF inv a q] by blast
  qed
  ultimately show ?thesis using push_inv [OF inv] mark_inv [OF inv] by blast
qed

text \<open>C13. No queue is forgotten. A queue that has messages, or that is to be released, is in the global queue
  exactly once or held by one thread; a queue that is idle goes into the global queue with its next message.\<close>

theorem mq_not_forgotten:
  assumes "mq_reach s H" "queues s a = Some q" "contents q \<noteq> [] \<or> release q"
  shows "\<exists>gs. chain (nexts s) (g_head s) gs \<and> distinct gs \<and> (a \<in> set gs) \<noteq> (a \<in> H)"
proof -
  obtain gs where inv: "mq_inv s H gs" using mq_invariant [OF assms(1)] by blast
  have "(a \<in> set gs) \<noteq> (a \<in> H)" using mq_invD(1) [OF inv assms(2)] assms(3) by (auto simp: queue_ok_def split: if_splits)
  then show ?thesis using inv by (auto simp: mq_inv_def glist_def)
qed

text \<open>A service is created and gets a message before a worker sees its queue.\<close>

definition demo_created :: mq_state where
  "demo_created = snd (skynet_mq_create 7 skynet_mq_init)"

definition demo_pushed :: mq_state where
  "demo_pushed = projr (skynet_mq_push 0 (demo_message 5) demo_created)"

lemma demo_created_reach: "mq_reach demo_created {0}"
  by (rule mq_reach.create [OF mq_reach.init, of 7 0 demo_created]) (simp add: demo_created_def skynet_mq_create_def skynet_mq_init_def)

lemma demo_created_queue: "\<exists>q. queues demo_created 0 = Some q \<and> \<not> release q \<and> ring_ok q \<and> in_global q"
  by (simp add: demo_created_def skynet_mq_create_def skynet_mq_init_def mq_put_def ring_ok_def DEFAULT_QUEUE_SIZE_def MQ_OVERLOAD_def)

lemma demo_pushed_reach: "mq_reach demo_pushed {0} \<and> (\<exists>q. queues demo_pushed 0 = Some q \<and> contents q \<noteq> [])"
proof -
  obtain q where q: "queues demo_created 0 = Some q" "\<not> release q" "ring_ok q" "in_global q" using demo_created_queue by blast
  obtain q' where q': "mq_add (demo_message 5) q = Inr q'" "contents q' = contents q @ [demo_message 5]" "in_global q'"
    using mq_add_ok [OF q(3)] q(4) by metis
  then have run: "skynet_mq_push 0 (demo_message 5) demo_created = Inr demo_pushed" "demo_pushed = mq_put 0 q' demo_created"
    using q(1) by (simp_all add: demo_pushed_def skynet_mq_push_def mq_at_def)
  have "mq_reach demo_pushed {0}" using demo_created_reach q(1,2) run(1) by (rule mq_reach.push)
  moreover have "queues demo_pushed 0 = Some q'" by (simp add: run(2) mq_put_def)
  ultimately show ?thesis using q'(2) by simp
qed

theorem mq_safe_witness:
  "(\<exists>s'. skynet_mq_push 0 (demo_message 1) demo_created = Inr s') \<and> (\<exists>r. skynet_globalmq_pop demo_created = Inr r) \<and>
   (\<exists>r. skynet_mq_pop 0 demo_created = Inr r)"
  using mq_safe [OF demo_created_reach, of "demo_message 1"] demo_created_queue by auto

theorem mq_not_forgotten_witness:
  "\<exists>gs. chain (nexts demo_pushed) (g_head demo_pushed) gs \<and> distinct gs \<and> 0 \<notin> set gs"
proof -
  obtain q where q: "queues demo_pushed 0 = Some q" "contents q \<noteq> []" using demo_pushed_reach by blast
  then show ?thesis using mq_not_forgotten [of demo_pushed "{0}" 0 q] demo_pushed_reach by auto
qed

end
