(* ===== verification/Skynet_Handle.thy ===== *)
theory Skynet_Handle
  imports Prelude
begin

text \<open>
  The registry of services of the server engine (\<open>skynet_handle.c\<close>): a table from handles to service
  contexts that doubles when it is full, and a sorted array of names. A context is an address; its
  handle is a field of its own that its creator sets after the registration, so it is part of the
  state. Every operation runs under a lock; allocations succeed.
\<close>

section \<open>The model\<close>

definition DEFAULT_SLOT_SIZE :: nat where "DEFAULT_SLOT_SIZE = 4"
definition MAX_SLOT_SIZE :: nat where "MAX_SLOT_SIZE = 0x40000000"
definition HANDLE_MASK :: u32 where "HANDLE_MASK = 0xffffff"
definition HANDLE_REMOTE_SHIFT :: nat where "HANDLE_REMOTE_SHIFT = 24"

type_synonym ctx = nat

record handle_name =
  hn_name :: string
  hn_handle :: u32

record handle_storage =
  harbor :: u32
  handle_index :: u32
  slot_size :: nat
  slot :: "ctx option list"
  name_cap :: nat
  name_count :: nat
  names :: "handle_name list"

text \<open>The fields of contexts that the registry uses.\<close>

record registry = handle_storage +
  ctx_handle :: "ctx \<Rightarrow> u32"
  ctx_ref :: "ctx \<Rightarrow> int"

definition slot_of :: "nat \<Rightarrow> u32 \<Rightarrow> nat" where
  "slot_of n h = unat (h AND (of_nat n - 1))"

subsection \<open>Handles\<close>

text \<open>The inner loop: \<open>n\<close> slots are still to be tried.\<close>

primrec probe :: "nat \<Rightarrow> u32 \<Rightarrow> 'a handle_storage_scheme \<Rightarrow> u32 option cres" where
  "probe 0 h s = Inr None"
| "probe (Suc n) h s =
     (let h = (if HANDLE_MASK < h then 1 else h) in
      bind_res (aget (slot s) (slot_of (slot_size s) h)) (\<lambda>c.
        if c = None then Inr (Some h) else probe n (h + 1) s))"

definition rehash_slot :: "registry \<Rightarrow> nat \<Rightarrow> ctx option list \<Rightarrow> ctx option list cres" where
  "rehash_slot s i new =
     bind_res (aget (slot s) i) (\<lambda>c.
       case c of
         None \<Rightarrow> Inl NullDeref
       | Some c \<Rightarrow>
           let hash = slot_of (slot_size s * 2) (ctx_handle s c) in
           bind_res (aget new hash) (\<lambda>old. if old \<noteq> None then Inl AssertFail else aset new hash (Some c)))"

definition grow_slots :: "registry \<Rightarrow> registry cres" where
  "grow_slots s =
     (if \<not> int (slot_size s) * 2 - 1 \<le> uint HANDLE_MASK then Inl AssertFail
      else
        bind_res (for_res (rehash_slot s) [0..<slot_size s] (replicate (slot_size s * 2) None)) (\<lambda>new.
          Inr (s\<lparr>slot := new, slot_size := slot_size s * 2\<rparr>)))"

primrec skynet_handle_register :: "nat \<Rightarrow> ctx \<Rightarrow> registry \<Rightarrow> (u32 \<times> registry) cres" where
  "skynet_handle_register 0 c s = Inl Diverges"
| "skynet_handle_register (Suc fuel) c s =
     bind_res (probe (slot_size s) (handle_index s) s) (\<lambda>r.
       case r of
         Some h \<Rightarrow>
           bind_res (aset (slot s) (slot_of (slot_size s) h) (Some c)) (\<lambda>sl.
             Inr (h OR harbor s, s\<lparr>slot := sl, handle_index := h + 1\<rparr>))
       | None \<Rightarrow> bind_res (grow_slots s) (skynet_handle_register fuel c))"

text \<open>What \<open>skynet_context_new\<close> does with it: the handle is cleared first and set afterwards.\<close>

definition set_handle :: "ctx \<Rightarrow> u32 \<Rightarrow> registry \<Rightarrow> registry" where
  "set_handle c h s = s\<lparr>ctx_handle := (ctx_handle s)(c := h)\<rparr>"

definition context_register :: "nat \<Rightarrow> ctx \<Rightarrow> registry \<Rightarrow> (u32 \<times> registry) cres" where
  "context_register fuel c s =
     bind_res (skynet_handle_register fuel c (set_handle c 0 s)) (\<lambda>(h, s). Inr (h, set_handle c h s))"

text \<open>The names of a handle are removed; the others move down.\<close>

definition drop_name :: "u32 \<Rightarrow> nat \<Rightarrow> nat \<times> handle_name list \<Rightarrow> (nat \<times> handle_name list) cres" where
  "drop_name h i r =
     (case r of (j, ns) \<Rightarrow>
        bind_res (aget ns i) (\<lambda>n.
          if hn_handle n = h then Inr (j, ns)
          else if i \<noteq> j then bind_res (aset ns j n) (\<lambda>ns. Inr (j + 1, ns))
          else Inr (j + 1, ns)))"

definition drop_names :: "u32 \<Rightarrow> registry \<Rightarrow> registry cres" where
  "drop_names h s =
     bind_res (for_res (drop_name h) [0..<name_count s] (0, names s)) (\<lambda>(j, ns).
       Inr (s\<lparr>names := ns, name_count := j\<rparr>))"

text \<open>The context that is to be released is returned.\<close>

definition skynet_handle_retire :: "u32 \<Rightarrow> registry \<Rightarrow> (ctx option \<times> registry) cres" where
  "skynet_handle_retire h s =
     (let hash = slot_of (slot_size s) h in
      bind_res (aget (slot s) hash) (\<lambda>c.
        case c of
          None \<Rightarrow> Inr (None, s)
        | Some c \<Rightarrow>
            if ctx_handle s c = h then
              bind_res (aset (slot s) hash None) (\<lambda>sl. bind_res (drop_names h (s\<lparr>slot := sl\<rparr>)) (\<lambda>s. Inr (Some c, s)))
            else Inr (None, s)))"

definition skynet_handle_grab :: "u32 \<Rightarrow> registry \<Rightarrow> (ctx option \<times> registry) cres" where
  "skynet_handle_grab h s =
     bind_res (aget (slot s) (slot_of (slot_size s) h)) (\<lambda>c.
       case c of
         None \<Rightarrow> Inr (None, s)
       | Some c \<Rightarrow>
           if ctx_handle s c = h then Inr (Some c, s\<lparr>ctx_ref := (ctx_ref s)(c := ctx_ref s c + 1)\<rparr>)
           else Inr (None, s))"

text \<open>One pass over the slots, with the contexts it retires.\<close>

definition retire_slot :: "nat \<Rightarrow> ctx list \<times> registry \<Rightarrow> (ctx list \<times> registry) cres" where
  "retire_slot i r =
     (case r of (out, s) \<Rightarrow>
        bind_res (aget (slot s) i) (\<lambda>c.
          let h = (case c of None \<Rightarrow> 0 | Some c \<Rightarrow> ctx_handle s c) in
          if h \<noteq> 0 then
            bind_res (skynet_handle_retire h s) (\<lambda>(c, s). Inr (case c of None \<Rightarrow> out | Some c \<Rightarrow> out @ [c], s))
          else Inr (out, s)))"

primrec skynet_handle_retireall :: "nat \<Rightarrow> registry \<Rightarrow> (ctx list \<times> registry) cres" where
  "skynet_handle_retireall 0 s = Inl Diverges"
| "skynet_handle_retireall (Suc fuel) s =
     bind_res (for_res retire_slot [0..<slot_size s] ([], s)) (\<lambda>(out, s).
       if out = [] then Inr ([], s)
       else bind_res (skynet_handle_retireall fuel s) (\<lambda>(out', s). Inr (out @ out', s)))"

subsection \<open>Names\<close>

text \<open>\<open>strcmp\<close> compares bytes; strings end before their first zero.\<close>

fun strcmp :: "string \<Rightarrow> string \<Rightarrow> int" where
  "strcmp [] [] = 0"
| "strcmp [] (_ # _) = -1"
| "strcmp (_ # _) [] = 1"
| "strcmp (a # as) (b # bs) =
     (if of_char a < (of_char b :: nat) then -1 else if of_char b < (of_char a :: nat) then 1 else strcmp as bs)"

text \<open>The binary search: the entry found, or where a new one belongs.\<close>

function search_name :: "string \<Rightarrow> handle_name list \<Rightarrow> int \<Rightarrow> int \<Rightarrow> (nat + nat) cres" where
  "search_name name ns b e =
     (if b \<le> e \<and> 0 \<le> b then
        let mid = (b + e) div 2 in
        bind_res (aget ns (nat mid)) (\<lambda>n.
          let c = strcmp (hn_name n) name in
          if c = 0 then Inr (Inl (nat mid))
          else if c < 0 then search_name name ns (mid + 1) e
          else search_name name ns b (mid - 1))
      else Inr (Inr (nat b)))"
  by pat_completeness auto
termination
  by (relation "measure (\<lambda>(name, ns, b, e). nat (e + 1 - b))") auto

declare search_name.simps [simp del]

definition skynet_handle_findname :: "string \<Rightarrow> registry \<Rightarrow> u32 cres" where
  "skynet_handle_findname name s =
     bind_res (search_name name (names s) 0 (int (name_count s) - 1)) (\<lambda>r.
       case r of Inl i \<Rightarrow> bind_res (aget (names s) i) (\<lambda>n. Inr (hn_handle n)) | Inr _ \<Rightarrow> Inr 0)"

definition no_name :: handle_name where
  "no_name = \<lparr>hn_name = [], hn_handle = 0\<rparr>"

text \<open>A full array is copied to one of twice the size with a gap; otherwise the entries behind move up.\<close>

definition insert_name_before :: "string \<Rightarrow> u32 \<Rightarrow> nat \<Rightarrow> registry \<Rightarrow> registry cres" where
  "insert_name_before name h before s =
     bind_res
       (if name_cap s \<le> name_count s then
          if MAX_SLOT_SIZE < name_cap s * 2 then Inl AssertFail
          else
            let s = s\<lparr>name_cap := name_cap s * 2\<rparr>; old = names s in
            bind_res (for_res (\<lambda>i n. bind_res (aget old i) (aset n i)) [0..<before] (replicate (name_cap s) no_name)) (\<lambda>n.
            bind_res (for_res (\<lambda>i n. bind_res (aget old i) (aset n (i + 1))) [before..<name_count s] n) (\<lambda>n.
              Inr (s\<lparr>names := n\<rparr>)))
        else
          bind_res (for_res (\<lambda>i n. bind_res (aget n (i - 1)) (aset n i)) (rev [before + 1..<name_count s + 1]) (names s)) (\<lambda>n.
            Inr (s\<lparr>names := n\<rparr>)))
       (\<lambda>s. bind_res (aset (names s) before \<lparr>hn_name = name, hn_handle = h\<rparr>) (\<lambda>n.
          Inr (s\<lparr>names := n, name_count := name_count s + 1\<rparr>)))"

text \<open>A name that is taken is refused.\<close>

definition skynet_handle_namehandle :: "u32 \<Rightarrow> string \<Rightarrow> registry \<Rightarrow> (string option \<times> registry) cres" where
  "skynet_handle_namehandle h name s =
     bind_res (search_name name (names s) 0 (int (name_count s) - 1)) (\<lambda>r.
       case r of
         Inl _ \<Rightarrow> Inr (None, s)
       | Inr before \<Rightarrow> bind_res (insert_name_before name h before s) (\<lambda>s. Inr (Some name, s)))"

definition skynet_handle_init :: "int \<Rightarrow> (ctx \<Rightarrow> u32) \<Rightarrow> (ctx \<Rightarrow> int) \<Rightarrow> registry" where
  "skynet_handle_init hb handles refs =
     \<lparr>harbor = push_bit HANDLE_REMOTE_SHIFT (word_of_int hb AND 0xff), handle_index = 1, slot_size = DEFAULT_SLOT_SIZE,
      slot = replicate DEFAULT_SLOT_SIZE None, name_cap = 2, name_count = 0, names = replicate 2 no_name,
      ctx_handle = handles, ctx_ref = refs\<rparr>"

section \<open>The table of handles\<close>

definition handles_ok :: "registry \<Rightarrow> bool" where
  "handles_ok s \<longleftrightarrow> (\<exists>k. slot_size s = 2 ^ k \<and> k \<le> 24) \<and> length (slot s) = slot_size s \<and> 0 < unat (handle_index s) \<and>
     unat (harbor s) mod 2 ^ 24 = 0 \<and> (\<forall>i < slot_size s. \<forall>c. slot s ! i = Some c \<longrightarrow>
       slot_of (slot_size s) (ctx_handle s c) = i \<and> ctx_handle s c \<noteq> 0)"

text \<open>The services by their handles.\<close>

definition services :: "registry \<Rightarrow> u32 \<Rightarrow> ctx option" where
  "services s h =
     (case slot s ! slot_of (slot_size s) h of None \<Rightarrow> None | Some c \<Rightarrow> if ctx_handle s c = h then Some c else None)"

lemma slot_of_mod: "k \<le> 24 \<Longrightarrow> slot_of (2 ^ k) h = unat h mod 2 ^ k"
proof -
  assume "k \<le> 24"
  have "(of_nat (2 ^ k) :: u32) - 1 = Bit_Operations.mask k" by (simp add: mask_eq_exp_minus_1)
  then show ?thesis unfolding slot_of_def by (simp add: take_bit_eq_mask [symmetric] unsigned_take_bit_eq) (simp add: take_bit_eq_mod)
qed

lemma handles_okD:
  assumes "handles_ok s"
  obtains k where "slot_size s = 2 ^ k" "k \<le> 24" "length (slot s) = 2 ^ k" "\<And>h. slot_of (slot_size s) h = unat h mod 2 ^ k"
    "\<And>i c. i < 2 ^ k \<Longrightarrow> slot s ! i = Some c \<Longrightarrow> unat (ctx_handle s c) mod 2 ^ k = i"
proof -
  obtain k where k: "slot_size s = 2 ^ k" "k \<le> 24" using assms by (auto simp: handles_ok_def)
  note sl = slot_of_mod [OF k(2)]
  show ?thesis by (rule that [OF k]) (use assms k sl in \<open>auto simp: handles_ok_def\<close>)
qed

lemma or_harbor:
  fixes h b :: u32
  assumes "unat b mod 2 ^ 24 = 0" "k \<le> 24"
  shows "unat (h OR b) mod 2 ^ k = unat h mod 2 ^ k"
proof -
  have "unat (take_bit 24 b) = 0" unfolding unsigned_take_bit_eq using assms(1) by (simp add: take_bit_eq_mod)
  then have "take_bit 24 b = 0" by (simp only: unsigned_eq_0_iff)
  then have "take_bit k b = 0" by (metis assms(2) min.absorb1 take_bit_of_0 take_bit_take_bit)
  then have "take_bit k (h OR b) = take_bit k h" by simp
  then have "unat (take_bit k (h OR b)) = unat (take_bit k h)" by simp
  then show ?thesis unfolding unsigned_take_bit_eq by (simp add: take_bit_eq_mod)
qed

text \<open>Trying \<open>n\<close> handles from \<open>h\<close> on, below the end of their range.\<close>

lemma probe_spec:
  assumes sz: "slot_size s = 2 ^ k" "k \<le> 24" "length (slot s) = 2 ^ k"
  shows "0 < unat h \<Longrightarrow> unat h + n \<le> 2 ^ 24 \<Longrightarrow>
    (\<exists>h'. probe n h s = Inr (Some h') \<and> unat h \<le> unat h' \<and> unat h' < unat h + n \<and> slot s ! (unat h' mod 2 ^ k) = None) \<or>
    (probe n h s = Inr None \<and> (\<forall>i<n. slot s ! ((unat h + i) mod 2 ^ k) \<noteq> None))"
proof (induction n arbitrary: h)
  case (Suc n)
  have mask: "unat HANDLE_MASK = 2 ^ 24 - 1" by (simp add: HANDLE_MASK_def)
  have keep: "\<not> HANDLE_MASK < h" using Suc.prems(2) by (simp add: word_less_nat_alt mask)
  have at: "aget (slot s) (slot_of (slot_size s) h) = Inr (slot s ! (unat h mod 2 ^ k))"
    unfolding sz(1) slot_of_mod [OF sz(2)] by (rule aget_in) (simp add: sz(3))
  show ?case
  proof (cases "slot s ! (unat h mod 2 ^ k) = None")
    case True
    then show ?thesis using at keep by simp
  next
    case False
    then obtain c where "slot s ! (unat h mod 2 ^ k) = Some c" by blast
    then have step: "probe (Suc n) h s = probe n (h + 1) s" using at keep by simp
    have u: "unat (h + 1) = unat h + 1"
      using Suc.prems(2) by (subst unat_add_lem [THEN iffD1]) simp_all
    have IH: "(\<exists>h'. probe n (h + 1) s = Inr (Some h') \<and> unat (h + 1) \<le> unat h' \<and> unat h' < unat (h + 1) + n \<and> slot s ! (unat h' mod 2 ^ k) = None) \<or>
        (probe n (h + 1) s = Inr None \<and> (\<forall>i<n. slot s ! ((unat (h + 1) + i) mod 2 ^ k) \<noteq> None))"
      using Suc.prems by (intro Suc.IH) (simp_all add: u)
    then show ?thesis
    proof
      assume "\<exists>h'. probe n (h + 1) s = Inr (Some h') \<and> unat (h + 1) \<le> unat h' \<and> unat h' < unat (h + 1) + n \<and> slot s ! (unat h' mod 2 ^ k) = None"
      then show ?thesis unfolding step u by (elim exE conjE, intro disjI1 exI conjI) simp_all
    next
      assume r: "probe n (h + 1) s = Inr None \<and> (\<forall>i<n. slot s ! ((unat (h + 1) + i) mod 2 ^ k) \<noteq> None)"
      have "slot s ! ((unat h + i) mod 2 ^ k) \<noteq> None" if i: "i < Suc n" for i
      proof (cases i)
        case 0
        then show ?thesis using False by simp
      next
        case (Suc j)
        have "slot s ! ((unat (h + 1) + j) mod 2 ^ k) \<noteq> None" using r i Suc by simp
        then show ?thesis unfolding u Suc by simp
      qed
      then show ?thesis unfolding step using r by simp
    qed
  qed
qed simp

text \<open>Doubling a full table.\<close>

definition rehashed :: "registry \<Rightarrow> nat \<Rightarrow> nat \<Rightarrow> nat \<Rightarrow> ctx option" where
  "rehashed s k i j =
     (if j mod 2 ^ k < i then
        case slot s ! (j mod 2 ^ k) of
          None \<Rightarrow> None
        | Some c \<Rightarrow> if unat (ctx_handle s c) mod 2 ^ Suc k = j then Some c else None
      else None)"

lemma mod_double: "a mod 2 ^ Suc k mod 2 ^ k = a mod 2 ^ k" for a :: nat
  by (rule mod_mod_cancel) simp

lemma rehash_step:
  assumes ok: "handles_ok s" and k: "slot_size s = 2 ^ k" "k < 24" and i: "i < 2 ^ k" and full: "slot s ! i \<noteq> None"
    and new: "length new = 2 ^ Suc k" "\<forall>j<2 ^ Suc k. new ! j = rehashed s k i j"
  shows "\<exists>new'. rehash_slot s i new = Inr new' \<and> length new' = 2 ^ Suc k \<and> (\<forall>j<2 ^ Suc k. new' ! j = rehashed s k (Suc i) j)"
proof -
  obtain c where c: "slot s ! i = Some c" using full by blast
  define hash where "hash = unat (ctx_handle s c) mod 2 ^ Suc k"
  have len: "length (slot s) = 2 ^ k" and at: "unat (ctx_handle s c) mod 2 ^ k = i"
    using ok c i k slot_of_mod [of k] by (auto simp: handles_ok_def)
  have hi: "hash mod 2 ^ k = i" unfolding hash_def mod_double by (rule at)
  have hl: "hash < 2 ^ Suc k" by (simp add: hash_def)
  have free: "new ! hash = None" using new(2) hl hi by (simp add: rehashed_def)
  have sl: "slot_of (slot_size s * 2) (ctx_handle s c) = hash"
    using slot_of_mod [of "Suc k" "ctx_handle s c"] k by (simp add: hash_def mult.commute)
  have "rehash_slot s i new = Inr (new[hash := Some c])"
    using c i len hl free new(1) by (simp add: rehash_slot_def sl Let_def)
  moreover have "new[hash := Some c] ! j = rehashed s k (Suc i) j" if j: "j < 2 ^ Suc k" for j
  proof (cases "j = hash")
    case True
    have "rehashed s k (Suc i) hash = Some c" unfolding rehashed_def hi c by (simp add: hash_def)
    then show ?thesis using True hl new(1) by simp
  next
    case False
    then have "rehashed s k (Suc i) j = rehashed s k i j"
      by (cases "j mod 2 ^ k = i") (auto simp: rehashed_def c hash_def less_Suc_eq)
    then show ?thesis using False new(2) j by simp
  qed
  ultimately show ?thesis using new(1) by simp
qed

lemma grow_ok:
  assumes ok: "handles_ok s" and k: "slot_size s = 2 ^ k" "k < 24" and full: "\<forall>i<2 ^ k. slot s ! i \<noteq> None"
  obtains sl where "grow_slots s = Inr (s\<lparr>slot := sl, slot_size := 2 ^ Suc k\<rparr>)" "length sl = 2 ^ Suc k"
    "\<forall>j<2 ^ Suc k. sl ! j = rehashed s k (2 ^ k) j"
proof -
  have "\<exists>new. for_res (rehash_slot s) [0..<2 ^ k] (replicate (2 ^ Suc k) None) = Inr new \<and>
      length new = 2 ^ Suc k \<and> (\<forall>j<2 ^ Suc k. new ! j = rehashed s k (2 ^ k) j)"
    by (rule for_res_upt_invariant [where P = "\<lambda>i new. length new = 2 ^ Suc k \<and> (\<forall>j<2 ^ Suc k. new ! j = rehashed s k i j)"])
      (use rehash_step [OF ok k] full in \<open>auto simp: rehashed_def\<close>)
  then obtain new where new: "for_res (rehash_slot s) [0..<2 ^ k] (replicate (2 ^ Suc k) None) = Inr new"
      "length new = 2 ^ Suc k" "\<forall>j<2 ^ Suc k. new ! j = rehashed s k (2 ^ k) j" by blast
  have "(2::nat) ^ Suc k \<le> 2 ^ 24" using k(2) by (intro power_increasing) simp_all
  then have "int (2 ^ Suc k) \<le> 2 ^ 24" by (metis of_nat_le_iff of_nat_numeral of_nat_power)
  then have "\<not> \<not> int (slot_size s) * 2 - 1 \<le> uint HANDLE_MASK" by (simp add: k(1) HANDLE_MASK_def)
  then have "grow_slots s = Inr (s\<lparr>slot := new, slot_size := 2 ^ Suc k\<rparr>)"
    using new(1) by (simp add: grow_slots_def k(1) mult.commute)
  then show ?thesis using new(2,3) by (rule that)
qed

text \<open>Slots of contexts other than \<open>c\<close> do not see a change of its handle.\<close>

lemma set_handle_ok:
  assumes "handles_ok s" "Some c \<notin> set (slot s)"
  shows "handles_ok (set_handle c h s)" "services (set_handle c h s) = services s"
proof -
  have other: "slot s ! i = Some d \<Longrightarrow> i < slot_size s \<Longrightarrow> d \<noteq> c" for i d
    using assms by (metis handles_ok_def nth_mem)
  then show "handles_ok (set_handle c h s)" using assms(1) by (auto simp: handles_ok_def set_handle_def)
  obtain k where "\<And>h. slot_of (slot_size s) h < slot_size s" using assms(1) by (elim handles_okD) simp
  then show "services (set_handle c h s) = services s"
    using other by (intro ext) (auto simp: services_def set_handle_def split: option.split)
qed

lemma grown_ok:
  assumes ok: "handles_ok s" and k: "slot_size s = 2 ^ k" "k < 24"
    and sl: "length sl = 2 ^ Suc k" "\<forall>j<2 ^ Suc k. sl ! j = rehashed s k (2 ^ k) j"
  defines "t \<equiv> s\<lparr>slot := sl, slot_size := 2 ^ Suc k\<rparr>"
  shows "handles_ok t" "services t = services s" "\<exists>j<2 ^ Suc k. sl ! j = None" "set sl \<subseteq> insert None (set (slot s))"
proof -
  have len: "length (slot s) = 2 ^ k" using ok k(1) by (simp add: handles_ok_def)
  have slots: "slot_of (2 ^ k) h = unat h mod 2 ^ k" "slot_of (2 ^ Suc k) h = unat h mod 2 ^ Suc k" for h
    using k(2) by (simp_all add: slot_of_mod del: power_Suc)
  have some: "sl ! j = Some c \<longleftrightarrow> slot s ! (j mod 2 ^ k) = Some c \<and> unat (ctx_handle s c) mod 2 ^ Suc k = j" if "j < 2 ^ Suc k" for j c
    using sl(2) that by (auto simp: rehashed_def split: option.split)
  have nz: "ctx_handle s c \<noteq> 0" if "slot s ! 0 = Some c" for c
    using ok that k(1) unfolding handles_ok_def by (metis zero_less_numeral zero_less_power)
  show "handles_ok t" using ok k sl(1) some slots nz unfolding handles_ok_def t_def by (auto simp del: power_Suc intro: exI [of _ "Suc k"])
  have iff: "services t h = Some c \<longleftrightarrow> services s h = Some c" for h c
  proof -
    have "services t h = Some c \<longleftrightarrow> sl ! (unat h mod 2 ^ Suc k) = Some c \<and> ctx_handle s c = h"
      unfolding services_def t_def by (auto simp: slots simp del: power_Suc split: option.split)
    also have "\<dots> \<longleftrightarrow> slot s ! (unat h mod 2 ^ k) = Some c \<and> ctx_handle s c = h"
      by (subst some) (auto simp: mod_double simp del: power_Suc)
    also have "\<dots> \<longleftrightarrow> services s h = Some c"
      unfolding services_def k(1) by (auto simp: slots split: option.split)
    finally show ?thesis .
  qed
  show "services t = services s" by (rule ext) (metis iff not_None_eq)
  show "set sl \<subseteq> insert None (set (slot s))"
  proof
    fix x assume "x \<in> set sl"
    then obtain j where j: "j < 2 ^ Suc k" "x = sl ! j" unfolding in_set_conv_nth sl(1) by blast
    show "x \<in> insert None (set (slot s))"
    proof (cases x)
      case (Some c)
      then have "slot s ! (j mod 2 ^ k) = Some c" using some [OF j(1)] j(2) by metis
      moreover have "j mod 2 ^ k < length (slot s)" by (simp add: len)
      ultimately show ?thesis using Some by (metis insertCI nth_mem)
    qed simp
  qed
  show "\<exists>j<2 ^ Suc k. sl ! j = None"
  proof (rule ccontr)
    assume "\<not> (\<exists>j<2 ^ Suc k. sl ! j = None)"
    then have full: "sl ! j \<noteq> None" if "j < 2 ^ Suc k" for j using that by metis
    obtain c where c: "sl ! 0 = Some c" using full [of 0] by auto
    obtain d where d: "sl ! (2 ^ k) = Some d" using full [of "2 ^ k"] by auto
    have "slot s ! 0 = Some c" "unat (ctx_handle s c) mod 2 ^ Suc k = 0" using some [of 0 c] c by simp_all
    moreover have "slot s ! 0 = Some d" "unat (ctx_handle s d) mod 2 ^ Suc k = 2 ^ k" using some [of "2 ^ k" d] d by simp_all
    ultimately show False by simp
  qed
qed

text \<open>A free slot is found by trying as many handles in a row as there are slots.\<close>

lemma residue_hit: "j < n \<Longrightarrow> \<exists>i<n. (a + i) mod n = j" for a n :: nat
proof -
  assume j: "j < n"
  define i where "i = (j + (n - a mod n)) mod n"
  have "(a + i) mod n = (a mod n + (j + (n - a mod n))) mod n" unfolding i_def by (metis mod_add_eq mod_mod_trivial)
  also have "a mod n + (j + (n - a mod n)) = j + n" using mod_less_divisor [of n a] j by linarith
  also have "(j + n) mod n = j" using j by simp
  finally show ?thesis using j by (intro exI [of _ i]) (simp add: i_def)
qed

lemma register_free:
  assumes ok: "handles_ok s" and k: "slot_size s = 2 ^ k" and free: "j < 2 ^ k" "slot s ! j = None"
    and room: "unat (handle_index s) + 2 ^ k \<le> 2 ^ 24"
  obtains h where "skynet_handle_register (Suc f) c s =
      Inr (h OR harbor s, s\<lparr>slot := (slot s)[unat h mod 2 ^ k := Some c], handle_index := h + 1\<rparr>)"
    "unat (handle_index s) \<le> unat h" "unat h < 2 ^ 24" "slot s ! (unat h mod 2 ^ k) = None"
proof -
  have sz: "slot_size s = 2 ^ k" "k \<le> 24" "length (slot s) = 2 ^ k" using ok k by (auto simp: handles_ok_def)
  have pos: "0 < unat (handle_index s)" using ok by (simp add: handles_ok_def)
  have "\<not> (\<forall>i<2 ^ k. slot s ! ((unat (handle_index s) + i) mod 2 ^ k) \<noteq> None)"
    using residue_hit [OF free(1)] free(2) by metis
  then obtain h where h: "probe (2 ^ k) (handle_index s) s = Inr (Some h)" "unat (handle_index s) \<le> unat h"
      "unat h < unat (handle_index s) + 2 ^ k" "slot s ! (unat h mod 2 ^ k) = None"
    using probe_spec [OF sz pos room] by blast
  have "slot_of (slot_size s) h = unat h mod 2 ^ k" using slot_of_mod sz by simp
  then have "skynet_handle_register (Suc f) c s =
      Inr (h OR harbor s, s\<lparr>slot := (slot s)[unat h mod 2 ^ k := Some c], handle_index := h + 1\<rparr>)"
    using h(1) sz by simp
  then show ?thesis using h(2) by (rule that) (use h room in simp_all)
qed

text \<open>Placing a context in a free slot under a handle that belongs there.\<close>

lemma place_ok:
  assumes ok: "handles_ok s" and k: "slot_size s = 2 ^ k" and new: "Some c \<notin> set (slot s)"
    and free: "slot s ! (unat h mod 2 ^ k) = None" and h: "unat h < 2 ^ 24" "0 < unat h"
  defines "t \<equiv> set_handle c (h OR harbor s) (s\<lparr>slot := (slot s)[unat h mod 2 ^ k := Some c], handle_index := h + 1\<rparr>)"
  shows "handles_ok t" "services s (h OR harbor s) = None" "services t = (services s)(h OR harbor s \<mapsto> c)"
proof -
  define b where "b = h OR harbor s"
  define i where "i = unat h mod 2 ^ k"
  have sz: "k \<le> 24" "length (slot s) = 2 ^ k" "unat (harbor s) mod 2 ^ 24 = 0" using ok k by (auto simp: handles_ok_def)
  note slots = slot_of_mod [OF sz(1)]
  have bi: "unat b mod 2 ^ k = i" unfolding b_def i_def by (rule or_harbor [OF sz(3,1)])
  have il: "i < 2 ^ k" by (simp add: i_def)
  have "unat b mod 2 ^ 24 = unat h" unfolding b_def using or_harbor [OF sz(3), of 24 h] h(1) by simp
  then have b0: "b \<noteq> 0" using h(2) by auto
  have other: "slot s ! l = Some d \<Longrightarrow> l < 2 ^ k \<Longrightarrow> d \<noteq> c" for l d using new sz(2) by (metis nth_mem)
  have "unat (h + 1) = unat h + 1" using h(1) by (subst unat_add_lem [THEN iffD1]) simp_all
  moreover have "slot s ! l = Some d \<Longrightarrow> l < 2 ^ k \<Longrightarrow> unat (ctx_handle s d) mod 2 ^ k = l" for l d
    using ok k by (simp add: handles_ok_def slots)
  ultimately show "handles_ok t"
    using ok k il bi b0 other sz unfolding handles_ok_def t_def set_handle_def i_def [symmetric] b_def [symmetric]
    by (auto simp: slots nth_list_update split: if_splits)
  show "services s (h OR harbor s) = None"
    unfolding services_def k slots b_def [symmetric] bi using free by (simp add: i_def)
  have "services t g = ((services s)(b \<mapsto> c)) g" for g
  proof -
    define l where "l = unat g mod 2 ^ k"
    have l: "l < 2 ^ k" by (simp add: l_def)
    have t: "services t g = (case (slot s)[i := Some c] ! l of None \<Rightarrow> None | Some d \<Rightarrow> if (if d = c then b else ctx_handle s d) = g then Some d else None)"
      unfolding services_def t_def set_handle_def i_def [symmetric] b_def [symmetric] by (simp add: k slots l_def split: option.split)
    have s: "services s g = (case slot s ! l of None \<Rightarrow> None | Some d \<Rightarrow> if ctx_handle s d = g then Some d else None)"
      unfolding services_def by (simp add: k slots l_def)
    show ?thesis
    proof (cases "l = i")
      case True
      then have "services t g = (if b = g then Some c else None)" unfolding t using il sz(2) by simp
      moreover have "services s g = None" unfolding s True using free by (simp add: i_def)
      ultimately show ?thesis by auto
    next
      case False
      then have "b \<noteq> g" using bi by (auto simp: l_def)
      then show ?thesis unfolding t using False l other s by (auto split: option.split)
    qed
  qed
  then show "services t = (services s)(h OR harbor s \<mapsto> c)" unfolding b_def by blast
qed

lemma register_ok:
  assumes ok: "handles_ok s" and new: "Some c \<notin> set (slot s)" and room: "unat (handle_index s) + 2 * slot_size s \<le> 2 ^ 24"
  obtains h t where "skynet_handle_register (Suc (Suc f)) c s = Inr (h OR harbor s, t)" "handles_ok (set_handle c (h OR harbor s) t)"
    "services s (h OR harbor s) = None" "services (set_handle c (h OR harbor s) t) = (services s)(h OR harbor s \<mapsto> c)"
    "unat (handle_index s) \<le> unat h" "unat h < 2 ^ 24" "handle_index t = h + 1" "t = s\<lparr>slot := slot t, slot_size := slot_size t, handle_index := h + 1\<rparr>"
    "set (slot t) \<subseteq> insert None (insert (Some c) (set (slot s)))"
proof -
  obtain k where k: "slot_size s = 2 ^ k" using ok by (auto simp: handles_ok_def)
  have pos: "0 < unat (handle_index s)" using ok by (simp add: handles_ok_def)
  have sz: "k \<le> 24" "length (slot s) = 2 ^ k" using ok k by (auto simp: handles_ok_def)
  show ?thesis
  proof (cases "\<exists>j<2 ^ k. slot s ! j = None")
    case True
    then obtain j where j: "j < 2 ^ k" "slot s ! j = None" by blast
    have r: "unat (handle_index s) + 2 ^ k \<le> 2 ^ 24" using room k by simp
    obtain h where h: "skynet_handle_register (Suc (Suc f)) c s =
        Inr (h OR harbor s, s\<lparr>slot := (slot s)[unat h mod 2 ^ k := Some c], handle_index := h + 1\<rparr>)"
        "unat (handle_index s) \<le> unat h" "unat h < 2 ^ 24" "slot s ! (unat h mod 2 ^ k) = None"
      by (rule register_free [OF ok k j r])
    have "0 < unat h" using h(2) pos by simp
    note p = place_ok [OF ok k new h(4,3) this]
    show ?thesis by (rule that [OF h(1) p h(2,3)]) (use set_update_subset_insert [of "slot s"] in fastforce)+
  next
    case False
    then have full: "\<forall>i<2 ^ k. slot s ! i \<noteq> None" by metis
    have r: "unat (handle_index s) + 2 ^ Suc k \<le> 2 ^ 24" using room k by simp
    have "(2::nat) ^ Suc k < 2 ^ 24" using r pos by linarith
    then have k24: "k < 24" using power_less_imp_less_exp [of "2 :: nat" "Suc k" 24] by simp
    obtain sl where g: "grow_slots s = Inr (s\<lparr>slot := sl, slot_size := 2 ^ Suc k\<rparr>)" "length sl = 2 ^ Suc k"
        "\<forall>j<2 ^ Suc k. sl ! j = rehashed s k (2 ^ k) j" by (rule grow_ok [OF ok k k24 full])
    define t where "t = s\<lparr>slot := sl, slot_size := 2 ^ Suc k\<rparr>"
    note gr = grown_ok [OF ok k k24 g(2,3), folded t_def]
    obtain j where j: "j < 2 ^ Suc k" "slot t ! j = None" using gr(3) by (auto simp: t_def)
    have tk: "slot_size t = 2 ^ Suc k" and tnew: "Some c \<notin> set (slot t)" and tr: "unat (handle_index t) + 2 ^ Suc k \<le> 2 ^ 24"
      using gr(4) new r by (auto simp: t_def)
    obtain h where h: "skynet_handle_register (Suc f) c t =
        Inr (h OR harbor t, t\<lparr>slot := (slot t)[unat h mod 2 ^ Suc k := Some c], handle_index := h + 1\<rparr>)"
        "unat (handle_index t) \<le> unat h" "unat h < 2 ^ 24" "slot t ! (unat h mod 2 ^ Suc k) = None"
      by (rule register_free [OF gr(1) tk j tr])
    have "0 < unat h" using h(2) pos by (simp add: t_def)
    note p = place_ok [OF gr(1) tk tnew h(4,3) this, unfolded gr(2)]
    have none: "probe (slot_size s) (handle_index s) s = Inr None"
      using probe_spec [OF k sz pos, of "2 ^ k"] room full unfolding k by (auto simp: k)
    have eq: "harbor t = harbor s" "handle_index t = handle_index s" by (simp_all add: t_def)
    have reg: "skynet_handle_register (Suc (Suc f)) c s =
        Inr (h OR harbor s, t\<lparr>slot := (slot t)[unat h mod 2 ^ Suc k := Some c], handle_index := h + 1\<rparr>)"
      using h(1) none g(1) by (simp add: t_def del: skynet_handle_register.simps) (simp add: t_def)
    show ?thesis
      by (rule that [OF reg p [unfolded eq] h(2) [unfolded eq] h(3)])
        (use gr(4) set_update_subset_insert [of "slot t"] in \<open>auto simp: t_def\<close>)
  qed
qed

lemma slot_in_range: "handles_ok s \<Longrightarrow> slot_of (slot_size s) h < length (slot s)"
  by (elim handles_okD) simp

lemma grab_ok:
  assumes "handles_ok s"
  shows "skynet_handle_grab h s =
    Inr (services s h, case services s h of None \<Rightarrow> s | Some c \<Rightarrow> s\<lparr>ctx_ref := (ctx_ref s)(c := ctx_ref s c + 1)\<rparr>)"
  using slot_in_range [OF assms, of h] by (auto simp: skynet_handle_grab_def services_def split: option.split)

lemma services_cong:
  "slot t = slot s \<Longrightarrow> slot_size t = slot_size s \<Longrightarrow> ctx_handle t = ctx_handle s \<Longrightarrow> services t = services s"
  by (rule ext) (simp add: services_def split: option.split)

lemma handles_ok_cong:
  "slot t = slot s \<Longrightarrow> slot_size t = slot_size s \<Longrightarrow> ctx_handle t = ctx_handle s \<Longrightarrow> harbor t = harbor s \<Longrightarrow>
    handle_index t = handle_index s \<Longrightarrow> handles_ok t = handles_ok s"
  by (simp add: handles_ok_def)

lemma clear_slot_ok:
  assumes ok: "handles_ok s" and h: "services s h = Some c"
  defines "t \<equiv> s\<lparr>slot := (slot s)[slot_of (slot_size s) h := None]\<rparr>"
  shows "handles_ok t" "services t = (services s)(h := None)"
proof -
  have len: "length (slot s) = slot_size s" using ok by (simp add: handles_ok_def)
  show "handles_ok t" using ok unfolding handles_ok_def t_def by (auto simp: nth_update_if split: if_splits)
  have "services t g = ((services s)(h := None)) g" for g
  proof (cases "slot_of (slot_size s) g = slot_of (slot_size s) h")
    case True
    then have "services t g = None" using slot_in_range [OF ok, of h] by (simp add: services_def t_def)
    moreover have "services s g = None" if "g \<noteq> h"
      using h True that by (auto simp: services_def split: option.splits if_splits)
    ultimately show ?thesis by simp
  next
    case False
    then show ?thesis by (auto simp: services_def t_def split: option.split)
  qed
  then show "services t = (services s)(h := None)" by blast
qed

text \<open>A context is in the table when its handle leads to it.\<close>

definition in_table :: "registry \<Rightarrow> ctx \<Rightarrow> bool" where
  "in_table s c \<longleftrightarrow> services s (ctx_handle s c) = Some c"

lemma services_handle: "services s h = Some c \<Longrightarrow> ctx_handle s c = h"
  by (auto simp: services_def split: option.splits if_splits)

lemma in_table_slot:
  assumes "handles_ok s"
  shows "Some c \<in> set (slot s) \<longleftrightarrow> in_table s c"
proof
  assume "Some c \<in> set (slot s)"
  then obtain i where i: "i < length (slot s)" "slot s ! i = Some c" by (auto simp: in_set_conv_nth)
  then have "slot_of (slot_size s) (ctx_handle s c) = i" using assms by (auto simp: handles_ok_def)
  then show "in_table s c" using i by (simp add: in_table_def services_def)
next
  assume "in_table s c"
  then have "slot s ! slot_of (slot_size s) (ctx_handle s c) = Some c" by (auto simp: in_table_def services_def split: option.splits if_splits)
  then show "Some c \<in> set (slot s)" using slot_in_range [OF assms] by (metis nth_mem)
qed

section \<open>The names\<close>

lemma strcmp_eq_0: "strcmp a b = 0 \<longleftrightarrow> a = b"
proof (induction a b rule: strcmp.induct)
  case (4 a as b bs)
  have "of_char a = (of_char b :: nat) \<longleftrightarrow> a = b" by (simp add: of_char_eq_iff)
  then show ?case using 4 by (auto simp: not_less)
qed simp_all

lemma strcmp_swap: "strcmp b a = - strcmp a b"
  by (induction a b rule: strcmp.induct) auto

lemma strcmp_Cons_less:
  "strcmp (a # as) (b # bs) < 0 \<longleftrightarrow> of_char a < (of_char b :: nat) \<or> (of_char a = (of_char b :: nat) \<and> strcmp as bs < 0)"
  by auto

lemma strcmp_trans: "strcmp a b < 0 \<Longrightarrow> strcmp b c < 0 \<Longrightarrow> strcmp a c < 0"
proof (induction a arbitrary: b c)
  case Nil
  then show ?case by (cases b; cases c) simp_all
next
  case (Cons x a)
  then obtain y b' where b: "b = y # b'" by (cases b) simp_all
  with Cons.prems obtain z c' where c: "c = z # c'" by (cases c) simp_all
  show ?case using Cons.prems Cons.IH [of b' c'] unfolding b c strcmp_Cons_less by (metis less_trans)
qed

text \<open>The entries in use are sorted and their names differ.\<close>

definition names_ok :: "registry \<Rightarrow> bool" where
  "names_ok s \<longleftrightarrow> length (names s) = name_cap s \<and> name_count s \<le> name_cap s \<and> 0 < name_cap s \<and>
     sorted_wrt (\<lambda>m n. strcmp (hn_name m) (hn_name n) < 0) (take (name_count s) (names s))"

definition entries :: "registry \<Rightarrow> handle_name list" where
  "entries s = take (name_count s) (names s)"

definition name_map :: "registry \<Rightarrow> string \<Rightarrow> u32 option" where
  "name_map s = map_of (map (\<lambda>n. (hn_name n, hn_handle n)) (entries s))"

text \<open>Where the search ends.\<close>

lemma search_name_spec:
  assumes "n \<le> length ns" and sorted: "sorted_wrt (\<lambda>x y. strcmp (hn_name x) (hn_name y) < 0) (take n ns)"
    and "0 \<le> b" "b \<le> e + 1" "e < int n"
    and "\<forall>i < nat b. strcmp (hn_name (ns ! i)) name < 0" "\<forall>i<n. e < int i \<longrightarrow> 0 < strcmp (hn_name (ns ! i)) name"
  shows "(\<exists>i<n. search_name name ns b e = Inr (Inl i) \<and> hn_name (ns ! i) = name) \<or>
    (\<exists>p\<le>n. search_name name ns b e = Inr (Inr p) \<and> (\<forall>i<p. strcmp (hn_name (ns ! i)) name < 0) \<and>
      (\<forall>i<n. p \<le> i \<longrightarrow> 0 < strcmp (hn_name (ns ! i)) name))"
  using assms(3-7)
proof (induction "nat (e + 1 - b)" arbitrary: b e rule: less_induct)
  case (less b e)
  show ?case
  proof (cases "b \<le> e")
    case False
    then have be: "b = e + 1" using less.prems by simp
    have "search_name name ns b e = Inr (Inr (nat b))" using False by (subst search_name.simps) simp
    then show ?thesis using less.prems be by (intro disjI2 exI [of _ "nat b"]) auto
  next
    case True
    define mid where "mid = (b + e) div 2"
    have mid: "b \<le> mid" "mid \<le> e" "0 \<le> mid" "nat mid < n" using True less.prems by (auto simp: mid_def)
    have get: "aget ns (nat mid) = Inr (ns ! nat mid)" using mid assms(1) by simp
    define c where "c = strcmp (hn_name (ns ! nat mid)) name"
    have eq: "search_name name ns b e =
        (if c = 0 then Inr (Inl (nat mid)) else if c < 0 then search_name name ns (mid + 1) e else search_name name ns b (mid - 1))"
      using True less.prems(1) get by (subst search_name.simps) (simp add: Let_def mid_def [symmetric] c_def [symmetric])
    note IH = less.hyps [of e "mid + 1"] less.hyps [of "mid - 1" b]
    consider "c = 0" | "c < 0" | "0 < c" by linarith
    then show ?thesis
    proof cases
      case 1
      then have "hn_name (ns ! nat mid) = name" by (simp add: c_def strcmp_eq_0)
      then show ?thesis unfolding eq using 1 mid by auto
    next
      case 2
      have "strcmp (hn_name (ns ! i)) name < 0" if i: "i < nat (mid + 1)" for i
      proof (cases "i = nat mid")
        case True
        then show ?thesis using 2 by (simp add: c_def)
      next
        case False
        then have "strcmp (hn_name (ns ! i)) (hn_name (ns ! nat mid)) < 0"
          using sorted_wrt_nth_less [OF sorted, of i "nat mid"] i mid assms(1) by simp
        then show ?thesis using 2 unfolding c_def by (rule strcmp_trans)
      qed
      then show ?thesis unfolding eq using 2 IH(1) less.prems mid by auto
    next
      case 3
      have "0 < strcmp (hn_name (ns ! i)) name" if i: "i < n" "mid - 1 < int i" for i
      proof (cases "i = nat mid")
        case True
        then show ?thesis using 3 by (simp add: c_def)
      next
        case False
        then have "strcmp (hn_name (ns ! nat mid)) (hn_name (ns ! i)) < 0"
          using sorted_wrt_nth_less [OF sorted, of "nat mid" i] i mid assms(1) by simp
        moreover have "strcmp name (hn_name (ns ! nat mid)) < 0" using 3 strcmp_swap [of name] by (simp add: c_def)
        ultimately have "strcmp name (hn_name (ns ! i)) < 0" using strcmp_trans by blast
        then show ?thesis using strcmp_swap [of name "hn_name (ns ! i)"] by simp
      qed
      then show ?thesis unfolding eq using 3 IH(2) less.prems mid by auto
    qed
  qed
qed

lemma entries_nth: "names_ok s \<Longrightarrow> i < name_count s \<Longrightarrow> entries s ! i = names s ! i"
  by (simp add: entries_def)

lemma length_entries: "names_ok s \<Longrightarrow> length (entries s) = name_count s"
  by (simp add: entries_def names_ok_def)

lemma sorted_names_distinct:
  assumes "sorted_wrt (\<lambda>m n. strcmp (hn_name m) (hn_name n) < 0) xs"
  shows "distinct (map hn_name xs)"
  unfolding distinct_map inj_on_def
proof -
  have "hn_name (xs ! i) \<noteq> hn_name (xs ! j)" if "i < j" "j < length xs" for i j
    using sorted_wrt_nth_less [OF assms that] by (metis less_irrefl strcmp_eq_0)
  then have "distinct (map hn_name xs)" unfolding distinct_conv_nth by (auto simp: nat_neq_iff) metis
  then show "distinct xs \<and> (\<forall>x\<in>set xs. \<forall>y\<in>set xs. hn_name x = hn_name y \<longrightarrow> x = y)"
    unfolding distinct_map inj_on_def .
qed

lemma name_map_iff:
  assumes "names_ok s"
  shows "name_map s name = Some h \<longleftrightarrow> \<lparr>hn_name = name, hn_handle = h\<rparr> \<in> set (entries s)"
proof -
  have "distinct (map hn_name (entries s))"
    using assms unfolding names_ok_def entries_def by (intro sorted_names_distinct) simp
  then have "distinct (map fst (map (\<lambda>n. (hn_name n, hn_handle n)) (entries s)))" by (simp add: comp_def)
  then have "name_map s name = Some h \<longleftrightarrow> (\<exists>n\<in>set (entries s). name = hn_name n \<and> h = hn_handle n)"
    unfolding name_map_def by (auto simp: map_of_eq_Some_iff)
  also have "\<dots> \<longleftrightarrow> \<lparr>hn_name = name, hn_handle = h\<rparr> \<in> set (entries s)"
    by (metis (full_types) handle_name.select_convs(1,2) handle_name.surjective unit.exhaust)
  finally show ?thesis .
qed

lemma search_entries:
  assumes ok: "names_ok s"
  shows "(\<exists>i<name_count s. search_name name (names s) 0 (int (name_count s) - 1) = Inr (Inl i) \<and>
      name_map s name = Some (hn_handle (names s ! i))) \<or>
    (name_map s name = None \<and> (\<exists>p\<le>name_count s. search_name name (names s) 0 (int (name_count s) - 1) = Inr (Inr p) \<and>
      (\<forall>i<p. strcmp (hn_name (entries s ! i)) name < 0) \<and>
      (\<forall>i<name_count s. p \<le> i \<longrightarrow> 0 < strcmp (hn_name (entries s ! i)) name)))"
    (is "?found \<or> ?absent")
proof -
  note o = ok [unfolded names_ok_def]
  have le: "name_count s \<le> length (names s)" and sorted: "sorted_wrt (\<lambda>x y. strcmp (hn_name x) (hn_name y) < 0) (take (name_count s) (names s))"
    using o by auto
  consider i where "i < name_count s" "search_name name (names s) 0 (int (name_count s) - 1) = Inr (Inl i)" "hn_name (names s ! i) = name"
    | q where "q \<le> name_count s" "search_name name (names s) 0 (int (name_count s) - 1) = Inr (Inr q)"
        "\<forall>i<q. strcmp (hn_name (names s ! i)) name < 0" "\<forall>i<name_count s. q \<le> i \<longrightarrow> 0 < strcmp (hn_name (names s ! i)) name"
    using search_name_spec [OF le sorted, of 0 "int (name_count s) - 1" name] by auto
  then show ?thesis
  proof cases
    case 1
    have "names s ! i \<in> set (entries s)" using 1(1) entries_nth [OF ok 1(1)] length_entries [OF ok] by (metis nth_mem)
    then have "name_map s name = Some (hn_handle (names s ! i))"
      unfolding name_map_iff [OF ok] using 1(3) by (metis (full_types) handle_name.surjective unit.exhaust)
    then show ?thesis using 1 by blast
  next
    case 2
    have ne: "hn_name (entries s ! i) \<noteq> name" if "i < name_count s" for i
      using 2(3,4) that entries_nth [OF ok that] by (cases "i < q") (metis less_irrefl strcmp_eq_0, metis less_irrefl not_less strcmp_eq_0)
    have "name_map s name \<noteq> Some h" for h
    proof
      assume "name_map s name = Some h"
      then obtain i where "i < name_count s" "entries s ! i = \<lparr>hn_name = name, hn_handle = h\<rparr>"
        unfolding name_map_iff [OF ok] in_set_conv_nth length_entries [OF ok] by blast
      then show False using ne [of i] by simp
    qed
    then have "name_map s name = None" by (metis not_None_eq)
    moreover have "\<forall>i<q. strcmp (hn_name (entries s ! i)) name < 0"
      "\<forall>i<name_count s. q \<le> i \<longrightarrow> 0 < strcmp (hn_name (entries s ! i)) name"
      using 2 entries_nth [OF ok] by auto
    ultimately show ?thesis using 2(1,2) by blast
  qed
qed

lemma findname_ok:
  assumes ok: "names_ok s"
  shows "skynet_handle_findname name s = Inr (case name_map s name of None \<Rightarrow> 0 | Some h \<Rightarrow> h)"
  using search_entries [OF ok, of name]
proof (elim disjE exE conjE)
  fix i assume "i < name_count s" "search_name name (names s) 0 (int (name_count s) - 1) = Inr (Inl i)" "name_map s name = Some (hn_handle (names s ! i))"
  moreover have "name_count s \<le> length (names s)" using ok by (simp add: names_ok_def)
  ultimately show ?thesis by (simp add: skynet_handle_findname_def)
qed (simp add: skynet_handle_findname_def)

text \<open>Opening a gap for a new entry, by moving up or by copying to a new array.\<close>

lemma shift_up:
  assumes "p \<le> c" "c < length ns"
  shows "\<exists>ns'. for_res (\<lambda>i n. bind_res (aget n (i - 1)) (aset n i)) (rev [p + 1..<c + 1]) ns = Inr ns' \<and>
    length ns' = length ns \<and> (\<forall>i<length ns. ns' ! i = (if p < i \<and> i \<le> c then ns ! (i - 1) else ns ! i))"
  using assms
proof (induction c arbitrary: ns)
  case (Suc c)
  show ?case
  proof (cases "p = Suc c")
    case False
    define ns1 where "ns1 = ns[Suc c := ns ! c]"
    have "\<exists>ns'. for_res (\<lambda>i n. bind_res (aget n (i - 1)) (aset n i)) (rev [p + 1..<c + 1]) ns1 = Inr ns' \<and>
        length ns' = length ns1 \<and> (\<forall>i<length ns1. ns' ! i = (if p < i \<and> i \<le> c then ns1 ! (i - 1) else ns1 ! i))"
      using False Suc.prems by (intro Suc.IH) (auto simp: ns1_def)
    then obtain ns' where ns': "for_res (\<lambda>i n. bind_res (aget n (i - 1)) (aset n i)) (rev [p + 1..<c + 1]) ns1 = Inr ns'"
        "length ns' = length ns1" "\<forall>i<length ns1. ns' ! i = (if p < i \<and> i \<le> c then ns1 ! (i - 1) else ns1 ! i)" by blast
    have "rev [p + 1..<Suc c + 1] = Suc c # rev [p + 1..<c + 1]" using False Suc.prems by simp
    then have "for_res (\<lambda>i n. bind_res (aget n (i - 1)) (aset n i)) (rev [p + 1..<Suc c + 1]) ns = Inr ns'"
      using ns'(1) Suc.prems by (simp add: ns1_def)
    moreover have "\<forall>i<length ns. ns' ! i = (if p < i \<and> i \<le> Suc c then ns ! (i - 1) else ns ! i)"
      using ns'(3) False Suc.prems by (auto simp: ns1_def nth_list_update le_Suc_eq)
    ultimately show ?thesis using ns'(2) by (simp add: ns1_def)
  qed auto
qed auto

lemma copy_range:
  assumes "a \<le> b" "b \<le> length old" "b + d \<le> length ns"
  shows "\<exists>ns'. for_res (\<lambda>i n. bind_res (aget old i) (aset n (i + d))) [a..<b] ns = Inr ns' \<and>
    length ns' = length ns \<and> (\<forall>i<length ns. ns' ! i = (if a + d \<le> i \<and> i < b + d then old ! (i - d) else ns ! i))"
  using assms
  by (intro for_res_upt_invariant [where P = "\<lambda>j n. length n = length ns \<and>
      (\<forall>i<length ns. n ! i = (if a + d \<le> i \<and> i < j + d then old ! (i - d) else ns ! i))"])
    (auto simp: nth_list_update)

lemma filled_gap:
  assumes len: "c < length ns" "c \<le> length old" and p: "p \<le> c"
    and low: "\<forall>i<p. ns ! i = old ! i" and high: "\<forall>i<c. p \<le> i \<longrightarrow> ns ! Suc i = old ! i"
  shows "take (Suc c) (ns[p := x]) = take p (take c old) @ x # drop p (take c old)"
proof (rule nth_equalityI)
  show "length (take (Suc c) (ns[p := x])) = length (take p (take c old) @ x # drop p (take c old))" using assms by simp
next
  fix i assume "i < length (take (Suc c) (ns[p := x]))"
  then have i: "i \<le> c" by simp
  consider "i < p" | "i = p" | j where "i = Suc j" "p \<le> j" "j < c" using i by (cases i) force+
  then show "take (Suc c) (ns[p := x]) ! i = (take p (take c old) @ x # drop p (take c old)) ! i"
  proof cases
    case 3
    then have "(take p (take c old) @ x # drop p (take c old)) ! i = (x # drop p (take c old)) ! Suc (j - p)"
      using len p by (simp add: nth_append Suc_diff_le)
    then show ?thesis using 3 len p high by simp
  qed (use len p low in \<open>simp_all add: nth_append\<close>)
qed

lemma insert_before_ok:
  assumes ok: "names_ok s" and p: "p \<le> name_count s" and room: "name_count s < name_cap s \<or> name_cap s * 2 \<le> MAX_SLOT_SIZE"
  obtains ns cap where "insert_name_before name h p s = Inr (s\<lparr>names := ns, name_cap := cap, name_count := name_count s + 1\<rparr>)"
    "length ns = cap" "name_count s + 1 \<le> cap"
    "take (name_count s + 1) ns = take p (entries s) @ \<lparr>hn_name = name, hn_handle = h\<rparr> # drop p (entries s)"
proof -
  define c where "c = name_count s"
  define x where "x = \<lparr>hn_name = name, hn_handle = h\<rparr>"
  note o = ok [unfolded names_ok_def]
  have pc: "p \<le> c" using p by (simp add: c_def)
  show ?thesis
  proof (cases "name_cap s \<le> c")
    case False
    then have "c < length (names s)" using o by (simp add: c_def)
    from shift_up [OF pc this] obtain ns where ns: "for_res (\<lambda>i n. bind_res (aget n (i - 1)) (aset n i)) (rev [p + 1..<c + 1]) (names s) = Inr ns"
        "length ns = length (names s)" "\<forall>i<length (names s). ns ! i = (if p < i \<and> i \<le> c then names s ! (i - 1) else names s ! i)" by blast
    have "take (Suc c) (ns[p := x]) = take p (take c (names s)) @ x # drop p (take c (names s))"
      using ns False o pc by (intro filled_gap) (auto simp: c_def)
    moreover have "insert_name_before name h p s = Inr (s\<lparr>names := ns[p := x], name_cap := name_cap s, name_count := name_count s + 1\<rparr>)"
      using False ns(1,2) o pc by (simp add: insert_name_before_def c_def [symmetric] x_def)
    ultimately show ?thesis using that [of "name_cap s" "ns[p := x]"] False ns(2) o by (simp add: c_def x_def entries_def)
  next
    case True
    define cap where "cap = name_cap s * 2"
    have big: "c < cap" "\<not> MAX_SLOT_SIZE < cap" and cl: "c \<le> length (names s)" using True o room by (auto simp: cap_def c_def)
    obtain n1 where n1: "for_res (\<lambda>i n. bind_res (aget (names s) i) (aset n (i + 0))) [0..<p] (replicate cap no_name) = Inr n1"
        "length n1 = cap" "\<forall>i<cap. n1 ! i = (if i < p then names s ! i else no_name)"
      using copy_range [of 0 p "names s" 0 "replicate cap no_name"] pc cl big by auto
    obtain n2 where n2: "for_res (\<lambda>i n. bind_res (aget (names s) i) (aset n (i + 1))) [p..<c] n1 = Inr n2"
        "length n2 = cap" "\<forall>i<cap. n2 ! i = (if p + 1 \<le> i \<and> i < c + 1 then names s ! (i - 1) else n1 ! i)"
      using copy_range [of p c "names s" 1 n1] pc cl big n1(2) by auto
    have "take (Suc c) (n2[p := x]) = take p (take c (names s)) @ x # drop p (take c (names s))"
      using n1 n2 big pc cl by (intro filled_gap) auto
    moreover have "insert_name_before name h p s = Inr (s\<lparr>names := n2[p := x], name_cap := cap, name_count := name_count s + 1\<rparr>)"
      using True n1(1) n2(1,2) big pc by (simp add: insert_name_before_def c_def [symmetric] x_def cap_def [symmetric] Let_def)
    ultimately show ?thesis using that [of cap "n2[p := x]"] n2(2) big by (simp add: c_def x_def entries_def)
  qed
qed

lemma sorted_insert:
  assumes "sorted_wrt R xs" "p \<le> length xs" "\<forall>i<p. R (xs ! i) x" "\<forall>i<length xs. p \<le> i \<longrightarrow> R x (xs ! i)" "transp R"
  shows "sorted_wrt R (take p xs @ x # drop p xs)"
proof -
  have "sorted_wrt R (take p xs @ drop p xs)" using assms(1) by simp
  moreover have "R y x" if "y \<in> set (take p xs)" for y
    using that assms(2,3) by (auto simp: in_set_conv_nth)
  moreover have "R x y" if "y \<in> set (drop p xs)" for y
    using that assms(2,4) by (auto simp: in_set_conv_nth)
  ultimately show ?thesis unfolding sorted_wrt_append by auto
qed

lemma namehandle_ok:
  assumes ok: "names_ok s" and room: "name_count s < name_cap s \<or> name_cap s * 2 \<le> MAX_SLOT_SIZE"
  shows "(name_map s name \<noteq> None \<and> skynet_handle_namehandle h name s = Inr (None, s)) \<or>
    (name_map s name = None \<and> (\<exists>ns cap. skynet_handle_namehandle h name s =
        Inr (Some name, s\<lparr>names := ns, name_cap := cap, name_count := name_count s + 1\<rparr>) \<and>
      names_ok (s\<lparr>names := ns, name_cap := cap, name_count := name_count s + 1\<rparr>) \<and>
      name_map (s\<lparr>names := ns, name_cap := cap, name_count := name_count s + 1\<rparr>) = (name_map s)(name \<mapsto> h)))"
  using search_entries [OF ok, of name]
proof (elim disjE exE conjE)
  fix i assume "i < name_count s" "search_name name (names s) 0 (int (name_count s) - 1) = Inr (Inl i)" "name_map s name = Some (hn_handle (names s ! i))"
  then show ?thesis by (simp add: skynet_handle_namehandle_def)
next
  fix p assume none: "name_map s name = None" and p: "p \<le> name_count s" "search_name name (names s) 0 (int (name_count s) - 1) = Inr (Inr p)"
    "\<forall>i<p. strcmp (hn_name (entries s ! i)) name < 0" "\<forall>i<name_count s. p \<le> i \<longrightarrow> 0 < strcmp (hn_name (entries s ! i)) name"
  define x where "x = \<lparr>hn_name = name, hn_handle = h\<rparr>"
  obtain ns cap where ins: "insert_name_before name h p s = Inr (s\<lparr>names := ns, name_cap := cap, name_count := name_count s + 1\<rparr>)"
    "length ns = cap" "name_count s + 1 \<le> cap" "take (name_count s + 1) ns = take p (entries s) @ x # drop p (entries s)"
    unfolding x_def by (rule insert_before_ok [OF ok p(1) room])
  define t where "t = s\<lparr>names := ns, name_cap := cap, name_count := name_count s + 1\<rparr>"
  have et: "entries t = take p (entries s) @ x # drop p (entries s)" using ins(4) by (simp add: entries_def t_def)
  have "0 < strcmp b a \<Longrightarrow> strcmp a b < 0" for a b using strcmp_swap [of a b] by simp
  then have "sorted_wrt (\<lambda>m n. strcmp (hn_name m) (hn_name n) < 0) (entries t)" unfolding et
    using ok p by (intro sorted_insert)
      (auto simp: names_ok_def entries_def [symmetric] length_entries [OF ok] x_def transp_def intro: strcmp_trans)
  then have okt: "names_ok t" using ins(2,3) by (simp add: names_ok_def t_def entries_def)
  have "set (entries t) = insert x (set (entries s))"
    unfolding et by (metis append_take_drop_id insert_is_Un list.simps(15) set_append sup_left_commute)
  then have iff: "name_map t m = Some g \<longleftrightarrow> (m = name \<and> g = h) \<or> name_map s m = Some g" for m g
    unfolding name_map_iff [OF ok] name_map_iff [OF okt] by (auto simp: x_def)
  have "name_map t m = ((name_map s)(name \<mapsto> h)) m" for m
    using iff [of m] none by (cases "m = name") (auto, metis not_None_eq)
  then have "name_map t = (name_map s)(name \<mapsto> h)" by blast
  moreover have "skynet_handle_namehandle h name s = Inr (Some name, t)"
    using p(2) ins(1) by (simp add: skynet_handle_namehandle_def t_def)
  ultimately show ?thesis using none okt unfolding t_def by blast
qed

lemma drop_name_loop:
  assumes "n \<le> length ns"
  shows "\<exists>r. for_res (drop_name h) [0..<n] (0, ns) = Inr r \<and> length (snd r) = length ns \<and> fst r \<le> n \<and>
    take (fst r) (snd r) = filter (\<lambda>m. hn_handle m \<noteq> h) (take n ns)"
proof -
  define P where "P i r \<longleftrightarrow> length (snd r) = length ns \<and> fst r \<le> i \<and> take (fst r) (snd r) = filter (\<lambda>m. hn_handle m \<noteq> h) (take i ns) \<and>
      (\<forall>l<length ns. i \<le> l \<longrightarrow> snd r ! l = ns ! l)" for i :: nat and r :: "nat \<times> handle_name list"
  have step: "\<exists>r'. drop_name h i r = Inr r' \<and> P (Suc i) r'" if i: "i < n" and Pi: "P i r" for i r
  proof (cases r)
    case (Pair j a)
    have a: "length a = length ns" "j \<le> i" "take j a = filter (\<lambda>m. hn_handle m \<noteq> h) (take i ns)" "\<forall>l<length ns. i \<le> l \<longrightarrow> a ! l = ns ! l"
      using Pi by (auto simp: P_def Pair)
    have t: "take (Suc i) ns = take i ns @ [ns ! i]" using i assms by (simp add: take_Suc_conv_app_nth)
    have ai: "a ! i = ns ! i" "i < length a" "j < length a" using a i assms by auto
    show ?thesis
    proof (cases "hn_handle (ns ! i) = h")
      case True
      then show ?thesis using a ai t by (auto simp: drop_name_def P_def Pair)
    next
      case False
      have "take (Suc j) (a[j := ns ! i]) = take j a @ [ns ! i]" using ai by (simp add: take_Suc_conv_app_nth)
      moreover have "take (Suc j) a = take j a @ [a ! j]" using ai by (simp add: take_Suc_conv_app_nth)
      ultimately show ?thesis using False a ai t by (cases "i = j") (auto simp: drop_name_def P_def Pair nth_list_update)
    qed
  qed
  have "\<exists>r. for_res (drop_name h) [0..<n] (0, ns) = Inr r \<and> P n r"
    by (rule for_res_upt_invariant) (use step in \<open>auto simp: P_def\<close>)
  then show ?thesis by (auto simp: P_def)
qed

lemma drop_names_ok:
  assumes ok: "names_ok s"
  obtains ns c where "drop_names h s = Inr (s\<lparr>names := ns, name_count := c\<rparr>)" "names_ok (s\<lparr>names := ns, name_count := c\<rparr>)"
    "name_map (s\<lparr>names := ns, name_count := c\<rparr>) = (\<lambda>n. if name_map s n = Some h then None else name_map s n)"
proof -
  note o = ok [unfolded names_ok_def]
  have cl: "name_count s \<le> length (names s)" using o by simp
  obtain c ns where d: "for_res (drop_name h) [0..<name_count s] (0, names s) = Inr (c, ns)" "length ns = length (names s)"
      "c \<le> name_count s" "take c ns = filter (\<lambda>m. hn_handle m \<noteq> h) (take (name_count s) (names s))"
    using drop_name_loop [OF cl, of h] by auto
  define t where "t = s\<lparr>names := ns, name_count := c\<rparr>"
  have okt: "names_ok t" using o d(2-4) by (auto simp: names_ok_def t_def intro: sorted_wrt_filter)
  have "set (entries t) = {m \<in> set (entries s). hn_handle m \<noteq> h}" using d(4) by (simp add: entries_def t_def)
  then have iff: "name_map t n = Some g \<longleftrightarrow> name_map s n = Some g \<and> g \<noteq> h" for n g
    unfolding name_map_iff [OF ok] name_map_iff [OF okt] by auto
  have "name_map t n = (if name_map s n = Some h then None else name_map s n)" for n
    by (metis iff not_None_eq)
  then have "name_map t = (\<lambda>n. if name_map s n = Some h then None else name_map s n)" by blast
  moreover have "drop_names h s = Inr t" using d(1) by (simp add: drop_names_def t_def)
  ultimately show ?thesis using that okt unfolding t_def by blast
qed

lemma retire_ok:
  assumes ok: "handles_ok s" "names_ok s"
  obtains t where "skynet_handle_retire h s = Inr (services s h, t)" "handles_ok t" "names_ok t" "services t = (services s)(h := None)"
    "name_map t = (\<lambda>n. if services s h \<noteq> None \<and> name_map s n = Some h then None else name_map s n)"
    "ctx_handle t = ctx_handle s" "ctx_ref t = ctx_ref s" "handle_index t = handle_index s" "slot_size t = slot_size s"
    "slot t = (if services s h = None then slot s else (slot s)[slot_of (slot_size s) h := None])"
proof (cases "services s h")
  case None
  then have "skynet_handle_retire h s = Inr (services s h, s)"
    using slot_in_range [OF ok(1), of h] by (auto simp: skynet_handle_retire_def services_def Let_def split: option.splits if_splits)
  then show ?thesis by (rule that) (use ok None in auto)
next
  case (Some c)
  define u where "u = s\<lparr>slot := (slot s)[slot_of (slot_size s) h := None]\<rparr>"
  note u = clear_slot_ok [OF ok(1) Some, folded u_def]
  have un: "names_ok u" "name_map u = name_map s" using ok(2) by (simp_all add: u_def names_ok_def name_map_def entries_def)
  obtain ns c' where d: "drop_names h u = Inr (u\<lparr>names := ns, name_count := c'\<rparr>)" "names_ok (u\<lparr>names := ns, name_count := c'\<rparr>)"
    "name_map (u\<lparr>names := ns, name_count := c'\<rparr>) = (\<lambda>n. if name_map u n = Some h then None else name_map u n)"
    by (rule drop_names_ok [OF un(1)])
  define t where "t = u\<lparr>names := ns, name_count := c'\<rparr>"
  have "slot s ! slot_of (slot_size s) h = Some c" "ctx_handle s c = h" using Some by (auto simp: services_def split: option.splits if_splits)
  then have "skynet_handle_retire h s = Inr (services s h, t)"
    using slot_in_range [OF ok(1), of h] d(1) Some by (simp add: skynet_handle_retire_def Let_def u_def t_def)
  moreover have "handles_ok t" "services t = (services s)(h := None)"
    using u handles_ok_cong [of t u] services_cong [of t u] by (simp_all add: t_def)
  ultimately show ?thesis using d(2,3) Some un(2) by (intro that [of t]) (auto simp: t_def u_def)
qed

section \<open>The contract of the registry\<close>

datatype ('h, 'c) registry_op = Register 'c | Retire 'h | Grab 'h

text \<open>A sequence of operations; what they return is dropped.\<close>

fun run_registry ::
  "('c \<Rightarrow> 's \<Rightarrow> ('h \<times> 's) cres) \<Rightarrow> ('h \<Rightarrow> 's \<Rightarrow> ('c option \<times> 's) cres) \<Rightarrow> ('h \<Rightarrow> 's \<Rightarrow> ('c option \<times> 's) cres) \<Rightarrow>
   ('h, 'c) registry_op list \<Rightarrow> 's \<Rightarrow> 's cres" where
  "run_registry reg ret grab [] s = Inr s"
| "run_registry reg ret grab (Register c # ops) s = bind_res (reg c s) (\<lambda>(_, s). run_registry reg ret grab ops s)"
| "run_registry reg ret grab (Retire h # ops) s = bind_res (ret h s) (\<lambda>(_, s). run_registry reg ret grab ops s)"
| "run_registry reg ret grab (Grab h # ops) s = bind_res (grab h s) (\<lambda>(_, s). run_registry reg ret grab ops s)"

text \<open>The contexts that are registered are not registered yet, and there is room for their handles.\<close>

fun legal_registry ::
  "('c \<Rightarrow> 's \<Rightarrow> bool) \<Rightarrow> ('c \<Rightarrow> 's \<Rightarrow> ('h \<times> 's) cres) \<Rightarrow> ('h \<Rightarrow> 's \<Rightarrow> ('c option \<times> 's) cres) \<Rightarrow> ('h \<Rightarrow> 's \<Rightarrow> ('c option \<times> 's) cres) \<Rightarrow>
   ('h, 'c) registry_op list \<Rightarrow> 's \<Rightarrow> bool" where
  "legal_registry fresh reg ret grab [] s \<longleftrightarrow> True"
| "legal_registry fresh reg ret grab (Register c # ops) s \<longleftrightarrow>
     fresh c s \<and> (case reg c s of Inl _ \<Rightarrow> True | Inr (_, s) \<Rightarrow> legal_registry fresh reg ret grab ops s)"
| "legal_registry fresh reg ret grab (Retire h # ops) s \<longleftrightarrow>
     (case ret h s of Inl _ \<Rightarrow> True | Inr (_, s) \<Rightarrow> legal_registry fresh reg ret grab ops s)"
| "legal_registry fresh reg ret grab (Grab h # ops) s \<longleftrightarrow>
     (case grab h s of Inl _ \<Rightarrow> True | Inr (_, s) \<Rightarrow> legal_registry fresh reg ret grab ops s)"

locale service_registry =
  fixes ok :: "'s \<Rightarrow> bool" and table :: "'s \<Rightarrow> 'h \<Rightarrow> 'c option" and fresh :: "'c \<Rightarrow> 's \<Rightarrow> bool"
    and reg :: "'c \<Rightarrow> 's \<Rightarrow> ('h \<times> 's) cres"
    and ret :: "'h \<Rightarrow> 's \<Rightarrow> ('c option \<times> 's) cres"
    and grab :: "'h \<Rightarrow> 's \<Rightarrow> ('c option \<times> 's) cres"
  assumes register_law: "ok s \<Longrightarrow> fresh c s \<Longrightarrow>
      \<exists>h s'. reg c s = Inr (h, s') \<and> ok s' \<and> table s h = None \<and> table s' = (table s)(h \<mapsto> c)"
    and retire_law: "ok s \<Longrightarrow> \<exists>s'. ret h s = Inr (table s h, s') \<and> ok s' \<and> table s' = (table s)(h := None)"
    and grab_law: "ok s \<Longrightarrow> \<exists>s'. grab h s = Inr (table s h, s') \<and> ok s' \<and> table s' = table s"
begin

text \<open>Legal operations succeed, and a service keeps its handle until that handle is retired.\<close>

lemma run_keeps:
  assumes "ok s" and "legal_registry fresh reg ret grab ops s"
  shows "\<exists>s'. run_registry reg ret grab ops s = Inr s' \<and> ok s' \<and>
    (\<forall>h c. table s h = Some c \<longrightarrow> Retire h \<notin> set ops \<longrightarrow> table s' h = Some c)"
  using assms
proof (induction ops arbitrary: s)
  case (Cons x ops)
  show ?case
  proof (cases x)
    case (Register c)
    obtain h s1 where s1: "reg c s = Inr (h, s1)" "ok s1" "table s h = None" "table s1 = (table s)(h \<mapsto> c)"
      using register_law Cons.prems Register by fastforce
    then obtain s' where "run_registry reg ret grab ops s1 = Inr s'" "ok s'"
        "\<forall>h c. table s1 h = Some c \<longrightarrow> Retire h \<notin> set ops \<longrightarrow> table s' h = Some c"
      using Cons.IH [of s1] Cons.prems Register by auto
    moreover have "table s1 g = Some d" if "table s g = Some d" for g d using s1(3,4) that by auto
    ultimately show ?thesis using s1 Register by auto
  next
    case (Retire g)
    obtain s1 where s1: "ret g s = Inr (table s g, s1)" "ok s1" "table s1 = (table s)(g := None)"
      using retire_law Cons.prems by blast
    then obtain s' where "run_registry reg ret grab ops s1 = Inr s'" "ok s'"
        "\<forall>h c. table s1 h = Some c \<longrightarrow> Retire h \<notin> set ops \<longrightarrow> table s' h = Some c"
      using Cons.IH [of s1] Cons.prems Retire by auto
    then show ?thesis using s1 Retire by auto
  next
    case (Grab g)
    obtain s1 where s1: "grab g s = Inr (table s g, s1)" "ok s1" "table s1 = table s" using grab_law Cons.prems by blast
    then obtain s' where "run_registry reg ret grab ops s1 = Inr s'" "ok s'"
        "\<forall>h c. table s1 h = Some c \<longrightarrow> Retire h \<notin> set ops \<longrightarrow> table s' h = Some c"
      using Cons.IH [of s1] Cons.prems Grab by auto
    then show ?thesis using s1 Grab by auto
  qed
qed simp

text \<open>A handle that is retired designates nothing afterwards.\<close>

lemma retired_gone: "ok s \<Longrightarrow> ret h s = Inr (r, s') \<Longrightarrow> \<exists>s''. grab h s' = Inr (None, s'')"
  using retire_law [of s h] grab_law [of s' h] by fastforce

end

definition registry_ok :: "registry \<Rightarrow> bool" where
  "registry_ok s \<longleftrightarrow> handles_ok s \<and> names_ok s"

definition registry_fresh :: "ctx \<Rightarrow> registry \<Rightarrow> bool" where
  "registry_fresh c s \<longleftrightarrow> Some c \<notin> set (slot s) \<and> uint (handle_index s) + 2 * int (slot_size s) \<le> 2 ^ 24"

lemma context_register_ok:
  assumes ok: "registry_ok s" and fresh: "registry_fresh c s"
  obtains h t where "context_register (Suc (Suc f)) c s = Inr (h, t)" "registry_ok t" "services s h = None"
    "services t = (services s)(h \<mapsto> c)" "name_map t = name_map s" "ctx_handle t = (ctx_handle s)(c := h)" "ctx_ref t = ctx_ref s"
    "unat (handle_index s) \<le> unat h mod 2 ^ 24" "unat h mod 2 ^ 24 < unat (handle_index t)"
    "set (slot t) \<subseteq> insert None (insert (Some c) (set (slot s)))"
proof -
  define u where "u = set_handle c 0 s"
  have "int (unat (handle_index s) + 2 * slot_size s) \<le> int (2 ^ 24)" using fresh by (simp add: registry_fresh_def)
  then have okS: "handles_ok s" "names_ok s" and new: "Some c \<notin> set (slot s)" "unat (handle_index s) + 2 * slot_size s \<le> 2 ^ 24"
    using ok fresh unfolding of_nat_le_iff by (simp_all add: registry_ok_def registry_fresh_def)
  have u: "handles_ok u" "services u = services s" unfolding u_def using set_handle_ok okS(1) new(1) by blast+
  have un: "Some c \<notin> set (slot u)" "unat (handle_index u) + 2 * slot_size u \<le> 2 ^ 24" using new by (simp_all add: u_def set_handle_def)
  obtain h t where r: "skynet_handle_register (Suc (Suc f)) c u = Inr (h OR harbor u, t)" "handles_ok (set_handle c (h OR harbor u) t)"
      "services u (h OR harbor u) = None" "services (set_handle c (h OR harbor u) t) = (services u)(h OR harbor u \<mapsto> c)"
      "unat (handle_index u) \<le> unat h" "unat h < 2 ^ 24" "handle_index t = h + 1"
      "t = u\<lparr>slot := slot t, slot_size := slot_size t, handle_index := h + 1\<rparr>"
      "set (slot t) \<subseteq> insert None (insert (Some c) (set (slot u)))"
    by (rule register_ok [OF u(1) un])
  define g where "g = h OR harbor u"
  have hb: "unat (harbor u) mod 2 ^ 24 = 0" using u(1) by (simp add: handles_ok_def)
  have gh: "unat g mod 2 ^ 24 = unat h" unfolding g_def using or_harbor [OF hb, of 24 h] r(6) by simp
  have t: "names t = names s" "name_count t = name_count s" "name_cap t = name_cap s" "ctx_ref t = ctx_ref s"
    using arg_cong [OF r(8), of names] arg_cong [OF r(8), of name_count] arg_cong [OF r(8), of name_cap] arg_cong [OF r(8), of ctx_ref]
    by (simp_all add: u_def set_handle_def)
  have hs: "ctx_handle t = (ctx_handle s)(c := 0)" using arg_cong [OF r(8), of ctx_handle] by (simp add: u_def set_handle_def)
  have h1: "unat (h + 1) = unat h + 1" using r(6) by (subst unat_add_lem [THEN iffD1]) simp_all
  show ?thesis
  proof (rule that [of g "set_handle c g t"])
    show "context_register (Suc (Suc f)) c s = Inr (g, set_handle c g t)"
      using r(1) by (simp add: context_register_def u_def [symmetric] g_def del: skynet_handle_register.simps)
    show "registry_ok (set_handle c g t)"
      using r(2) okS(2) t by (simp add: registry_ok_def g_def names_ok_def set_handle_def)
    show "name_map (set_handle c g t) = name_map s" using t by (simp add: name_map_def entries_def set_handle_def)
    show "unat g mod 2 ^ 24 < unat (handle_index (set_handle c g t))" using gh h1 r(7) by (simp add: set_handle_def)
    show "services s g = None" "services (set_handle c g t) = (services s)(g \<mapsto> c)"
      using r(3,4) unfolding g_def [symmetric] u(2) by simp_all
  qed (use r(5,9) t hs gh in \<open>simp_all add: u_def set_handle_def\<close>)
qed

interpretation handles: service_registry registry_ok services registry_fresh "context_register 2" skynet_handle_retire skynet_handle_grab
proof unfold_locales
  fix s c assume "registry_ok s" "registry_fresh c s"
  then show "\<exists>h s'. context_register 2 c s = Inr (h, s') \<and> registry_ok s' \<and> services s h = None \<and> services s' = (services s)(h \<mapsto> c)"
    unfolding numeral_2_eq_2 by (rule context_register_ok [of s c 0]) blast
next
  fix s h assume "registry_ok s"
  then have ok: "handles_ok s" "names_ok s" by (simp_all add: registry_ok_def)
  show "\<exists>s'. skynet_handle_retire h s = Inr (services s h, s') \<and> registry_ok s' \<and> services s' = (services s)(h := None)"
    unfolding registry_ok_def by (rule retire_ok [OF ok, of h]) blast
next
  fix s h assume ok: "registry_ok s"
  define t where "t = (case services s h of None \<Rightarrow> s | Some c \<Rightarrow> s\<lparr>ctx_ref := (ctx_ref s)(c := ctx_ref s c + 1)\<rparr>)"
  have "slot t = slot s" "slot_size t = slot_size s" "ctx_handle t = ctx_handle s" "harbor t = harbor s" "handle_index t = handle_index s"
    and "names_ok t = names_ok s" by (simp_all add: t_def names_ok_def split: option.split)
  then have "registry_ok t" "services t = services s" using ok services_cong [of t s] handles_ok_cong [of t s] by (simp_all add: registry_ok_def)
  moreover have "skynet_handle_grab h s = Inr (services s h, t)" using ok grab_ok [of s h] by (simp add: registry_ok_def t_def)
  ultimately show "\<exists>s'. skynet_handle_grab h s = Inr (services s h, s') \<and> registry_ok s' \<and> services s' = services s" by blast
qed

lemma registry_init_ok: "registry_ok (skynet_handle_init hb handles refs)"
proof -
  have "take_bit 24 (push_bit 24 (word_of_int hb AND 0xff) :: u32) = 0" by (simp add: take_bit_push_bit)
  then have "unat (take_bit 24 (push_bit 24 (word_of_int hb AND 0xff) :: u32)) = 0" by simp
  then have "unat (push_bit 24 (word_of_int hb AND 0xff) :: u32) mod 2 ^ 24 = 0"
    unfolding unsigned_take_bit_eq by (simp only: take_bit_eq_mod)
  then show ?thesis
    by (auto simp: registry_ok_def handles_ok_def names_ok_def skynet_handle_init_def DEFAULT_SLOT_SIZE_def HANDLE_REMOTE_SHIFT_def
        intro: exI [of _ 2])
qed

text \<open>One pass of \<open>skynet_handle_retireall\<close> clears the slots it has gone over.\<close>

lemma retire_slot_ok:
  assumes ok: "registry_ok (snd r)" and i: "i < slot_size (snd r)" and low: "\<forall>j<i. slot (snd r) ! j = None"
  shows "\<exists>r'. retire_slot i r = Inr r' \<and> registry_ok (snd r') \<and> slot_size (snd r') = slot_size (snd r) \<and>
    (\<forall>j<Suc i. slot (snd r') ! j = None) \<and> (slot (snd r) ! i = None \<longrightarrow> r' = r)"
proof (cases r)
  case (Pair out s)
  have o: "handles_ok s" "names_ok s" and len: "i < length (slot s)" using ok i by (auto simp: registry_ok_def Pair handles_ok_def)
  show ?thesis
  proof (cases "slot s ! i")
    case None
    then show ?thesis using len low ok by (auto simp: Pair retire_slot_def less_Suc_eq)
  next
    case (Some c)
    define h where "h = ctx_handle s c"
    have h: "h \<noteq> 0" "slot_of (slot_size s) h = i" using o(1) Some i by (auto simp: handles_ok_def h_def Pair)
    have sv: "services s h = Some c" using Some h by (simp add: services_def h_def)
    obtain t where t: "skynet_handle_retire h s = Inr (services s h, t)" "handles_ok t" "names_ok t" "slot_size t = slot_size s"
        "slot t = (if services s h = None then slot s else (slot s)[slot_of (slot_size s) h := None])"
      by (rule retire_ok [OF o, of h])
    then have "slot t = (slot s)[i := None]" using sv h by simp
    then have "\<forall>j<Suc i. slot t ! j = None" using low len by (auto simp: Pair nth_list_update less_Suc_eq)
    moreover have "retire_slot i r = Inr (out @ [c], t)"
      using Some len h(1) t(1) sv by (simp add: retire_slot_def Pair h_def [symmetric] Let_def)
    ultimately show ?thesis using t Some by (auto simp: registry_ok_def Pair)
  qed
qed

lemma retire_pass:
  assumes ok: "registry_ok s"
  obtains out t where "for_res retire_slot [0..<slot_size s] ([], s) = Inr (out, t)" "registry_ok t" "slot_size t = slot_size s"
    "\<forall>j < slot_size s. slot t ! j = None" "(\<forall>j < slot_size s. slot s ! j = None) \<longrightarrow> (out, t) = ([], s)"
proof -
  define P where "P i r \<longleftrightarrow> registry_ok (snd r) \<and> slot_size (snd r) = slot_size s \<and> (\<forall>j<i. slot (snd r) ! j = None) \<and>
      ((\<forall>j < slot_size s. slot s ! j = None) \<longrightarrow> r = ([], s))" for i :: nat and r :: "ctx list \<times> registry"
  have "\<exists>r. for_res retire_slot [0..<slot_size s] ([], s) = Inr r \<and> P (slot_size s) r"
  proof (rule for_res_upt_invariant)
    show "P 0 ([], s)" using ok by (simp add: P_def)
  next
    fix i r assume i: "i < slot_size s" and P: "P i r"
    then obtain r' where "retire_slot i r = Inr r'" "registry_ok (snd r')" "slot_size (snd r') = slot_size (snd r)"
        "\<forall>j<Suc i. slot (snd r') ! j = None" "slot (snd r) ! i = None \<longrightarrow> r' = r"
      using retire_slot_ok [of r i] unfolding P_def by auto
    then show "\<exists>r'. retire_slot i r = Inr r' \<and> P (Suc i) r'" using P i unfolding P_def by auto
  qed simp
  then obtain r where r: "for_res retire_slot [0..<slot_size s] ([], s) = Inr r" "P (slot_size s) r" by blast
  show ?thesis by (rule that [of "fst r" "snd r"]) (use r in \<open>auto simp: P_def\<close>)
qed

lemma services_empty: "handles_ok s \<Longrightarrow> \<forall>j < slot_size s. slot s ! j = None \<Longrightarrow> services s h = None"
  using slot_in_range [of s h] by (simp add: services_def handles_ok_def)

lemma retireall_ok:
  assumes ok: "registry_ok s"
  obtains out t where "skynet_handle_retireall (Suc (Suc f)) s = Inr (out, t)" "registry_ok t" "services t = Map.empty"
proof -
  obtain out t where p: "for_res retire_slot [0..<slot_size s] ([], s) = Inr (out, t)" "registry_ok t" "slot_size t = slot_size s"
      "\<forall>j < slot_size s. slot t ! j = None" by (rule retire_pass [OF ok])
  obtain out' t' where q: "for_res retire_slot [0..<slot_size t] ([], t) = Inr (out', t')"
      "(\<forall>j < slot_size t. slot t ! j = None) \<longrightarrow> (out', t') = ([], t)" by (rule retire_pass [OF p(2)])
  have q': "for_res retire_slot [0..<slot_size t] ([], t) = Inr ([], t)" using q p(3,4) by simp
  have "skynet_handle_retireall (Suc (Suc f)) s = Inr (out, t)" using p(1) q' by (cases "out = []") simp_all
  moreover have "services t = Map.empty" using services_empty [of t] p(2-4) by (auto simp: registry_ok_def)
  ultimately show ?thesis using that p(2) by blast
qed

section \<open>Properties\<close>

text \<open>
  A new service gets a handle that nobody has, from that handle on the table leads to it, and no
  other service, handle or name is touched, whether or not the table has to be doubled: registering
  does not fail while the counter of handles is at least two table sizes away from its end.
\<close>

theorem register_new_service:
  assumes "registry_ok s" and "registry_fresh c s"
  shows "\<exists>h t. context_register 2 c s = Inr (h, t) \<and> registry_ok t \<and> h \<noteq> 0 \<and> services s h = None \<and>
    services t = (services s)(h \<mapsto> c) \<and> name_map t = name_map s \<and> ctx_handle t c = h \<and>
    unat (handle_index s) \<le> unat h mod 2 ^ 24 \<and> unat h mod 2 ^ 24 < unat (handle_index t)"
proof -
  have pos: "0 < unat (handle_index s)" using assms(1) by (simp add: registry_ok_def handles_ok_def)
  obtain h t where "context_register 2 c s = Inr (h, t)" "registry_ok t" "services s h = None"
    "services t = (services s)(h \<mapsto> c)" "name_map t = name_map s" "ctx_handle t = (ctx_handle s)(c := h)"
    "unat (handle_index s) \<le> unat h mod 2 ^ 24" "unat h mod 2 ^ 24 < unat (handle_index t)"
    by (rule context_register_ok [OF assms, of 0, folded numeral_2_eq_2]) (rule that)
  moreover have "h \<noteq> 0" using calculation(7) pos by auto
  moreover have "ctx_handle t c = h" using calculation(6) by simp
  ultimately show ?thesis by blast
qed

definition registry_example :: registry where
  "registry_example = skynet_handle_init 1 (\<lambda>_. 0) (\<lambda>_. 1)"

theorem register_new_service_witness:
  "\<exists>h t. context_register 2 7 registry_example = Inr (h, t) \<and> registry_ok t \<and> h \<noteq> 0 \<and> services registry_example h = None \<and>
    services t = (services registry_example)(h \<mapsto> 7) \<and> name_map t = name_map registry_example \<and> ctx_handle t 7 = h \<and>
    unat (handle_index registry_example) \<le> unat h mod 2 ^ 24 \<and> unat h mod 2 ^ 24 < unat (handle_index t)"
  by (rule register_new_service)
    (simp_all add: registry_example_def registry_init_ok registry_fresh_def, simp add: skynet_handle_init_def DEFAULT_SLOT_SIZE_def)


definition registry_script :: "(u32, ctx) registry_op list" where
  "registry_script = [Register 11, Register 12, Register 13, Register 14, Register 15, Grab 0x01000002, Retire 0x01000003, Register 16]"


lemma registry_names_parts:
  assumes ok: "registry_ok s" and room: "name_count s < name_cap s \<or> name_cap s * 2 \<le> MAX_SLOT_SIZE"
  shows "skynet_handle_findname name s = Inr (case name_map s name of None \<Rightarrow> 0 | Some h \<Rightarrow> h)"
    and "\<exists>t. skynet_handle_namehandle h name s = Inr (if name_map s name = None then Some name else None, t) \<and> registry_ok t \<and>
      services t = services s \<and> name_map t = (if name_map s name = None then (name_map s)(name \<mapsto> h) else name_map s)"
    and "\<exists>t. skynet_handle_retire h s = Inr (services s h, t) \<and> registry_ok t \<and> services t = (services s)(h := None) \<and>
      name_map t = (\<lambda>n. if services s h \<noteq> None \<and> name_map s n = Some h then None else name_map s n)"
proof -
  have o: "handles_ok s" "names_ok s" using ok by (simp_all add: registry_ok_def)
  show "skynet_handle_findname name s = Inr (case name_map s name of None \<Rightarrow> 0 | Some h \<Rightarrow> h)" by (rule findname_ok [OF o(2)])
  show "\<exists>t. skynet_handle_retire h s = Inr (services s h, t) \<and> registry_ok t \<and> services t = (services s)(h := None) \<and>
      name_map t = (\<lambda>n. if services s h \<noteq> None \<and> name_map s n = Some h then None else name_map s n)"
    unfolding registry_ok_def by (rule retire_ok [OF o, of h]) blast
  from namehandle_ok [OF o(2) room, of name h]
  show "\<exists>t. skynet_handle_namehandle h name s = Inr (if name_map s name = None then Some name else None, t) \<and> registry_ok t \<and>
      services t = services s \<and> name_map t = (if name_map s name = None then (name_map s)(name \<mapsto> h) else name_map s)"
  proof (elim disjE exE conjE)
    assume "name_map s name \<noteq> None" "skynet_handle_namehandle h name s = Inr (None, s)"
    then show ?thesis using ok by auto
  next
    fix ns cap
    let ?t = "s\<lparr>names := ns, name_cap := cap, name_count := name_count s + 1\<rparr>"
    assume "name_map s name = None" "skynet_handle_namehandle h name s = Inr (Some name, ?t)" "names_ok ?t" "name_map ?t = (name_map s)(name \<mapsto> h)"
    moreover have "handles_ok ?t" "services ?t = services s" using o(1) handles_ok_cong [of ?t s] services_cong [of ?t s] by simp_all
    ultimately show ?thesis by (intro exI [of _ ?t]) (simp add: registry_ok_def)
  qed
qed

text \<open>
  C16. The names are a map from strings to handles, kept in a sorted array: a lookup returns the handle of
  the name or 0, a new name is added unless it is taken, and retiring a service removes its names.
\<close>

theorem registry_names:
  assumes "registry_ok s" and "name_count s < name_cap s \<or> name_cap s * 2 \<le> MAX_SLOT_SIZE"
  shows "skynet_handle_findname name s = Inr (case name_map s name of None \<Rightarrow> 0 | Some h \<Rightarrow> h) \<and>
    (\<exists>t. skynet_handle_namehandle h name s = Inr (if name_map s name = None then Some name else None, t) \<and> registry_ok t \<and>
      services t = services s \<and> name_map t = (if name_map s name = None then (name_map s)(name \<mapsto> h) else name_map s)) \<and>
    (\<exists>t. skynet_handle_retire h s = Inr (services s h, t) \<and> registry_ok t \<and> services t = (services s)(h := None) \<and>
      name_map t = (\<lambda>n. if services s h \<noteq> None \<and> name_map s n = Some h then None else name_map s n))"
  using registry_names_parts [OF assms] by blast

theorem registry_names_witness:
  "skynet_handle_findname ''db'' registry_example = Inr (case name_map registry_example ''db'' of None \<Rightarrow> 0 | Some h \<Rightarrow> h) \<and>
   (\<exists>t. skynet_handle_namehandle 3 ''db'' registry_example =
      Inr (if name_map registry_example ''db'' = None then Some ''db'' else None, t) \<and> registry_ok t \<and>
      services t = services registry_example \<and>
      name_map t = (if name_map registry_example ''db'' = None then (name_map registry_example)(''db'' \<mapsto> 3) else name_map registry_example))"
proof -
  have ok: "registry_ok registry_example" by (simp add: registry_example_def registry_init_ok)
  have room: "name_count registry_example < name_cap registry_example \<or> name_cap registry_example * 2 \<le> MAX_SLOT_SIZE"
    by (simp add: registry_example_def skynet_handle_init_def)
  show ?thesis using registry_names [OF ok room] by blast
qed

text \<open>
  Retiring all services ends after at most two passes over the table and leaves no service in it.
\<close>

theorem retireall_empties:
  assumes "registry_ok s"
  shows "\<exists>out t. skynet_handle_retireall 2 s = Inr (out, t) \<and> registry_ok t \<and> services t = Map.empty"
  unfolding numeral_2_eq_2 by (rule retireall_ok [OF assms, of 0]) blast

theorem retireall_empties_witness:
  "\<exists>out t. skynet_handle_retireall 2 registry_example = Inr (out, t) \<and> registry_ok t \<and> services t = Map.empty"
  by (rule retireall_empties) (simp add: registry_example_def registry_init_ok)


text \<open>
  When the counter reaches the end of its range the handles that are tried skip 0, so a table whose only
  free slot is slot 0 is taken for full, and doubling it reads the handle of a context that is not
  there.
\<close>

theorem register_wrap_crash:
  "\<exists>s. registry_ok s \<and> Some 9 \<notin> set (slot s) \<and> slot s ! 0 = None \<and> skynet_handle_register 2 9 s = Inl NullDeref"
proof -
  define s where "s = registry_example\<lparr>handle_index := 0xffffff, slot := [None, Some 1, Some 2, Some 3],
    ctx_handle := (\<lambda>_. 0)(1 := 0x01000001, 2 := 0x01000002, 3 := 0x01000003)\<rparr>"
  have sl: "slot_of 4 0x01000001 = 1" "slot_of 4 0x01000002 = 2" "slot_of 4 0x01000003 = 3" by code_simp+
  have sz: "slot_size s = 4" "slot s = [None, Some 1, Some 2, Some 3]" "ctx_handle s 1 = 0x01000001" "ctx_handle s 2 = 0x01000002"
    "ctx_handle s 3 = 0x01000003" "handle_index s = 0xffffff" "harbor s = 0x01000000"
    by (simp_all add: s_def registry_example_def skynet_handle_init_def DEFAULT_SLOT_SIZE_def HANDLE_REMOTE_SHIFT_def)
  have "slot_of 4 (ctx_handle s c) = i \<and> ctx_handle s c \<noteq> 0" if "i < 4" "slot s ! i = Some c" for i c
  proof -
    have "i = 0 \<or> i = 1 \<or> i = 2 \<or> i = 3" using that(1) by linarith
    then show ?thesis using that(2) sl sz(3) by (elim disjE) (auto simp: sz)
  qed
  moreover have "\<exists>k. (4::nat) = 2 ^ k \<and> k \<le> 24" by (rule exI [of _ 2]) simp
  ultimately have "handles_ok s" unfolding handles_ok_def sz(1) by (simp add: sz(2,6,7))
  moreover have "names_ok s" using registry_init_ok [of 1 "\<lambda>_. 0" "\<lambda>_. 1"] by (simp add: s_def registry_example_def registry_ok_def names_ok_def)
  moreover have "case skynet_handle_register 2 9 s of Inl e \<Rightarrow> e = NullDeref | Inr _ \<Rightarrow> False" unfolding s_def by code_simp
  then have "skynet_handle_register 2 9 s = Inl NullDeref" by (simp split: sum.splits)
  ultimately show ?thesis by (intro exI [of _ s]) (simp add: registry_ok_def s_def)
qed

end
