(* ===== verification/Skynet_Server.thy ===== *)
theory Skynet_Server
  imports Skynet_Mq Skynet_Handle
begin

text \<open>
  The service contexts of the server engine (\<open>skynet_server.c\<close>), with the reference that other nodes of the
  cluster are reached through (\<open>skynet_harbor.c\<close>), the log (\<open>skynet_error.c\<close>) and the watch on the workers
  (\<open>skynet_monitor.c\<close>). The state joins the registry of handles, the message queues and the contexts. What a
  service does when it is started, gets a message or ends is code of the service: it is an argument, and
  what other threads do in the meantime is part of it. Payloads of messages stand for their contents, so
  that copying leaves them as they are; freeing them, the log files of services and the profile
  of the processor time are left out.
\<close>

section \<open>The model\<close>

definition PTYPE_TEXT :: nat where "PTYPE_TEXT = 0"
definition PTYPE_CLIENT :: nat where "PTYPE_CLIENT = 3"
definition PTYPE_SYSTEM :: nat where "PTYPE_SYSTEM = 4"
definition PTYPE_HARBOR :: nat where "PTYPE_HARBOR = 5"
definition PTYPE_ERROR :: nat where "PTYPE_ERROR = 7"
definition PTYPE_TAG_DONTCOPY :: nat where "PTYPE_TAG_DONTCOPY = 0x10000"
definition PTYPE_TAG_ALLOCSESSION :: nat where "PTYPE_TAG_ALLOCSESSION = 0x20000"

text \<open>The fields \<open>handle\<close> and \<open>ref\<close> of a context are in the registry.\<close>

record skynet_context =
  ctx_queue :: qaddr
  ctx_cb :: bool
  session_id :: u32
  message_count :: u32
  ctx_init :: bool
  ctx_endless :: bool

record remote_message =
  rm_handle :: u32
  rm_name :: string
  rm_message :: "nat option"
  rm_sz :: nat
  rm_type :: nat

record node =
  reg :: registry
  mqs :: mq_state
  ctxs :: "ctx \<Rightarrow> skynet_context option"
  next_ctx :: ctx
  total :: int
  monitor_exit :: u32
  HARBOR :: u32
  REMOTE :: "ctx option"
  rmsgs :: "remote_message list"
  logger :: u32

record skynet_monitor =
  version :: u32
  check_version :: u32
  mon_source :: u32
  mon_destination :: u32

text \<open>The code of the services: whether a module can be loaded and makes an instance, and what it does.\<close>

record service_code =
  module_query :: "string \<Rightarrow> bool"
  instance_create :: "string \<Rightarrow> bool"
  instance_init :: "string \<Rightarrow> string option \<Rightarrow> ctx \<Rightarrow> node \<Rightarrow> (bool \<times> node) cres"
  instance_release :: "ctx \<Rightarrow> node \<Rightarrow> (unit \<times> node) cres"
  instance_cb :: "ctx \<Rightarrow> skynet_message \<Rightarrow> node \<Rightarrow> (bool \<times> node) cres"

definition ctx_at :: "ctx \<Rightarrow> node \<Rightarrow> skynet_context cres" where
  "ctx_at c s = (case ctxs s c of None \<Rightarrow> Inl Dangling | Some x \<Rightarrow> Inr x)"

definition ctx_put :: "ctx \<Rightarrow> skynet_context \<Rightarrow> node \<Rightarrow> node" where
  "ctx_put c x s = s\<lparr>ctxs := (ctxs s)(c \<mapsto> x)\<rparr>"

definition on_mqs :: "(mq_state \<Rightarrow> mq_state cres) \<Rightarrow> node \<Rightarrow> node cres" where
  "on_mqs f s = bind_res (f (mqs s)) (\<lambda>m. Inr (s\<lparr>mqs := m\<rparr>))"

definition from_mqs :: "(mq_state \<Rightarrow> ('a \<times> mq_state) cres) \<Rightarrow> node \<Rightarrow> ('a \<times> node) cres" where
  "from_mqs f s = bind_res (f (mqs s)) (\<lambda>(r, m). Inr (r, s\<lparr>mqs := m\<rparr>))"

definition set_ref :: "ctx \<Rightarrow> int \<Rightarrow> node \<Rightarrow> node" where
  "set_ref c n s = s\<lparr>reg := (reg s)\<lparr>ctx_ref := (ctx_ref (reg s))(c := n)\<rparr>\<rparr>"

subsection \<open>References\<close>

definition skynet_context_grab :: "ctx \<Rightarrow> node \<Rightarrow> node cres" where
  "skynet_context_grab c s = bind_res (ctx_at c s) (\<lambda>_. Inr (set_ref c (ctx_ref (reg s) c + 1) s))"

definition skynet_context_reserve :: "ctx \<Rightarrow> node \<Rightarrow> node cres" where
  "skynet_context_reserve c s = bind_res (skynet_context_grab c s) (\<lambda>s. Inr (s\<lparr>total := total s - 1\<rparr>))"

definition delete_context :: "service_code \<Rightarrow> ctx \<Rightarrow> node \<Rightarrow> node cres" where
  "delete_context E c s =
     bind_res (ctx_at c s) (\<lambda>_.
     bind_res (instance_release E c s) (\<lambda>(_, s).
     bind_res (ctx_at c s) (\<lambda>x.
     bind_res (on_mqs (skynet_mq_mark_release (ctx_queue x)) s) (\<lambda>s.
       Inr (s\<lparr>ctxs := (ctxs s)(c := None), total := total s - 1\<rparr>)))))"

definition skynet_context_release :: "service_code \<Rightarrow> ctx \<Rightarrow> node \<Rightarrow> (ctx option \<times> node) cres" where
  "skynet_context_release E c s =
     bind_res (ctx_at c s) (\<lambda>_.
       let s = set_ref c (ctx_ref (reg s) c - 1) s in
       if ctx_ref (reg s) c = 0 then bind_res (delete_context E c s) (\<lambda>s. Inr (None, s))
       else Inr (Some c, s))"

text \<open>The operations on handles read the context they find.\<close>

definition slot_alive :: "u32 \<Rightarrow> node \<Rightarrow> unit cres" where
  "slot_alive h s =
     bind_res (aget (slot (reg s)) (slot_of (slot_size (reg s)) h)) (\<lambda>c.
       case c of None \<Rightarrow> Inr () | Some c \<Rightarrow> bind_res (ctx_at c s) (\<lambda>_. Inr ()))"

definition handle_grab :: "u32 \<Rightarrow> node \<Rightarrow> (ctx option \<times> node) cres" where
  "handle_grab h s =
     bind_res (slot_alive h s) (\<lambda>_.
     bind_res (skynet_handle_grab h (reg s)) (\<lambda>(c, r). Inr (c, s\<lparr>reg := r\<rparr>)))"

definition handle_retire :: "service_code \<Rightarrow> u32 \<Rightarrow> node \<Rightarrow> (bool \<times> node) cres" where
  "handle_retire E h s =
     bind_res (slot_alive h s) (\<lambda>_.
     bind_res (skynet_handle_retire h (reg s)) (\<lambda>(c, r).
       let s = s\<lparr>reg := r\<rparr> in
       case c of
         None \<Rightarrow> Inr (False, s)
       | Some c \<Rightarrow> bind_res (skynet_context_release E c s) (\<lambda>(_, s). Inr (True, s))))"

text \<open>
  Retiring all services: one pass over the slots, with the bound of the loop read again in each round, and passes until one
  finds nothing. Both loops have a bound.
\<close>

primrec retire_slots :: "nat \<Rightarrow> service_code \<Rightarrow> nat \<Rightarrow> nat \<times> node \<Rightarrow> (nat \<times> node) cres" where
  "retire_slots 0 E i st = Inl Diverges"
| "retire_slots (Suc fuel) E i st =
     (case st of (n, s) \<Rightarrow>
        if i < slot_size (reg s) then
          bind_res (aget (slot (reg s)) i) (\<lambda>c.
          bind_res (case c of None \<Rightarrow> Inr 0 | Some c \<Rightarrow> bind_res (ctx_at c s) (\<lambda>_. Inr (ctx_handle (reg s) c))) (\<lambda>h.
            if h \<noteq> 0 then bind_res (handle_retire E h s) (\<lambda>(r, s). retire_slots fuel E (i + 1) (if r then n + 1 else n, s))
            else retire_slots fuel E (i + 1) (n, s)))
        else Inr (n, s))"

primrec handle_retireall :: "nat \<Rightarrow> nat \<Rightarrow> service_code \<Rightarrow> node \<Rightarrow> node cres" where
  "handle_retireall 0 pass E s = Inl Diverges"
| "handle_retireall (Suc fuel) pass E s =
     bind_res (retire_slots pass E 0 (0, s)) (\<lambda>(n, s). if n = 0 then Inr s else handle_retireall fuel pass E s)"

subsection \<open>Sending\<close>

definition skynet_context_push :: "service_code \<Rightarrow> u32 \<Rightarrow> skynet_message \<Rightarrow> node \<Rightarrow> (int \<times> node) cres" where
  "skynet_context_push E h m s =
     bind_res (handle_grab h s) (\<lambda>(c, s).
       case c of
         None \<Rightarrow> Inr (-1, s)
       | Some c \<Rightarrow>
           bind_res (ctx_at c s) (\<lambda>x.
           bind_res (on_mqs (skynet_mq_push (ctx_queue x) m) s) (\<lambda>s.
           bind_res (skynet_context_release E c s) (\<lambda>(_, s). Inr (0, s)))))"

definition skynet_context_endless :: "service_code \<Rightarrow> u32 \<Rightarrow> node \<Rightarrow> node cres" where
  "skynet_context_endless E h s =
     bind_res (handle_grab h s) (\<lambda>(c, s).
       case c of
         None \<Rightarrow> Inr s
       | Some c \<Rightarrow>
           bind_res (ctx_at c s) (\<lambda>x.
           bind_res (skynet_context_release E c (ctx_put c (x\<lparr>ctx_endless := True\<rparr>) s)) (\<lambda>(_, s). Inr s)))"

definition skynet_context_newsession :: "ctx \<Rightarrow> node \<Rightarrow> (int \<times> node) cres" where
  "skynet_context_newsession c s =
     bind_res (ctx_at c s) (\<lambda>x.
       let session = session_id x + 1 in
       if sint session \<le> 0 then Inr (1, ctx_put c (x\<lparr>session_id := 1\<rparr>) s)
       else Inr (sint session, ctx_put c (x\<lparr>session_id := session\<rparr>) s))"

definition skynet_context_send :: "ctx \<Rightarrow> nat option \<Rightarrow> nat \<Rightarrow> u32 \<Rightarrow> nat \<Rightarrow> int \<Rightarrow> node \<Rightarrow> node cres" where
  "skynet_context_send c msg sz src type ses s =
     bind_res (ctx_at c s) (\<lambda>x.
       on_mqs (skynet_mq_push (ctx_queue x)
         \<lparr>source = src, session = ses, msg_data = msg, msg_sz = sz OR push_bit MESSAGE_TYPE_SHIFT type\<rparr>) s)"

text \<open>The payload of a text, and the texts of the messages that are logged.\<close>

definition text_payload :: "string \<Rightarrow> nat" where
  "text_payload t = foldr (\<lambda>c n. 256 * n + of_char c) t 1"

function print_nat :: "nat \<Rightarrow> nat \<Rightarrow> string" where
  "print_nat b n =
     (if b \<le> n \<and> 2 \<le> b then print_nat b (n div b) @ [''0123456789abcdef'' ! (n mod b)] else [''0123456789abcdef'' ! (n mod b)])"
  by pat_completeness auto
termination
  by (relation "measure snd") auto

declare print_nat.simps [simp del]

abbreviation hex :: "u32 \<Rightarrow> string" where
  "hex h \<equiv> print_nat 16 (unat h)"

definition hex8 :: "u32 \<Rightarrow> string" where
  "hex8 h = replicate (8 - length (hex h)) CHR ''0'' @ hex h"

definition print_int :: "int \<Rightarrow> string" where
  "print_int i = (if i < 0 then CHR ''-'' # print_nat 10 (nat (- i)) else print_nat 10 (nat i))"

definition skynet_error :: "service_code \<Rightarrow> ctx option \<Rightarrow> string \<Rightarrow> node \<Rightarrow> node cres" where
  "skynet_error E c txt s =
     bind_res (if logger s = 0 then bind_res (skynet_handle_findname ''logger'' (reg s)) (\<lambda>h. Inr (s\<lparr>logger := h\<rparr>)) else Inr s) (\<lambda>s.
       if logger s = 0 then Inr s
       else
         bind_res (case c of None \<Rightarrow> Inr 0 | Some c \<Rightarrow> bind_res (ctx_at c s) (\<lambda>_. Inr (ctx_handle (reg s) c))) (\<lambda>src.
         bind_res (skynet_context_push E (logger s)
             \<lparr>source = src, session = 0, msg_data = Some (text_payload txt), msg_sz = length txt OR push_bit MESSAGE_TYPE_SHIFT PTYPE_TEXT\<rparr> s) (\<lambda>(_, s).
           Inr s)))"

definition invalid_type :: "nat \<Rightarrow> bool" where
  "invalid_type type \<longleftrightarrow> type \<noteq> PTYPE_SYSTEM \<and> type \<noteq> PTYPE_HARBOR"

definition skynet_harbor_send :: "remote_message \<Rightarrow> u32 \<Rightarrow> int \<Rightarrow> node \<Rightarrow> node cres" where
  "skynet_harbor_send rmsg src ses s =
     (case REMOTE s of
        None \<Rightarrow> Inl AssertFail
      | Some c \<Rightarrow>
          if \<not> invalid_type (rm_type rmsg) then Inl AssertFail
          else skynet_context_send c (Some (length (rmsgs s))) 48 src PTYPE_SYSTEM ses (s\<lparr>rmsgs := rmsgs s @ [rmsg]\<rparr>))"

definition skynet_harbor_message_isremote :: "u32 \<Rightarrow> node \<Rightarrow> bool cres" where
  "skynet_harbor_message_isremote handle s =
     (if HARBOR s = NOT 0 then Inl AssertFail
      else let h = handle AND NOT HANDLE_MASK in Inr (h \<noteq> HARBOR s \<and> h \<noteq> 0))"

definition filter_args :: "ctx option \<Rightarrow> nat \<Rightarrow> int \<Rightarrow> nat \<Rightarrow> node \<Rightarrow> (int \<times> nat \<times> node) cres" where
  "filter_args c type ses sz s =
     bind_res
       (if type AND PTYPE_TAG_ALLOCSESSION \<noteq> 0 then
          if ses \<noteq> 0 then Inl AssertFail
          else case c of None \<Rightarrow> Inl NullDeref | Some c \<Rightarrow> skynet_context_newsession c s
        else Inr (ses, s))
       (\<lambda>(ses, s). Inr (ses, sz OR push_bit MESSAGE_TYPE_SHIFT (type AND 0xff), s))"

definition own_handle :: "ctx option \<Rightarrow> u32 \<Rightarrow> node \<Rightarrow> u32 cres" where
  "own_handle c src s =
     (if src = 0 then case c of None \<Rightarrow> Inl NullDeref | Some c \<Rightarrow> bind_res (ctx_at c s) (\<lambda>_. Inr (ctx_handle (reg s) c))
      else Inr src)"

definition skynet_send ::
  "service_code \<Rightarrow> ctx option \<Rightarrow> u32 \<Rightarrow> u32 \<Rightarrow> nat \<Rightarrow> int \<Rightarrow> nat option \<Rightarrow> nat \<Rightarrow> node \<Rightarrow> (int \<times> node) cres" where
  "skynet_send E c src dest type ses data sz s =
     (if sz AND MESSAGE_TYPE_MASK \<noteq> sz then
        bind_res (skynet_error E c (''The message to '' @ hex dest @ '' is too large'') s) (\<lambda>s. Inr (-2, s))
      else
        bind_res (filter_args c type ses sz s) (\<lambda>(ses, sz, s).
        bind_res (own_handle c src s) (\<lambda>src.
          if dest = 0 then
            if data \<noteq> None then bind_res (skynet_error E c ''Destination address can't be 0'' s) (\<lambda>s. Inr (-1, s))
            else Inr (ses, s)
          else
            bind_res (skynet_harbor_message_isremote dest s) (\<lambda>remote.
              if remote then
                bind_res (skynet_harbor_send
                    \<lparr>rm_handle = dest, rm_name = [], rm_message = data, rm_sz = sz AND MESSAGE_TYPE_MASK, rm_type = drop_bit MESSAGE_TYPE_SHIFT sz\<rparr> src ses s)
                  (\<lambda>s. Inr (ses, s))
              else
                bind_res (skynet_context_push E dest \<lparr>source = src, session = ses, msg_data = data, msg_sz = sz\<rparr> s) (\<lambda>(r, s).
                  if r \<noteq> 0 then Inr (-1, s) else Inr (ses, s))))))"

subsection \<open>Addresses\<close>

definition GLOBALNAME_LENGTH :: nat where "GLOBALNAME_LENGTH = 16"

definition copy_name :: "string \<Rightarrow> string" where
  "copy_name addr = (let n = take GLOBALNAME_LENGTH addr in n @ replicate (GLOBALNAME_LENGTH - length n) CHR 0x00)"

text \<open>\<open>strtoul\<close> in base 16: blanks, a sign and \<open>0x\<close> may precede the digits; the result is cut to 32 bits.\<close>

definition hex_value :: "char \<Rightarrow> nat option" where
  "hex_value c =
     (let n = of_char c in
      if 48 \<le> n \<and> n \<le> 57 then Some (n - 48)
      else if 97 \<le> n \<and> n \<le> 102 then Some (n - 87)
      else if 65 \<le> n \<and> n \<le> 70 then Some (n - 55)
      else None)"

fun hex_digits :: "string \<Rightarrow> nat \<Rightarrow> nat" where
  "hex_digits [] acc = acc"
| "hex_digits (c # cs) acc = (case hex_value c of None \<Rightarrow> acc | Some d \<Rightarrow> hex_digits cs (16 * acc + d))"

definition isspace :: "char \<Rightarrow> bool" where
  "isspace c \<longleftrightarrow> c = CHR '' '' \<or> (9 \<le> (of_char c :: nat) \<and> (of_char c :: nat) \<le> 13)"

definition strtoul16 :: "string \<Rightarrow> u32" where
  "strtoul16 t =
     (let t = dropWhile isspace t;
          neg = (t \<noteq> [] \<and> hd t = CHR ''-'');
          t = (if t \<noteq> [] \<and> (hd t = CHR ''-'' \<or> hd t = CHR ''+'') then tl t else t);
          t = (if take 1 t = ''0'' \<and> (take 1 (tl t) = ''x'' \<or> take 1 (tl t) = ''X'') \<and> drop 2 t \<noteq> [] \<and> hex_value (t ! 2) \<noteq> None then drop 2 t else t);
          v = hex_digits t 0
      in if 2 ^ 64 \<le> v then of_nat (2 ^ 64 - 1) else if neg then - of_nat v else of_nat v)"

definition skynet_sendname ::
  "service_code \<Rightarrow> ctx option \<Rightarrow> u32 \<Rightarrow> string \<Rightarrow> nat \<Rightarrow> int \<Rightarrow> nat option \<Rightarrow> nat \<Rightarrow> node \<Rightarrow> (int \<times> node) cres" where
  "skynet_sendname E c src addr type ses data sz s =
     bind_res (own_handle c src s) (\<lambda>src.
       if addr \<noteq> [] \<and> hd addr = CHR '':'' then skynet_send E c src (strtoul16 (tl addr)) type ses data sz s
       else if addr \<noteq> [] \<and> hd addr = CHR ''.'' then
         bind_res (skynet_handle_findname (tl addr) (reg s)) (\<lambda>des.
           if des = 0 then Inr (-1, s) else skynet_send E c src des type ses data sz s)
       else if sz AND MESSAGE_TYPE_MASK \<noteq> sz then
         bind_res (skynet_error E c (''The message to '' @ addr @ '' is too large'') s) (\<lambda>s. Inr (-2, s))
       else
         bind_res (filter_args c type ses sz s) (\<lambda>(ses, sz, s).
         bind_res (skynet_harbor_send
             \<lparr>rm_handle = 0, rm_name = copy_name addr, rm_message = data, rm_sz = sz AND MESSAGE_TYPE_MASK, rm_type = drop_bit MESSAGE_TYPE_SHIFT sz\<rparr> src ses s)
           (\<lambda>s. Inr (ses, s))))"

definition skynet_isremote :: "u32 \<Rightarrow> node \<Rightarrow> (bool \<times> u32) cres" where
  "skynet_isremote handle s =
     bind_res (skynet_harbor_message_isremote handle s) (\<lambda>r. Inr (r, drop_bit HANDLE_REMOTE_SHIFT handle))"

definition skynet_harbor_init :: "u32 \<Rightarrow> node \<Rightarrow> node" where
  "skynet_harbor_init hb s = s\<lparr>HARBOR := push_bit HANDLE_REMOTE_SHIFT hb\<rparr>"

definition skynet_harbor_start :: "ctx \<Rightarrow> node \<Rightarrow> node cres" where
  "skynet_harbor_start c s = bind_res (skynet_context_reserve c s) (\<lambda>s. Inr (s\<lparr>REMOTE := Some c\<rparr>))"

definition skynet_harbor_exit :: "service_code \<Rightarrow> node \<Rightarrow> node cres" where
  "skynet_harbor_exit E s =
     (case REMOTE s of
        None \<Rightarrow> Inr s
      | Some c \<Rightarrow> bind_res (skynet_context_release E c (s\<lparr>REMOTE := None\<rparr>)) (\<lambda>(_, s). Inr s))"

subsection \<open>Releasing a queue\<close>

definition drop_message :: "service_code \<Rightarrow> u32 \<Rightarrow> skynet_message \<Rightarrow> node \<Rightarrow> node cres" where
  "drop_message E h m s =
     (if h = 0 then Inl AssertFail
      else bind_res (skynet_send E None h (source m) PTYPE_ERROR 0 None 0 s) (\<lambda>(_, s). Inr s))"

primrec drop_queue :: "nat \<Rightarrow> service_code \<Rightarrow> u32 \<Rightarrow> qaddr \<Rightarrow> node \<Rightarrow> node cres" where
  "drop_queue 0 E h a s = Inl Diverges"
| "drop_queue (Suc fuel) E h a s =
     bind_res (from_mqs (skynet_mq_pop a) s) (\<lambda>(m, s).
       case m of
         None \<Rightarrow> on_mqs (release_queue a) s
       | Some m \<Rightarrow> bind_res (drop_message E h m s) (drop_queue fuel E h a))"

definition mq_release :: "nat \<Rightarrow> service_code \<Rightarrow> u32 \<Rightarrow> qaddr \<Rightarrow> node \<Rightarrow> node cres" where
  "mq_release fuel E h a s =
     bind_res (mq_at (mqs s) a) (\<lambda>q.
       if release q then drop_queue fuel E h a s else on_mqs (skynet_globalmq_push a) s)"

subsection \<open>Starting a service\<close>

definition new_context :: "node \<Rightarrow> node" where
  "new_context s =
     (let c = next_ctx s in
      set_ref c 2 (s\<lparr>next_ctx := c + 1, ctxs := (ctxs s)(c \<mapsto>
        \<lparr>ctx_queue = 0, ctx_cb = False, session_id = 0, message_count = 0, ctx_init = False, ctx_endless = False\<rparr>)\<rparr>))"

text \<open>The context, its handle and its queue.\<close>

definition make_context :: "node \<Rightarrow> (ctx \<times> qaddr \<times> node) cres" where
  "make_context s =
     (let c = next_ctx s; s = new_context s in
      bind_res (context_register 2 c (reg s)) (\<lambda>(h, r).
      let s = s\<lparr>reg := r\<rparr>; (a, m) = skynet_mq_create h (mqs s) in
      bind_res (ctx_at c s) (\<lambda>x. Inr (c, a, (ctx_put c (x\<lparr>ctx_queue := a\<rparr>) s)\<lparr>mqs := m, total := total s + 1\<rparr>))))"

definition skynet_context_new :: "nat \<Rightarrow> service_code \<Rightarrow> string \<Rightarrow> string option \<Rightarrow> node \<Rightarrow> (ctx option \<times> node) cres" where
  "skynet_context_new fuel E name param s =
     (if \<not> module_query E name then Inr (None, s)
      else if \<not> instance_create E name then Inr (None, s)
      else
        bind_res (make_context s) (\<lambda>(c, a, s).
        bind_res (instance_init E name param c s) (\<lambda>(ok, s).
          if ok then
            bind_res (skynet_context_release E c s) (\<lambda>(ret, s).
            bind_res (if ret \<noteq> None then bind_res (ctx_at c s) (\<lambda>x. Inr (ctx_put c (x\<lparr>ctx_init := True\<rparr>) s)) else Inr s) (\<lambda>s.
            bind_res (on_mqs (skynet_globalmq_push a) s) (\<lambda>s.
            bind_res (if ret \<noteq> None then skynet_error E (Some c) (''LAUNCH '' @ name @ '' '' @ (case param of None \<Rightarrow> [] | Some p \<Rightarrow> p)) s else Inr s) (\<lambda>s.
              Inr (ret, s)))))
          else
            bind_res (skynet_error E (Some c) (''FAILED launch '' @ name) s) (\<lambda>s.
            bind_res (ctx_at c s) (\<lambda>_.
            let h = ctx_handle (reg s) c in
            bind_res (skynet_context_release E c s) (\<lambda>(_, s).
            bind_res (handle_retire E h s) (\<lambda>(_, s).
            bind_res (mq_release fuel E h a s) (\<lambda>s. Inr (None, s)))))))))"

definition handle_exit :: "service_code \<Rightarrow> ctx \<Rightarrow> u32 \<Rightarrow> node \<Rightarrow> node cres" where
  "handle_exit E c h s =
     bind_res (ctx_at c s) (\<lambda>_.
     bind_res
       (if h = 0 then let h = ctx_handle (reg s) c in bind_res (skynet_error E (Some c) ''KILL self'' s) (\<lambda>s. Inr (h, s))
        else bind_res (skynet_error E (Some c) (''KILL :'' @ hex h) s) (\<lambda>s. Inr (h, s))) (\<lambda>(h, s).
     bind_res
       (if monitor_exit s \<noteq> 0 then bind_res (skynet_send E (Some c) h (monitor_exit s) PTYPE_CLIENT 0 None 0 s) (\<lambda>(_, s). Inr s) else Inr s) (\<lambda>s.
     bind_res (handle_retire E h s) (\<lambda>(_, s). Inr s))))"

subsection \<open>Workers\<close>

definition skynet_monitor_new :: skynet_monitor where
  "skynet_monitor_new = \<lparr>version = 0, check_version = 0, mon_source = 0, mon_destination = 0\<rparr>"

definition skynet_monitor_trigger :: "skynet_monitor \<Rightarrow> u32 \<Rightarrow> u32 \<Rightarrow> skynet_monitor" where
  "skynet_monitor_trigger sm src dest = sm\<lparr>mon_source := src, mon_destination := dest, version := version sm + 1\<rparr>"

definition skynet_monitor_check :: "service_code \<Rightarrow> skynet_monitor \<Rightarrow> node \<Rightarrow> (skynet_monitor \<times> node) cres" where
  "skynet_monitor_check E sm s =
     (if version sm = check_version sm then
        if mon_destination sm \<noteq> 0 then
          bind_res (skynet_context_endless E (mon_destination sm) s) (\<lambda>s.
          bind_res (skynet_error E None (''A message from [ :'' @ hex8 (mon_source sm) @ '' ] to [ :'' @ hex8 (mon_destination sm) @
              '' ] maybe in an endless loop (version = '' @ print_int (sint (version sm)) @ '')'') s) (\<lambda>s.
            Inr (sm, s)))
        else Inr (sm, s)
      else Inr (sm\<lparr>check_version := version sm\<rparr>, s))"

definition dispatch_message :: "service_code \<Rightarrow> ctx \<Rightarrow> skynet_message \<Rightarrow> node \<Rightarrow> node cres" where
  "dispatch_message E c m s =
     bind_res (ctx_at c s) (\<lambda>x.
       if \<not> ctx_init x then Inl AssertFail
       else bind_res (instance_cb E c m (ctx_put c (x\<lparr>message_count := message_count x + 1\<rparr>) s)) (\<lambda>(_, s). Inr s))"

primrec skynet_context_dispatchall :: "nat \<Rightarrow> service_code \<Rightarrow> ctx \<Rightarrow> node \<Rightarrow> node cres" where
  "skynet_context_dispatchall 0 E c s = Inl Diverges"
| "skynet_context_dispatchall (Suc fuel) E c s =
     bind_res (ctx_at c s) (\<lambda>x.
     bind_res (from_mqs (skynet_mq_pop (ctx_queue x)) s) (\<lambda>(m, s).
       case m of
         None \<Rightarrow> Inr s
       | Some m \<Rightarrow> bind_res (dispatch_message E c m s) (skynet_context_dispatchall fuel E c)))"

definition queue_overload :: "qaddr \<Rightarrow> node \<Rightarrow> (nat \<times> node) cres" where
  "queue_overload a s =
     bind_res (mq_at (mqs s) a) (\<lambda>q. let (n, q) = skynet_mq_overload q in Inr (n, s\<lparr>mqs := mq_put a q (mqs s)\<rparr>))"

text \<open>The body of the loop over the messages, behind the message that was taken.\<close>

definition dispatch_round ::
  "service_code \<Rightarrow> qaddr \<Rightarrow> u32 \<Rightarrow> ctx \<Rightarrow> skynet_message \<Rightarrow> skynet_monitor \<times> node \<Rightarrow> (skynet_monitor \<times> node) cres" where
  "dispatch_round E a h c m st =
     (case st of (sm, s) \<Rightarrow>
        bind_res (queue_overload a s) (\<lambda>(over, s).
        bind_res
          (if over \<noteq> 0 then skynet_error E (Some c) (''May overload, message queue length = '' @ print_nat 10 over) s else Inr s) (\<lambda>s.
        let sm = skynet_monitor_trigger sm (source m) h in
        bind_res (ctx_at c s) (\<lambda>x.
        bind_res (if \<not> ctx_cb x then Inr s else dispatch_message E c m s) (\<lambda>s.
          Inr (skynet_monitor_trigger sm 0 0, s))))))"

text \<open>The rounds that are left; the result says whether the queue was found empty.\<close>

primrec dispatch_loop ::
  "nat \<Rightarrow> service_code \<Rightarrow> qaddr \<Rightarrow> u32 \<Rightarrow> ctx \<Rightarrow> skynet_monitor \<times> node \<Rightarrow> (bool \<times> skynet_monitor \<times> node) cres" where
  "dispatch_loop 0 E a h c st = Inr (False, st)"
| "dispatch_loop (Suc n) E a h c st =
     bind_res (from_mqs (skynet_mq_pop a) (snd st)) (\<lambda>(m, s).
       case m of
         None \<Rightarrow> Inr (True, fst st, s)
       | Some m \<Rightarrow> bind_res (dispatch_round E a h c m (fst st, s)) (dispatch_loop n E a h c))"

text \<open>The first round sets the number of rounds.\<close>

definition dispatch_rounds ::
  "service_code \<Rightarrow> int \<Rightarrow> qaddr \<Rightarrow> u32 \<Rightarrow> ctx \<Rightarrow> skynet_monitor \<times> node \<Rightarrow> (bool \<times> skynet_monitor \<times> node) cres" where
  "dispatch_rounds E weight a h c st =
     bind_res (from_mqs (skynet_mq_pop a) (snd st)) (\<lambda>(m, s).
       case m of
         None \<Rightarrow> Inr (True, fst st, s)
       | Some m \<Rightarrow>
           bind_res (mq_at (mqs s) a) (\<lambda>q.
           let n = (if 0 \<le> weight then drop_bit (nat weight) (skynet_mq_length q) else 1) in
           bind_res (dispatch_round E a h c m (fst st, s)) (dispatch_loop (n - 1) E a h c)))"

definition skynet_context_message_dispatch ::
  "nat \<Rightarrow> service_code \<Rightarrow> skynet_monitor \<Rightarrow> qaddr option \<Rightarrow> int \<Rightarrow> node \<Rightarrow> (qaddr option \<times> skynet_monitor \<times> node) cres" where
  "skynet_context_message_dispatch fuel E sm q weight s =
     bind_res (if q = None then from_mqs skynet_globalmq_pop s else Inr (q, s)) (\<lambda>(q, s).
       case q of
         None \<Rightarrow> Inr (None, sm, s)
       | Some a \<Rightarrow>
           bind_res (mq_at (mqs s) a) (\<lambda>mq.
           let h = mq_handle mq in
           bind_res (handle_grab h s) (\<lambda>(c, s).
             case c of
               None \<Rightarrow>
                 bind_res (mq_release fuel E h a s) (\<lambda>s.
                 bind_res (from_mqs skynet_globalmq_pop s) (\<lambda>(nq, s). Inr (nq, sm, s)))
             | Some c \<Rightarrow>
                 bind_res (dispatch_rounds E weight a h c (sm, s)) (\<lambda>(empty, sm, s).
                   if empty then
                     bind_res (skynet_context_release E c s) (\<lambda>(_, s).
                     bind_res (from_mqs skynet_globalmq_pop s) (\<lambda>(nq, s). Inr (nq, sm, s)))
                   else
                     bind_res (ctx_at c s) (\<lambda>x.
                       if a \<noteq> ctx_queue x then Inl AssertFail
                       else
                         bind_res (from_mqs skynet_globalmq_pop s) (\<lambda>(nq, s).
                         bind_res (if nq \<noteq> None then on_mqs (skynet_globalmq_push a) s else Inr s) (\<lambda>s.
                         bind_res (skynet_context_release E c s) (\<lambda>(_, s).
                           Inr (if nq \<noteq> None then nq else Some a, sm, s)))))))))"

definition skynet_callback :: "ctx \<Rightarrow> bool \<Rightarrow> node \<Rightarrow> node cres" where
  "skynet_callback c cb s = bind_res (ctx_at c s) (\<lambda>x. Inr (ctx_put c (x\<lparr>ctx_cb := cb\<rparr>) s))"

text \<open>The node after \<open>skynet_globalinit\<close> and the first part of \<open>skynet_start\<close>; contexts are at the addresses from 0 on.\<close>

definition node_init :: "int \<Rightarrow> node" where
  "node_init hb =
     \<lparr>reg = skynet_handle_init hb (\<lambda>_. 0) (\<lambda>_. 0), mqs = skynet_mq_init, ctxs = (\<lambda>_. None), next_ctx = 0, total = 0,
      monitor_exit = 0, HARBOR = push_bit HANDLE_REMOTE_SHIFT (word_of_int hb), REMOTE = None, rmsgs = [], logger = 0\<rparr>"

end
