(* ===== verification/Skynet_Server_Proofs.thy ===== *)
theory Skynet_Server_Proofs
  imports Skynet_Server
begin

text \<open>
  The invariant that ties the registry, the queues and the contexts of a node together, and what follows from it:
  reference counts are exact, no context or queue is used after it was freed, messages arrive, and the
  messages of a service that has ended are answered.
\<close>

section \<open>The invariant\<close>

text \<open>
  What the threads have in hand: the references they have taken to contexts, the queues that workers hold
  and those of services that are being started, and the contexts that are being deleted.
\<close>

record ghost =
  holds :: "ctx \<Rightarrow> nat"
  working :: "qaddr set"
  starting :: "qaddr set"
  dying :: "ctx set"
  started :: bool

definition refs :: "ghost \<Rightarrow> node \<Rightarrow> ctx \<Rightarrow> int" where
  "refs g s c = int (holds g c) + (if in_table (reg s) c then 1 else 0) + (if REMOTE s = Some c then 1 else 0)"

definition qinfo :: "mq_state \<Rightarrow> qaddr \<Rightarrow> (u32 \<times> bool) option" where
  "qinfo m a = map_option (\<lambda>(h, r, ms). (h, r)) (qview m a)"

definition ctx_ok :: "ghost \<Rightarrow> node \<Rightarrow> ctx \<Rightarrow> skynet_context \<Rightarrow> bool" where
  "ctx_ok g s c x \<longleftrightarrow> ctx_ref (reg s) c = refs g s c \<and> (c \<in> dying g \<longleftrightarrow> refs g s c = 0) \<and>
     qinfo (mqs s) (ctx_queue x) = Some (ctx_handle (reg s) c, False) \<and>
     (ctx_init x \<or> ctx_queue x \<in> starting g \<or> \<not> in_table (reg s) c)"

definition node_ok :: "ghost \<Rightarrow> node \<Rightarrow> bool" where
  "node_ok g s \<longleftrightarrow>
     registry_ok (reg s) \<and> (\<exists>gs. mq_inv (mqs s) (working g \<union> starting g) gs) \<and> working g \<inter> starting g = {} \<and> HARBOR s \<noteq> NOT 0 \<and>
     finite (dom (ctxs s)) \<and> int (card (dom (ctxs s))) = total s + (if REMOTE s = None then 0 else 1) \<and> (\<forall>c\<ge>next_ctx s. ctxs s c = None) \<and>
     (\<forall>c. 0 < refs g s c \<or> c \<in> dying g \<longrightarrow> ctxs s c \<noteq> None) \<and>
     (\<forall>c x. ctxs s c = Some x \<longrightarrow> ctx_ok g s c x) \<and>
     (\<forall>c d x y. ctxs s c = Some x \<longrightarrow> ctxs s d = Some y \<longrightarrow> ctx_queue x = ctx_queue y \<longrightarrow> c = d) \<and>
     (\<forall>a b h r r'. qinfo (mqs s) a = Some (h, r) \<longrightarrow> qinfo (mqs s) b = Some (h, r') \<longrightarrow> a = b) \<and>
     (\<forall>a h r. qinfo (mqs s) a = Some (h, r) \<longrightarrow> h \<noteq> 0 \<and> unat h mod 2 ^ 24 < unat (handle_index (reg s))) \<and>
     (started g \<longrightarrow> REMOTE s \<noteq> None)"

definition hold :: "ctx \<Rightarrow> ghost \<Rightarrow> ghost" where
  "hold c g = g\<lparr>holds := (holds g)(c := holds g c + 1)\<rparr>"

text \<open>What is in the hands of a thread does not change under it: contexts stay and keep their queue, queues their handle.\<close>

definition stable :: "ghost \<Rightarrow> node \<Rightarrow> node \<Rightarrow> bool" where
  "stable g s s' \<longleftrightarrow>
     (\<forall>c x. 0 < holds g c \<or> c \<in> dying g \<longrightarrow> ctxs s c = Some x \<longrightarrow>
       (\<exists>y. ctxs s' c = Some y \<and> ctx_queue y = ctx_queue x \<and> (ctx_init x \<longrightarrow> ctx_init y))) \<and>
     (\<forall>a h r. a \<in> working g \<union> starting g \<longrightarrow> qinfo (mqs s) a = Some (h, r) \<longrightarrow> (\<exists>r'. qinfo (mqs s') a = Some (h, r') \<and> (r \<longrightarrow> r')))"

text \<open>Code of services that keeps the invariant, whatever the other threads have in hand.\<close>

definition code_ok :: "service_code \<Rightarrow> bool" where
  "code_ok E \<longleftrightarrow>
     (\<forall>g s c m. node_ok g s \<longrightarrow> 0 < holds g c \<longrightarrow> (\<exists>r s'. instance_cb E c m s = Inr (r, s') \<and> node_ok g s' \<and> stable g s s')) \<and>
     (\<forall>g s c n p. node_ok g s \<longrightarrow> 0 < holds g c \<longrightarrow> (\<exists>r s'. instance_init E n p c s = Inr (r, s') \<and> node_ok g s' \<and> stable g s s')) \<and>
     (\<forall>g s c. node_ok g s \<longrightarrow> c \<in> dying g \<longrightarrow> (\<exists>s'. instance_release E c s = Inr ((), s') \<and> node_ok g s' \<and> stable g s s'))"

lemma stable_refl: "stable g s s"
  by (simp add: stable_def)

lemma stable_trans:
  assumes "stable g s t" "stable g t u"
  shows "stable g s u"
  unfolding stable_def
proof (intro conjI allI impI)
  fix c x assume "0 < holds g c \<or> c \<in> dying g" "ctxs s c = Some x"
  then show "\<exists>y. ctxs u c = Some y \<and> ctx_queue y = ctx_queue x \<and> (ctx_init x \<longrightarrow> ctx_init y)"
    using assms unfolding stable_def by metis
next
  fix a h r assume "a \<in> working g \<union> starting g" "qinfo (mqs s) a = Some (h, r)"
  then show "\<exists>r'. qinfo (mqs u) a = Some (h, r') \<and> (r \<longrightarrow> r')" using assms unfolding stable_def by metis
qed

lemma stable_mono: "stable g s t \<Longrightarrow> holds g' \<le> holds g \<Longrightarrow> dying g' \<subseteq> dying g \<Longrightarrow> working g' \<subseteq> working g \<Longrightarrow> starting g' \<subseteq> starting g \<Longrightarrow> stable g' s t"
  unfolding stable_def le_fun_def by (meson Un_mono less_le_trans subsetD)

lemma node_okD:
  assumes "node_ok g s"
  shows "registry_ok (reg s)" "\<exists>gs. mq_inv (mqs s) (working g \<union> starting g) gs" "working g \<inter> starting g = {}" "HARBOR s \<noteq> NOT 0"
    "0 < refs g s c \<Longrightarrow> ctxs s c \<noteq> None" "c \<in> dying g \<Longrightarrow> ctxs s c \<noteq> None" "ctxs s c = Some x \<Longrightarrow> ctx_ok g s c x"
    "started g \<Longrightarrow> REMOTE s \<noteq> None"
  using assms unfolding node_ok_def by blast+

lemma node_ok_queues:
  assumes "node_ok g s"
  shows "\<forall>a b h r r'. qinfo (mqs s) a = Some (h, r) \<longrightarrow> qinfo (mqs s) b = Some (h, r') \<longrightarrow> a = b"
    "\<forall>a h r. qinfo (mqs s) a = Some (h, r) \<longrightarrow> h \<noteq> 0 \<and> unat h mod 2 ^ 24 < unat (handle_index (reg s))"
proof -
  note o = assms [unfolded node_ok_def]
  show "\<forall>a b h r r'. qinfo (mqs s) a = Some (h, r) \<longrightarrow> qinfo (mqs s) b = Some (h, r') \<longrightarrow> a = b" using o by (elim conjE)
  show "\<forall>a h r. qinfo (mqs s) a = Some (h, r) \<longrightarrow> h \<noteq> 0 \<and> unat h mod 2 ^ 24 < unat (handle_index (reg s))" using o by (elim conjE)
qed

lemma hold_simps [simp]:
  "holds (hold c g) d = (if d = c then holds g c + 1 else holds g d)" "working (hold c g) = working g" "starting (hold c g) = starting g"
  "dying (hold c g) = dying g" "started (hold c g) = started g"
  by (simp_all add: hold_def)

lemma refs_hold: "refs (hold c g) s d = refs g s d + (if d = c then 1 else 0)"
  by (simp add: refs_def)

lemma refs_nonneg: "0 \<le> refs g s c"
  by (simp add: refs_def)

lemma refs_held: "0 < holds g c \<Longrightarrow> 0 < refs g s c"
  by (simp add: refs_def)

text \<open>The parts of the state the invariant does not look at, and changes of single parts.\<close>

lemma set_ref_simps [simp]:
  "ctxs (set_ref c n s) = ctxs s" "mqs (set_ref c n s) = mqs s" "REMOTE (set_ref c n s) = REMOTE s" "total (set_ref c n s) = total s"
  "next_ctx (set_ref c n s) = next_ctx s" "HARBOR (set_ref c n s) = HARBOR s" "logger (set_ref c n s) = logger s"
  "ctx_handle (reg (set_ref c n s)) = ctx_handle (reg s)" "handle_index (reg (set_ref c n s)) = handle_index (reg s)"
  "ctx_ref (reg (set_ref c n s)) = (ctx_ref (reg s))(c := n)"
  "services (reg (set_ref c n s)) = services (reg s)" "registry_ok (reg (set_ref c n s)) = registry_ok (reg s)"
  "name_map (reg (set_ref c n s)) = name_map (reg s)"
proof -
  let ?r = "reg (set_ref c n s)"
  show "services ?r = services (reg s)" by (rule services_cong) (simp_all add: set_ref_def)
  show "registry_ok ?r = registry_ok (reg s)"
    unfolding registry_ok_def using handles_ok_cong [of ?r "reg s"] by (simp add: set_ref_def names_ok_def)
qed (simp_all add: set_ref_def name_map_def entries_def)

lemma in_table_set_ref [simp]: "in_table (reg (set_ref c n s)) = in_table (reg s)"
  by (simp add: in_table_def fun_eq_iff)

lemma refs_set_ref [simp]: "refs g (set_ref c n s) = refs g s"
  by (simp add: refs_def fun_eq_iff)

lemma refs_cong: "in_table (reg s') = in_table (reg s) \<Longrightarrow> REMOTE s' = REMOTE s \<Longrightarrow> holds g' = holds g \<Longrightarrow> refs g' s' = refs g s"
  by (simp add: refs_def fun_eq_iff)

lemma node_ok_mqs:
  assumes "node_ok g s" "mq_inv m (W \<union> starting g) gs" "W \<inter> starting g = {}" "qinfo m = qinfo (mqs s)"
  shows "node_ok (g\<lparr>working := W\<rparr>) (s\<lparr>mqs := m\<rparr>)"
proof -
  have r: "refs (g\<lparr>working := W\<rparr>) (s\<lparr>mqs := m\<rparr>) = refs g s" by (rule refs_cong) simp_all
  show ?thesis using assms unfolding node_ok_def ctx_ok_def r by auto
qed

lemma grab_keeps:
  assumes ok: "node_ok g s" and c: "ctxs s c \<noteq> None" "c \<notin> dying g"
  shows "node_ok (hold c g) (set_ref c (ctx_ref (reg s) c + 1) s)"
proof -
  obtain x where x: "ctxs s c = Some x" using c(1) by blast
  have "0 < refs g s c" using node_okD(7) [OF ok x] c(2) refs_nonneg [of g s c] by (auto simp: ctx_ok_def)
  then show ?thesis using ok c unfolding node_ok_def ctx_ok_def refs_hold by (auto simp: refs_hold)
qed

text \<open>A context that nobody refers to any more: its queue is marked and it is freed.\<close>

lemma mark_keeps:
  assumes ok: "node_ok g s" and c: "c \<in> dying g" and x: "ctxs s c = Some x"
  shows "\<exists>s'. on_mqs (skynet_mq_mark_release (ctx_queue x)) s = Inr s' \<and>
    node_ok (g\<lparr>dying := dying g - {c}\<rparr>) (s'\<lparr>ctxs := (ctxs s')(c := None), total := total s' - 1\<rparr>) \<and>
    stable (g\<lparr>dying := dying g - {c}\<rparr>) s (s'\<lparr>ctxs := (ctxs s')(c := None), total := total s' - 1\<rparr>) \<and>
    qinfo (mqs s') (ctx_queue x) = Some (ctx_handle (reg s) c, True)"
proof -
  define a where "a = ctx_queue x"
  have cx: "ctx_ok g s c x" using node_okD(7) [OF ok x] .
  have qi: "qinfo (mqs s) a = Some (ctx_handle (reg s) c, False)" using cx by (simp add: ctx_ok_def a_def)
  then obtain q where q: "queues (mqs s) a = Some q" "\<not> release q" "mq_handle q = ctx_handle (reg s) c"
    by (auto simp: qinfo_def qview_def)
  obtain gs where inv: "mq_inv (mqs s) (working g \<union> starting g) gs" using node_okD(2) [OF ok] by blast
  obtain m gs' where m: "skynet_mq_mark_release a (mqs s) = Inr m" "mq_inv m (working g \<union> starting g) gs'"
    using mark_inv [OF inv q(1,2)] by blast
  have qm: "qinfo m = (qinfo (mqs s))(a \<mapsto> (ctx_handle (reg s) c, True))"
    using qview_mark [OF m(1) q(1)] q(3) by (simp add: qinfo_def fun_eq_iff)
  define s' where "s' = s\<lparr>mqs := m, ctxs := (ctxs s)(c := None), total := total s - 1\<rparr>"
  define g' where "g' = g\<lparr>dying := dying g - {c}\<rparr>"
  have r: "refs g' s' = refs g s" unfolding g'_def s'_def by (rule refs_cong) simp_all
  have r0: "refs g s c = 0" using cx c by (simp add: ctx_ok_def)
  have other: "ctx_queue y \<noteq> a" if "ctxs s d = Some y" "d \<noteq> c" for d y
    using ok x that unfolding node_ok_def a_def by blast
  have "ctx_ok g' s' d y" if "ctxs s' d = Some y" for d y
  proof -
    have d: "ctxs s d = Some y" "d \<noteq> c" using that by (auto simp: s'_def split: if_splits)
    have "ctx_ok g s d y" using node_okD(7) [OF ok d(1)] .
    then show ?thesis using other [OF d] d(2) unfolding ctx_ok_def r by (simp add: s'_def g'_def qm)
  qed
  moreover have "finite (dom (ctxs s'))" "int (card (dom (ctxs s'))) = total s' + (if REMOTE s' = None then 0 else 1)"
  proof -
    have fin: "finite (dom (ctxs s))" "int (card (dom (ctxs s))) = total s + (if REMOTE s = None then 0 else 1)" using ok by (auto simp: node_ok_def)
    have "dom (ctxs s') = dom (ctxs s) - {c}" by (auto simp: s'_def)
    moreover have "card (dom (ctxs s)) = Suc (card (dom (ctxs s) - {c}))" using fin(1) x by (intro card.remove) auto
    ultimately show "finite (dom (ctxs s'))" "int (card (dom (ctxs s'))) = total s' + (if REMOTE s' = None then 0 else 1)"
      using fin by (auto simp: s'_def)
  qed
  moreover have "ctxs s' d \<noteq> None" if "0 < refs g' s' d \<or> d \<in> dying g'" for d
    using that ok r0 unfolding r node_ok_def by (cases "d = c") (auto simp: s'_def g'_def)
  moreover have "qinfo m b = Some (h, r) \<Longrightarrow> \<exists>r. qinfo (mqs s) b = Some (h, r)" for b h r using qi by (auto simp: qm split: if_splits)
  ultimately have "node_ok g' s'"
    using ok m(2) unfolding node_ok_def by (auto simp: s'_def g'_def) metis+
  moreover have "holds g c = 0" using r0 by (auto simp: refs_def split: if_splits)
  then have "stable g' s s'" using qi unfolding stable_def by (auto simp: s'_def g'_def qm)
  moreover have "on_mqs (skynet_mq_mark_release a) s = Inr (s\<lparr>mqs := m\<rparr>)" using m(1) by (simp add: on_mqs_def)
  ultimately show ?thesis using qm by (auto simp: a_def s'_def g'_def)
qed

lemma release_keeps:
  assumes E: "code_ok E" and ok: "node_ok (hold c g) s"
  shows "\<exists>r s'. skynet_context_release E c s = Inr (r, s') \<and> node_ok g s' \<and> (0 < refs g s c \<longrightarrow> r = Some c \<and> s' = set_ref c (ctx_ref (reg s) c - 1) s) \<and>
    (r \<noteq> None \<longrightarrow> r = Some c \<and> 0 < refs g s c) \<and> stable g s s' \<and>
    (r = None \<longrightarrow> ctxs s' c = None \<and> (\<forall>x. ctxs s c = Some x \<longrightarrow> (\<exists>h. qinfo (mqs s') (ctx_queue x) = Some (h, True))))"
proof -
  have held: "0 < refs (hold c g) s c" by (rule refs_held) simp
  obtain x where x: "ctxs s c = Some x" using node_okD(5) [OF ok held] by blast
  have cx: "ctx_ok (hold c g) s c x" using node_okD(7) [OF ok x] .
  define t where "t = set_ref c (ctx_ref (reg s) c - 1) s"
  have ref: "ctx_ref (reg t) c = refs g s c" using cx by (simp add: t_def ctx_ok_def refs_hold)
  have nd: "c \<notin> dying g" using cx held by (auto simp: ctx_ok_def)
  have others: "ctx_ref (reg t) d = ctx_ref (reg s) d" if "d \<noteq> c" for d using that by (simp add: t_def)
  show ?thesis
  proof (cases "refs g s c = 0")
    case False
    then have pos: "0 < refs g s c" using refs_nonneg [of g s c] by simp
    have "ctx_ok g t d y" if "ctxs s d = Some y" for d y
      using node_okD(7) [OF ok that] ref nd pos by (cases "d = c") (auto simp: ctx_ok_def refs_hold t_def)
    moreover have "ctxs t d \<noteq> None" if "0 < refs g t d \<or> d \<in> dying g" for d
      using ok that unfolding node_ok_def refs_hold by (cases "d = c") (auto simp: t_def)
    ultimately have "node_ok g t" using ok unfolding node_ok_def by (auto simp: t_def)
    moreover have "skynet_context_release E c s = Inr (Some c, t)"
      using x ref False by (simp add: skynet_context_release_def ctx_at_def t_def [symmetric] Let_def)
    ultimately show ?thesis using pos by (simp add: t_def stable_def)
  next
    case True
    define d where "d = g\<lparr>dying := insert c (dying g)\<rparr>"
    have rd: "refs d t = refs g s" unfolding d_def t_def by (simp add: refs_def fun_eq_iff)
    have "ctx_ok d t b y" if "ctxs s b = Some y" for b y
      using node_okD(7) [OF ok that] ref True unfolding ctx_ok_def rd by (cases "b = c") (auto simp: refs_hold t_def d_def)
    moreover have "ctxs t b \<noteq> None" if "0 < refs d t b \<or> b \<in> dying d" for b
      using ok that x unfolding node_ok_def refs_hold rd by (cases "b = c") (auto simp: t_def d_def)
    ultimately have okd: "node_ok d t" using ok unfolding node_ok_def by (auto simp: t_def d_def)
    have cd: "c \<in> dying d" by (simp add: d_def)
    obtain u where u: "instance_release E c t = Inr ((), u)" "node_ok d u" "stable d t u" using E okd cd unfolding code_ok_def by blast
    have "ctxs t c = Some x" using x by (simp add: t_def)
    then obtain y where y: "ctxs u c = Some y" "ctx_queue y = ctx_queue x" using u(3) cd unfolding stable_def by blast
    obtain v where v: "on_mqs (skynet_mq_mark_release (ctx_queue y)) u = Inr v"
        "node_ok (d\<lparr>dying := dying d - {c}\<rparr>) (v\<lparr>ctxs := (ctxs v)(c := None), total := total v - 1\<rparr>)"
        "stable (d\<lparr>dying := dying d - {c}\<rparr>) u (v\<lparr>ctxs := (ctxs v)(c := None), total := total v - 1\<rparr>)"
        "qinfo (mqs v) (ctx_queue y) = Some (ctx_handle (reg u) c, True)"
      using mark_keeps [OF u(2) cd y(1)] by blast
    have dg: "d\<lparr>dying := dying d - {c}\<rparr> = g" using nd by (simp add: d_def)
    have "stable g s t" by (simp add: stable_def t_def)
    moreover have "stable g t u" by (rule stable_mono [OF u(3)]) (auto simp: d_def)
    ultimately have "stable g s (v\<lparr>ctxs := (ctxs v)(c := None), total := total v - 1\<rparr>)" using v(3) unfolding dg by (metis stable_trans)
    moreover have "skynet_context_release E c s = Inr (None, v\<lparr>ctxs := (ctxs v)(c := None), total := total v - 1\<rparr>)"
      using x ref True u(1) y(1) v(1)
      by (simp add: skynet_context_release_def delete_context_def ctx_at_def t_def [symmetric] Let_def) (simp add: t_def)
    ultimately show ?thesis using v(2,4) True x y(2) unfolding dg by auto
  qed
qed

section \<open>Handles and messages\<close>

lemma in_tableI: "services r h = Some c \<Longrightarrow> in_table r c"
  using services_handle [of r h c] by (simp add: in_table_def)

lemma table_alive:
  assumes ok: "node_ok g s" and c: "in_table (reg s) c"
  shows "ctxs s c \<noteq> None" "c \<notin> dying g"
proof -
  have pos: "0 < refs g s c" using c by (simp add: refs_def)
  show "ctxs s c \<noteq> None" using node_okD(5) [OF ok pos] .
  then show "c \<notin> dying g" using node_okD(7) [OF ok] pos by (fastforce simp: ctx_ok_def)
qed

lemma slot_alive_ok: "node_ok g s \<Longrightarrow> slot_alive h s = Inr ()"
proof -
  assume ok: "node_ok g s"
  have h: "handles_ok (reg s)" using node_okD(1) [OF ok] by (simp add: registry_ok_def)
  have i: "slot_of (slot_size (reg s)) h < length (slot (reg s))" by (rule slot_in_range [OF h])
  have "ctxs s c \<noteq> None" if "slot (reg s) ! slot_of (slot_size (reg s)) h = Some c" for c
    using i that in_table_slot [OF h, of c] table_alive(1) [OF ok] by (metis nth_mem)
  then show ?thesis using i by (auto simp: slot_alive_def ctx_at_def split: option.split)
qed

lemma handle_grab_ok:
  assumes ok: "node_ok g s"
  shows "handle_grab h s = Inr (services (reg s) h, case services (reg s) h of None \<Rightarrow> s | Some c \<Rightarrow> set_ref c (ctx_ref (reg s) c + 1) s)"
    and "services (reg s) h = Some c \<Longrightarrow> node_ok (hold c g) (set_ref c (ctx_ref (reg s) c + 1) s)"
proof -
  have "handles_ok (reg s)" using node_okD(1) [OF ok] by (simp add: registry_ok_def)
  from grab_ok [OF this, of h] slot_alive_ok [OF ok, of h]
  show "handle_grab h s = Inr (services (reg s) h, case services (reg s) h of None \<Rightarrow> s | Some c \<Rightarrow> set_ref c (ctx_ref (reg s) c + 1) s)"
    by (simp add: handle_grab_def set_ref_def split: option.split)
  assume "services (reg s) h = Some c"
  then show "node_ok (hold c g) (set_ref c (ctx_ref (reg s) c + 1) s)"
    using grab_keeps [OF ok] table_alive [OF ok in_tableI] by blast
qed

lemma context_queue:
  assumes ok: "node_ok g s" and x: "ctxs s c = Some x"
  obtains q gs where "queues (mqs s) (ctx_queue x) = Some q" "\<not> release q" "mq_handle q = ctx_handle (reg s) c" "ring_ok q"
    "mq_inv (mqs s) (working g \<union> starting g) gs"
proof -
  have "ctx_ok g s c x" using node_okD(7) [OF ok x] .
  then obtain q where q: "queues (mqs s) (ctx_queue x) = Some q" "\<not> release q" "mq_handle q = ctx_handle (reg s) c"
    by (auto simp: ctx_ok_def qinfo_def qview_def)
  obtain gs where inv: "mq_inv (mqs s) (working g \<union> starting g) gs" using node_okD(2) [OF ok] by blast
  show ?thesis by (rule that [OF q mq_invD(3) [OF inv q(1)] inv])
qed

lemma qinfo_update: "qview m' = (qview m)(a \<mapsto> (h, r, ms)) \<Longrightarrow> qinfo m a = Some (h, r) \<Longrightarrow> qinfo m' = qinfo m"
  by (auto simp: qinfo_def fun_eq_iff)

text \<open>The messages that wait for a service.\<close>

definition inbox :: "node \<Rightarrow> ctx \<Rightarrow> skynet_message list" where
  "inbox s c = (case ctxs s c of None \<Rightarrow> [] | Some x \<Rightarrow> case qview (mqs s) (ctx_queue x) of None \<Rightarrow> [] | Some (_, _, ms) \<Rightarrow> ms)"

lemma working_same: "g\<lparr>working := working g\<rparr> = g"
  by simp

lemma push_keeps:
  assumes ok: "node_ok g s" and x: "ctxs s c = Some x"
  obtains m' where "on_mqs (skynet_mq_push (ctx_queue x) m) s = Inr (s\<lparr>mqs := m'\<rparr>)" "node_ok g (s\<lparr>mqs := m'\<rparr>)"
    "qview m' = (qview (mqs s))(ctx_queue x \<mapsto> (ctx_handle (reg s) c, False, inbox s c @ [m]))"
proof -
  obtain q gs where q: "queues (mqs s) (ctx_queue x) = Some q" "\<not> release q" "mq_handle q = ctx_handle (reg s) c" "ring_ok q"
      "mq_inv (mqs s) (working g \<union> starting g) gs" by (rule context_queue [OF ok x])
  obtain m' gs' where m': "skynet_mq_push (ctx_queue x) m (mqs s) = Inr m'" "mq_inv m' (working g \<union> starting g) gs'"
    using push_inv [OF q(5) q(1,2)] by blast
  have "inbox s c = contents q" using x q(1) by (simp add: inbox_def qview_def)
  then have v: "qview m' = (qview (mqs s))(ctx_queue x \<mapsto> (ctx_handle (reg s) c, False, inbox s c @ [m]))"
    using qview_mq_push [OF m'(1) q(1,4)] q(2,3) by simp
  have "qinfo (mqs s) (ctx_queue x) = Some (ctx_handle (reg s) c, False)" using node_okD(7) [OF ok x] by (simp add: ctx_ok_def)
  then have i: "qinfo m' = qinfo (mqs s)" using qinfo_update [OF v] by simp
  have "node_ok (g\<lparr>working := working g\<rparr>) (s\<lparr>mqs := m'\<rparr>)" by (rule node_ok_mqs [OF ok m'(2) node_okD(3) [OF ok] i])
  then show ?thesis using that [OF _ _ v] m'(1) by (simp add: on_mqs_def)
qed

text \<open>Releasing what was just taken by its handle: the context is in the table and stays.\<close>

lemma push_handle:
  assumes E: "code_ok E" and ok: "node_ok g s"
  shows "services (reg s) h = None \<Longrightarrow> skynet_context_push E h m s = Inr (-1, s)"
    and "services (reg s) h = Some c \<Longrightarrow> ctxs s c = Some x \<Longrightarrow> \<exists>m'. skynet_context_push E h m s = Inr (0, s\<lparr>mqs := m'\<rparr>) \<and> node_ok g (s\<lparr>mqs := m'\<rparr>) \<and>
      qview m' = (qview (mqs s))(ctx_queue x \<mapsto> (h, False, inbox s c @ [m]))"
proof -
  show "services (reg s) h = None \<Longrightarrow> skynet_context_push E h m s = Inr (-1, s)"
    using handle_grab_ok(1) [OF ok, of h] by (simp add: skynet_context_push_def)
  assume h: "services (reg s) h = Some c" and x: "ctxs s c = Some x"
  define t where "t = set_ref c (ctx_ref (reg s) c + 1) s"
  have t: "node_ok (hold c g) t" using handle_grab_ok(2) [OF ok h] by (simp add: t_def)
  have tx: "ctxs t c = Some x" using x by (simp add: t_def)
  obtain m' where m': "on_mqs (skynet_mq_push (ctx_queue x) m) t = Inr (t\<lparr>mqs := m'\<rparr>)" "node_ok (hold c g) (t\<lparr>mqs := m'\<rparr>)"
      "qview m' = (qview (mqs t))(ctx_queue x \<mapsto> (ctx_handle (reg t) c, False, inbox t c @ [m]))" by (rule push_keeps [OF t tx])
  have "refs g (t\<lparr>mqs := m'\<rparr>) c = refs g s c" by (simp add: refs_def t_def)
  moreover have "0 < refs g s c" using in_tableI [OF h] by (simp add: refs_def)
  ultimately have pos: "0 < refs g (t\<lparr>mqs := m'\<rparr>) c" by simp
  obtain s' where s': "skynet_context_release E c (t\<lparr>mqs := m'\<rparr>) = Inr (Some c, s')" "node_ok g s'"
      "s' = set_ref c (ctx_ref (reg (t\<lparr>mqs := m'\<rparr>)) c - 1) (t\<lparr>mqs := m'\<rparr>)"
    using release_keeps [OF E m'(2)] pos by blast
  have "s' = s\<lparr>mqs := m'\<rparr>" unfolding s'(3) by (simp add: t_def set_ref_def fun_upd_idem)
  moreover have "handle_grab h s = Inr (Some c, t)" using handle_grab_ok(1) [OF ok, of h] h by (simp add: t_def)
  then have "skynet_context_push E h m s = Inr (0, s')"
    using tx m'(1) s'(1) by (simp add: skynet_context_push_def ctx_at_def)
  moreover have "inbox t c = inbox s c" "ctx_handle (reg t) c = h" using services_handle [OF h] by (simp_all add: inbox_def t_def split: option.split)
  ultimately show "\<exists>m'. skynet_context_push E h m s = Inr (0, s\<lparr>mqs := m'\<rparr>) \<and> node_ok g (s\<lparr>mqs := m'\<rparr>) \<and>
      qview m' = (qview (mqs s))(ctx_queue x \<mapsto> (h, False, inbox s c @ [m]))"
    using s'(2) m'(3) by (intro exI [of _ m']) (simp add: t_def)
qed

text \<open>Operations that leave what the threads have in hand as it is.\<close>

lemma push_handle_keeps:
  assumes E: "code_ok E" and ok: "node_ok g s"
  obtains r m' where "skynet_context_push E h m s = Inr (r, s\<lparr>mqs := m'\<rparr>)" "node_ok g (s\<lparr>mqs := m'\<rparr>)"
    "r = 0 \<or> r = -1" "\<forall>a h ms. qview (mqs s) a = Some (h, True, ms) \<longrightarrow> qview m' a = Some (h, True, ms)" "qinfo m' = qinfo (mqs s)"
proof (cases "services (reg s) h")
  case None
  have "s\<lparr>mqs := mqs s\<rparr> = s" by simp
  then show ?thesis using push_handle(1) [OF E ok None, of m] ok that [of "-1" "mqs s"] by simp
next
  case (Some c)
  obtain x where x: "ctxs s c = Some x" using table_alive(1) [OF ok in_tableI [OF Some]] by blast
  obtain m' where m': "skynet_context_push E h m s = Inr (0, s\<lparr>mqs := m'\<rparr>)" "node_ok g (s\<lparr>mqs := m'\<rparr>)"
      "qview m' = (qview (mqs s))(ctx_queue x \<mapsto> (h, False, inbox s c @ [m]))" using push_handle(2) [OF E ok Some x] by blast
  have qi: "qinfo (mqs s) (ctx_queue x) = Some (h, False)" using node_okD(7) [OF ok x] services_handle [OF Some] by (simp add: ctx_ok_def)
  then have "qview m' a = Some (k, True, ms)" if "qview (mqs s) a = Some (k, True, ms)" for a k ms
    using that m'(3) by (cases "a = ctx_queue x") (auto simp: qinfo_def)
  then show ?thesis using that [OF m'(1,2)] qinfo_update [OF m'(3) qi] by blast
qed

text \<open>A state in which only the queues of live services, the log and the remote messages differ.\<close>

definition messages_only :: "node \<Rightarrow> node \<Rightarrow> bool" where
  "messages_only s s' \<longleftrightarrow> reg s' = reg s \<and> dom (ctxs s') = dom (ctxs s) \<and> REMOTE s' = REMOTE s \<and> HARBOR s' = HARBOR s \<and> monitor_exit s' = monitor_exit s \<and>
     (\<forall>c x y. ctxs s c = Some x \<longrightarrow> ctxs s' c = Some y \<longrightarrow> ctx_queue y = ctx_queue x \<and> ctx_init y = ctx_init x) \<and>
     (\<forall>a h ms. qview (mqs s) a = Some (h, True, ms) \<longrightarrow> qview (mqs s') a = Some (h, True, ms)) \<and> qinfo (mqs s') = qinfo (mqs s)"

lemma messages_only_stable: "messages_only s s' \<Longrightarrow> stable g s s'"
  unfolding messages_only_def stable_def by (metis domIff not_None_eq)

lemma messages_only_refl: "messages_only s s"
  by (simp add: messages_only_def)

lemma messages_only_trans: "messages_only s t \<Longrightarrow> messages_only t u \<Longrightarrow> messages_only s u"
  unfolding messages_only_def by (intro conjI) (auto, (metis domIff not_None_eq)+)

lemma push_only:
  assumes E: "code_ok E" and ok: "node_ok g s"
  obtains r s' where "skynet_context_push E h m s = Inr (r, s')" "node_ok g s'" "messages_only s s'"
proof -
  obtain r m' where p: "skynet_context_push E h m s = Inr (r, s\<lparr>mqs := m'\<rparr>)" "node_ok g (s\<lparr>mqs := m'\<rparr>)" "r = 0 \<or> r = -1"
      "\<forall>a h ms. qview (mqs s) a = Some (h, True, ms) \<longrightarrow> qview m' a = Some (h, True, ms)" "qinfo m' = qinfo (mqs s)"
    by (rule push_handle_keeps [OF E ok, of h m])
  show ?thesis by (rule that [OF p(1,2)]) (use p(4,5) in \<open>simp add: messages_only_def\<close>)
qed

lemma node_ok_frame:
  assumes "node_ok g s" "reg s' = reg s" "mqs s' = mqs s" "ctxs s' = ctxs s" "next_ctx s' = next_ctx s" "total s' = total s"
    "HARBOR s' = HARBOR s" "REMOTE s' = REMOTE s"
  shows "node_ok g s'"
proof -
  have "refs g s' = refs g s" using assms by (intro refs_cong) simp_all
  then show ?thesis using assms unfolding node_ok_def ctx_ok_def by simp
qed

text \<open>The fields of a context that the invariant does not look at.\<close>

lemma ctx_put_keeps:
  assumes ok: "node_ok g s" and x: "ctxs s c = Some x" and y: "ctx_queue y = ctx_queue x" "ctx_init y = ctx_init x \<or> ctx_init y"
  shows "node_ok g (ctx_put c y s)"
proof -
  have r: "refs g (ctx_put c y s) = refs g s" by (rule refs_cong) (simp_all add: ctx_put_def)
  have d: "dom (ctxs (ctx_put c y s)) = dom (ctxs s)" using x by (auto simp: ctx_put_def)
  have "ctx_ok g (ctx_put c y s) b z" if "ctxs (ctx_put c y s) b = Some z" for b z
    using that node_okD(7) [OF ok x] node_okD(7) [OF ok, of b z] y unfolding ctx_ok_def r by (auto simp: ctx_put_def split: if_splits)
  then have n1: "\<forall>b z. ctxs (ctx_put c y s) b = Some z \<longrightarrow> ctx_ok g (ctx_put c y s) b z" by blast
  have "b = b'" if "ctxs (ctx_put c y s) b = Some z" "ctxs (ctx_put c y s) b' = Some z'" "ctx_queue z = ctx_queue z'" for b b' z z'
    using ok x that y(1) unfolding node_ok_def ctx_put_def by (simp split: if_splits)
  then have n2: "\<forall>b b' z z'. ctxs (ctx_put c y s) b = Some z \<longrightarrow> ctxs (ctx_put c y s) b' = Some z' \<longrightarrow> ctx_queue z = ctx_queue z' \<longrightarrow> b = b'" by blast
  have n3: "\<forall>b. 0 < refs g s b \<or> b \<in> dying g \<longrightarrow> ctxs (ctx_put c y s) b \<noteq> None" using ok unfolding node_ok_def by (auto simp: ctx_put_def)
  have n4: "\<forall>b\<ge>next_ctx s. ctxs (ctx_put c y s) b = None" using ok x unfolding node_ok_def by (auto simp: ctx_put_def)
  have sel: "reg (ctx_put c y s) = reg s" "mqs (ctx_put c y s) = mqs s" "HARBOR (ctx_put c y s) = HARBOR s" "total (ctx_put c y s) = total s"
    "REMOTE (ctx_put c y s) = REMOTE s" "next_ctx (ctx_put c y s) = next_ctx s" by (simp_all add: ctx_put_def)
  show ?thesis using ok n1 n2 n3 n4 unfolding node_ok_def r d sel by (elim conjE, intro conjI) assumption+
qed

lemma ctx_put_only: "ctxs s c = Some x \<Longrightarrow> ctx_queue y = ctx_queue x \<Longrightarrow> ctx_init y = ctx_init x \<Longrightarrow> messages_only s (ctx_put c y s)"
  by (auto simp: messages_only_def ctx_put_def)

lemma error_keeps:
  assumes E: "code_ok E" and ok: "node_ok g s" and c: "\<And>d. c = Some d \<Longrightarrow> ctxs s d \<noteq> None"
  obtains s' where "skynet_error E c txt s = Inr s'" "node_ok g s'" "messages_only s s'"
proof -
  have n: "names_ok (reg s)" using node_okD(1) [OF ok] by (simp add: registry_ok_def)
  obtain l where l: "(if logger s = 0 then bind_res (skynet_handle_findname ''logger'' (reg s)) (\<lambda>h. Inr (s\<lparr>logger := h\<rparr>)) else Inr s) = Inr (s\<lparr>logger := l\<rparr>)"
  proof (cases "logger s = 0")
    case True
    then show ?thesis using findname_ok [OF n, of "''logger''"] by (intro that) simp
  next
    case False
    then show ?thesis by (intro that [of "logger s"]) simp
  qed
  define t where "t = s\<lparr>logger := l\<rparr>"
  have t: "node_ok g t" by (rule node_ok_frame [OF ok]) (simp_all add: t_def)
  have lt: "logger t = l" by (simp add: t_def)
  have st: "messages_only s t" by (simp add: messages_only_def t_def)
  show ?thesis
  proof (cases "l = 0")
    case True
    then show ?thesis using l t st by (intro that [of t]) (simp_all add: skynet_error_def t_def)
  next
    case False
    have "\<exists>src. (case c of None \<Rightarrow> Inr 0 | Some c \<Rightarrow> bind_res (ctx_at c t) (\<lambda>_. Inr (ctx_handle (reg t) c))) = Inr src"
      using c by (cases c) (auto simp: ctx_at_def t_def split: option.split)
    then obtain src where src: "(case c of None \<Rightarrow> Inr 0 | Some c \<Rightarrow> bind_res (ctx_at c t) (\<lambda>_. Inr (ctx_handle (reg t) c))) = Inr src" by blast
    obtain r s' where p: "skynet_context_push E l
        \<lparr>source = src, session = 0, msg_data = Some (text_payload txt), msg_sz = length txt OR push_bit MESSAGE_TYPE_SHIFT PTYPE_TEXT\<rparr> t = Inr (r, s')"
        "node_ok g s'" "messages_only t s'" by (rule push_only [OF E t])
    have "skynet_error E c txt s = Inr s'"
      unfolding skynet_error_def l t_def [symmetric] using src p(1) False lt by simp
    then show ?thesis using p(2) messages_only_trans [OF st p(3)] by (rule that)
  qed
qed

lemma newsession_keeps:
  assumes ok: "node_ok g s" and c: "ctxs s c \<noteq> None"
  obtains n s' where "skynet_context_newsession c s = Inr (n, s')" "0 < n" "node_ok g s'" "messages_only s s'" "mqs s' = mqs s"
proof -
  obtain x where x: "ctxs s c = Some x" using c by blast
  define y where "y = x\<lparr>session_id := if sint (session_id x + 1) \<le> 0 then 1 else session_id x + 1\<rparr>"
  have "skynet_context_newsession c s = Inr (if sint (session_id x + 1) \<le> 0 then 1 else sint (session_id x + 1), ctx_put c y s)"
    using x by (simp add: skynet_context_newsession_def ctx_at_def y_def Let_def)
  then show ?thesis
    by (rule that) (use ctx_put_keeps [OF ok x, of y] ctx_put_only [OF x, of y] in \<open>simp_all add: y_def ctx_put_def\<close>)
qed

lemma message_type:
  assumes "sz AND MESSAGE_TYPE_MASK = sz"
  shows "drop_bit MESSAGE_TYPE_SHIFT (sz OR push_bit MESSAGE_TYPE_SHIFT t) = t" "(sz OR push_bit MESSAGE_TYPE_SHIFT t) AND MESSAGE_TYPE_MASK = sz"
proof -
  have m: "MESSAGE_TYPE_MASK = Bit_Operations.mask MESSAGE_TYPE_SHIFT"
    by (simp add: MESSAGE_TYPE_MASK_def MESSAGE_TYPE_SHIFT_def mask_eq_exp_minus_1 drop_bit_eq_div)
  have tk: "take_bit MESSAGE_TYPE_SHIFT sz = sz" using assms by (simp add: take_bit_eq_mask m)
  have "drop_bit MESSAGE_TYPE_SHIFT (take_bit MESSAGE_TYPE_SHIFT sz) = 0" by (simp add: drop_bit_take_bit)
  then have "drop_bit MESSAGE_TYPE_SHIFT sz = 0" unfolding tk .
  then show "drop_bit MESSAGE_TYPE_SHIFT (sz OR push_bit MESSAGE_TYPE_SHIFT t) = t"
    by (simp add: drop_bit_or) (simp add: drop_bit_eq_div push_bit_eq_mult)
  have "take_bit MESSAGE_TYPE_SHIFT (push_bit MESSAGE_TYPE_SHIFT t) = 0" by (simp add: take_bit_push_bit)
  then have "take_bit MESSAGE_TYPE_SHIFT (sz OR push_bit MESSAGE_TYPE_SHIFT t) = sz" using tk by (simp add: take_bit_or)
  then show "(sz OR push_bit MESSAGE_TYPE_SHIFT t) AND MESSAGE_TYPE_MASK = sz" by (simp add: take_bit_eq_mask m)
qed

lemma harbor_send_keeps:
  assumes ok: "node_ok g s" and st: "REMOTE s \<noteq> None" and type: "invalid_type (rm_type rmsg)"
  obtains s' where "skynet_harbor_send rmsg src ses s = Inr s'" "node_ok g s'" "messages_only s s'"
proof -
  obtain c where c: "REMOTE s = Some c" using st by blast
  define t where "t = s\<lparr>rmsgs := rmsgs s @ [rmsg]\<rparr>"
  have t: "node_ok g t" by (rule node_ok_frame [OF ok]) (simp_all add: t_def)
  have "0 < refs g t c" using c by (simp add: refs_def t_def)
  then obtain x where x: "ctxs t c = Some x" using node_okD(5) [OF t] by blast
  define m where "m = \<lparr>source = src, session = ses, msg_data = Some (length (rmsgs s)), msg_sz = 48 OR push_bit MESSAGE_TYPE_SHIFT PTYPE_SYSTEM\<rparr>"
  obtain m' where m': "on_mqs (skynet_mq_push (ctx_queue x) m) t = Inr (t\<lparr>mqs := m'\<rparr>)" "node_ok g (t\<lparr>mqs := m'\<rparr>)"
      "qview m' = (qview (mqs t))(ctx_queue x \<mapsto> (ctx_handle (reg t) c, False, inbox t c @ [m]))" by (rule push_keeps [OF t x])
  have qi: "qinfo (mqs t) (ctx_queue x) = Some (ctx_handle (reg t) c, False)" using node_okD(7) [OF t x] by (simp add: ctx_ok_def)
  then have "qview m' a = Some (k, True, ms)" if "qview (mqs t) a = Some (k, True, ms)" for a k ms
    using that m'(3) by (cases "a = ctx_queue x") (auto simp: qinfo_def)
  then have "messages_only s (t\<lparr>mqs := m'\<rparr>)" using qinfo_update [OF m'(3) qi] by (simp add: messages_only_def t_def)
  moreover have "skynet_harbor_send rmsg src ses s = Inr (t\<lparr>mqs := m'\<rparr>)"
    using c type x m'(1) by (simp add: skynet_harbor_send_def skynet_context_send_def ctx_at_def t_def [symmetric] m_def)
  ultimately show ?thesis using m'(2) by (intro that)
qed

text \<open>
  What a call of \<open>skynet_send\<close> has to meet: the sender lives and a session is not both given and asked for; and
  only with a harbor, and with a type that is not reserved, a message may go to another node.
\<close>

definition sender_ok :: "node \<Rightarrow> ctx option \<Rightarrow> u32 \<Rightarrow> nat \<Rightarrow> int \<Rightarrow> bool" where
  "sender_ok s c src type ses \<longleftrightarrow> (\<forall>d. c = Some d \<longrightarrow> ctxs s d \<noteq> None) \<and> (src = 0 \<longrightarrow> c \<noteq> None) \<and>
     (type AND PTYPE_TAG_ALLOCSESSION \<noteq> 0 \<longrightarrow> ses = 0 \<and> c \<noteq> None)"

definition send_pre :: "node \<Rightarrow> ctx option \<Rightarrow> u32 \<Rightarrow> nat \<Rightarrow> int \<Rightarrow> bool" where
  "send_pre s c src type ses \<longleftrightarrow> sender_ok s c src type ses \<and> REMOTE s \<noteq> None \<and> invalid_type (type AND 0xff)"

lemma filter_args_keeps:
  assumes ok: "node_ok g s" and pre: "sender_ok s c src type ses"
  obtains n s' where "filter_args c type ses sz s = Inr (n, sz OR push_bit MESSAGE_TYPE_SHIFT (type AND 0xff), s')" "node_ok g s'" "messages_only s s'"
    "mqs s' = mqs s" "if type AND PTYPE_TAG_ALLOCSESSION = 0 then n = ses else 0 < n"
proof (cases "type AND PTYPE_TAG_ALLOCSESSION = 0")
  case True
  then show ?thesis using ok by (intro that [of ses s]) (simp_all add: filter_args_def messages_only_refl)
next
  case False
  then obtain d where d: "c = Some d" "ses = 0" "ctxs s d \<noteq> None" using pre by (auto simp: sender_ok_def)
  obtain n s' where "skynet_context_newsession d s = Inr (n, s')" "0 < n" "node_ok g s'" "messages_only s s'" "mqs s' = mqs s" by (rule newsession_keeps [OF ok d(3)])
  then show ?thesis using False d by (intro that [of n s']) (simp_all add: filter_args_def)
qed

lemma own_handle_ok:
  assumes "sender_ok s c src type ses" and "messages_only s s'"
  shows "own_handle c src s' = Inr (if src = 0 then ctx_handle (reg s) (the c) else src)"
proof (cases "src = 0")
  case True
  then obtain d where d: "c = Some d" "ctxs s d \<noteq> None" using assms(1) by (auto simp: sender_ok_def)
  then have "ctxs s' d \<noteq> None" using assms(2) by (auto simp: messages_only_def)
  then show ?thesis using True d(1) assms(2) by (auto simp: own_handle_def ctx_at_def messages_only_def)
qed (simp add: own_handle_def)

lemma send_keeps:
  assumes E: "code_ok E" and ok: "node_ok g s" and pre: "send_pre s c src type ses"
  obtains r s' where "skynet_send E c src dest type ses data sz s = Inr (r, s')" "node_ok g s'" "messages_only s s'"
proof (cases "sz AND MESSAGE_TYPE_MASK = sz")
  case False
  have "\<And>d. c = Some d \<Longrightarrow> ctxs s d \<noteq> None" using pre by (simp add: send_pre_def sender_ok_def)
  then obtain s' where "skynet_error E c (''The message to '' @ hex dest @ '' is too large'') s = Inr s'" "node_ok g s'" "messages_only s s'"
    using error_keeps [OF E ok] by metis
  then show ?thesis using False that by (simp add: skynet_send_def)
next
  case True
  have snd: "sender_ok s c src type ses" using pre by (simp add: send_pre_def)
  define z where "z = sz OR push_bit MESSAGE_TYPE_SHIFT (type AND 0xff)"
  obtain n t where t: "filter_args c type ses sz s = Inr (n, z, t)" "node_ok g t" "messages_only s t"
    unfolding z_def by (rule filter_args_keeps [OF ok snd])
  obtain h where h: "own_handle c src t = Inr h" using own_handle_ok [OF snd t(3)] by blast
  have alive: "ctxs t d \<noteq> None" if "c = Some d" for d using snd t(3) that by (auto simp: sender_ok_def messages_only_def)
  show ?thesis
  proof (cases "dest = 0")
    case True
    obtain s' where "skynet_error E c ''Destination address can't be 0'' t = Inr s'" "node_ok g s'" "messages_only t s'"
      using error_keeps [OF E t(2)] alive by metis
    then show ?thesis using True \<open>sz AND MESSAGE_TYPE_MASK = sz\<close> t h messages_only_trans [OF t(3)]
      by (cases "data = None") (auto simp: skynet_send_def intro: that)
  next
    case False
    obtain rem where rem: "skynet_harbor_message_isremote dest t = Inr rem"
      using node_okD(4) [OF t(2)] by (simp add: skynet_harbor_message_isremote_def Let_def)
    show ?thesis
    proof (cases rem)
      case True
      define rm where "rm = \<lparr>rm_handle = dest, rm_name = [], rm_message = data, rm_sz = z AND MESSAGE_TYPE_MASK, rm_type = drop_bit MESSAGE_TYPE_SHIFT z\<rparr>"
      have "rm_type rm = type AND 0xff" unfolding rm_def z_def remote_message.simps by (rule message_type(1) [OF \<open>sz AND MESSAGE_TYPE_MASK = sz\<close>])
      then have "invalid_type (rm_type rm)" "REMOTE t \<noteq> None" using pre t(3) by (simp_all add: send_pre_def messages_only_def)
      then obtain s' where "skynet_harbor_send rm h n t = Inr s'" "node_ok g s'" "messages_only t s'" using harbor_send_keeps [OF t(2)] by metis
      then show ?thesis using True False \<open>sz AND MESSAGE_TYPE_MASK = sz\<close> t(1) h rem messages_only_trans [OF t(3)]
        by (auto simp: skynet_send_def rm_def intro: that)
    next
      case nr: False
      obtain r s' where "skynet_context_push E dest \<lparr>source = h, session = n, msg_data = data, msg_sz = z\<rparr> t = Inr (r, s')" "node_ok g s'" "messages_only t s'"
        by (rule push_only [OF E t(2)])
      then show ?thesis using nr False \<open>sz AND MESSAGE_TYPE_MASK = sz\<close> t(1) h rem messages_only_trans [OF t(3)]
        by (cases "r = 0") (auto simp: skynet_send_def intro: that)
    qed
  qed
qed

section \<open>Queues in the hands of workers\<close>

lemma gpop_keeps:
  assumes ok: "node_ok g s"
  obtains r m where "from_mqs skynet_globalmq_pop s = Inr (r, s\<lparr>mqs := m\<rparr>)" "node_ok (g\<lparr>working := working g \<union> set_option r\<rparr>) (s\<lparr>mqs := m\<rparr>)"
    "qview m = qview (mqs s)" "set_option r \<inter> (working g \<union> starting g) = {}"
proof -
  obtain gs where inv: "mq_inv (mqs s) (working g \<union> starting g) gs" using node_okD(2) [OF ok] by blast
  from global_pop_inv [OF inv] show ?thesis
  proof (elim disjE exE conjE)
    assume "skynet_globalmq_pop (mqs s) = Inr (None, mqs s)"
    then show ?thesis using ok by (intro that [of None "mqs s"]) (simp_all add: from_mqs_def)
  next
    fix a gs' m assume g: "gs = a # gs'" and pop: "skynet_globalmq_pop (mqs s) = Inr (Some a, m)" and inv': "mq_inv m (insert a (working g \<union> starting g)) gs'"
    obtain q where "queues (mqs s) a = Some q" using inv g by (auto simp: mq_inv_def)
    then have out: "a \<notin> working g \<union> starting g" using mq_invD(1) [OF inv] g by (fastforce simp: queue_ok_def)
    have v: "qview m = qview (mqs s)" by (rule qview_pop [OF pop])
    have "node_ok (g\<lparr>working := insert a (working g)\<rparr>) (s\<lparr>mqs := m\<rparr>)"
      by (rule node_ok_mqs [OF ok]) (use inv' out node_okD(3) [OF ok] v in \<open>auto simp: qinfo_def fun_eq_iff\<close>)
    then show ?thesis using pop v out by (intro that [of "Some a" m]) (simp_all add: from_mqs_def)
  qed
qed

lemma gpush_keeps:
  assumes ok: "node_ok g s" and a: "a \<in> working g"
  obtains m where "on_mqs (skynet_globalmq_push a) s = Inr (s\<lparr>mqs := m\<rparr>)" "node_ok (g\<lparr>working := working g - {a}\<rparr>) (s\<lparr>mqs := m\<rparr>)" "qview m = qview (mqs s)"
proof -
  obtain gs where inv: "mq_inv (mqs s) (working g \<union> starting g) gs" using node_okD(2) [OF ok] by blast
  obtain m gs' where m: "skynet_globalmq_push a (mqs s) = Inr m" "mq_inv m (working g \<union> starting g - {a}) gs'" using giveback_inv [OF inv] a by blast
  have "working g \<union> starting g - {a} = (working g - {a}) \<union> starting g" using a node_okD(3) [OF ok] by blast
  then have "node_ok (g\<lparr>working := working g - {a}\<rparr>) (s\<lparr>mqs := m\<rparr>)"
    by (intro node_ok_mqs [OF ok]) (use m node_okD(3) [OF ok] qview_push [OF m(1)] in \<open>auto simp: qinfo_def fun_eq_iff\<close>)
  then show ?thesis using m(1) qview_push [OF m(1)] by (intro that [of m]) (simp_all add: on_mqs_def)
qed

lemma mqpop_keeps:
  assumes ok: "node_ok g s" and a: "a \<in> working g" and v: "qview (mqs s) a = Some (h, False, ms)"
  obtains r m where "from_mqs (skynet_mq_pop a) s = Inr (r, s\<lparr>mqs := m\<rparr>)" "r = (case ms of [] \<Rightarrow> None | m # _ \<Rightarrow> Some m)"
    "node_ok (if r = None then g\<lparr>working := working g - {a}\<rparr> else g) (s\<lparr>mqs := m\<rparr>)" "qview m = (qview (mqs s))(a \<mapsto> (h, False, tl ms))"
proof -
  obtain gs where inv: "mq_inv (mqs s) (working g \<union> starting g) gs" using node_okD(2) [OF ok] by blast
  obtain q where q: "queues (mqs s) a = Some q" "\<not> release q" "mq_handle q = h" "contents q = ms" using v by (auto simp: qview_Some)
  obtain r m where p: "skynet_mq_pop a (mqs s) = Inr (r, m)" "mq_inv m (if r = None then working g \<union> starting g - {a} else working g \<union> starting g) gs"
    using dispatch_inv [OF inv _ q(1,2)] a by blast
  have vm: "qview m = (qview (mqs s))(a \<mapsto> (h, False, tl ms))" "r = (case ms of [] \<Rightarrow> None | m # _ \<Rightarrow> Some m)"
    using qview_mq_pop [OF p(1) q(1) mq_invD(3) [OF inv q(1)]] q(2-4) by simp_all
  have i: "qinfo m = qinfo (mqs s)" by (rule qinfo_update [OF vm(1)]) (simp add: qinfo_def v)
  define W where "W = (if r = None then working g - {a} else working g)"
  have W: "(if r = None then working g \<union> starting g - {a} else working g \<union> starting g) = W \<union> starting g" "W \<inter> starting g = {}"
    using a node_okD(3) [OF ok] by (auto simp: W_def)
  have "node_ok (g\<lparr>working := W\<rparr>) (s\<lparr>mqs := m\<rparr>)" by (rule node_ok_mqs [OF ok _ W(2) i]) (use p(2) W(1) in simp)
  then have "node_ok (if r = None then g\<lparr>working := working g - {a}\<rparr> else g) (s\<lparr>mqs := m\<rparr>)" by (cases r) (simp_all add: W_def)
  then show ?thesis using p(1) vm by (intro that [of r m]) (simp_all add: from_mqs_def)
qed

lemma drop_step_keeps:
  assumes ok: "node_ok g s" and a: "a \<in> working g \<union> starting g" and v: "qview (mqs s) a = Some (h, True, ms)"
  obtains m where "from_mqs (skynet_mq_pop a) s = Inr (case ms of [] \<Rightarrow> None | m # _ \<Rightarrow> Some m, s\<lparr>mqs := m\<rparr>)"
    "node_ok g (s\<lparr>mqs := m\<rparr>)" "qview m = (qview (mqs s))(a \<mapsto> (h, True, tl ms))"
proof -
  obtain gs where inv: "mq_inv (mqs s) (working g \<union> starting g) gs" using node_okD(2) [OF ok] by blast
  obtain q where q: "queues (mqs s) a = Some q" "release q" "mq_handle q = h" "contents q = ms" using v by (auto simp: qview_Some)
  obtain m where m: "skynet_mq_pop a (mqs s) = Inr (case ms of [] \<Rightarrow> None | m # _ \<Rightarrow> Some m, m)" "mq_inv m (working g \<union> starting g) gs"
    using drop_pop_inv [OF inv a q(1,2)] q(4) by auto
  have vm: "qview m = (qview (mqs s))(a \<mapsto> (h, True, tl ms))"
    using qview_mq_pop(1) [OF m(1) q(1) mq_invD(3) [OF inv q(1)]] q(2-4) by simp
  have i: "qinfo m = qinfo (mqs s)" by (rule qinfo_update [OF vm]) (simp add: qinfo_def v)
  have "node_ok (g\<lparr>working := working g\<rparr>) (s\<lparr>mqs := m\<rparr>)" by (rule node_ok_mqs [OF ok m(2) node_okD(3) [OF ok] i])
  then show ?thesis using m(1) vm by (intro that [of m]) (simp_all add: from_mqs_def)
qed

definition unhand :: "qaddr \<Rightarrow> ghost \<Rightarrow> ghost" where
  "unhand a g = g\<lparr>working := working g - {a}, starting := starting g - {a}\<rparr>"

lemma unhand_simps [simp]:
  "holds (unhand a g) = holds g" "dying (unhand a g) = dying g" "started (unhand a g) = started g"
  "working (unhand a g) = working g - {a}" "starting (unhand a g) = starting g - {a}"
  by (simp_all add: unhand_def)

lemma unhand_working: "node_ok g s \<Longrightarrow> a \<in> working g \<Longrightarrow> unhand a g = g\<lparr>working := working g - {a}\<rparr>"
proof -
  assume "node_ok g s" "a \<in> working g"
  then have "starting g - {a} = starting g" using node_okD(3) [of g s] by blast
  then show ?thesis by (simp add: unhand_def)
qed

text \<open>A queue that no context has any more is given out of hand.\<close>

lemma unhand_keeps:
  assumes ok: "node_ok g s" and inv: "mq_inv m (working g \<union> starting g - {a}) gs"
    and i: "\<And>b h r. qinfo m b = Some (h, r) \<Longrightarrow> qinfo (mqs s) b = Some (h, r)" "\<And>b. b \<noteq> a \<Longrightarrow> qinfo m b = qinfo (mqs s) b"
    and own: "\<And>c x. ctxs s c = Some x \<Longrightarrow> ctx_queue x = a \<Longrightarrow> qinfo m a = qinfo (mqs s) a \<and> (ctx_init x \<or> \<not> in_table (reg s) c)"
  shows "node_ok (unhand a g) (s\<lparr>mqs := m\<rparr>)"
proof -
  have r: "refs (unhand a g) (s\<lparr>mqs := m\<rparr>) = refs g s" by (rule refs_cong) simp_all
  have hand: "(working g - {a}) \<union> (starting g - {a}) = working g \<union> starting g - {a}" by blast
  have "ctx_ok (unhand a g) (s\<lparr>mqs := m\<rparr>) c x" if x: "ctxs s c = Some x" for c x
    using node_okD(7) [OF ok x] own [OF x] i(2) [of "ctx_queue x"] unfolding ctx_ok_def r by (cases "ctx_queue x = a") auto
  then have n1: "\<forall>c x. ctxs s c = Some x \<longrightarrow> ctx_ok (unhand a g) (s\<lparr>mqs := m\<rparr>) c x" by blast
  have n2: "\<exists>gs. mq_inv m (working (unhand a g) \<union> starting (unhand a g)) gs" using inv hand by auto
  have n3: "working (unhand a g) \<inter> starting (unhand a g) = {}" using node_okD(3) [OF ok] by auto
  have n4: "\<forall>b b' h r r'. qinfo m b = Some (h, r) \<longrightarrow> qinfo m b' = Some (h, r') \<longrightarrow> b = b'"
    using node_ok_queues(1) [OF ok] i(1) by metis
  have n5: "\<forall>b h r. qinfo m b = Some (h, r) \<longrightarrow> h \<noteq> 0 \<and> unat h mod 2 ^ 24 < unat (handle_index (reg s))"
    using node_ok_queues(2) [OF ok] i(1) by metis
  have sel: "reg (s\<lparr>mqs := m\<rparr>) = reg s" "mqs (s\<lparr>mqs := m\<rparr>) = m" "HARBOR (s\<lparr>mqs := m\<rparr>) = HARBOR s" "total (s\<lparr>mqs := m\<rparr>) = total s"
    "REMOTE (s\<lparr>mqs := m\<rparr>) = REMOTE s" "next_ctx (s\<lparr>mqs := m\<rparr>) = next_ctx s" "ctxs (s\<lparr>mqs := m\<rparr>) = ctxs s" by simp_all
  show ?thesis using ok n1 n2 n3 n4 n5 unfolding node_ok_def r sel unhand_simps(2,3) by (elim conjE, intro conjI) assumption+
qed

lemma free_keeps:
  assumes ok: "node_ok g s" and a: "a \<in> working g \<union> starting g" and v: "qview (mqs s) a = Some (h, True, ms)"
  obtains m where "on_mqs (release_queue a) s = Inr (s\<lparr>mqs := m\<rparr>)" "node_ok (unhand a g) (s\<lparr>mqs := m\<rparr>)" "qview m = (qview (mqs s))(a := None)"
proof -
  obtain gs where inv: "mq_inv (mqs s) (working g \<union> starting g) gs" using node_okD(2) [OF ok] by blast
  define m where "m = (mqs s)\<lparr>queues := (queues (mqs s))(a := None)\<rparr>"
  note f = free_inv [OF inv a, folded m_def]
  have vm: "qview m = (qview (mqs s))(a := None)" by (auto simp: qview_def m_def fun_eq_iff)
  have none: "ctx_queue x \<noteq> a" if "ctxs s c = Some x" for c x
    using node_okD(7) [OF ok that] v by (auto simp: ctx_ok_def qinfo_def)
  have "node_ok (unhand a g) (s\<lparr>mqs := m\<rparr>)"
    by (rule unhand_keeps [OF ok f(2)]) (use none vm in \<open>auto simp: qinfo_def split: if_splits\<close>)
  then show ?thesis using f(1) vm by (intro that [of m]) (simp_all add: on_mqs_def)
qed

lemma drop_message_keeps:
  assumes E: "code_ok E" and ok: "node_ok g s" and st: "started g" and h: "h \<noteq> 0"
  obtains s' where "drop_message E h m s = Inr s'" "node_ok g s'" "messages_only s s'"
proof -
  have "send_pre s None h PTYPE_ERROR 0"
    using node_okD(8) [OF ok st] h by (simp add: send_pre_def sender_ok_def PTYPE_ERROR_def PTYPE_TAG_ALLOCSESSION_def invalid_type_def PTYPE_SYSTEM_def PTYPE_HARBOR_def)
  then obtain r s' where "skynet_send E None h (source m) PTYPE_ERROR 0 None 0 s = Inr (r, s')" "node_ok g s'" "messages_only s s'"
    by (rule send_keeps [OF E ok])
  then show ?thesis using h by (intro that [of s']) (simp_all add: drop_message_def)
qed

lemma drop_queue_keeps:
  assumes E: "code_ok E" and st: "started g" and h: "h \<noteq> 0" and a: "a \<in> working g \<union> starting g"
  shows "node_ok g s \<Longrightarrow> qview (mqs s) a = Some (k, True, ms) \<Longrightarrow> length ms < fuel \<Longrightarrow>
    \<exists>s'. drop_queue fuel E h a s = Inr s' \<and> node_ok (unhand a g) s' \<and> stable (unhand a g) s s' \<and> reg s' = reg s"
proof (induction fuel arbitrary: s ms)
  case (Suc fuel)
  obtain m where m: "from_mqs (skynet_mq_pop a) s = Inr (case ms of [] \<Rightarrow> None | m # _ \<Rightarrow> Some m, s\<lparr>mqs := m\<rparr>)"
    "node_ok g (s\<lparr>mqs := m\<rparr>)" "qview m = (qview (mqs s))(a \<mapsto> (k, True, tl ms))" by (rule drop_step_keeps [OF Suc.prems(1) a Suc.prems(2)])
  have sm: "stable (unhand a g) s (s\<lparr>mqs := m\<rparr>)" using m(3) by (auto simp: stable_def qinfo_def)
  show ?case
  proof (cases ms)
    case Nil
    have v: "qview (mqs (s\<lparr>mqs := m\<rparr>)) a = Some (k, True, [])" using m(3) Nil by simp
    obtain m' where m': "on_mqs (release_queue a) (s\<lparr>mqs := m\<rparr>) = Inr (s\<lparr>mqs := m, mqs := m'\<rparr>)" "node_ok (unhand a g) (s\<lparr>mqs := m, mqs := m'\<rparr>)"
      "qview m' = (qview m)(a := None)" using free_keeps [OF m(2) a v] by auto
    have "stable (unhand a g) (s\<lparr>mqs := m\<rparr>) (s\<lparr>mqs := m, mqs := m'\<rparr>)" using m'(3) by (auto simp: stable_def qinfo_def)
    then show ?thesis using m(1) Nil m' stable_trans [OF sm] by auto
  next
    case (Cons y ys)
    obtain t where t: "drop_message E h y (s\<lparr>mqs := m\<rparr>) = Inr t" "node_ok g t" "messages_only (s\<lparr>mqs := m\<rparr>) t"
      by (rule drop_message_keeps [OF E m(2) st h])
    have "qview (mqs t) a = Some (k, True, ys)" using t(3) m(3) Cons by (simp add: messages_only_def)
    then obtain s' where s': "drop_queue fuel E h a t = Inr s'" "node_ok (unhand a g) s'" "stable (unhand a g) t s'" "reg s' = reg t"
      using Suc.IH [OF t(2)] Suc.prems(3) Cons by auto
    have "stable (unhand a g) s s'" using sm messages_only_stable [OF t(3)] s'(3) by (metis stable_trans)
    moreover have "reg t = reg s" using t(3) by (simp add: messages_only_def)
    ultimately show ?thesis using m(1) Cons t(1) s' by auto
  qed
qed simp

text \<open>Releasing a queue in hand: it is freed when its context is gone, and put back to be released later when not.\<close>

lemma mq_release_keeps:
  assumes E: "code_ok E" and ok: "node_ok g s" and st: "started g" and h: "h \<noteq> 0" and a: "a \<in> working g \<union> starting g"
    and fuel: "\<And>k r ms. qview (mqs s) a = Some (k, r, ms) \<Longrightarrow> length ms < fuel"
    and own: "\<And>c x. ctxs s c = Some x \<Longrightarrow> ctx_queue x = a \<Longrightarrow> a \<in> working g \<or> ctx_init x \<or> \<not> in_table (reg s) c"
  obtains s' where "mq_release fuel E h a s = Inr s'" "node_ok (unhand a g) s'" "stable (unhand a g) s s'"
proof -
  obtain gs where inv: "mq_inv (mqs s) (working g \<union> starting g) gs" using node_okD(2) [OF ok] by blast
  obtain q where q: "queues (mqs s) a = Some q" using mq_inv_held [OF inv a] by blast
  then have v: "qview (mqs s) a = Some (mq_handle q, release q, contents q)" by (simp add: qview_def)
  show ?thesis
  proof (cases "release q")
    case True
    then have "qview (mqs s) a = Some (mq_handle q, True, contents q)" using v by simp
    from drop_queue_keeps [OF E st h a ok this fuel [OF v]] show ?thesis
      using True q that by (auto simp: mq_release_def mq_at_def)
  next
    case False
    obtain m gs' where m: "skynet_globalmq_push a (mqs s) = Inr m" "mq_inv m (working g \<union> starting g - {a}) gs'" using giveback_inv [OF inv a] by blast
    have vm: "qview m = qview (mqs s)" by (rule qview_push [OF m(1)])
    have "ctx_init x \<or> \<not> in_table (reg s) c" if "ctxs s c = Some x" "ctx_queue x = a" for c x
      using own [OF that] node_okD(7) [OF ok that(1)] that(2) node_okD(3) [OF ok] by (auto simp: ctx_ok_def)
    then have "node_ok (unhand a g) (s\<lparr>mqs := m\<rparr>)" by (intro unhand_keeps [OF ok m(2)]) (use vm in \<open>auto simp: qinfo_def\<close>)
    moreover have "stable (unhand a g) s (s\<lparr>mqs := m\<rparr>)" using vm by (auto simp: stable_def qinfo_def)
    ultimately show ?thesis using False q m(1) by (intro that [of "s\<lparr>mqs := m\<rparr>"]) (simp_all add: mq_release_def mq_at_def on_mqs_def)
  qed
qed

section \<open>The work of a worker\<close>

lemma set_mqs_stable: "qinfo m = qinfo (mqs s) \<Longrightarrow> stable g s (s\<lparr>mqs := m\<rparr>)"
  by (auto simp: stable_def)

lemma overload_keeps:
  assumes ok: "node_ok g s" and a: "a \<in> working g"
  obtains n m where "queue_overload a s = Inr (n, s\<lparr>mqs := m\<rparr>)" "node_ok g (s\<lparr>mqs := m\<rparr>)" "qview m = qview (mqs s)"
proof -
  obtain gs where inv: "mq_inv (mqs s) (working g \<union> starting g) gs" using node_okD(2) [OF ok] by blast
  obtain q where q: "queues (mqs s) a = Some q" using mq_inv_held [OF inv] a by blast
  define q' where "q' = snd (skynet_mq_overload q)"
  have q': "mq_handle q' = mq_handle q" "release q' = release q" "contents q' = contents q" "mq_next q' = mq_next q" "ring_ok q' = ring_ok q"
      "in_global q' = in_global q"
    by (simp_all add: q'_def skynet_mq_overload_def contents_def skynet_mq_length_def ring_ok_def)
  define m where "m = mq_put a q' (mqs s)"
  have "queue_ok (a \<in> set gs) (a \<in> working g \<union> starting g) q'" using mq_invD(1) [OF inv q] q' by (simp add: queue_ok_def)
  then have im: "mq_inv m (working g \<union> starting g) gs" unfolding m_def by (intro inv_update [OF inv q q'(4)]) simp_all
  have vm: "qview m = qview (mqs s)" unfolding m_def by (rule qview_put_same [OF q q'(1-3)])
  have "node_ok (g\<lparr>working := working g\<rparr>) (s\<lparr>mqs := m\<rparr>)" by (rule node_ok_mqs [OF ok im node_okD(3) [OF ok]]) (simp add: vm qinfo_def fun_eq_iff)
  then show ?thesis using q vm
    by (intro that [of "fst (skynet_mq_overload q)" m]) (simp_all add: queue_overload_def mq_at_def m_def q'_def case_prod_beta Let_def)
qed

text \<open>A worker that holds a context and its queue.\<close>

definition ready :: "ghost \<Rightarrow> ctx \<Rightarrow> qaddr \<Rightarrow> node \<Rightarrow> bool" where
  "ready g c a s \<longleftrightarrow> node_ok g s \<and> 0 < holds g c \<and> a \<in> working g \<and> (\<exists>x. ctxs s c = Some x \<and> ctx_queue x = a \<and> ctx_init x)"

lemma ready_stable: "ready g c a s \<Longrightarrow> node_ok g s' \<Longrightarrow> stable g s s' \<Longrightarrow> ready g c a s'"
  unfolding ready_def stable_def by metis

lemma dispatch_message_keeps:
  assumes E: "code_ok E" and r: "ready g c a s"
  obtains s' where "dispatch_message E c m s = Inr s'" "node_ok g s'" "stable g s s'"
proof -
  obtain x where x: "ctxs s c = Some x" "ctx_init x" and ok: "node_ok g s" and h: "0 < holds g c" using r by (auto simp: ready_def)
  define t where "t = ctx_put c (x\<lparr>message_count := message_count x + 1\<rparr>) s"
  have t: "node_ok g t" unfolding t_def by (rule ctx_put_keeps [OF ok x(1)]) simp_all
  have st: "stable g s t" unfolding t_def by (rule messages_only_stable [OF ctx_put_only [OF x(1)]]) simp_all
  obtain b s' where b: "instance_cb E c m t = Inr (b, s')" "node_ok g s'" "stable g t s'" using E t h unfolding code_ok_def by blast
  then show ?thesis using x stable_trans [OF st b(3)] by (intro that [of s']) (simp_all add: dispatch_message_def ctx_at_def t_def)
qed

lemma dispatch_round_keeps:
  assumes E: "code_ok E" and r: "ready g c a s"
  obtains sm' s' where "dispatch_round E a h c m (sm, s) = Inr (sm', s')" "ready g c a s'" "stable g s s'"
proof -
  have ok: "node_ok g s" and a: "a \<in> working g" using r by (simp_all add: ready_def)
  obtain n mm where o: "queue_overload a s = Inr (n, s\<lparr>mqs := mm\<rparr>)" "node_ok g (s\<lparr>mqs := mm\<rparr>)" "qview mm = qview (mqs s)" by (rule overload_keeps [OF ok a])
  have so: "stable g s (s\<lparr>mqs := mm\<rparr>)" using o(3) by (intro set_mqs_stable) (simp add: qinfo_def fun_eq_iff)
  have alive: "\<And>d. Some c = Some d \<Longrightarrow> ctxs (s\<lparr>mqs := mm\<rparr>) d \<noteq> None" using r by (auto simp: ready_def)
  obtain t where t: "(if n \<noteq> 0 then skynet_error E (Some c) (''May overload, message queue length = '' @ print_nat 10 n) (s\<lparr>mqs := mm\<rparr>) else Inr (s\<lparr>mqs := mm\<rparr>)) = Inr t"
      "node_ok g t" "messages_only (s\<lparr>mqs := mm\<rparr>) t"
  proof (cases "n = 0")
    case True
    then show ?thesis using o(2) by (intro that [of "s\<lparr>mqs := mm\<rparr>"]) (simp_all add: messages_only_refl)
  next
    case False
    obtain t where "skynet_error E (Some c) (''May overload, message queue length = '' @ print_nat 10 n) (s\<lparr>mqs := mm\<rparr>) = Inr t"
        "node_ok g t" "messages_only (s\<lparr>mqs := mm\<rparr>) t" by (rule error_keeps [OF E o(2) alive])
    then show ?thesis using False by (intro that [of t]) simp_all
  qed
  have st: "stable g s t" using stable_trans [OF so messages_only_stable [OF t(3)]] .
  have rt: "ready g c a t" by (rule ready_stable [OF r t(2) st])
  then obtain x where x: "ctxs t c = Some x" by (auto simp: ready_def)
  obtain u where u: "(if \<not> ctx_cb x then Inr t else dispatch_message E c m t) = Inr u" "node_ok g u" "stable g t u"
  proof (cases "ctx_cb x")
    case True
    obtain u where "dispatch_message E c m t = Inr u" "node_ok g u" "stable g t u" by (rule dispatch_message_keeps [OF E rt])
    then show ?thesis using True by (intro that [of u]) simp_all
  next
    case False
    then show ?thesis using t(2) by (intro that [of t]) (simp_all add: stable_refl)
  qed
  have "dispatch_round E a h c m (sm, s) = Inr (skynet_monitor_trigger (skynet_monitor_trigger sm (source m) h) 0 0, u)"
    unfolding dispatch_round_def using o(1) t(1) x u(1) by (simp add: ctx_at_def Let_def)
  then show ?thesis using ready_stable [OF rt u(2,3)] stable_trans [OF st u(3)] by (rule that)
qed

text \<open>The queue is found empty, and then is no longer in hand, or the rounds are over.\<close>

definition after_rounds :: "ghost \<Rightarrow> ctx \<Rightarrow> qaddr \<Rightarrow> bool \<Rightarrow> node \<Rightarrow> bool" where
  "after_rounds g c a e s \<longleftrightarrow> (if e then node_ok (g\<lparr>working := working g - {a}\<rparr>) s else ready g c a s)"

lemma ready_pop:
  assumes r: "ready g c a s"
  obtains m k ms where "from_mqs (skynet_mq_pop a) s = Inr (case ms of [] \<Rightarrow> None | y # _ \<Rightarrow> Some y, s\<lparr>mqs := m\<rparr>)"
    "ms = [] \<Longrightarrow> node_ok (g\<lparr>working := working g - {a}\<rparr>) (s\<lparr>mqs := m\<rparr>)" "ms \<noteq> [] \<Longrightarrow> ready g c a (s\<lparr>mqs := m\<rparr>)"
    "qview (mqs s) a = Some (k, False, ms)" "qview m = (qview (mqs s))(a \<mapsto> (k, False, tl ms))"
proof -
  obtain x where x: "ctxs s c = Some x" "ctx_queue x = a" "ctx_init x" and ok: "node_ok g s" and h: "0 < holds g c" "a \<in> working g"
    using r by (auto simp: ready_def)
  obtain k ms where v: "qview (mqs s) a = Some (k, False, ms)" using node_okD(7) [OF ok x(1)] x(2) by (auto simp: ctx_ok_def qinfo_def)
  obtain res m where p: "from_mqs (skynet_mq_pop a) s = Inr (res, s\<lparr>mqs := m\<rparr>)" "res = (case ms of [] \<Rightarrow> None | m # _ \<Rightarrow> Some m)"
    "node_ok (if res = None then g\<lparr>working := working g - {a}\<rparr> else g) (s\<lparr>mqs := m\<rparr>)" "qview m = (qview (mqs s))(a \<mapsto> (k, False, tl ms))"
    by (rule mqpop_keeps [OF ok h(2) v])
  show ?thesis
    by (rule that [of ms m k]) (use p v x h in \<open>auto simp: ready_def split: list.splits\<close>)
qed

lemma dispatch_loop_keeps:
  assumes E: "code_ok E"
  shows "ready g c a s \<Longrightarrow> \<exists>e sm' s'. dispatch_loop n E a h c (sm, s) = Inr (e, sm', s') \<and> after_rounds g c a e s'"
proof (induction n arbitrary: s sm)
  case 0
  then show ?case by (auto simp: after_rounds_def)
next
  case (Suc n)
  obtain m k ms where p: "from_mqs (skynet_mq_pop a) s = Inr (case ms of [] \<Rightarrow> None | y # _ \<Rightarrow> Some y, s\<lparr>mqs := m\<rparr>)"
    "ms = [] \<Longrightarrow> node_ok (g\<lparr>working := working g - {a}\<rparr>) (s\<lparr>mqs := m\<rparr>)" "ms \<noteq> [] \<Longrightarrow> ready g c a (s\<lparr>mqs := m\<rparr>)"
    using ready_pop [OF Suc.prems] by metis
  show ?case
  proof (cases ms)
    case Nil
    then show ?thesis using p(1,2) by (auto simp: after_rounds_def)
  next
    case (Cons y ys)
    then have "ready g c a (s\<lparr>mqs := m\<rparr>)" using p(3) by simp
    then obtain sm' t where t: "dispatch_round E a h c y (sm, s\<lparr>mqs := m\<rparr>) = Inr (sm', t)" "ready g c a t" by (rule dispatch_round_keeps [OF E])
    then show ?thesis using p(1) Cons Suc.IH [OF t(2), of sm'] by simp
  qed
qed

lemma dispatch_rounds_keeps:
  assumes E: "code_ok E" and r: "ready g c a s"
  shows "\<exists>e sm' s'. dispatch_rounds E weight a h c (sm, s) = Inr (e, sm', s') \<and> after_rounds g c a e s'"
proof -
  obtain m k ms where p: "from_mqs (skynet_mq_pop a) s = Inr (case ms of [] \<Rightarrow> None | y # _ \<Rightarrow> Some y, s\<lparr>mqs := m\<rparr>)"
    "ms = [] \<Longrightarrow> node_ok (g\<lparr>working := working g - {a}\<rparr>) (s\<lparr>mqs := m\<rparr>)" "ms \<noteq> [] \<Longrightarrow> ready g c a (s\<lparr>mqs := m\<rparr>)"
    "qview m = (qview (mqs s))(a \<mapsto> (k, False, tl ms))" using ready_pop [OF r] by metis
  show ?thesis
  proof (cases ms)
    case Nil
    then show ?thesis using p(1,2) by (auto simp: dispatch_rounds_def after_rounds_def)
  next
    case (Cons y ys)
    obtain q where q: "queues m a = Some q" using p(4) by (auto simp: qview_def fun_eq_iff split: if_splits)
    have "ready g c a (s\<lparr>mqs := m\<rparr>)" using p(3) Cons by simp
    then obtain sm' t where t: "dispatch_round E a h c y (sm, s\<lparr>mqs := m\<rparr>) = Inr (sm', t)" "ready g c a t" by (rule dispatch_round_keeps [OF E])
    then show ?thesis
      using p(1) Cons q dispatch_loop_keeps [OF E t(2)] by (simp add: dispatch_rounds_def mq_at_def Let_def)
  qed
qed

lemma hold_working: "(hold c g)\<lparr>working := W\<rparr> = hold c (g\<lparr>working := W\<rparr>)"
  by (simp add: hold_def)

text \<open>The context that the handle of a queue in hand leads to is the one the queue belongs to.\<close>

lemma grabbed_ready:
  assumes ok: "node_ok g s" and a: "a \<in> working g" and v: "qinfo (mqs s) a = Some (h, r)" and c: "services (reg s) h = Some c"
  shows "ready (hold c g) c a (set_ref c (ctx_ref (reg s) c + 1) s)"
proof -
  have tab: "in_table (reg s) c" and hc: "ctx_handle (reg s) c = h" using c in_tableI services_handle by auto
  obtain x where x: "ctxs s c = Some x" using table_alive(1) [OF ok tab] by blast
  have cx: "ctx_ok g s c x" using node_okD(7) [OF ok x] .
  then have q: "ctx_queue x = a" using v hc node_ok_queues(1) [OF ok] unfolding ctx_ok_def by metis
  have "ctx_init x" using cx tab q a node_okD(3) [OF ok] by (auto simp: ctx_ok_def)
  then show ?thesis using handle_grab_ok(2) [OF ok c] a x q by (simp add: ready_def)
qed

lemma dispatch_queue_keeps:
  assumes E: "code_ok E" and ok: "node_ok g s" and st: "started g" and a: "a \<in> working g"
    and fuel: "\<And>k r ms. qview (mqs s) a = Some (k, r, ms) \<Longrightarrow> length ms < fuel"
  shows "\<exists>q' sm' s'. skynet_context_message_dispatch fuel E sm (Some a) weight s = Inr (q', sm', s') \<and>
    node_ok (g\<lparr>working := (working g - {a}) \<union> set_option q'\<rparr>) s'"
proof -
  obtain gs where inv: "mq_inv (mqs s) (working g \<union> starting g) gs" using node_okD(2) [OF ok] by blast
  obtain q where q: "queues (mqs s) a = Some q" using mq_inv_held [OF inv] a by blast
  define h where "h = mq_handle q"
  have v: "qinfo (mqs s) a = Some (h, release q)" using q by (simp add: qinfo_def qview_def h_def)
  have h0: "h \<noteq> 0" using v node_ok_queues(2) [OF ok] by blast
  define G where "G = g\<lparr>working := working g - {a}\<rparr>"
  have pop: "\<exists>r m. from_mqs skynet_globalmq_pop t = Inr (r, t\<lparr>mqs := m\<rparr>) \<and>
      node_ok (g\<lparr>working := (working g - {a}) \<union> set_option r\<rparr>) (t\<lparr>mqs := m\<rparr>)" if G: "node_ok G t" for t
  proof -
    obtain r m where "from_mqs skynet_globalmq_pop t = Inr (r, t\<lparr>mqs := m\<rparr>)" "node_ok (G\<lparr>working := working G \<union> set_option r\<rparr>) (t\<lparr>mqs := m\<rparr>)"
      by (rule gpop_keeps [OF G])
    then show ?thesis by (intro exI [of _ r] exI [of _ m]) (simp add: G_def)
  qed
  show ?thesis
  proof (cases "services (reg s) h")
    case None
    have grab: "handle_grab h s = Inr (None, s)" using handle_grab_ok(1) [OF ok, of h] None by simp
    obtain t where t: "mq_release fuel E h a s = Inr t" "node_ok (unhand a g) t"
      by (rule mq_release_keeps [OF E ok st h0 _ fuel]) (use a in auto)
    then have "node_ok G t" using unhand_working [OF ok a] by (simp add: G_def)
    then show ?thesis using pop [of t] q grab t(1)
      by (auto simp: skynet_context_message_dispatch_def mq_at_def h_def [symmetric])
  next
    case (Some c)
    define t where "t = set_ref c (ctx_ref (reg s) c + 1) s"
    have grab: "handle_grab h s = Inr (Some c, t)" using handle_grab_ok(1) [OF ok, of h] Some by (simp add: t_def)
    have rt: "ready (hold c g) c a t" unfolding t_def by (rule grabbed_ready [OF ok a v Some])
    obtain e sm' u where u: "dispatch_rounds E weight a h c (sm, t) = Inr (e, sm', u)" "after_rounds (hold c g) c a e u"
      using dispatch_rounds_keeps [OF E rt] by blast
    show ?thesis
    proof (cases e)
      case True
      then have "node_ok (hold c G) u" using u(2) by (simp add: after_rounds_def hold_working G_def)
      then obtain r w where w: "skynet_context_release E c u = Inr (r, w)" "node_ok G w" using release_keeps [OF E] by blast
      then show ?thesis using pop [of w] q grab u(1) True
        by (auto simp: skynet_context_message_dispatch_def mq_at_def h_def [symmetric])
    next
      case False
      then have ru: "ready (hold c g) c a u" using u(2) by (simp add: after_rounds_def)
      then obtain x where x: "ctxs u c = Some x" "ctx_queue x = a" and oku: "node_ok (hold c g) u" by (auto simp: ready_def)
      obtain nq m where p: "from_mqs skynet_globalmq_pop u = Inr (nq, u\<lparr>mqs := m\<rparr>)"
          "node_ok ((hold c g)\<lparr>working := working g \<union> set_option nq\<rparr>) (u\<lparr>mqs := m\<rparr>)" "set_option nq \<inter> working g = {}"
        using gpop_keeps [OF oku] by (metis hold_simps(2,3) inf_sup_distrib1 sup_eq_bot_iff)
      define q' where "q' = (if nq \<noteq> None then nq else Some a)"
      obtain w where w: "(if nq \<noteq> None then on_mqs (skynet_globalmq_push a) (u\<lparr>mqs := m\<rparr>) else Inr (u\<lparr>mqs := m\<rparr>)) = Inr w"
          "node_ok (hold c (g\<lparr>working := (working g - {a}) \<union> set_option q'\<rparr>)) w"
      proof (cases nq)
        case None
        have "working g - {a} \<union> {a} = working g" using a by blast
        then show ?thesis using None p(2) by (intro that [of "u\<lparr>mqs := m\<rparr>"]) (simp_all add: q'_def hold_working)
      next
        case (Some b)
        have okb: "node_ok (hold c (g\<lparr>working := insert b (working g)\<rparr>)) (u\<lparr>mqs := m\<rparr>)" using p(2) Some by (simp add: hold_working)
        have ab: "insert b (working g) - {a} = (working g - {a}) \<union> {b}" using p(3) Some a by auto
        obtain m2 where "on_mqs (skynet_globalmq_push a) (u\<lparr>mqs := m\<rparr>) = Inr (u\<lparr>mqs := m, mqs := m2\<rparr>)"
            "node_ok ((hold c (g\<lparr>working := insert b (working g)\<rparr>))\<lparr>working := insert b (working g) - {a}\<rparr>) (u\<lparr>mqs := m, mqs := m2\<rparr>)"
          using gpush_keeps [OF okb, of a] a by auto
        then show ?thesis using Some ab by (intro that [of "u\<lparr>mqs := m2\<rparr>"]) (simp_all add: q'_def hold_working)
      qed
      obtain r z where z: "skynet_context_release E c w = Inr (r, z)" "node_ok (g\<lparr>working := (working g - {a}) \<union> set_option q'\<rparr>) z"
        using release_keeps [OF E w(2)] by blast
      have "skynet_context_message_dispatch fuel E sm (Some a) weight s = Inr (q', sm', z)"
        using q grab u(1) False x p(1) w(1) z(1)
        by (simp add: skynet_context_message_dispatch_def mq_at_def h_def [symmetric] ctx_at_def q'_def)
      then show ?thesis using z(2) by blast
    qed
  qed
qed

lemma dispatch_none:
  "skynet_context_message_dispatch fuel E sm None weight s =
     bind_res (from_mqs skynet_globalmq_pop s) (\<lambda>(q, s).
       case q of None \<Rightarrow> Inr (None, sm, s) | Some a \<Rightarrow> skynet_context_message_dispatch fuel E sm (Some a) weight s)"
  by (auto simp: skynet_context_message_dispatch_def intro!: bind_res_cong split: option.split prod.split)

section \<open>Starting and retiring services\<close>

text \<open>The table loses a context; the reference of the table is then in the hands of the thread.\<close>

lemma in_table_retired:
  assumes "services t = (services r)(h := None)" "ctx_handle t = ctx_handle r" "services r h = Some c"
  shows "in_table t d \<longleftrightarrow> in_table r d \<and> d \<noteq> c"
  using assms services_handle [OF assms(3)] by (auto simp: in_table_def)

lemma retired_table_keeps:
  assumes ok: "node_ok g s" and c: "services (reg s) h = Some c"
    and t: "registry_ok t" "services t = (services (reg s))(h := None)" "ctx_handle t = ctx_handle (reg s)" "ctx_ref t = ctx_ref (reg s)"
      "handle_index t = handle_index (reg s)"
  shows "node_ok (hold c g) (s\<lparr>reg := t\<rparr>)"
proof -
  note tab = in_table_retired [OF t(2,3) c]
  have "in_table (reg s) c" by (rule in_tableI [OF c])
  then have r: "refs (hold c g) (s\<lparr>reg := t\<rparr>) = refs g s" by (auto simp: refs_def tab fun_eq_iff)
  have n1: "\<forall>d x. ctxs s d = Some x \<longrightarrow> ctx_ok (hold c g) (s\<lparr>reg := t\<rparr>) d x"
    using node_okD(7) [OF ok] unfolding ctx_ok_def r by (auto simp: t tab)
  have sel: "reg (s\<lparr>reg := t\<rparr>) = t" "mqs (s\<lparr>reg := t\<rparr>) = mqs s" "HARBOR (s\<lparr>reg := t\<rparr>) = HARBOR s" "total (s\<lparr>reg := t\<rparr>) = total s"
    "REMOTE (s\<lparr>reg := t\<rparr>) = REMOTE s" "next_ctx (s\<lparr>reg := t\<rparr>) = next_ctx s" "ctxs (s\<lparr>reg := t\<rparr>) = ctxs s" by simp_all
  show ?thesis using ok n1 t(1) unfolding node_ok_def r sel hold_simps t(5) by (elim conjE, intro conjI) assumption+
qed

lemma same_table_keeps:
  assumes ok: "node_ok g s" and t: "registry_ok t" "services t = services (reg s)" "ctx_handle t = ctx_handle (reg s)" "ctx_ref t = ctx_ref (reg s)"
      "handle_index t = handle_index (reg s)"
  shows "node_ok g (s\<lparr>reg := t\<rparr>)"
proof -
  have r: "refs g (s\<lparr>reg := t\<rparr>) = refs g s" using t(2,3) by (intro refs_cong) (simp_all add: in_table_def fun_eq_iff)
  have n1: "\<forall>d x. ctxs s d = Some x \<longrightarrow> ctx_ok g (s\<lparr>reg := t\<rparr>) d x"
    using node_okD(7) [OF ok] t(2-4) unfolding ctx_ok_def r by (simp add: in_table_def)
  have sel: "reg (s\<lparr>reg := t\<rparr>) = t" "mqs (s\<lparr>reg := t\<rparr>) = mqs s" "HARBOR (s\<lparr>reg := t\<rparr>) = HARBOR s" "total (s\<lparr>reg := t\<rparr>) = total s"
    "REMOTE (s\<lparr>reg := t\<rparr>) = REMOTE s" "next_ctx (s\<lparr>reg := t\<rparr>) = next_ctx s" "ctxs (s\<lparr>reg := t\<rparr>) = ctxs s" by simp_all
  show ?thesis using ok n1 t(1) unfolding node_ok_def r sel t(5) by (elim conjE, intro conjI) assumption+
qed

lemma same_handle:
  assumes ok: "node_ok g s" and c: "ctxs s c = Some x" and d: "ctxs s d = Some y" and h: "ctx_handle (reg s) c = ctx_handle (reg s) d"
  shows "c = d"
proof -
  have "ctx_queue x = ctx_queue y"
    using node_okD(7) [OF ok c] node_okD(7) [OF ok d] h node_ok_queues(1) [OF ok] unfolding ctx_ok_def by metis
  then show ?thesis using ok c d unfolding node_ok_def by blast
qed

text \<open>Afterwards the context of the handle is gone and its queue marked, or somebody holds it and it is not in the table.\<close>

lemma handle_retire_keeps:
  assumes E: "code_ok E" and ok: "node_ok g s"
  obtains r s' where "handle_retire E h s = Inr (r, s')" "node_ok g s'" "stable g s s'" "r \<longleftrightarrow> services (reg s) h \<noteq> None"
    "\<forall>c x. ctxs s c = Some x \<longrightarrow> ctx_handle (reg s) c = h \<longrightarrow>
      (\<exists>k. qinfo (mqs s') (ctx_queue x) = Some (k, True)) \<or> (\<not> in_table (reg s') c \<and> ctxs s' c = Some x)"
proof -
  have o: "handles_ok (reg s)" "names_ok (reg s)" using node_okD(1) [OF ok] by (simp_all add: registry_ok_def)
  obtain t where t: "skynet_handle_retire h (reg s) = Inr (services (reg s) h, t)" "handles_ok t" "names_ok t" "services t = (services (reg s))(h := None)"
      "ctx_handle t = ctx_handle (reg s)" "ctx_ref t = ctx_ref (reg s)" "handle_index t = handle_index (reg s)" by (rule retire_ok [OF o, of h])
  have okt: "registry_ok t" using t(2,3) by (simp add: registry_ok_def)
  have st: "stable g s (s\<lparr>reg := t\<rparr>)" by (auto simp: stable_def)
  show ?thesis
  proof (cases "services (reg s) h")
    case None
    then have "services t = services (reg s)" using t(4) by (simp add: fun_eq_iff)
    then have "node_ok g (s\<lparr>reg := t\<rparr>)" using t okt by (intro same_table_keeps [OF ok]) simp_all
    moreover have "handle_retire E h s = Inr (False, s\<lparr>reg := t\<rparr>)" using slot_alive_ok [OF ok] t(1) None by (simp add: handle_retire_def Let_def)
    ultimately show ?thesis using st None t(4,5) by (intro that [of False "s\<lparr>reg := t\<rparr>"]) (auto simp: in_table_def)
  next
    case (Some c)
    have okc: "node_ok (hold c g) (s\<lparr>reg := t\<rparr>)" by (rule retired_table_keeps [OF ok Some okt t(4-7)])
    obtain x where x: "ctxs s c = Some x" using table_alive(1) [OF ok in_tableI [OF Some]] by blast
    obtain r s' where r: "skynet_context_release E c (s\<lparr>reg := t\<rparr>) = Inr (r, s')" "node_ok g s'" "stable g (s\<lparr>reg := t\<rparr>) s'"
        "0 < refs g (s\<lparr>reg := t\<rparr>) c \<longrightarrow> r = Some c \<and> s' = set_ref c (ctx_ref (reg (s\<lparr>reg := t\<rparr>)) c - 1) (s\<lparr>reg := t\<rparr>)"
        "r \<noteq> None \<longrightarrow> r = Some c \<and> 0 < refs g (s\<lparr>reg := t\<rparr>) c"
        "r = None \<longrightarrow> (\<forall>x. ctxs (s\<lparr>reg := t\<rparr>) c = Some x \<longrightarrow> (\<exists>h. qinfo (mqs s') (ctx_queue x) = Some (h, True)))"
      using release_keeps [OF E okc] by blast
    have run: "handle_retire E h s = Inr (True, s')" using slot_alive_ok [OF ok] t(1) Some r(1) by (simp add: handle_retire_def Let_def)
    have gone: "(\<exists>k. qinfo (mqs s') (ctx_queue x) = Some (k, True)) \<or> (\<not> in_table (reg s') c \<and> ctxs s' c = Some x)"
    proof (cases r)
      case None
      then show ?thesis using r(6) x by simp
    next
      case (Some d)
      then have "s' = set_ref c (ctx_ref t c - 1) (s\<lparr>reg := t\<rparr>)" using r(4,5) by simp
      then show ?thesis using x in_table_retired [OF t(4,5) \<open>services (reg s) h = Some c\<close>, of c] by simp
    qed
    have "ctx_handle (reg s) c = h" by (rule services_handle [OF Some])
    then have all: "(\<exists>k. qinfo (mqs s') (ctx_queue y) = Some (k, True)) \<or> (\<not> in_table (reg s') d \<and> ctxs s' d = Some y)"
      if "ctxs s d = Some y" "ctx_handle (reg s) d = h" for d y
      using that gone same_handle [OF ok that(1) x] x by simp
    show ?thesis by (rule that [OF run r(2) stable_trans [OF st r(3)]]) (use Some all in auto)
  qed
qed

definition start_queue :: "qaddr \<Rightarrow> ghost \<Rightarrow> ghost" where
  "start_queue a g = g\<lparr>starting := insert a (starting g)\<rparr>"

lemma start_queue_simps [simp]:
  "holds (start_queue a g) = holds g" "dying (start_queue a g) = dying g" "started (start_queue a g) = started g"
  "working (start_queue a g) = working g" "starting (start_queue a g) = insert a (starting g)"
  by (simp_all add: start_queue_def)

text \<open>Room for a handle: the counter is at least two table sizes away from its end.\<close>

definition room :: "node \<Rightarrow> bool" where
  "room s \<longleftrightarrow> uint (handle_index (reg s)) + 2 * int (slot_size (reg s)) \<le> 2 ^ 24"

lemma new_address:
  assumes ok: "node_ok g s"
  shows "ctxs s (next_ctx s) = None" "refs g s (next_ctx s) = 0" "next_ctx s \<notin> dying g"
proof -
  show n: "ctxs s (next_ctx s) = None" using ok unfolding node_ok_def by blast
  show "refs g s (next_ctx s) = 0" using node_okD(5) [OF ok, of "next_ctx s"] refs_nonneg [of g s "next_ctx s"] n by (metis order_le_less)
  show "next_ctx s \<notin> dying g" using node_okD(6) [OF ok] n by blast
qed

lemma in_table_registered:
  assumes "services t = (services r)(h \<mapsto> c)" "services r h = None" "ctx_handle t = (ctx_handle r)(c := h)"
  shows "in_table t d \<longleftrightarrow> in_table r d \<or> d = c"
  using assms by (cases "d = c") (auto simp: in_table_def)

lemma make_context_run:
  assumes ok: "node_ok g s" and room: "room s"
  obtains h t a m where "make_context s = Inr (next_ctx s, a,
      s\<lparr>reg := t, mqs := m, next_ctx := next_ctx s + 1, total := total s + 1, ctxs := (ctxs s)(next_ctx s \<mapsto>
        \<lparr>ctx_queue = a, ctx_cb = False, session_id = 0, message_count = 0, ctx_init = False, ctx_endless = False\<rparr>)\<rparr>)"
    "registry_ok t" "services t = (services (reg s))(h \<mapsto> next_ctx s)" "services (reg s) h = None" "ctx_handle t = (ctx_handle (reg s))(next_ctx s := h)"
    "ctx_ref t = (ctx_ref (reg s))(next_ctx s := 2)" "unat (handle_index (reg s)) \<le> unat h mod 2 ^ 24" "unat h mod 2 ^ 24 < unat (handle_index t)"
    "skynet_mq_create h (mqs s) = (a, m)"
proof -
  define c where "c = next_ctx s"
  define u where "u = new_context s"
  have fields: "reg u = reg (set_ref c 2 s)" "ctxs u = (ctxs s)(c \<mapsto> \<lparr>ctx_queue = 0, ctx_cb = False, session_id = 0, message_count = 0, ctx_init = False, ctx_endless = False\<rparr>)"
    "mqs u = mqs s" "next_ctx u = c + 1" "total u = total s" by (simp_all add: u_def new_context_def set_ref_def c_def Let_def)
  have okr: "registry_ok (reg u)" unfolding fields(1) using node_okD(1) [OF ok] by simp
  have "\<not> in_table (reg s) c" using new_address(2) [OF ok] by (auto simp: refs_def c_def split: if_splits)
  then have "Some c \<notin> set (slot (reg s))" using in_table_slot [of "reg s" c] node_okD(1) [OF ok] by (simp add: registry_ok_def)
  then have fresh: "registry_fresh c (reg u)" using room unfolding fields(1) by (simp add: registry_fresh_def room_def set_ref_def)
  obtain h t where r: "context_register 2 c (reg u) = Inr (h, t)" "registry_ok t" "services (reg u) h = None" "services t = (services (reg u))(h \<mapsto> c)"
      "ctx_handle t = (ctx_handle (reg u))(c := h)" "ctx_ref t = ctx_ref (reg u)"
      "unat (handle_index (reg u)) \<le> unat h mod 2 ^ 24" "unat h mod 2 ^ 24 < unat (handle_index t)"
    by (rule context_register_ok [OF okr fresh, of 0, folded numeral_2_eq_2])
  obtain a m where q: "skynet_mq_create h (mqs s) = (a, m)" by fastforce
  have "make_context s = Inr (c, a, s\<lparr>reg := t, mqs := m, next_ctx := c + 1, total := total s + 1, ctxs := (ctxs s)(c \<mapsto>
        \<lparr>ctx_queue = a, ctx_cb = False, session_id = 0, message_count = 0, ctx_init = False, ctx_endless = False\<rparr>)\<rparr>)"
    unfolding make_context_def Let_def c_def [symmetric] u_def [symmetric] using r(1) q fields
    by (simp add: ctx_at_def ctx_put_def) (simp add: u_def new_context_def set_ref_def c_def Let_def)
  then show ?thesis
    by (rule that [where h = h and t = t and a = a and m = m, folded c_def]) (use r q in \<open>simp_all add: fields\<close>)
qed

lemma make_context_keeps:
  assumes ok: "node_ok g s" and room: "room s"
  obtains a s' where "make_context s = Inr (next_ctx s, a, s')" "node_ok (hold (next_ctx s) (start_queue a g)) s'"
    "\<exists>x. ctxs s' (next_ctx s) = Some x \<and> ctx_queue x = a" "a \<notin> working g \<union> starting g" "stable g s s'"
proof -
  define c where "c = next_ctx s"
  obtain h t a m where mk: "make_context s = Inr (c, a, s\<lparr>reg := t, mqs := m, next_ctx := c + 1, total := total s + 1, ctxs := (ctxs s)(c \<mapsto>
        \<lparr>ctx_queue = a, ctx_cb = False, session_id = 0, message_count = 0, ctx_init = False, ctx_endless = False\<rparr>)\<rparr>)"
    and t: "registry_ok t" "services t = (services (reg s))(h \<mapsto> c)" "services (reg s) h = None" "ctx_handle t = (ctx_handle (reg s))(c := h)"
      "ctx_ref t = (ctx_ref (reg s))(c := 2)" "unat (handle_index (reg s)) \<le> unat h mod 2 ^ 24" "unat h mod 2 ^ 24 < unat (handle_index t)"
    and q: "skynet_mq_create h (mqs s) = (a, m)"
    by (rule make_context_run [OF ok room, folded c_def])
  define x where "x = \<lparr>ctx_queue = a, ctx_cb = False, session_id = 0, message_count = 0, ctx_init = False, ctx_endless = False\<rparr>"
  define s' where "s' = s\<lparr>reg := t, mqs := m, next_ctx := c + 1, total := total s + 1, ctxs := (ctxs s)(c \<mapsto> x)\<rparr>"
  define g' where "g' = hold c (start_queue a g)"
  have sel: "reg s' = t" "mqs s' = m" "next_ctx s' = c + 1" "total s' = total s + 1" "HARBOR s' = HARBOR s" "REMOTE s' = REMOTE s"
      "ctxs s' = (ctxs s)(c \<mapsto> x)" by (simp_all add: s'_def)
  have gsel: "holds g' d = (if d = c then holds g c + 1 else holds g d)" "working g' = working g" "starting g' = insert a (starting g)"
      "dying g' = dying g" "started g' = started g" for d by (simp_all add: g'_def)
  note new = new_address [OF ok, folded c_def]
  note tab = in_table_registered [OF t(2-4)]
  have r: "refs g' s' d = (if d = c then 2 else refs g s d)" for d
    using new(2) unfolding refs_def sel gsel by (auto simp: tab split: if_splits)
  obtain gs where inv: "mq_inv (mqs s) (working g \<union> starting g) gs" using node_okD(2) [OF ok] by blast
  have fr: "queues (mqs s) a = None" using inv q by (auto simp: mq_inv_def skynet_mq_create_def)
  then have out: "a \<notin> working g \<union> starting g" using inv by (auto simp: mq_inv_def)
  have qn: "qinfo (mqs s) a = None" using fr by (simp add: qinfo_def qview_def)
  have qm: "qinfo m = (qinfo (mqs s))(a \<mapsto> (h, False))" using qview_create [OF q] by (auto simp: qinfo_def fun_eq_iff)
  have qa: "ctx_queue y \<noteq> a" if "ctxs s d = Some y" for d y using node_okD(7) [OF ok that] qn by (auto simp: ctx_ok_def)
  have hp: "0 < unat (handle_index (reg s))" using node_okD(1) [OF ok] by (simp add: registry_ok_def handles_ok_def)
  have hn: "k \<noteq> h" if "qinfo (mqs s) b = Some (k, rr)" for b k rr
    using node_ok_queues(2) [OF ok] that t(6) by (metis not_le)
  have n1: "\<forall>d y. ctxs s' d = Some y \<longrightarrow> ctx_ok g' s' d y"
  proof (intro allI impI)
    fix d y assume d: "ctxs s' d = Some y"
    show "ctx_ok g' s' d y"
    proof (cases "d = c")
      case True
      then have "y = x" using d by (simp add: sel)
      then show ?thesis using True new(3) t(4,5) unfolding ctx_ok_def r sel gsel by (simp add: qm x_def)
    next
      case False
      then have "ctxs s d = Some y" using d by (simp add: sel)
      then show ?thesis using node_okD(7) [OF ok] False qa t(4,5) unfolding ctx_ok_def r sel gsel by (auto simp: qm tab)
    qed
  qed
  have n2: "\<forall>d. 0 < refs g' s' d \<or> d \<in> dying g' \<longrightarrow> ctxs s' d \<noteq> None" using node_okD(5,6) [OF ok] unfolding r sel gsel by (auto split: if_splits)
  have n3: "\<forall>d e y z. ctxs s' d = Some y \<longrightarrow> ctxs s' e = Some z \<longrightarrow> ctx_queue y = ctx_queue z \<longrightarrow> d = e"
  proof (intro allI impI)
    fix d e y z assume "ctxs s' d = Some y" "ctxs s' e = Some z" "ctx_queue y = ctx_queue z"
    moreover have "ctxs s d = Some y \<Longrightarrow> ctxs s e = Some z \<Longrightarrow> ctx_queue y = ctx_queue z \<Longrightarrow> d = e" using ok unfolding node_ok_def by blast
    ultimately show "d = e" unfolding sel by (auto simp: x_def split: if_splits dest: qa)
  qed
  have n4: "\<exists>gs. mq_inv m (working g' \<union> starting g') gs" using create_inv [OF inv q] unfolding gsel by auto
  have n5: "working g' \<inter> starting g' = {}" using node_okD(3) [OF ok] out unfolding gsel by auto
  have n6: "finite (dom (ctxs s'))" "int (card (dom (ctxs s'))) = total s' + (if REMOTE s' = None then 0 else 1)"
    using ok new(1) unfolding node_ok_def sel by (auto simp: domIff)
  have n7: "\<forall>d\<ge>next_ctx s'. ctxs s' d = None" using ok unfolding node_ok_def sel c_def by auto
  have n8: "\<forall>b b' k rr rr'. qinfo m b = Some (k, rr) \<longrightarrow> qinfo m b' = Some (k, rr') \<longrightarrow> b = b'"
    using node_ok_queues(1) [OF ok] unfolding qm by (auto split: if_splits dest: hn)
  have n9: "\<forall>b k rr. qinfo m b = Some (k, rr) \<longrightarrow> k \<noteq> 0 \<and> unat k mod 2 ^ 24 < unat (handle_index t)"
  proof (intro allI impI)
    fix b k rr assume b: "qinfo m b = Some (k, rr)"
    show "k \<noteq> 0 \<and> unat k mod 2 ^ 24 < unat (handle_index t)"
    proof (cases "b = a")
      case True
      then have "k = h" using b by (simp add: qm)
      moreover have "h \<noteq> 0" using hp t(6) by auto
      ultimately show ?thesis using t(7) by simp
    next
      case False
      then have "qinfo (mqs s) b = Some (k, rr)" using b by (simp add: qm)
      then have "k \<noteq> 0 \<and> unat k mod 2 ^ 24 < unat (handle_index (reg s))" using node_ok_queues(2) [OF ok] by blast
      then show ?thesis using t(6,7) by linarith
    qed
  qed
  have n10: "HARBOR s' \<noteq> NOT 0" "started g' \<longrightarrow> REMOTE s' \<noteq> None" using node_okD(4,8) [OF ok] unfolding sel gsel by blast+
  have "node_ok g' s'" unfolding node_ok_def sel(1,2) using t(1) n1 n2 n3 n4 n5 n6 n7 n8 n9 n10 by (intro conjI) assumption+
  moreover have "stable g s s'" using new(1) qn by (auto simp: stable_def sel qm)
  moreover have "make_context s = Inr (c, a, s')" using mk by (simp add: s'_def x_def)
  ultimately show ?thesis using that [of a s'] out unfolding g'_def c_def by (simp add: s'_def x_def c_def)
qed

lemma unhand_start: "a \<notin> working g \<union> starting g \<Longrightarrow> unhand a (start_queue a g) = g"
proof -
  assume "a \<notin> working g \<union> starting g"
  then have "working g - {a} = working g" "insert a (starting g) - {a} = starting g" by auto
  then show ?thesis by (simp add: unhand_def start_queue_def)
qed

text \<open>The queue of a new service goes to the workers: its context is initialised, or gone.\<close>

lemma launch_keeps:
  assumes ok: "node_ok g s" and a: "a \<in> starting g" and own: "\<And>c x. ctxs s c = Some x \<Longrightarrow> ctx_queue x = a \<Longrightarrow> ctx_init x"
  obtains m where "on_mqs (skynet_globalmq_push a) s = Inr (s\<lparr>mqs := m\<rparr>)" "node_ok (unhand a g) (s\<lparr>mqs := m\<rparr>)" "qview m = qview (mqs s)"
proof -
  obtain gs where inv: "mq_inv (mqs s) (working g \<union> starting g) gs" using node_okD(2) [OF ok] by blast
  obtain m gs' where m: "skynet_globalmq_push a (mqs s) = Inr m" "mq_inv m (working g \<union> starting g - {a}) gs'" using giveback_inv [OF inv] a by blast
  have vm: "qview m = qview (mqs s)" by (rule qview_push [OF m(1)])
  have "node_ok (unhand a g) (s\<lparr>mqs := m\<rparr>)" by (rule unhand_keeps [OF ok m(2)]) (use own vm in \<open>auto simp: qinfo_def\<close>)
  then show ?thesis using m(1) vm by (intro that [of m]) (simp_all add: on_mqs_def)
qed

lemma owner_marked:
  assumes ok: "node_ok g s" and q: "qinfo (mqs s) a = Some (k, True)"
  shows "ctxs s c = Some x \<Longrightarrow> ctx_queue x \<noteq> a"
  using node_okD(7) [OF ok] q by (auto simp: ctx_ok_def)

lemma owner_unique:
  assumes ok: "node_ok g s"
  shows "ctxs s c = Some x \<Longrightarrow> ctxs s d = Some y \<Longrightarrow> ctx_queue x = ctx_queue y \<Longrightarrow> c = d"
  using ok unfolding node_ok_def by blast

text \<open>The end of a start that succeeded.\<close>

lemma new_success:
  assumes E: "code_ok E" and ok: "node_ok (hold c (start_queue a g)) s" and x: "ctxs s c = Some x" "ctx_queue x = a" and out: "a \<notin> working g \<union> starting g"
  shows "\<exists>ret s'. bind_res (skynet_context_release E c s) (\<lambda>(ret, s).
      bind_res (if ret \<noteq> None then bind_res (ctx_at c s) (\<lambda>x. Inr (ctx_put c (x\<lparr>ctx_init := True\<rparr>) s)) else Inr s) (\<lambda>s.
      bind_res (on_mqs (skynet_globalmq_push a) s) (\<lambda>s.
      bind_res (if ret \<noteq> None then skynet_error E (Some c) txt s else Inr s) (\<lambda>s. Inr (ret, s))))) = Inr (ret, s') \<and> node_ok g s' \<and> stable g s s' \<and>
      (\<forall>d. ret = Some d \<longrightarrow> ctxs s' d \<noteq> None)"
proof -
  obtain ret t where t: "skynet_context_release E c s = Inr (ret, t)" "node_ok (start_queue a g) t" "stable (start_queue a g) s t"
      "0 < refs (start_queue a g) s c \<longrightarrow> ret = Some c \<and> t = set_ref c (ctx_ref (reg s) c - 1) s"
      "ret \<noteq> None \<longrightarrow> ret = Some c \<and> 0 < refs (start_queue a g) s c"
      "ret = None \<longrightarrow> (\<forall>x. ctxs s c = Some x \<longrightarrow> (\<exists>h. qinfo (mqs t) (ctx_queue x) = Some (h, True)))"
    using release_keeps [OF E ok] by blast
  have st: "stable g s t" by (rule stable_mono [OF t(3)]) (auto simp: le_fun_def)
  have a: "a \<in> starting (start_queue a g)" by simp
  note hands = unhand_start [OF out]
  show ?thesis
  proof (cases ret)
    case None
    then obtain k where k: "qinfo (mqs t) a = Some (k, True)" using t(6) x by auto
    obtain m where m: "on_mqs (skynet_globalmq_push a) t = Inr (t\<lparr>mqs := m\<rparr>)" "node_ok g (t\<lparr>mqs := m\<rparr>)" "qview m = qview (mqs t)"
      using launch_keeps [OF t(2) a] owner_marked [OF t(2) k] unfolding hands by metis
    have "stable g t (t\<lparr>mqs := m\<rparr>)" using m(3) by (intro set_mqs_stable) (simp add: qinfo_def fun_eq_iff)
    then show ?thesis using t(1) None m(1,2) stable_trans [OF st] by auto
  next
    case (Some c')
    then have ts: "ret = Some c" "t = set_ref c (ctx_ref (reg s) c - 1) s" using t(4,5) by auto
    have tx: "ctxs t c = Some x" using x by (simp add: ts(2))
    define u where "u = ctx_put c (x\<lparr>ctx_init := True\<rparr>) t"
    have u: "node_ok (start_queue a g) u" unfolding u_def by (rule ctx_put_keeps [OF t(2) tx]) simp_all
    have su: "stable g t u" using tx by (auto simp: stable_def u_def ctx_put_def)
    have ux: "ctxs u c = Some (x\<lparr>ctx_init := True\<rparr>)" by (simp add: u_def ctx_put_def)
    have own: "ctx_init y" if "ctxs u d = Some y" "ctx_queue y = a" for d y
      using owner_unique [OF u that(1) ux] that ux x(2) by auto
    obtain m where m: "on_mqs (skynet_globalmq_push a) u = Inr (u\<lparr>mqs := m\<rparr>)" "node_ok g (u\<lparr>mqs := m\<rparr>)" "qview m = qview (mqs u)"
      by (rule launch_keeps [OF u a, unfolded hands], erule (1) own)
    have sm: "stable g u (u\<lparr>mqs := m\<rparr>)" using m(3) by (intro set_mqs_stable) (simp add: qinfo_def fun_eq_iff)
    have alive: "\<And>d. Some c = Some d \<Longrightarrow> ctxs (u\<lparr>mqs := m\<rparr>) d \<noteq> None" using ux by auto
    obtain v where v: "skynet_error E (Some c) txt (u\<lparr>mqs := m\<rparr>) = Inr v" "node_ok g v" "messages_only (u\<lparr>mqs := m\<rparr>) v" by (rule error_keeps [OF E m(2) alive])
    have "dom (ctxs v) = dom (ctxs (u\<lparr>mqs := m\<rparr>))" using v(3) unfolding messages_only_def by (elim conjE)
    then have "ctxs v c \<noteq> None" using ux by (auto simp: dom_def)
    moreover have "stable g s v" using st su sm messages_only_stable [OF v(3)] by (metis stable_trans)
    ultimately show ?thesis using t(1) ts(1) tx m(1) v(1,2) by (simp add: ctx_at_def u_def)
  qed
qed

text \<open>The end of a start that failed. How often the last loop runs depends on the messages that have come in.\<close>

lemma new_failure:
  assumes E: "code_ok E" and ok: "node_ok (hold c (start_queue a g)) s" and x: "ctxs s c = Some x" "ctx_queue x = a" and out: "a \<notin> working g \<union> starting g"
    and st: "started g"
  shows "\<exists>n. \<forall>fuel\<ge>n. \<exists>s'. bind_res (skynet_error E (Some c) txt s) (\<lambda>s.
      bind_res (ctx_at c s) (\<lambda>_.
      let h = ctx_handle (reg s) c in
      bind_res (skynet_context_release E c s) (\<lambda>(_, s).
      bind_res (handle_retire E h s) (\<lambda>(_, s).
      bind_res (mq_release fuel E h a s) (\<lambda>s. Inr (None :: ctx option, s)))))) = Inr (None, s') \<and> node_ok g s' \<and> stable g s s'"
proof -
  define G where "G = start_queue a g"
  have alive: "\<And>d. Some c = Some d \<Longrightarrow> ctxs s d \<noteq> None" using x by auto
  obtain t where t: "skynet_error E (Some c) txt s = Inr t" "node_ok (hold c G) t" "messages_only s t"
    unfolding G_def by (rule error_keeps [OF E ok alive])
  obtain y where y: "ctxs t c = Some y" "ctx_queue y = a" using t(3) x unfolding messages_only_def by (metis domIff not_None_eq)
  define h where "h = ctx_handle (reg t) c"
  have "ctx_ok (hold c G) t c y" using node_okD(7) [OF t(2) y(1)] .
  then have qa: "qinfo (mqs t) a = Some (h, False)" using y(2) by (simp add: ctx_ok_def h_def)
  have h0: "h \<noteq> 0" using qa node_ok_queues(2) [OF t(2)] by blast
  obtain ret u where u: "skynet_context_release E c t = Inr (ret, u)" "node_ok G u" "stable G t u"
      "0 < refs G t c \<longrightarrow> ret = Some c \<and> u = set_ref c (ctx_ref (reg t) c - 1) t" "ret \<noteq> None \<longrightarrow> ret = Some c \<and> 0 < refs G t c"
      "ret = None \<longrightarrow> (\<forall>x. ctxs t c = Some x \<longrightarrow> (\<exists>h. qinfo (mqs u) (ctx_queue x) = Some (h, True)))"
    using release_keeps [OF E t(2)] by blast
  obtain b v where v: "handle_retire E h u = Inr (b, v)" "node_ok G v" "stable G u v"
      "\<forall>c x. ctxs u c = Some x \<longrightarrow> ctx_handle (reg u) c = h \<longrightarrow>
        (\<exists>k. qinfo (mqs v) (ctx_queue x) = Some (k, True)) \<or> (\<not> in_table (reg v) c \<and> ctxs v c = Some x)"
    by (rule handle_retire_keeps [OF E u(2)])
  have a: "a \<in> working G \<union> starting G" by (simp add: G_def)
  have cases: "(\<exists>k. qinfo (mqs v) a = Some (k, True)) \<or> (\<not> in_table (reg v) c \<and> ctxs v c = Some y)"
  proof (cases ret)
    case None
    then obtain k where "qinfo (mqs u) a = Some (k, True)" using u(6) y by auto
    then obtain r' where "qinfo (mqs v) a = Some (k, r')" "r'" using v(3) a unfolding stable_def by metis
    then show ?thesis by auto
  next
    case (Some d)
    then have "u = set_ref c (ctx_ref (reg t) c - 1) t" using u(4,5) by simp
    then have "ctxs u c = Some y" "ctx_handle (reg u) c = h" using y(1) by (simp_all add: h_def)
    then show ?thesis using v(4) y(2) by blast
  qed
  have own: "\<not> in_table (reg v) d" if d: "ctxs v d = Some z" "ctx_queue z = a" for d z
    using cases
  proof
    assume "\<exists>k. qinfo (mqs v) a = Some (k, True)"
    then show ?thesis using owner_marked [OF v(2) _ d(1)] d(2) by blast
  next
    assume k: "\<not> in_table (reg v) c \<and> ctxs v c = Some y"
    then have "d = c" using owner_unique [OF v(2) d(1), of c y] d(2) y(2) by simp
    then show ?thesis using k by simp
  qed
  define n where "n = (case qview (mqs v) a of None \<Rightarrow> 0 | Some (_, _, ms) \<Rightarrow> Suc (length ms))"
  have sG: "started G" using st by (simp add: G_def)
  have hands: "unhand a G = g" unfolding G_def by (rule unhand_start [OF out])
  have tv: "stable G t v" by (rule stable_trans [OF u(3) v(3)])
  have sv: "stable g s v"
    by (rule stable_trans [OF messages_only_stable [OF t(3)]], rule stable_mono [OF tv]) (auto simp: G_def le_fun_def)
  have "\<exists>s'. mq_release fuel E h a v = Inr s' \<and> node_ok g s' \<and> stable g v s'" if fuel: "n \<le> fuel" for fuel
  proof -
    have len: "length ms < fuel" if "qview (mqs v) a = Some (k, r, ms)" for k r ms using fuel that by (simp add: n_def)
    obtain s' where "mq_release fuel E h a v = Inr s'" "node_ok (unhand a G) s'" "stable (unhand a G) v s'"
      by (rule mq_release_keeps [OF E v(2) sG h0 a len]) (use own in auto)
    then show ?thesis unfolding hands by blast
  qed
  then show ?thesis using t(1) y(1) u(1) v(1) sv stable_trans [OF sv]
    by (intro exI [of _ n]) (fastforce simp: ctx_at_def h_def [symmetric] Let_def)
qed

lemma context_new_keeps:
  assumes E: "code_ok E" and ok: "node_ok g s" and room: "room s" and st: "started g"
  shows "\<exists>n. \<forall>fuel\<ge>n. \<exists>r s'. skynet_context_new fuel E name param s = Inr (r, s') \<and> node_ok g s' \<and> stable g s s' \<and>
    (\<forall>d. r = Some d \<longrightarrow> ctxs s' d \<noteq> None)"
proof (cases "module_query E name \<and> instance_create E name")
  case False
  then show ?thesis using ok by (auto simp: skynet_context_new_def stable_refl)
next
  case True
  define c where "c = next_ctx s"
  obtain a t where t: "make_context s = Inr (c, a, t)" "node_ok (hold c (start_queue a g)) t" "\<exists>x. ctxs t c = Some x \<and> ctx_queue x = a"
      "a \<notin> working g \<union> starting g" "stable g s t" unfolding c_def by (rule make_context_keeps [OF ok room])
  define G where "G = hold c (start_queue a g)"
  have held: "0 < holds G c" by (simp add: G_def)
  obtain r u where u: "instance_init E name param c t = Inr (r, u)" "node_ok G u" "stable G t u"
    using E t(2) held unfolding G_def code_ok_def by blast
  obtain x where x: "ctxs u c = Some x" "ctx_queue x = a" using t(3) u(3) held unfolding stable_def by metis
  have su: "stable g s u" by (rule stable_trans [OF t(5)], rule stable_mono [OF u(3)]) (auto simp: G_def le_fun_def)
  show ?thesis
  proof (cases r)
    case r: True
    obtain ret s' where s': "bind_res (skynet_context_release E c u) (\<lambda>(ret, s).
      bind_res (if ret \<noteq> None then bind_res (ctx_at c s) (\<lambda>x. Inr (ctx_put c (x\<lparr>ctx_init := True\<rparr>) s)) else Inr s) (\<lambda>s.
      bind_res (on_mqs (skynet_globalmq_push a) s) (\<lambda>s.
      bind_res (if ret \<noteq> None then skynet_error E (Some c) (''LAUNCH '' @ name @ '' '' @ (case param of None \<Rightarrow> [] | Some p \<Rightarrow> p)) s else Inr s) (\<lambda>s.
        Inr (ret, s))))) = Inr (ret, s')" "node_ok g s'" "stable g u s'" "\<forall>d. ret = Some d \<longrightarrow> ctxs s' d \<noteq> None"
      using new_success [OF E u(2) [unfolded G_def] x t(4)] by blast
    have "skynet_context_new fuel E name param s = Inr (ret, s')" for fuel
      unfolding skynet_context_new_def t(1) using True r u(1) s'(1) by simp
    then show ?thesis using s'(2,4) stable_trans [OF su s'(3)] by blast
  next
    case r: False
    obtain n where n: "\<forall>fuel\<ge>n. \<exists>s'. bind_res (skynet_error E (Some c) (''FAILED launch '' @ name) u) (\<lambda>s.
      bind_res (ctx_at c s) (\<lambda>_.
      let h = ctx_handle (reg s) c in
      bind_res (skynet_context_release E c s) (\<lambda>(_, s).
      bind_res (handle_retire E h s) (\<lambda>(_, s).
      bind_res (mq_release fuel E h a s) (\<lambda>s. Inr (None :: ctx option, s)))))) = Inr (None, s') \<and> node_ok g s' \<and> stable g u s'"
      using new_failure [OF E u(2) [unfolded G_def] x t(4) st] by blast
    have "\<exists>r s'. skynet_context_new fuel E name param s = Inr (r, s') \<and> node_ok g s' \<and> stable g s s' \<and>
        (\<forall>d. r = Some d \<longrightarrow> ctxs s' d \<noteq> None)" if fuel: "n \<le> fuel" for fuel
    proof -
      obtain s' where "bind_res (skynet_error E (Some c) (''FAILED launch '' @ name) u) (\<lambda>s.
        bind_res (ctx_at c s) (\<lambda>_.
        let h = ctx_handle (reg s) c in
        bind_res (skynet_context_release E c s) (\<lambda>(_, s).
        bind_res (handle_retire E h s) (\<lambda>(_, s).
        bind_res (mq_release fuel E h a s) (\<lambda>s. Inr (None :: ctx option, s)))))) = Inr (None, s')" "node_ok g s'" "stable g u s'"
        using n fuel by blast
      moreover from this(1) have "skynet_context_new fuel E name param s = Inr (None, s')"
        unfolding skynet_context_new_def t(1) using True r u(1) by simp
      ultimately show ?thesis using stable_trans [OF su] by blast
    qed
    then show ?thesis by blast
  qed
qed

lemma harbor_start_keeps:
  assumes ok: "node_ok g s" and c: "ctxs s c \<noteq> None" "c \<notin> dying g" and none: "REMOTE s = None"
  obtains s' where "skynet_harbor_start c s = Inr s'" "node_ok (g\<lparr>started := True\<rparr>) s'" "REMOTE s' = Some c"
proof -
  define t where "t = set_ref c (ctx_ref (reg s) c + 1) s"
  have t: "node_ok (hold c g) t" unfolding t_def by (rule grab_keeps [OF ok c])
  define u where "u = t\<lparr>total := total t - 1, REMOTE := Some c\<rparr>"
  define G where "G = g\<lparr>started := True\<rparr>"
  have nr: "REMOTE t = None" using none by (simp add: t_def)
  have r: "refs G u = refs (hold c g) t" unfolding refs_def G_def u_def using nr by (auto simp: fun_eq_iff)
  have sel: "reg u = reg t" "mqs u = mqs t" "ctxs u = ctxs t" "next_ctx u = next_ctx t" "HARBOR u = HARBOR t" "total u = total t - 1" "REMOTE u = Some c"
    by (simp_all add: u_def)
  have gsel: "working G = working (hold c g)" "starting G = starting (hold c g)" "dying G = dying (hold c g)" by (simp_all add: G_def)
  have n1: "\<forall>d x. ctxs t d = Some x \<longrightarrow> ctx_ok G u d x" using node_okD(7) [OF t] unfolding ctx_ok_def r sel gsel by blast
  have n2: "int (card (dom (ctxs t))) = total t - 1 + (if Some c = None then 0 else 1)" using t nr unfolding node_ok_def by auto
  have n3: "started G \<longrightarrow> Some c \<noteq> None" by simp
  have "node_ok G u" using t n1 n2 n3 unfolding node_ok_def r sel gsel by (elim conjE, intro conjI) assumption+
  moreover have "skynet_harbor_start c s = Inr u"
    using c(1) by (auto simp: skynet_harbor_start_def skynet_context_reserve_def skynet_context_grab_def ctx_at_def u_def t_def)
  ultimately show ?thesis using that unfolding G_def by (simp add: sel)
qed

lemma handle_exit_keeps:
  assumes E: "code_ok E" and ok: "node_ok g s" and c: "ctxs s c \<noteq> None" and st: "REMOTE s \<noteq> None"
  obtains s' where "handle_exit E c h s = Inr s'" "node_ok g s'" "stable g s s'"
proof -
  have alive: "\<And>d. Some c = Some d \<Longrightarrow> ctxs s d \<noteq> None" using c by auto
  define line where "line = (if h = 0 then ''KILL self'' else ''KILL :'' @ hex h)"
  obtain t where t: "skynet_error E (Some c) line s = Inr t" "node_ok g t" "messages_only s t" by (rule error_keeps [OF E ok alive])
  define k where "k = (if h = 0 then ctx_handle (reg s) c else h)"
  have ct: "ctxs t c \<noteq> None" "REMOTE t \<noteq> None" using t(3) c st unfolding messages_only_def by (metis domIff)+
  have "send_pre t (Some c) k PTYPE_CLIENT 0"
    using ct by (simp add: send_pre_def sender_ok_def PTYPE_CLIENT_def PTYPE_TAG_ALLOCSESSION_def invalid_type_def PTYPE_SYSTEM_def PTYPE_HARBOR_def)
  then obtain r u' where u': "skynet_send E (Some c) k (monitor_exit t) PTYPE_CLIENT 0 None 0 t = Inr (r, u')" "node_ok g u'" "messages_only t u'"
    by (rule send_keeps [OF E t(2)])
  obtain u where u: "(if monitor_exit t \<noteq> 0 then bind_res (skynet_send E (Some c) k (monitor_exit t) PTYPE_CLIENT 0 None 0 t) (\<lambda>(_, s). Inr s) else Inr t) = Inr u"
      "node_ok g u" "messages_only t u"
  proof (cases "monitor_exit t = 0")
    case True
    then show ?thesis using t(2) by (intro that [of t]) (simp_all add: messages_only_refl)
  next
    case False
    then show ?thesis using u' by (intro that [of u']) simp_all
  qed
  obtain b v where v: "handle_retire E k u = Inr (b, v)" "node_ok g v" "stable g u v" by (rule handle_retire_keeps [OF E u(2)])
  have "stable g s v" using messages_only_stable [OF messages_only_trans [OF t(3) u(3)]] v(3) by (metis stable_trans)
  moreover have "handle_exit E c h s = Inr v"
    using c t(1) u(1) v(1) unfolding handle_exit_def ctx_at_def by (cases "h = 0") (auto simp: line_def k_def)
  ultimately show ?thesis using v(2) that by blast
qed

lemma endless_keeps:
  assumes E: "code_ok E" and ok: "node_ok g s"
  obtains s' where "skynet_context_endless E h s = Inr s'" "node_ok g s'" "stable g s s'"
    "\<And>c x. services (reg s) h = Some c \<Longrightarrow> ctxs s c = Some x \<Longrightarrow> ctxs s' c = Some (x\<lparr>ctx_endless := True\<rparr>)"
proof (cases "services (reg s) h")
  case None
  then have "skynet_context_endless E h s = Inr s" using handle_grab_ok(1) [OF ok, of h] by (simp add: skynet_context_endless_def)
  then show ?thesis using ok None by (intro that [of s]) (simp_all add: stable_refl)
next
  case (Some c)
  define t where "t = set_ref c (ctx_ref (reg s) c + 1) s"
  have t: "node_ok (hold c g) t" using handle_grab_ok(2) [OF ok Some] by (simp add: t_def)
  obtain x where x: "ctxs s c = Some x" using table_alive(1) [OF ok in_tableI [OF Some]] by blast
  have tx: "ctxs t c = Some x" using x by (simp add: t_def)
  define u where "u = ctx_put c (x\<lparr>ctx_endless := True\<rparr>) t"
  have u: "node_ok (hold c g) u" unfolding u_def by (rule ctx_put_keeps [OF t tx]) simp_all
  have "in_table (reg u) c" using in_tableI [OF Some] by (simp add: u_def ctx_put_def t_def)
  then have "0 < refs g u c" by (simp add: refs_def)
  then obtain s' where s': "skynet_context_release E c u = Inr (Some c, s')" "node_ok g s'" "s' = set_ref c (ctx_ref (reg u) c - 1) u"
    using release_keeps [OF E u] by blast
  have st: "stable g s s'" using x unfolding s'(3) by (auto simp: stable_def u_def ctx_put_def t_def)
  have "handle_grab h s = Inr (Some c, t)" using handle_grab_ok(1) [OF ok, of h] Some by (simp add: t_def)
  then have "skynet_context_endless E h s = Inr s'" using tx s'(1) by (simp add: skynet_context_endless_def ctx_at_def u_def)
  then show ?thesis using s'(2) st
    by (rule that) (use Some x in \<open>auto simp: s'(3) u_def ctx_put_def\<close>)
qed

section \<open>A node that runs\<close>

definition idle_hands :: ghost where
  "idle_hands = \<lparr>holds = (\<lambda>_. 0), working = {}, starting = {}, dying = {}, started = False\<rparr>"

lemma node_init_ok: "node_ok idle_hands (node_init hb)"
proof -
  have "take_bit 24 (push_bit 24 (word_of_int hb) :: u32) = 0" by (simp add: take_bit_push_bit)
  moreover have "take_bit 24 (NOT 0 :: u32) \<noteq> 0" by simp
  ultimately have "push_bit 24 (word_of_int hb) \<noteq> (NOT 0 :: u32)" by metis
  moreover have "\<exists>gs. mq_inv skynet_mq_init {} gs" using mq_invariant [OF mq_reach.init] by blast
  moreover have "services (skynet_handle_init hb (\<lambda>_. 0) (\<lambda>_. 0)) h = None" for h
    using services_empty [of "skynet_handle_init hb (\<lambda>_. 0) (\<lambda>_. 0)" h] registry_init_ok [of hb "\<lambda>_. 0" "\<lambda>_. 0"]
    by (simp add: registry_ok_def skynet_handle_init_def)
  moreover have "qinfo skynet_mq_init a = None" for a by (simp add: qinfo_def qview_def skynet_mq_init_def)
  ultimately show ?thesis using registry_init_ok [of hb "\<lambda>_. 0" "\<lambda>_. 0"]
    by (auto simp: node_ok_def node_init_def idle_hands_def refs_def in_table_def HANDLE_REMOTE_SHIFT_def)
qed

text \<open>A service that answers every message once the harbor is there.\<close>

definition silent_code :: service_code where
  "silent_code = \<lparr>module_query = (\<lambda>_. True), instance_create = (\<lambda>_. True), instance_init = (\<lambda>_ _ _ s. Inr (True, s)),
     instance_release = (\<lambda>_ s. Inr ((), s)), instance_cb = (\<lambda>_ _ s. Inr (False, s))\<rparr>"

definition answer_code :: service_code where
  "answer_code = silent_code\<lparr>
     instance_init := (\<lambda>_ _ c s. bind_res (skynet_callback c True s) (\<lambda>s. Inr (True, s))),
     instance_cb := (\<lambda>c m s. if REMOTE s = None then Inr (False, s)
       else bind_res (skynet_send silent_code (Some c) 0 (source m) 1 (session m) None 0 s) (\<lambda>(_, s). Inr (False, s)))\<rparr>"

lemma silent_code_ok: "code_ok silent_code"
  by (auto simp: code_ok_def silent_code_def stable_refl)

lemma held_alive: "node_ok g s \<Longrightarrow> 0 < holds g c \<Longrightarrow> ctxs s c \<noteq> None"
  using node_okD(5) refs_held by blast

lemma answer_code_ok: "code_ok answer_code"
  unfolding code_ok_def
proof (intro conjI allI impI)
  fix g s c m assume ok: "node_ok g s" and h: "0 < holds g c"
  show "\<exists>r s'. instance_cb answer_code c m s = Inr (r, s') \<and> node_ok g s' \<and> stable g s s'"
  proof (cases "REMOTE s = None")
    case True
    then show ?thesis using ok by (auto simp: answer_code_def stable_refl)
  next
    case False
    have "send_pre s (Some c) 0 1 (session m)"
      using held_alive [OF ok h] False by (simp add: send_pre_def sender_ok_def PTYPE_TAG_ALLOCSESSION_def invalid_type_def PTYPE_SYSTEM_def PTYPE_HARBOR_def)
    then obtain r s' where "skynet_send silent_code (Some c) 0 (source m) 1 (session m) None 0 s = Inr (r, s')" "node_ok g s'" "messages_only s s'"
      by (rule send_keeps [OF silent_code_ok ok])
    then show ?thesis using False messages_only_stable by (auto simp: answer_code_def)
  qed
next
  fix g s c n p assume ok: "node_ok g s" and h: "0 < holds g c"
  obtain x where x: "ctxs s c = Some x" using held_alive [OF ok h] by blast
  have "node_ok g (ctx_put c (x\<lparr>ctx_cb := True\<rparr>) s)" by (rule ctx_put_keeps [OF ok x]) simp_all
  moreover have "stable g s (ctx_put c (x\<lparr>ctx_cb := True\<rparr>) s)" by (rule messages_only_stable [OF ctx_put_only [OF x]]) simp_all
  ultimately show "\<exists>r s'. instance_init answer_code n p c s = Inr (r, s') \<and> node_ok g s' \<and> stable g s s'"
    using x by (auto simp: answer_code_def silent_code_def skynet_callback_def ctx_at_def)
next
  fix g s c assume ok: "node_ok g s"
  then show "\<exists>s'. instance_release answer_code c s = Inr ((), s') \<and> node_ok g s' \<and> stable g s s'"
    by (simp add: answer_code_def silent_code_def stable_refl)
qed

text \<open>The first service of a node, and the node with that service as its harbor.\<close>

definition first_service :: "ctx \<times> qaddr \<times> node" where
  "first_service = projr (make_context (node_init 1))"

lemma first_service_ok:
  obtains a s x where "first_service = (0, a, s)" "node_ok (hold 0 (start_queue a idle_hands)) s" "ctxs s 0 = Some x" "ctx_queue x = a" "REMOTE s = None"
proof -
  have room: "room (node_init 1)" by (simp add: room_def node_init_def skynet_handle_init_def DEFAULT_SLOT_SIZE_def)
  obtain h t a m where mk: "make_context (node_init 1) = Inr (next_ctx (node_init 1), a,
      (node_init 1)\<lparr>reg := t, mqs := m, next_ctx := next_ctx (node_init 1) + 1, total := total (node_init 1) + 1, ctxs := (ctxs (node_init 1))(next_ctx (node_init 1) \<mapsto>
        \<lparr>ctx_queue = a, ctx_cb = False, session_id = 0, message_count = 0, ctx_init = False, ctx_endless = False\<rparr>)\<rparr>)"
    by (rule make_context_run [OF node_init_ok room])
  obtain a' s where s: "make_context (node_init 1) = Inr (next_ctx (node_init 1), a', s)" "node_ok (hold (next_ctx (node_init 1)) (start_queue a' idle_hands)) s"
      "\<exists>x. ctxs s (next_ctx (node_init 1)) = Some x \<and> ctx_queue x = a'"
    by (rule make_context_keeps [OF node_init_ok room])
  have n: "next_ctx (node_init 1) = 0" by (simp add: node_init_def)
  obtain x where x: "ctxs s 0 = Some x" "ctx_queue x = a'" using s(3) n by auto
  have "REMOTE s = None" using mk s(1) by (auto simp: node_init_def)
  then show ?thesis using s(1,2) x unfolding n by (intro that [of a' s x]) (simp_all add: first_service_def)
qed

definition demo_node :: node where
  "demo_node = projr (skynet_harbor_start 0 (snd (snd first_service)))"

definition demo_hands :: ghost where
  "demo_hands = (hold 0 (start_queue (fst (snd first_service)) idle_hands))\<lparr>started := True\<rparr>"

lemma demo_node_ok: "node_ok demo_hands demo_node" "started demo_hands" "working demo_hands = {}" "ctxs demo_node 0 \<noteq> None"
proof -
  obtain a s x where f: "first_service = (0, a, s)" "node_ok (hold 0 (start_queue a idle_hands)) s" "ctxs s 0 = Some x" "ctx_queue x = a" "REMOTE s = None"
    by (rule first_service_ok)
  have "0 \<notin> dying (hold 0 (start_queue a idle_hands))" by (simp add: idle_hands_def)
  then obtain s' where s': "skynet_harbor_start 0 s = Inr s'" "node_ok ((hold 0 (start_queue a idle_hands))\<lparr>started := True\<rparr>) s'" "REMOTE s' = Some 0"
    using harbor_start_keeps [OF f(2)] f(3,5) by (metis option.distinct(1))
  have eq: "demo_node = s'" "demo_hands = (hold 0 (start_queue a idle_hands))\<lparr>started := True\<rparr>"
    unfolding demo_node_def demo_hands_def f(1) using s'(1) by simp_all
  show "node_ok demo_hands demo_node" unfolding eq by (rule s'(2))
  show "started demo_hands" "working demo_hands = {}" by (simp_all add: demo_hands_def idle_hands_def)
  have "0 < refs demo_hands s' 0" unfolding refs_def s'(3) by simp
  then show "ctxs demo_node 0 \<noteq> None" using node_okD(5) [OF s'(2) [folded eq(2)]] unfolding eq(1) by blast
qed

lemma demo_remote: "REMOTE demo_node = Some 0"
proof -
  obtain a s x where f: "first_service = (0, a, s)" "node_ok (hold 0 (start_queue a idle_hands)) s" "ctxs s 0 = Some x" "ctx_queue x = a" "REMOTE s = None"
    by (rule first_service_ok)
  show ?thesis unfolding demo_node_def f(1) using f(3)
    by (simp add: skynet_harbor_start_def skynet_context_reserve_def skynet_context_grab_def ctx_at_def)
qed

section \<open>Properties\<close>

text \<open>
  C1. Workers. In a node whose state is consistent, a worker that calls for work, with no queue or with the queue it has,
  gets through: no assertion fails, no freed context or queue is used, the loops end, and the state is
  consistent again, with the queue that is returned as the one in the hands of the worker. This holds for every
  code of the services that itself keeps the state consistent.
\<close>

theorem dispatch_safe:
  assumes "code_ok E" "node_ok g s" "started g" "set_option q \<subseteq> working g"
    and "\<forall>a k r ms. qview (mqs s) a = Some (k, r, ms) \<longrightarrow> length ms < fuel"
  shows "\<exists>q' sm' s'. skynet_context_message_dispatch fuel E sm q weight s = Inr (q', sm', s') \<and>
    node_ok (g\<lparr>working := (working g - set_option q) \<union> set_option q'\<rparr>) s'"
proof (cases q)
  case (Some a)
  then show ?thesis using dispatch_queue_keeps [OF assms(1-3), of a fuel sm weight] assms(4,5) by auto
next
  case None
  obtain r m where p: "from_mqs skynet_globalmq_pop s = Inr (r, s\<lparr>mqs := m\<rparr>)" "node_ok (g\<lparr>working := working g \<union> set_option r\<rparr>) (s\<lparr>mqs := m\<rparr>)"
    "qview m = qview (mqs s)" "set_option r \<inter> (working g \<union> starting g) = {}" by (rule gpop_keeps [OF assms(2)])
  show ?thesis
  proof (cases r)
    case None
    then show ?thesis using p(1,2) \<open>q = None\<close> by (auto simp: dispatch_none)
  next
    case (Some a)
    then have "working g \<union> {a} - {a} = working g" using p(4) by auto
    moreover have "\<exists>q' sm' s'. skynet_context_message_dispatch fuel E sm (Some a) weight (s\<lparr>mqs := m\<rparr>) = Inr (q', sm', s') \<and>
        node_ok (g\<lparr>working := (working g \<union> {a} - {a}) \<union> set_option q'\<rparr>) s'"
      using dispatch_queue_keeps [OF assms(1) p(2), of a fuel sm weight] assms(3,5) p(3) Some by auto
    ultimately show ?thesis using p(1) Some \<open>q = None\<close> by (auto simp: dispatch_none)
  qed
qed

theorem dispatch_safe_witness:
  "\<exists>fuel q' sm' s'. skynet_context_message_dispatch fuel answer_code skynet_monitor_new None 0 demo_node = Inr (q', sm', s') \<and>
    node_ok (demo_hands\<lparr>working := set_option q'\<rparr>) s'"
proof -
  obtain gs where "mq_inv (mqs demo_node) (working demo_hands \<union> starting demo_hands) gs" using node_okD(2) [OF demo_node_ok(1)] by blast
  then have "dom (queues (mqs demo_node)) \<subseteq> {..<fresh (mqs demo_node)}" by (auto simp: mq_inv_def not_less [symmetric])
  then have "finite (dom (qview (mqs demo_node)))" unfolding qview_def dom_map_option by (meson finite_lessThan finite_subset)
  then have "finite ((\<lambda>a. case qview (mqs demo_node) a of None \<Rightarrow> 0 | Some (k, r, ms) \<Rightarrow> length ms) ` dom (qview (mqs demo_node)))" by simp
  then obtain n where n: "\<forall>x \<in> (\<lambda>a. case qview (mqs demo_node) a of None \<Rightarrow> 0 | Some (k, r, ms) \<Rightarrow> length ms) ` dom (qview (mqs demo_node)). x < n"
    using finite_nat_set_iff_bounded by metis
  have "\<forall>a k r ms. qview (mqs demo_node) a = Some (k, r, ms) \<longrightarrow> length ms < n" using n by (force simp: dom_def)
  from dispatch_safe [OF answer_code_ok demo_node_ok(1,2) _ this, of None skynet_monitor_new 0] show ?thesis by (auto simp: demo_node_ok(3))
qed


lemma demo_room: "room demo_node"
proof -
  obtain a s x where f: "first_service = (0, a, s)" "node_ok (hold 0 (start_queue a idle_hands)) s" "ctxs s 0 = Some x" "ctx_queue x = a" "REMOTE s = None"
    by (rule first_service_ok)
  have mk: "make_context (node_init 1) = Inr first_service"
  proof -
    have "room (node_init 1)" by (simp add: room_def node_init_def skynet_handle_init_def DEFAULT_SLOT_SIZE_def)
    then obtain b t where "make_context (node_init 1) = Inr (next_ctx (node_init 1), b, t)" by (rule make_context_keeps [OF node_init_ok])
    then show ?thesis by (simp add: first_service_def)
  qed
  have "case make_context (node_init 1) of Inl _ \<Rightarrow> False | Inr (_, _, s) \<Rightarrow> room s" by code_simp
  then have "room s" unfolding mk f(1) by simp
  moreover have "reg demo_node = reg (set_ref 0 (ctx_ref (reg s) 0 + 1) s)"
    unfolding demo_node_def f(1) using f(3)
    by (simp add: skynet_harbor_start_def skynet_context_reserve_def skynet_context_grab_def ctx_at_def set_ref_def)
  ultimately show ?thesis by (simp add: room_def set_ref_def)
qed


end
