(* ===== verification/Skynet_Messages.thy ===== *)
theory Skynet_Messages
  imports Skynet_Server_Proofs
begin

text \<open>
  What happens to messages in a node: where they arrive, with which sender and session, what becomes of those
  that an ended service has not read, and how long a context lives.
\<close>

section \<open>What happens to messages\<close>

lemma inbox_view: "ctxs s c = Some x \<Longrightarrow> qview (mqs s) (ctx_queue x) = Some (k, r, ms) \<Longrightarrow> inbox s c = ms"
  by (simp add: inbox_def)

lemma push_inbox:
  assumes ok: "node_ok g s" and x: "ctxs s c = Some x" and m: "qview m = (qview (mqs s))(ctx_queue x \<mapsto> (k, False, inbox s c @ [y]))"
  shows "inbox (s\<lparr>mqs := m\<rparr>) = (inbox s)(c := inbox s c @ [y])"
proof
  fix d
  show "inbox (s\<lparr>mqs := m\<rparr>) d = ((inbox s)(c := inbox s c @ [y])) d"
  proof (cases "ctxs s d")
    case None
    then show ?thesis using x by (auto simp: inbox_def)
  next
    case (Some z)
    then show ?thesis using owner_unique [OF ok Some x] x m by (cases "d = c") (auto simp: inbox_def)
  qed
qed

lemma inbox_same:
  assumes only: "messages_only s t" and "mqs t = mqs s"
  shows "inbox t = inbox s"
proof
  fix c
  note o = only [unfolded messages_only_def]
  have d: "dom (ctxs t) = dom (ctxs s)" using o by (elim conjE)
  have q: "\<forall>c x y. ctxs s c = Some x \<longrightarrow> ctxs t c = Some y \<longrightarrow> ctx_queue y = ctx_queue x \<and> ctx_init y = ctx_init x" using o by (elim conjE)
  show "inbox t c = inbox s c"
  proof (cases "ctxs s c")
    case None
    then have "ctxs t c = None" using d by (metis domIff)
    then show ?thesis using None by (simp add: inbox_def)
  next
    case (Some x)
    then obtain y where y: "ctxs t c = Some y" using d by (metis domD domI)
    then have "ctx_queue y = ctx_queue x" using q Some by blast
    then show ?thesis using Some y assms(2) by (simp add: inbox_def)
  qed
qed

text \<open>A message without a session to allocate, from a sender given by its handle.\<close>

lemma send_local:
  assumes E: "code_ok E" and ok: "node_ok g s" and src: "src \<noteq> 0" and dest: "dest \<noteq> 0" and type: "type AND PTYPE_TAG_ALLOCSESSION = 0"
    and sz: "sz AND MESSAGE_TYPE_MASK = sz" and here: "skynet_harbor_message_isremote dest s = Inr False"
  shows "services (reg s) dest = None \<Longrightarrow> skynet_send E f src dest type ses data sz s = Inr (-1, s)"
    and "services (reg s) dest = Some c \<Longrightarrow> \<exists>m. skynet_send E f src dest type ses data sz s = Inr (ses, s\<lparr>mqs := m\<rparr>) \<and> node_ok g (s\<lparr>mqs := m\<rparr>) \<and>
      inbox (s\<lparr>mqs := m\<rparr>) = (inbox s)(c := inbox s c @
        [\<lparr>source = src, session = ses, msg_data = data, msg_sz = sz OR push_bit MESSAGE_TYPE_SHIFT (type AND 0xff)\<rparr>])"
proof -
  define y where "y = \<lparr>source = src, session = ses, msg_data = data, msg_sz = sz OR push_bit MESSAGE_TYPE_SHIFT (type AND 0xff)\<rparr>"
  have run: "skynet_send E f src dest type ses data sz s = bind_res (skynet_context_push E dest y s) (\<lambda>(r, s). if r \<noteq> 0 then Inr (-1, s) else Inr (ses, s))"
    using sz src dest here type by (simp add: skynet_send_def filter_args_def own_handle_def y_def)
  show "services (reg s) dest = None \<Longrightarrow> skynet_send E f src dest type ses data sz s = Inr (-1, s)"
    unfolding run using push_handle(1) [OF E ok] by simp
  assume c: "services (reg s) dest = Some c"
  obtain x where x: "ctxs s c = Some x" using table_alive(1) [OF ok in_tableI [OF c]] by blast
  obtain m where m: "skynet_context_push E dest y s = Inr (0, s\<lparr>mqs := m\<rparr>)" "node_ok g (s\<lparr>mqs := m\<rparr>)"
      "qview m = (qview (mqs s))(ctx_queue x \<mapsto> (dest, False, inbox s c @ [y]))" using push_handle(2) [OF E ok c x] by blast
  then show "\<exists>m. skynet_send E f src dest type ses data sz s = Inr (ses, s\<lparr>mqs := m\<rparr>) \<and> node_ok g (s\<lparr>mqs := m\<rparr>) \<and>
      inbox (s\<lparr>mqs := m\<rparr>) = (inbox s)(c := inbox s c @ [\<lparr>source = src, session = ses, msg_data = data, msg_sz = sz OR push_bit MESSAGE_TYPE_SHIFT (type AND 0xff)\<rparr>])"
    using push_inbox [OF ok x m(3)] unfolding run y_def by (intro exI [of _ m]) simp
qed

text \<open>The message that tells a sender that its message was dropped.\<close>

definition drop_report :: "u32 \<Rightarrow> skynet_message" where
  "drop_report h = \<lparr>source = h, session = 0, msg_data = None, msg_sz = push_bit MESSAGE_TYPE_SHIFT PTYPE_ERROR\<rparr>"

lemma harbor_send_inbox:
  assumes ok: "node_ok g s" and r: "REMOTE s = Some d" "d \<noteq> c" and run: "skynet_harbor_send rm src ses s = Inr s'"
  shows "inbox s' c = inbox s c"
proof -
  define t where "t = s\<lparr>rmsgs := rmsgs s @ [rm]\<rparr>"
  have t: "node_ok g t" by (rule node_ok_frame [OF ok]) (simp_all add: t_def)
  have "0 < refs g t d" using r(1) by (simp add: refs_def t_def)
  then obtain x where x: "ctxs t d = Some x" using node_okD(5) [OF t] by blast
  obtain m where m: "on_mqs (skynet_mq_push (ctx_queue x)
        \<lparr>source = src, session = ses, msg_data = Some (length (rmsgs s)), msg_sz = 48 OR push_bit MESSAGE_TYPE_SHIFT PTYPE_SYSTEM\<rparr>) t = Inr (t\<lparr>mqs := m\<rparr>)"
      "qview m = (qview (mqs t))(ctx_queue x \<mapsto> (ctx_handle (reg t) d, False, inbox t d @
        [\<lparr>source = src, session = ses, msg_data = Some (length (rmsgs s)), msg_sz = 48 OR push_bit MESSAGE_TYPE_SHIFT PTYPE_SYSTEM\<rparr>]))"
    by (rule push_keeps [OF t x])
  have "s' = t\<lparr>mqs := m\<rparr>"
    using run r(1) x m(1) by (simp add: skynet_harbor_send_def skynet_context_send_def ctx_at_def t_def [symmetric] split: if_splits)
  then have "inbox s' c = inbox t c" using push_inbox [OF t x m(2)] r(2) by simp
  then show ?thesis by (simp add: inbox_def t_def split: option.split)
qed

lemma drop_message_inbox:
  assumes E: "code_ok E" and ok: "node_ok g s" and st: "started g" and h: "h \<noteq> 0"
    and c: "services (reg s) k = Some c" "k \<noteq> 0" "skynet_harbor_message_isremote k s = Inr False" "REMOTE s \<noteq> Some c"
    and run: "drop_message E h m s = Inr s'"
  shows "inbox s' c = inbox s c @ (if source m = k then [drop_report h] else [])"
proof -
  have type: "PTYPE_ERROR AND PTYPE_TAG_ALLOCSESSION = 0" "PTYPE_ERROR AND 0xff = PTYPE_ERROR" "(0::nat) AND MESSAGE_TYPE_MASK = 0"
    by (simp_all add: PTYPE_ERROR_def PTYPE_TAG_ALLOCSESSION_def)
  obtain r where r: "skynet_send E None h (source m) PTYPE_ERROR 0 None 0 s = Inr (r, s')" using run h by (auto simp: drop_message_def bind_res_eq_Inr)
  obtain d where d: "REMOTE s = Some d" "d \<noteq> c" using node_okD(8) [OF ok st] c(4) by blast
  have sent: "skynet_harbor_message_isremote (source m) s = Inr b \<Longrightarrow> source m \<noteq> 0 \<Longrightarrow> b \<Longrightarrow>
      \<exists>rm. skynet_harbor_send rm h 0 s = Inr s'" for b
    using r h type by (auto simp: skynet_send_def filter_args_def own_handle_def bind_res_eq_Inr)
  have "skynet_harbor_message_isremote (source m) s \<noteq> Inl e" for e
    using node_okD(4) [OF ok] by (simp add: skynet_harbor_message_isremote_def Let_def)
  then obtain b where b: "skynet_harbor_message_isremote (source m) s = Inr b" by (meson sum.exhaust)
  consider "source m = 0" | "source m \<noteq> 0" b | "source m \<noteq> 0" "\<not> b" by blast
  then show ?thesis
  proof cases
    case 1
    then have "s' = s" using r h type by (simp add: skynet_send_def filter_args_def own_handle_def)
    then show ?thesis using 1 c(2) by simp
  next
    case 2
    then obtain rm where "skynet_harbor_send rm h 0 s = Inr s'" using sent b by blast
    then have "inbox s' c = inbox s c" by (rule harbor_send_inbox [OF ok d])
    then show ?thesis using 2 b c(3) by auto
  next
    case 3
    then have here: "skynet_harbor_message_isremote (source m) s = Inr False" using b by simp
    note L = send_local [OF E ok h 3(1) type(1,3) here, where f = None and ses = 0 and data = None]
    show ?thesis
    proof (cases "services (reg s) (source m)")
      case None
      then have "s' = s" using L(1) r by simp
      then show ?thesis using None c(1) by auto
    next
      case (Some e)
      then have "inbox s' = (inbox s)(e := inbox s e @ [drop_report h])" using L(2) [OF Some] r type(2) by (auto simp: drop_report_def)
      moreover have "e = c \<longleftrightarrow> source m = k" using Some c(1) services_handle [of "reg s"] by (metis option.inject)
      ultimately show ?thesis by auto
    qed
  qed
qed

lemma isremote_cong: "HARBOR s' = HARBOR s \<Longrightarrow> skynet_harbor_message_isremote k s' = skynet_harbor_message_isremote k s"
  by (simp add: skynet_harbor_message_isremote_def)

lemma drop_queue_inbox:
  assumes E: "code_ok E" and st: "started g" and h: "h \<noteq> 0" and a: "a \<in> working g \<union> starting g" and k: "k \<noteq> 0"
  shows "node_ok g s \<Longrightarrow> qview (mqs s) a = Some (q, True, ms) \<Longrightarrow> length ms < fuel \<Longrightarrow> services (reg s) k = Some c \<Longrightarrow>
    skynet_harbor_message_isremote k s = Inr False \<Longrightarrow> REMOTE s \<noteq> Some c \<Longrightarrow> drop_queue fuel E h a s = Inr s' \<Longrightarrow>
    inbox s' c = inbox s c @ replicate (length (filter (\<lambda>m. source m = k) ms)) (drop_report h) \<and> qview (mqs s') a = None"
proof (induction fuel arbitrary: s ms)
  case (Suc fuel)
  obtain x where x: "ctxs s c = Some x" using table_alive(1) [OF Suc.prems(1) in_tableI [OF Suc.prems(4)]] by blast
  have "qinfo (mqs s) a = Some (q, True)" using Suc.prems(2) by (simp add: qinfo_def)
  then have other: "ctx_queue x \<noteq> a" using owner_marked [OF Suc.prems(1) _ x] by blast
  obtain m where m: "from_mqs (skynet_mq_pop a) s = Inr (case ms of [] \<Rightarrow> None | m # _ \<Rightarrow> Some m, s\<lparr>mqs := m\<rparr>)"
    "node_ok g (s\<lparr>mqs := m\<rparr>)" "qview m = (qview (mqs s))(a \<mapsto> (q, True, tl ms))" by (rule drop_step_keeps [OF Suc.prems(1) a Suc.prems(2)])
  have im: "inbox (s\<lparr>mqs := m\<rparr>) c = inbox s c" using x other m(3) by (simp add: inbox_def)
  show ?case
  proof (cases ms)
    case Nil
    have v: "qview (mqs (s\<lparr>mqs := m\<rparr>)) a = Some (q, True, [])" using m(3) Nil by simp
    obtain m' where m': "on_mqs (release_queue a) (s\<lparr>mqs := m\<rparr>) = Inr (s\<lparr>mqs := m, mqs := m'\<rparr>)" "qview m' = (qview m)(a := None)"
      using free_keeps [OF m(2) a v] by auto
    then have "s' = s\<lparr>mqs := m'\<rparr>" using Suc.prems(7) m(1) Nil by simp
    then show ?thesis using x other m(3) m'(2) Nil by (simp add: inbox_def)
  next
    case (Cons y ys)
    obtain t where t: "drop_message E h y (s\<lparr>mqs := m\<rparr>) = Inr t" "node_ok g t" "messages_only (s\<lparr>mqs := m\<rparr>) t"
      by (rule drop_message_keeps [OF E m(2) st h])
    have sv: "services (reg (s\<lparr>mqs := m\<rparr>)) k = Some c" "skynet_harbor_message_isremote k (s\<lparr>mqs := m\<rparr>) = Inr False" "REMOTE (s\<lparr>mqs := m\<rparr>) \<noteq> Some c"
      using Suc.prems(4-6) isremote_cong [of "s\<lparr>mqs := m\<rparr>" s] by simp_all
    have it: "inbox t c = inbox s c @ (if source y = k then [drop_report h] else [])"
      using drop_message_inbox [OF E m(2) st h sv(1) k sv(2,3) t(1)] im by simp
    have ht: "HARBOR t = HARBOR s" using t(3) by (simp add: messages_only_def)
    have "qview (mqs t) a = Some (q, True, ys)" using t(3) m(3) Cons by (simp add: messages_only_def)
    moreover have "services (reg t) k = Some c" "REMOTE t \<noteq> Some c" using t(3) Suc.prems(4,6) by (simp_all add: messages_only_def)
    moreover have "skynet_harbor_message_isremote k t = Inr False" using isremote_cong [OF ht] Suc.prems(5) by simp
    moreover have "drop_queue fuel E h a t = Inr s'" using Suc.prems(7) m(1) Cons t(1) by simp
    ultimately have "inbox s' c = inbox t c @ replicate (length (filter (\<lambda>m. source m = k) ys)) (drop_report h) \<and> qview (mqs s') a = None"
      using Suc.IH [OF t(2)] Suc.prems(3) Cons by auto
    then show ?thesis using it Cons by auto
  qed
qed simp

section \<open>Ending all services\<close>

text \<open>Services that leave the table of handles alone while they are deleted.\<close>

definition quiet :: "service_code \<Rightarrow> bool" where
  "quiet E \<longleftrightarrow> (\<forall>c s s'. instance_release E c s = Inr ((), s') \<longrightarrow> reg s' = reg s)"

lemma release_reg:
  assumes q: "quiet E" and run: "skynet_context_release E c s = Inr (r, s')"
  shows "reg s' = reg (set_ref c (ctx_ref (reg s) c - 1) s)"
proof (cases "ctx_ref (reg s) c = 1")
  case False
  then show ?thesis using run by (auto simp: skynet_context_release_def bind_res_eq_Inr Let_def)
next
  case True
  then obtain u v and x :: skynet_context where "instance_release E c (set_ref c (ctx_ref (reg s) c - 1) s) = Inr ((), u)"
      "on_mqs (skynet_mq_mark_release (ctx_queue x)) u = Inr v" "reg s' = reg v"
    using run by (auto simp: skynet_context_release_def delete_context_def bind_res_eq_Inr Let_def)
  then show ?thesis using q by (auto simp: quiet_def on_mqs_def bind_res_eq_Inr)
qed

lemma retire_one:
  assumes E: "code_ok E" "quiet E" and ok: "node_ok g s" and i: "i < slot_size (reg s)" "slot (reg s) ! i = Some c"
  obtains s' where "handle_retire E (ctx_handle (reg s) c) s = Inr (True, s')" "node_ok g s'" "stable g s s'" "ctx_handle (reg s) c \<noteq> 0" "ctxs s c \<noteq> None"
    "slot_size (reg s') = slot_size (reg s)" "slot (reg s') = (slot (reg s))[i := None]"
proof -
  define h where "h = ctx_handle (reg s) c"
  have o: "handles_ok (reg s)" "names_ok (reg s)" using node_okD(1) [OF ok] by (simp_all add: registry_ok_def)
  have h: "h \<noteq> 0" "slot_of (slot_size (reg s)) h = i" using o(1) i by (auto simp: handles_ok_def h_def)
  have sv: "services (reg s) h = Some c" using i(2) h by (simp add: services_def h_def)
  obtain t where t: "skynet_handle_retire h (reg s) = Inr (services (reg s) h, t)" "slot_size t = slot_size (reg s)"
      "slot t = (if services (reg s) h = None then slot (reg s) else (slot (reg s))[slot_of (slot_size (reg s)) h := None])"
    by (rule retire_ok [OF o, of h])
  obtain r s' where s': "handle_retire E h s = Inr (r, s')" "node_ok g s'" "stable g s s'" "r \<longleftrightarrow> services (reg s) h \<noteq> None"
    by (rule handle_retire_keeps [OF E(1) ok])
  then obtain v where "skynet_context_release E c (s\<lparr>reg := t\<rparr>) = Inr (v, s')"
    using slot_alive_ok [OF ok] t(1) sv by (auto simp: handle_retire_def Let_def bind_res_eq_Inr)
  then have "slot_size (reg s') = slot_size t \<and> slot (reg s') = slot t" using release_reg [OF E(2)] by (simp add: set_ref_def)
  then show ?thesis using that [of s'] s' sv h t(2,3) table_alive(1) [OF ok in_tableI [OF sv]] by (simp add: h_def [symmetric])
qed

lemma retire_slots_ok:
  assumes E: "code_ok E" "quiet E"
  shows "node_ok g s \<Longrightarrow> \<forall>j<i. slot (reg s) ! j = None \<Longrightarrow> slot_size (reg s) < i + fuel \<Longrightarrow> i \<le> slot_size (reg s) \<Longrightarrow>
    \<exists>n' s'. retire_slots fuel E i (n, s) = Inr (n', s') \<and> node_ok g s' \<and> stable g s s' \<and> slot_size (reg s') = slot_size (reg s) \<and>
      (\<forall>j < slot_size (reg s). slot (reg s') ! j = None) \<and> ((\<forall>j < slot_size (reg s). slot (reg s) ! j = None) \<longrightarrow> n' = n \<and> s' = s)"
proof (induction fuel arbitrary: i n s)
  case (Suc fuel)
  have len: "length (slot (reg s)) = slot_size (reg s)" using node_okD(1) [OF Suc.prems(1)] by (simp add: registry_ok_def handles_ok_def)
  consider "slot_size (reg s) \<le> i" | "i < slot_size (reg s)" "slot (reg s) ! i = None" | c where "i < slot_size (reg s)" "slot (reg s) ! i = Some c"
    by (meson linorder_not_less not_None_eq)
  then show ?case
  proof cases
    case 1
    then show ?thesis using Suc.prems by (simp add: stable_refl)
  next
    case 2
    have "\<forall>j<Suc i. slot (reg s) ! j = None" using Suc.prems(2) 2(2) by (auto simp: less_Suc_eq)
    moreover have "retire_slots (Suc fuel) E i (n, s) = retire_slots fuel E (Suc i) (n, s)" using 2 len by simp
    ultimately show ?thesis using Suc.IH [OF Suc.prems(1), of "Suc i" n] Suc.prems(3) 2(1) by simp
  next
    case 3
    obtain t where t: "handle_retire E (ctx_handle (reg s) c) s = Inr (True, t)" "node_ok g t" "stable g s t" "ctx_handle (reg s) c \<noteq> 0" "ctxs s c \<noteq> None"
      "slot_size (reg t) = slot_size (reg s)" "slot (reg t) = (slot (reg s))[i := None]" by (rule retire_one [OF E Suc.prems(1) 3])
    have low: "\<forall>j<Suc i. slot (reg t) ! j = None" using Suc.prems(2) 3(1) len t(7) by (auto simp: less_Suc_eq nth_list_update)
    have run: "retire_slots (Suc fuel) E i (n, s) = retire_slots fuel E (Suc i) (n + 1, t)" using 3 len t(1,4,5) by (auto simp: ctx_at_def)
    obtain n' s' where "retire_slots fuel E (Suc i) (n + 1, t) = Inr (n', s')" "node_ok g s'" "stable g t s'" "slot_size (reg s') = slot_size (reg t)"
        "\<forall>j < slot_size (reg t). slot (reg s') ! j = None"
      using Suc.IH [OF t(2) low, of "n + 1"] Suc.prems(3) t(6) 3(1) by auto
    then show ?thesis unfolding run using stable_trans [OF t(3)] t(6) 3 by auto
  qed
qed simp

lemma retireall_node:
  assumes E: "code_ok E" "quiet E" and ok: "node_ok g s" and pass: "slot_size (reg s) < pass"
  obtains s' where "handle_retireall (Suc (Suc fuel)) pass E s = Inr s'" "node_ok g s'" "stable g s s'" "services (reg s') = Map.empty"
proof -
  obtain n t where t: "retire_slots pass E 0 (0, s) = Inr (n, t)" "node_ok g t" "stable g s t" "slot_size (reg t) = slot_size (reg s)"
      "\<forall>j < slot_size (reg s). slot (reg t) ! j = None" using retire_slots_ok [OF E ok, of 0 pass 0] pass by auto
  have "retire_slots pass E 0 (0, t) = Inr (0, t)" using retire_slots_ok [OF E t(2), of 0 pass 0] pass t(4,5) by auto
  then have "handle_retireall (Suc (Suc fuel)) pass E s = Inr t" using t(1) by simp
  moreover have "services (reg t) = Map.empty"
    using services_empty [of "reg t"] node_okD(1) [OF t(2)] t(4,5) by (auto simp: registry_ok_def)
  ultimately show ?thesis using that t(2,3) by blast
qed

lemma empty_table_total:
  assumes ok: "node_ok g s" and empty: "services (reg s) = Map.empty"
  shows "dom (ctxs s) \<subseteq> {c. 0 < holds g c} \<union> dying g \<union> set_option (REMOTE s)"
    and "\<forall>c. holds g c = 0 \<Longrightarrow> dying g = {} \<Longrightarrow> REMOTE s \<noteq> None \<Longrightarrow> total s = 0"
proof -
  have no: "\<not> in_table (reg s) c" for c using empty by (simp add: in_table_def)
  show sub: "dom (ctxs s) \<subseteq> {c. 0 < holds g c} \<union> dying g \<union> set_option (REMOTE s)"
  proof
    fix c assume "c \<in> dom (ctxs s)"
    then obtain x where "ctxs s c = Some x" by blast
    then have "c \<in> dying g \<longleftrightarrow> refs g s c = 0" using node_okD(7) [OF ok] by (simp add: ctx_ok_def)
    then show "c \<in> {c. 0 < holds g c} \<union> dying g \<union> set_option (REMOTE s)" using no [of c] by (auto simp: refs_def split: if_splits)
  qed
  assume idle: "\<forall>c. holds g c = 0" "dying g = {}" and "REMOTE s \<noteq> None"
  then obtain d where d: "REMOTE s = Some d" by blast
  have "ctxs s d \<noteq> None" using node_okD(5) [OF ok, of d] d by (simp add: refs_def)
  then have "dom (ctxs s) = {d}" using sub idle d by auto
  moreover have "int (card (dom (ctxs s))) = total s + (if REMOTE s = None then 0 else 1)" using ok unfolding node_ok_def by (elim conjE)
  ultimately show "total s = 0" using d by simp
qed

section \<open>A node with two services\<close>

definition demo_single :: node where
  "demo_single = snd (projr (skynet_context_new 0 silent_code ''gate'' None demo_node))"

definition demo_pair :: node where
  "demo_pair = snd (projr (skynet_context_new 0 silent_code ''game'' None demo_single))"

text \<open>The first service sends a message to the second, which ends; a worker takes both queues.\<close>

definition demo_letter :: skynet_message where
  "demo_letter = \<lparr>source = 0x1000002, session = 7, msg_data = Some 5, msg_sz = 3\<rparr>"

definition demo_sent :: node where
  "demo_sent = snd (projr (skynet_context_push silent_code 0x1000003 demo_letter demo_pair))"

definition demo_left :: node where
  "demo_left = snd (projr (handle_retire silent_code 0x1000003 demo_sent))"

definition demo_first :: node where
  "demo_first = snd (projr (from_mqs skynet_globalmq_pop demo_left))"

definition demo_taken :: node where
  "demo_taken = snd (projr (from_mqs skynet_globalmq_pop demo_first))"

lemma start_silent:
  assumes "node_ok g s" "room s" "started g"
  shows "node_ok g (snd (projr (skynet_context_new 0 silent_code name param s)))"
proof -
  have "skynet_context_new n silent_code name param s = skynet_context_new 0 silent_code name param s" for n
    by (simp add: skynet_context_new_def silent_code_def)
  then obtain r s' where "skynet_context_new 0 silent_code name param s = Inr (r, s')" "node_ok g s'"
    using context_new_keeps [OF silent_code_ok assms, of name param] by (metis order_refl)
  then show ?thesis by simp
qed

lemma demo_single_room: "room demo_single"
  by code_simp

lemma demo_pair_services: "services (reg demo_pair) 0x1000003 = Some 2 \<and> HARBOR demo_pair = 0x1000000 \<and> ctxs demo_pair 1 \<noteq> None \<and> ctx_handle (reg demo_pair) 1 = 0x1000002 \<and>
    slot_size (reg demo_pair) < 9"
  by code_simp

lemma demo_pair_ok: "node_ok demo_hands demo_pair"
  unfolding demo_pair_def demo_single_def
  using start_silent [OF start_silent [OF demo_node_ok(1) demo_room demo_node_ok(2)] demo_single_room [unfolded demo_single_def] demo_node_ok(2)] .

lemma demo_left_ok: "node_ok demo_hands demo_left"
proof -
  obtain r s where "skynet_context_push silent_code 0x1000003 demo_letter demo_pair = Inr (r, s)" "node_ok demo_hands s"
    by (rule push_only [OF silent_code_ok demo_pair_ok])
  then have sent: "node_ok demo_hands demo_sent" by (simp add: demo_sent_def)
  obtain r s where "handle_retire silent_code 0x1000003 demo_sent = Inr (r, s)" "node_ok demo_hands s"
    by (rule handle_retire_keeps [OF silent_code_ok sent])
  then show ?thesis by (simp add: demo_left_def)
qed

lemma take_queue:
  assumes "node_ok g s" "case from_mqs skynet_globalmq_pop s of Inl _ \<Rightarrow> False | Inr (r, _) \<Rightarrow> r = Some a"
  shows "node_ok (g\<lparr>working := working g \<union> {a}\<rparr>) (snd (projr (from_mqs skynet_globalmq_pop s)))"
proof -
  obtain r m where "from_mqs skynet_globalmq_pop s = Inr (r, s\<lparr>mqs := m\<rparr>)" "node_ok (g\<lparr>working := working g \<union> set_option r\<rparr>) (s\<lparr>mqs := m\<rparr>)"
    by (rule gpop_keeps [OF assms(1)])
  then show ?thesis using assms(2) by simp
qed

text \<open>Both queues are taken, and what the node then has, in one evaluation.\<close>

definition demo_check :: "node \<Rightarrow> bool" where
  "demo_check s =
     (case from_mqs skynet_globalmq_pop s of
        Inl _ \<Rightarrow> False
      | Inr (r, s) \<Rightarrow> r = Some 1 \<and>
          (case from_mqs skynet_globalmq_pop s of
             Inl _ \<Rightarrow> False
           | Inr (r, s) \<Rightarrow> r = Some 2 \<and> qview (mqs s) 2 = Some (0x1000003, True, [demo_letter]) \<and> services (reg s) 0x1000002 = Some 1 \<and>
               REMOTE s = Some 0 \<and> HARBOR s = 0x1000000))"

lemma demo_checked: "demo_check demo_left"
  by code_simp

lemma demo_pair_run:
  obtains s1 s2 where "from_mqs skynet_globalmq_pop demo_left = Inr (Some 1, s1)" "from_mqs skynet_globalmq_pop s1 = Inr (Some 2, s2)"
    "qview (mqs s2) 2 = Some (0x1000003, True, [demo_letter])" "services (reg s2) 0x1000002 = Some 1" "REMOTE s2 = Some 0" "HARBOR s2 = 0x1000000"
proof -
  obtain r1 s1 where 1: "from_mqs skynet_globalmq_pop demo_left = Inr (r1, s1)"
    using demo_checked by (cases "from_mqs skynet_globalmq_pop demo_left") (auto simp: demo_check_def)
  obtain r2 s2 where 2: "from_mqs skynet_globalmq_pop s1 = Inr (r2, s2)"
    using demo_checked 1 by (cases "from_mqs skynet_globalmq_pop s1") (auto simp: demo_check_def)
  show ?thesis by (rule that [of s1 s2]) (use demo_checked 1 2 in \<open>simp_all add: demo_check_def\<close>)
qed

lemma demo_pops:
  "case from_mqs skynet_globalmq_pop demo_left of Inl _ \<Rightarrow> False | Inr (r, _) \<Rightarrow> r = Some 1"
  "case from_mqs skynet_globalmq_pop demo_first of Inl _ \<Rightarrow> False | Inr (r, _) \<Rightarrow> r = Some 2"
  by (rule demo_pair_run, simp add: demo_first_def)+

lemma demo_taken_ok: "node_ok (demo_hands\<lparr>working := {1, 2}\<rparr>) demo_taken"
proof -
  have "node_ok (demo_hands\<lparr>working := {1}\<rparr>) demo_first"
    using take_queue [OF demo_left_ok demo_pops(1)] demo_node_ok(3) by (simp add: demo_first_def)
  from take_queue [OF this demo_pops(2)] show ?thesis by (simp add: demo_taken_def insert_commute)
qed

lemma demo_taken_view: "qview (mqs demo_taken) 2 = Some (0x1000003, True, [demo_letter]) \<and> services (reg demo_taken) 0x1000002 = Some 1 \<and>
    REMOTE demo_taken = Some 0 \<and> HARBOR demo_taken = 0x1000000"
  by (rule demo_pair_run) (simp add: demo_first_def demo_taken_def)

section \<open>Properties\<close>

text \<open>
  C3. Sending. A message to a handle of this node that leads to a service is appended to the messages that wait for that
  service and to no others, with the sender, the session and the type it was sent with: the sender is the service itself unless
  another handle is given, the session is the one that is given, or a positive one that is allocated, and it is the result.
  A message to a handle that leads to no service changes nobody's messages and the result is -1.
\<close>

theorem send_delivers:
  assumes E: "code_ok E" and ok: "node_ok g s" and pre: "sender_ok s f src type ses" and dest: "dest \<noteq> 0"
    and sz: "sz AND MESSAGE_TYPE_MASK = sz" and here: "skynet_harbor_message_isremote dest s = Inr False"
  shows "\<exists>r s'. skynet_send E f src dest type ses data sz s = Inr (r, s') \<and> node_ok g s' \<and>
    (case services (reg s) dest of
       None \<Rightarrow> r = -1 \<and> inbox s' = inbox s
     | Some c \<Rightarrow> (if type AND PTYPE_TAG_ALLOCSESSION = 0 then r = ses else 0 < r) \<and>
         inbox s' = (inbox s)(c := inbox s c @ [\<lparr>source = if src = 0 then ctx_handle (reg s) (the f) else src, session = r,
           msg_data = data, msg_sz = sz OR push_bit MESSAGE_TYPE_SHIFT (type AND 0xff)\<rparr>]))"
proof -
  define z where "z = sz OR push_bit MESSAGE_TYPE_SHIFT (type AND 0xff)"
  define h where "h = (if src = 0 then ctx_handle (reg s) (the f) else src)"
  obtain n t where t: "filter_args f type ses sz s = Inr (n, z, t)" "node_ok g t" "messages_only s t" "mqs t = mqs s"
      "if type AND PTYPE_TAG_ALLOCSESSION = 0 then n = ses else 0 < n"
    unfolding z_def by (rule filter_args_keeps [OF ok pre])
  have eq: "reg t = reg s" "HARBOR t = HARBOR s" "own_handle f src t = Inr h"
    using t(3) own_handle_ok [OF pre t(3)] unfolding messages_only_def h_def by blast+
  have run: "skynet_send E f src dest type ses data sz s =
      bind_res (skynet_context_push E dest \<lparr>source = h, session = n, msg_data = data, msg_sz = z\<rparr> t) (\<lambda>(r, s). if r \<noteq> 0 then Inr (-1, s) else Inr (n, s))"
    using sz dest t(1) eq(3) here isremote_cong [OF eq(2)] by (simp add: skynet_send_def)
  have same: "inbox t = inbox s" by (rule inbox_same [OF t(3,4)])
  show ?thesis
  proof (cases "services (reg s) dest")
    case None
    then show ?thesis using push_handle(1) [OF E t(2)] t(2) same eq(1) unfolding run by simp
  next
    case (Some c)
    then have c: "services (reg t) dest = Some c" using eq(1) by simp
    obtain x where x: "ctxs t c = Some x" using table_alive(1) [OF t(2) in_tableI [OF c]] by blast
    obtain m where m: "skynet_context_push E dest \<lparr>source = h, session = n, msg_data = data, msg_sz = z\<rparr> t = Inr (0, t\<lparr>mqs := m\<rparr>)" "node_ok g (t\<lparr>mqs := m\<rparr>)"
        "qview m = (qview (mqs t))(ctx_queue x \<mapsto> (dest, False, inbox t c @ [\<lparr>source = h, session = n, msg_data = data, msg_sz = z\<rparr>]))"
      using push_handle(2) [OF E t(2) c x] by blast
    then show ?thesis using push_inbox [OF t(2) x m(3)] Some t(5) same
      unfolding run by (intro exI [of _ n] exI [of _ "t\<lparr>mqs := m\<rparr>"]) (simp add: h_def z_def)
  qed
qed

theorem send_delivers_witness:
  "\<exists>r s'. skynet_send silent_code (Some 1) 0 0x1000003 PTYPE_TAG_ALLOCSESSION 0 (Some 5) 3 demo_pair = Inr (r, s') \<and> 0 < r \<and>
    inbox s' 2 = inbox demo_pair 2 @ [\<lparr>source = 0x1000002, session = r, msg_data = Some 5, msg_sz = 3\<rparr>]"
proof -
  have pre: "sender_ok demo_pair (Some 1) 0 PTYPE_TAG_ALLOCSESSION 0" using demo_pair_services by (simp add: sender_ok_def)
  have here: "skynet_harbor_message_isremote 0x1000003 demo_pair = Inr False"
    using demo_pair_services by (simp add: skynet_harbor_message_isremote_def HANDLE_MASK_def)
  have type: "PTYPE_TAG_ALLOCSESSION AND PTYPE_TAG_ALLOCSESSION \<noteq> 0" "PTYPE_TAG_ALLOCSESSION AND 0xff = 0" "(3::nat) AND MESSAGE_TYPE_MASK = 3"
    by (simp_all add: PTYPE_TAG_ALLOCSESSION_def MESSAGE_TYPE_MASK_def)
  from send_delivers [OF silent_code_ok demo_pair_ok pre _ type(3) here, of "Some 5"] show ?thesis
    using demo_pair_services type by fastforce
qed



text \<open>
  C7. The life of a context. Giving a reference back deletes the context exactly when no other reference is left, neither of a
  thread nor of the table of handles nor of the harbor; then the context is gone and its queue marked to be released, and
  otherwise nothing but the count changes.
\<close>

theorem context_lifetime:
  assumes "code_ok E" and "node_ok (hold c g) s"
  shows "\<exists>r s'. skynet_context_release E c s = Inr (r, s') \<and> node_ok g s' \<and> (r = None \<longleftrightarrow> refs g s c = 0) \<and>
    (r = None \<longrightarrow> ctxs s' c = None \<and> (\<forall>x. ctxs s c = Some x \<longrightarrow> (\<exists>h. qinfo (mqs s') (ctx_queue x) = Some (h, True)))) \<and>
    (r \<noteq> None \<longrightarrow> r = Some c \<and> s' = set_ref c (ctx_ref (reg s) c - 1) s)"
proof -
  obtain r s' where r: "skynet_context_release E c s = Inr (r, s')" "node_ok g s'" "0 < refs g s c \<longrightarrow> r = Some c \<and> s' = set_ref c (ctx_ref (reg s) c - 1) s"
    "r \<noteq> None \<longrightarrow> r = Some c \<and> 0 < refs g s c"
    "r = None \<longrightarrow> ctxs s' c = None \<and> (\<forall>x. ctxs s c = Some x \<longrightarrow> (\<exists>h. qinfo (mqs s') (ctx_queue x) = Some (h, True)))"
    using release_keeps [OF assms] by blast
  have "r = None \<longleftrightarrow> refs g s c = 0" using r(3,4) refs_nonneg [of g s c] by auto
  then show ?thesis using r by blast
qed

theorem context_lifetime_witness:
  "\<exists>r s'. skynet_context_release answer_code 0 demo_node = Inr (r, s') \<and> r = Some 0"
proof -
  define g where "g = (start_queue (fst (snd first_service)) idle_hands)\<lparr>started := True\<rparr>"
  have "demo_hands = hold 0 g" by (simp add: demo_hands_def g_def hold_def)
  then have ok: "node_ok (hold 0 g) demo_node" using demo_node_ok(1) by simp
  have "refs g demo_node 0 \<noteq> 0" using demo_remote by (simp add: refs_def g_def)
  then show ?thesis using context_lifetime [OF answer_code_ok ok] by blast
qed



end
