(* ===== verification/Skynet_Timer.thy ===== *)
theory Skynet_Timer
  imports Skynet_Mq
begin

text \<open>
  The timer of the server engine (\<open>skynet_timer.c\<close>): a wheel of 256 slots for the ticks of the current
  block and four wheels of 64 slots for later ones, from which timers move down as time goes on.
  The time is a 32-bit word that wraps around. The lists of a slot are lists of nodes. While
  messages are sent the lock is released; the timers that other threads add then are arguments.
\<close>

section \<open>The model\<close>

definition TIME_NEAR_SHIFT :: nat where "TIME_NEAR_SHIFT = 8"
definition TIME_NEAR :: u32 where "TIME_NEAR = push_bit TIME_NEAR_SHIFT 1"
definition TIME_LEVEL_SHIFT :: nat where "TIME_LEVEL_SHIFT = 6"
definition TIME_LEVEL :: u32 where "TIME_LEVEL = push_bit TIME_LEVEL_SHIFT 1"
definition TIME_NEAR_MASK :: u32 where "TIME_NEAR_MASK = TIME_NEAR - 1"
definition TIME_LEVEL_MASK :: u32 where "TIME_LEVEL_MASK = TIME_LEVEL - 1"

record timer_event =
  handle :: u32
  ev_session :: int

record timer_node =
  expire :: u32
  event :: timer_event

type_synonym link_list = "timer_node list"

text \<open>\<open>levels\<close> is the array \<open>t\<close>.\<close>

record timer =
  near :: "link_list list"
  levels :: "link_list list list"
  time :: u32
  starttime :: u32
  current :: u64
  current_point :: u64

definition link :: "timer_node \<Rightarrow> link_list \<Rightarrow> link_list" where
  "link n l = l @ [n]"

text \<open>The loop over the levels.\<close>

function find_level :: "u32 \<Rightarrow> u32 \<Rightarrow> nat \<Rightarrow> u32 \<Rightarrow> nat" where
  "find_level e c i mk =
     (if i < 3 then
        if (e OR (mk - 1)) = (c OR (mk - 1)) then i
        else find_level e c (i + 1) (push_bit TIME_LEVEL_SHIFT mk)
      else i)"
  by pat_completeness auto
termination
  by (relation "measure (\<lambda>(e, c, i, mk). 3 - i)") auto

declare find_level.simps [simp del]

definition add_node :: "timer_node \<Rightarrow> timer \<Rightarrow> timer" where
  "add_node n T =
     (if (expire n OR TIME_NEAR_MASK) = (time T OR TIME_NEAR_MASK) then
        T\<lparr>near := (near T)[unat (expire n AND TIME_NEAR_MASK) := link n (near T ! unat (expire n AND TIME_NEAR_MASK))]\<rparr>
      else
        let i = find_level (expire n) (time T) 0 (push_bit TIME_LEVEL_SHIFT TIME_NEAR);
            j = unat (drop_bit (TIME_NEAR_SHIFT + i * TIME_LEVEL_SHIFT) (expire n) AND TIME_LEVEL_MASK)
        in T\<lparr>levels := (levels T)[i := (levels T ! i)[j := link n (levels T ! i ! j)]]\<rparr>)"

definition timer_add :: "timer_event \<Rightarrow> int \<Rightarrow> timer \<Rightarrow> timer" where
  "timer_add ev delay T = add_node \<lparr>expire = word_of_int delay + time T, event = ev\<rparr> T"

definition move_list :: "nat \<Rightarrow> nat \<Rightarrow> timer \<Rightarrow> timer cres" where
  "move_list level idx T =
     (if level < length (levels T) \<and> idx < length (levels T ! level) then
        Inr (fold add_node (levels T ! level ! idx) (T\<lparr>levels := (levels T)[level := (levels T ! level)[idx := []]]\<rparr>))
      else Inl OutOfBounds)"

primrec shift_loop :: "nat \<Rightarrow> u32 \<Rightarrow> u32 \<Rightarrow> nat \<Rightarrow> u32 \<Rightarrow> timer \<Rightarrow> timer cres" where
  "shift_loop 0 ct tm i mk T = Inl Diverges"
| "shift_loop (Suc fuel) ct tm i mk T =
     (if (ct AND (mk - 1)) = 0 then
        let idx = unat (tm AND TIME_LEVEL_MASK) in
        if idx \<noteq> 0 then move_list i idx T
        else shift_loop fuel ct (drop_bit TIME_LEVEL_SHIFT tm) (i + 1) (push_bit TIME_LEVEL_SHIFT mk) T
      else Inr T)"

definition timer_shift :: "timer \<Rightarrow> timer cres" where
  "timer_shift T =
     (let ct = time T + 1; T = T\<lparr>time := ct\<rparr> in
      if ct = 0 then move_list 3 0 T
      else shift_loop 5 ct (drop_bit TIME_NEAR_SHIFT ct) 0 TIME_NEAR T)"

definition PTYPE_RESPONSE :: nat where "PTYPE_RESPONSE = 1"

definition response :: "int \<Rightarrow> skynet_message" where
  "response ses = \<lparr>source = 0, session = ses, msg_data = None, msg_sz = PTYPE_RESPONSE * 2 ^ MESSAGE_TYPE_SHIFT\<rparr>"

text \<open>The calls of \<open>skynet_context_push\<close>, in their order.\<close>

definition dispatch_list :: "link_list \<Rightarrow> (u32 \<times> skynet_message) list" where
  "dispatch_list l = map (\<lambda>n. (handle (event n), response (ev_session (event n)))) l"

type_synonym adds = "(timer_event \<times> int) list"

definition add_all :: "adds \<Rightarrow> timer \<Rightarrow> timer" where
  "add_all as T = fold (\<lambda>(ev, delay). timer_add ev delay) as T"

text \<open>One list of timers for each time the lock is released, and none after these.\<close>

primrec timer_execute :: "nat \<Rightarrow> adds list \<Rightarrow> timer \<Rightarrow> ((u32 \<times> skynet_message) list \<times> timer) cres" where
  "timer_execute 0 as T = Inl Diverges"
| "timer_execute (Suc fuel) as T =
     (let idx = unat (time T AND TIME_NEAR_MASK) in
      bind_res (aget (near T) idx) (\<lambda>l.
        if l = [] then Inr ([], T)
        else
          bind_res (timer_execute fuel (tl as) (add_all (case as of [] \<Rightarrow> [] | a # _ \<Rightarrow> a) (T\<lparr>near := (near T)[idx := []]\<rparr>)))
            (\<lambda>(out, T). Inr (dispatch_list l @ out, T))))"

definition timer_update :: "nat \<Rightarrow> adds list \<times> adds list \<Rightarrow> timer \<Rightarrow> ((u32 \<times> skynet_message) list \<times> timer) cres" where
  "timer_update fuel as T =
     bind_res (timer_execute fuel (fst as) T) (\<lambda>(out1, T).
     bind_res (timer_shift T) (\<lambda>T.
     bind_res (timer_execute fuel (snd as) T) (\<lambda>(out2, T).
       Inr (out1 @ out2, T))))"

definition timer_create_timer :: timer where
  "timer_create_timer = \<lparr>near = replicate 256 [], levels = replicate 4 (replicate 64 []), time = 0, starttime = 0, current = 0, current_point = 0\<rparr>"

text \<open>A delay that is not positive is answered at once; \<open>push_ok\<close> tells whether the service exists.\<close>

definition skynet_timeout :: "(u32 \<Rightarrow> bool) \<Rightarrow> u32 \<Rightarrow> int \<Rightarrow> int \<Rightarrow> timer \<Rightarrow> int \<times> (u32 \<times> skynet_message) list \<times> timer" where
  "skynet_timeout push_ok h delay ses T =
     (if delay \<le> 0 then (if push_ok h then (ses, [(h, response ses)], T) else (-1, [], T))
      else (ses, [], timer_add \<lparr>handle = h, ev_session = ses\<rparr> delay T))"

text \<open>The clock is the argument \<open>cp\<close>; the difference is cut to 32 bits.\<close>

definition skynet_updatetime :: "nat \<Rightarrow> u64 \<Rightarrow> (nat \<Rightarrow> adds list \<times> adds list) \<Rightarrow> timer \<Rightarrow> ((u32 \<times> skynet_message) list \<times> timer) cres" where
  "skynet_updatetime fuel cp as T =
     (if cp < current_point T then Inr ([], T\<lparr>current_point := cp\<rparr>)
      else if cp \<noteq> current_point T then
        let diff = (ucast (cp - current_point T) :: u32);
            T = T\<lparr>current_point := cp, current := current T + ucast diff\<rparr>
        in for_res (\<lambda>i (out, T). bind_res (timer_update fuel (as i) T) (\<lambda>(o', T). Inr (out @ o', T))) [0..<unat diff] ([], T)
      else Inr ([], T))"

definition skynet_timer_init :: "u32 \<Rightarrow> u32 \<Rightarrow> u64 \<Rightarrow> timer" where
  "skynet_timer_init sec cs now = timer_create_timer\<lparr>starttime := sec, current := ucast cs, current_point := now\<rparr>"

section \<open>Where a timer is\<close>

datatype place = Near nat | Level nat nat

text \<open>The place of a timer that is due at \<open>e\<close> when the time is \<open>c\<close>: near when both are in one block of \<open>2 ^ 8\<close> ticks,
  otherwise on the level of the smallest block that holds both.\<close>

definition place :: "nat \<Rightarrow> nat \<Rightarrow> place" where
  "place e c =
     (if e div 2 ^ 8 = c div 2 ^ 8 then Near (e mod 2 ^ 8)
      else if e div 2 ^ 14 = c div 2 ^ 14 then Level 0 (e div 2 ^ 8 mod 64)
      else if e div 2 ^ 20 = c div 2 ^ 20 then Level 1 (e div 2 ^ 14 mod 64)
      else if e div 2 ^ 26 = c div 2 ^ 26 then Level 2 (e div 2 ^ 20 mod 64)
      else Level 3 (e div 2 ^ 26 mod 64))"

text \<open>The list that is moved when the time becomes \<open>c\<close>.\<close>

definition moved :: "nat \<Rightarrow> place option" where
  "moved c =
     (if c = 0 then Some (Level 3 0)
      else if c mod 2 ^ 8 \<noteq> 0 then None
      else if c div 2 ^ 8 mod 64 \<noteq> 0 then Some (Level 0 (c div 2 ^ 8 mod 64))
      else if c div 2 ^ 14 mod 64 \<noteq> 0 then Some (Level 1 (c div 2 ^ 14 mod 64))
      else if c div 2 ^ 20 mod 64 \<noteq> 0 then Some (Level 2 (c div 2 ^ 20 mod 64))
      else Some (Level 3 (c div 2 ^ 26 mod 64)))"

lemma or_mask_eq: "(a OR Bit_Operations.mask k) = (b OR Bit_Operations.mask k) \<longleftrightarrow> unat a div 2 ^ k = unat b div 2 ^ k" for a b :: u32
proof -
  have "(a OR Bit_Operations.mask k) = (b OR Bit_Operations.mask k) \<longleftrightarrow> drop_bit k a = drop_bit k b"
  proof
    have "drop_bit k (x OR Bit_Operations.mask k) = drop_bit k x" for x :: u32
      by (rule bit_word_eqI) (auto simp: bit_simps)
    moreover assume "(a OR Bit_Operations.mask k) = (b OR Bit_Operations.mask k)"
    ultimately show "drop_bit k a = drop_bit k b" by metis
  next
    assume eq: "drop_bit k a = drop_bit k b"
    show "(a OR Bit_Operations.mask k) = (b OR Bit_Operations.mask k)"
    proof (rule bit_word_eqI)
      fix n assume "n < LENGTH(32)"
      show "bit (a OR Bit_Operations.mask k) n = bit (b OR Bit_Operations.mask k) n"
      proof (cases "n < k")
        case True
        then show ?thesis using \<open>n < LENGTH(32)\<close> by (simp add: bit_simps)
      next
        case False
        then have "bit a n = bit (drop_bit k a) (n - k)" "bit b n = bit (drop_bit k b) (n - k)" by (simp_all add: bit_drop_bit_eq)
        then show ?thesis using eq by (simp add: bit_or_iff)
      qed
    qed
  qed
  also have "\<dots> \<longleftrightarrow> unat (drop_bit k a) = unat (drop_bit k b)" by (rule word_unat_eq_iff)
  finally show ?thesis unfolding unat_drop_bit_eq unfolding drop_bit_eq_div .
qed

lemma and_mask_unat: "unat (a AND Bit_Operations.mask k) = unat a mod 2 ^ k" for a :: u32
  unfolding take_bit_eq_mask [symmetric] unsigned_take_bit_eq by (rule take_bit_eq_mod)

lemma masks: "TIME_NEAR_MASK = Bit_Operations.mask 8" "TIME_LEVEL_MASK = Bit_Operations.mask 6" "TIME_NEAR = 2 ^ 8"
  "push_bit TIME_LEVEL_SHIFT (2 ^ k :: u32) = 2 ^ (k + 6)" "(2 ^ k :: u32) - 1 = Bit_Operations.mask k"
  by (simp_all add: TIME_NEAR_MASK_def TIME_LEVEL_MASK_def TIME_NEAR_def TIME_LEVEL_def TIME_NEAR_SHIFT_def TIME_LEVEL_SHIFT_def
      mask_eq_exp_minus_1 push_bit_eq_mult power_add)

definition slot :: "place \<Rightarrow> timer \<Rightarrow> link_list" where
  "slot p T = (case p of Near j \<Rightarrow> near T ! j | Level i j \<Rightarrow> levels T ! i ! j)"

definition set_slot :: "place \<Rightarrow> link_list \<Rightarrow> timer \<Rightarrow> timer" where
  "set_slot p l T = (case p of Near j \<Rightarrow> T\<lparr>near := (near T)[j := l]\<rparr> | Level i j \<Rightarrow> T\<lparr>levels := (levels T)[i := (levels T ! i)[j := l]]\<rparr>)"

lemma add_node_place:
  "add_node n T = (let p = place (unat (expire n)) (unat (time T)) in set_slot p (slot p T @ [n]) T)"
proof -
  have near: "(expire n OR TIME_NEAR_MASK = time T OR TIME_NEAR_MASK) \<longleftrightarrow> unat (expire n) div 2 ^ 8 = unat (time T) div 2 ^ 8"
    by (simp only: masks or_mask_eq)
  have lv: "find_level (expire n) (time T) 0 (push_bit TIME_LEVEL_SHIFT TIME_NEAR) =
    (if unat (expire n) div 2 ^ 14 = unat (time T) div 2 ^ 14 then 0
     else if unat (expire n) div 2 ^ 20 = unat (time T) div 2 ^ 20 then 1
     else if unat (expire n) div 2 ^ 26 = unat (time T) div 2 ^ 26 then 2 else 3)"
    unfolding masks(3,4) find_level.simps [of _ _ 0] find_level.simps [of _ _ "0 + 1"] find_level.simps [of _ _ "0 + 1 + 1"] find_level.simps [of _ _ "0 + 1 + 1 + 1"]
      masks(5) or_mask_eq by simp
  have idx: "unat (drop_bit k (expire n) AND TIME_LEVEL_MASK) = unat (expire n) div 2 ^ k mod 64" for k
    unfolding masks(2) and_mask_unat unat_drop_bit_eq unfolding drop_bit_eq_div by simp
  have nidx: "unat (expire n AND TIME_NEAR_MASK) = unat (expire n) mod 2 ^ 8" unfolding masks(1) and_mask_unat ..
  define e c where "e = unat (expire n)" and "c = unat (time T)"
  define a8 a14 a20 a26 where ab: "a8 = (e div 2 ^ 8 = c div 2 ^ 8)" "a14 = (e div 2 ^ 14 = c div 2 ^ 14)"
    "a20 = (e div 2 ^ 20 = c div 2 ^ 20)" "a26 = (e div 2 ^ 26 = c div 2 ^ 26)"
  show ?thesis
    unfolding add_node_def near lv nidx idx
    unfolding Let_def place_def slot_def set_slot_def link_def TIME_NEAR_SHIFT_def TIME_LEVEL_SHIFT_def
      e_def [symmetric] c_def [symmetric] ab [symmetric]
    by (cases a8; cases a14; cases a20; cases a26) simp_all
qed

section \<open>A tick\<close>

text \<open>How long a timer has to wait; below \<open>2 ^ 31\<close> for every delay that is an \<open>int\<close>.\<close>

definition waits :: "nat \<Rightarrow> nat \<Rightarrow> bool" where
  "waits e c \<longleftrightarrow> (c < e \<and> e < 2 ^ 32) \<or> (e + 2 ^ 31 < c \<and> c < 2 ^ 32)"

lemma div_block: "a div m = b div m \<Longrightarrow> a \<le> b \<Longrightarrow> b - a < m" if "0 < m" for a b m :: nat
proof -
  assume h: "a div m = b div m" "a \<le> b"
  have "b < b div m * m + m" using that by (metis add.commute dividend_less_div_times mult.commute)
  moreover have "a div m * m \<le> a" by simp
  ultimately show ?thesis using h by (simp add: less_diff_conv2 algebra_simps)
qed

lemma div_Suc: "Suc c div m = (if Suc c mod m = 0 then Suc (c div m) else c div m)" for c m :: nat
  by (simp add: div_Suc mod_Suc)

text \<open>In a block with its timer the time does not reach the end of the block.\<close>

lemma same_block:
  assumes w: "waits e c" and b: "e div 2 ^ k = c div 2 ^ k" and k: "k \<le> 26"
  shows "c < e \<and> Suc c mod 2 ^ k \<noteq> 0 \<and> Suc c div 2 ^ k = c div 2 ^ k"
proof -
  have p: "(2::nat) ^ k \<le> 2 ^ 26" using k by (rule power_increasing) simp
  have lt: "c < e"
  proof (rule ccontr)
    assume "\<not> c < e"
    then have "e + 2 ^ 31 < c" using w by (simp add: waits_def)
    moreover have "c - e < 2 ^ k" using b \<open>\<not> c < e\<close> by (intro div_block) simp_all
    ultimately show False using p by simp
  qed
  moreover have "Suc c mod 2 ^ k \<noteq> 0"
  proof
    assume "Suc c mod 2 ^ k = 0"
    then have "Suc c div 2 ^ k = Suc (c div 2 ^ k)" by (simp add: div_Suc)
    moreover have "Suc c div 2 ^ k \<le> e div 2 ^ k" using lt by (intro div_le_mono) simp
    ultimately show False using b by simp
  qed
  ultimately show ?thesis by (simp add: div_Suc)
qed

lemma block_up: "a div 2 ^ k = b div 2 ^ k \<Longrightarrow> k \<le> l \<Longrightarrow> a div 2 ^ l = b div 2 ^ l" for a b :: nat
  by (metis div_exp_eq le_add_diff_inverse)

lemma digit_zero: "c mod 2 ^ k = 0 \<Longrightarrow> c div 2 ^ k mod 64 = 0 \<longleftrightarrow> c mod 2 ^ (k + 6) = 0" for c :: nat
  by (auto simp: power_add mod_mult2_eq)

lemma mod_down: "c mod 2 ^ k = 0 \<Longrightarrow> l \<le> k \<Longrightarrow> c mod 2 ^ l = 0" for c :: nat
  by (metis dvd_imp_mod_0 dvd_trans le_imp_power_dvd mod_0_imp_dvd)

text \<open>The time after a tick.\<close>

definition tick :: "nat \<Rightarrow> nat" where
  "tick c = (if Suc c = 2 ^ 32 then 0 else Suc c)"

lemma tick_block:
  assumes "waits e c" "e div 2 ^ k = c div 2 ^ k" "k \<le> 26"
  shows "tick c = Suc c" "tick c mod 2 ^ k \<noteq> 0" "tick c div 2 ^ k = c div 2 ^ k" "tick c \<noteq> 0"
proof -
  have s: "c < e" "Suc c mod 2 ^ k \<noteq> 0" "Suc c div 2 ^ k = c div 2 ^ k" using same_block [OF assms] by auto
  have "Suc c < 2 ^ 32" using assms(1) s(1) by (auto simp: waits_def)
  then show t: "tick c = Suc c" by (simp add: tick_def)
  then show "tick c mod 2 ^ k \<noteq> 0" "tick c div 2 ^ k = c div 2 ^ k" "tick c \<noteq> 0" using s by simp_all
qed

lemma tick_leaves:
  assumes "c < 2 ^ 32" "tick c div 2 ^ k \<noteq> c div 2 ^ k"
  shows "tick c mod 2 ^ k = 0"
  using assms by (auto simp: tick_def div_Suc split: if_splits)

lemma digit_nonzero: "c mod 2 ^ k = 0 \<Longrightarrow> c mod 2 ^ (k + 6) \<noteq> 0 \<Longrightarrow> c div 2 ^ k mod 64 \<noteq> 0" for c :: nat
  using digit_zero [of c k] by simp

lemma moved_at:
  assumes "c mod 2 ^ (8 + 6 * i) = 0" "c \<noteq> 0" "i < 3 \<Longrightarrow> c div 2 ^ (8 + 6 * i) mod 64 \<noteq> 0" "i < 4"
  shows "moved c = Some (Level i (c div 2 ^ (8 + 6 * i) mod 64))"
proof -
  have m: "c mod 2 ^ k = 0" if "k \<le> 8 + 6 * i" for k using mod_down [OF assms(1) that] .
  have z: "c div 2 ^ k mod 64 = 0" if "k + 6 \<le> 8 + 6 * i" for k using digit_zero [of c k] m that by simp
  consider "i = 0" | "i = 1" | "i = 2" | "i = 3" using assms(4) by linarith
  then show ?thesis
  proof cases
    case 1
    then show ?thesis using m [of 8] assms(2,3) by (simp add: moved_def)
  next
    case 2
    then show ?thesis using m [of 8] z [of 8] assms(2,3) by (simp add: moved_def)
  next
    case 3
    then show ?thesis using m [of 8] z [of 8] z [of 14] assms(2,3) by (simp add: moved_def)
  next
    case 4
    then show ?thesis using m [of 8] z [of 8] z [of 14] z [of 20] assms(2) by (simp add: moved_def)
  qed
qed

text \<open>The level of a timer is where its block and that of the time part.\<close>

lemma place_Near: "e div 2 ^ 8 = c div 2 ^ 8 \<Longrightarrow> place e c = Near (e mod 2 ^ 8)"
  by (simp add: place_def)

lemma place_Level:
  assumes "e div 2 ^ (8 + 6 * i) \<noteq> c div 2 ^ (8 + 6 * i)" "i < 3 \<Longrightarrow> e div 2 ^ (8 + 6 * i + 6) = c div 2 ^ (8 + 6 * i + 6)" "i < 4"
  shows "place e c = Level i (e div 2 ^ (8 + 6 * i) mod 64)"
proof -
  have n: "e div 2 ^ k \<noteq> c div 2 ^ k" if "k \<le> 8 + 6 * i" for k using block_up [of e k c] that assms(1) by blast
  consider "i = 0" | "i = 1" | "i = 2" | "i = 3" using assms(3) by linarith
  then show ?thesis
  proof cases
    case 1
    then show ?thesis using n [of 8] assms(2) by (simp add: place_def)
  next
    case 2
    then show ?thesis using n [of 8] n [of 14] assms(2) by (simp add: place_def)
  next
    case 3
    then show ?thesis using n [of 8] n [of 14] n [of 20] assms(2) by (simp add: place_def)
  next
    case 4
    then show ?thesis using n [of 8] n [of 14] n [of 20] n [of 26] by (simp add: place_def)
  qed
qed

lemma place_now: "place e c = Near (c mod 256) \<longleftrightarrow> e = c"
proof
  assume h: "place e c = Near (c mod 256)"
  have d: "e div 2 ^ 8 = c div 2 ^ 8"
  proof (rule ccontr)
    assume "e div 2 ^ 8 \<noteq> c div 2 ^ 8"
    then show False using h by (auto simp: place_def split: if_splits)
  qed
  then have "e mod 2 ^ 8 = c mod 2 ^ 8" using h place_Near [OF d] by simp
  with d show "e = c" by (metis div_mod_decomp)
qed (simp add: place_def)

lemma place_cases:
  obtains (Near) "e div 2 ^ 8 = c div 2 ^ 8"
  | (Level) i where "e div 2 ^ (8 + 6 * i) \<noteq> c div 2 ^ (8 + 6 * i)" "i < 3 \<Longrightarrow> e div 2 ^ (8 + 6 * i + 6) = c div 2 ^ (8 + 6 * i + 6)" "i < 4"
proof -
  let ?same = "\<lambda>k. e div 2 ^ k = c div 2 ^ k"
  consider "?same 8" | "\<not> ?same 8" "?same 14" | "\<not> ?same 14" "?same 20" | "\<not> ?same 20" "?same 26" | "\<not> ?same 26" by blast
  then show ?thesis
  proof cases
    case 1
    then show ?thesis by (rule Near)
  next
    case 2
    then show ?thesis by (intro Level [of 0]) simp_all
  next
    case 3
    then show ?thesis by (intro Level [of 1]) simp_all
  next
    case 4
    then show ?thesis by (intro Level [of 2]) simp_all
  next
    case 5
    then show ?thesis by (intro Level [of 3]) simp_all
  qed
qed

text \<open>After a tick a timer is still in its place, unless its list is the one that is moved.\<close>

lemma place_tick:
  assumes w: "waits e c" and c: "c < 2 ^ 32" and e: "e < 2 ^ 32" and m: "moved (tick c) \<noteq> Some (place e c)"
  shows "place e (tick c) = place e c"
proof (cases rule: place_cases [of e c])
  case Near
  then show ?thesis using tick_block(3) [OF w Near] by (simp add: place_Near)
next
  case (Level i)
  let ?k = "8 + 6 * i"
  have up: "e div 2 ^ (?k + 6) = tick c div 2 ^ (?k + 6)" if "i < 3"
    using tick_block(3) [OF w Level(2) [OF that]] that Level(2) by simp
  show ?thesis
  proof (cases "e div 2 ^ ?k = tick c div 2 ^ ?k")
    case False
    then show ?thesis using place_Level [OF False up Level(3)] place_Level [OF Level] by simp
  next
    case True
    then have "tick c div 2 ^ ?k \<noteq> c div 2 ^ ?k" using Level(1) by simp
    then have z: "tick c mod 2 ^ ?k = 0" using tick_leaves [OF c] by blast
    have "moved (tick c) = Some (Level i (tick c div 2 ^ ?k mod 64))"
    proof (cases "tick c = 0")
      case True
      then have "\<not> i < 3" using tick_block(4) [OF w Level(2)] by fastforce
      then have "i = 3" using Level(3) by simp
      then show ?thesis using True by (simp add: moved_def)
    next
      case False
      have "tick c div 2 ^ ?k mod 64 \<noteq> 0" if "i < 3"
        using digit_nonzero [OF z] tick_block(2) [OF w Level(2) [OF that]] that by simp
      then show ?thesis by (rule moved_at [OF z False _ Level(3)])
    qed
    then show ?thesis using m True place_Level [OF Level] by simp
  qed
qed

lemma waits_tick: "waits e c \<Longrightarrow> e < 2 ^ 32 \<Longrightarrow> e = tick c \<or> waits e (tick c)"
  by (auto simp: waits_def tick_def)

section \<open>The wheels\<close>

definition valid :: "place \<Rightarrow> bool" where
  "valid p = (case p of Near j \<Rightarrow> j < 256 | Level i j \<Rightarrow> i < 4 \<and> j < 64)"

definition wheel_ok :: "timer \<Rightarrow> bool" where
  "wheel_ok T \<longleftrightarrow> length (near T) = 256 \<and> length (levels T) = 4 \<and> (\<forall>i<4. length (levels T ! i) = 64)"

definition nodes :: "timer \<Rightarrow> timer_node multiset" where
  "nodes T = mset (concat (near T)) + mset (concat (concat (levels T)))"

lemma valid_place: "valid (place e c)"
  by (simp add: place_def valid_def)

lemma wheel_set [simp]: "wheel_ok T \<Longrightarrow> wheel_ok (set_slot p l T)"
  by (cases p) (auto simp: wheel_ok_def set_slot_def nth_update_if)

lemma time_set [simp]: "time (set_slot p l T) = time T"
  by (cases p) (simp_all add: set_slot_def)

lemma slot_set:
  "wheel_ok T \<Longrightarrow> valid p \<Longrightarrow> valid q \<Longrightarrow> slot p (set_slot q l T) = (if p = q then l else slot p T)"
  by (cases p; cases q) (auto simp: wheel_ok_def valid_def slot_def set_slot_def nth_update_if)

lemma mset_concat_update: "i < length xs \<Longrightarrow> mset (concat (xs[i := ys])) + mset (xs ! i) = mset (concat xs) + mset ys"
proof (induction xs arbitrary: i)
  case (Cons x xs)
  then show ?case by (cases i) (auto simp: ac_simps)
qed simp

lemma concat_rows: "concat (map concat xss) = concat (concat xss)"
  by (induction xss) simp_all

lemma add_chain: "a + b = c + d \<Longrightarrow> d + e = b + f \<Longrightarrow> a + e = c + f" for a b c d e f :: "'a multiset"
proof (rule multiset_eqI)
  fix x
  assume "a + b = c + d" "d + e = b + f"
  then have "count a x + count b x = count c x + count d x" "count d x + count e x = count b x + count f x"
    by (metis count_union)+
  then show "count (a + e) x = count (c + f) x" by simp
qed

lemma nodes_set:
  assumes "wheel_ok T" "valid p"
  shows "nodes (set_slot p l T) + mset (slot p T) = nodes T + mset l"
proof (cases p)
  case (Near j)
  then show ?thesis using assms mset_concat_update [of j "near T" l]
    by (simp add: wheel_ok_def valid_def nodes_def slot_def set_slot_def)
next
  case (Level i j)
  let ?row = "(levels T ! i)[j := l]"
  have ij: "i < length (levels T)" "j < length (levels T ! i)" using assms Level by (auto simp: wheel_ok_def valid_def)
  have "mset (concat (concat ((levels T)[i := ?row]))) + mset (concat (levels T ! i)) = mset (concat (concat (levels T))) + mset (concat ?row)"
    using mset_concat_update [of i "map concat (levels T)" "concat ?row"] ij(1) by (simp add: map_update flip: concat_rows)
  moreover have "mset (concat ?row) + mset (levels T ! i ! j) = mset (concat (levels T ! i)) + mset l"
    using mset_concat_update [OF ij(2)] .
  ultimately have "mset (concat (concat ((levels T)[i := ?row]))) + mset (levels T ! i ! j) = mset (concat (concat (levels T))) + mset l"
    by (rule add_chain)
  then show ?thesis using Level by (simp add: nodes_def slot_def set_slot_def)
qed

subsection \<open>The invariant\<close>

text \<open>Every timer is in its place and waits, or, when \<open>now\<close> is set, may be due.\<close>

definition timer_ok :: "bool \<Rightarrow> timer \<Rightarrow> bool" where
  "timer_ok now T \<longleftrightarrow> wheel_ok T \<and> (\<forall>p. valid p \<longrightarrow> (\<forall>n\<in>set (slot p T).
     p = place (unat (expire n)) (unat (time T)) \<and> (waits (unat (expire n)) (unat (time T)) \<or> now \<and> expire n = time T)))"

lemma timer_okD:
  "timer_ok now T \<Longrightarrow> valid p \<Longrightarrow> n \<in> set (slot p T) \<Longrightarrow>
   p = place (unat (expire n)) (unat (time T)) \<and> (waits (unat (expire n)) (unat (time T)) \<or> now \<and> expire n = time T)"
  unfolding timer_ok_def by blast

lemma timer_ok_set:
  assumes "timer_ok now T" "valid q" "\<And>n. n \<in> set l \<Longrightarrow> q = place (unat (expire n)) (unat (time T)) \<and>
    (waits (unat (expire n)) (unat (time T)) \<or> now \<and> expire n = time T)"
  shows "timer_ok now (set_slot q l T)"
proof -
  have ok: "wheel_ok T" using assms(1) by (simp add: timer_ok_def)
  have "p = place (unat (expire n)) (unat (time T)) \<and> (waits (unat (expire n)) (unat (time T)) \<or> now \<and> expire n = time T)"
    if "valid p" "n \<in> set (slot p (set_slot q l T))" for p n
    using that slot_set [OF ok that(1) assms(2), of l] assms(3) timer_okD [OF assms(1) that(1)] by (auto split: if_splits)
  then show ?thesis using ok by (simp add: timer_ok_def)
qed

lemma add_node_ok:
  assumes "timer_ok now T" "waits (unat (expire n)) (unat (time T)) \<or> now \<and> expire n = time T"
  shows "timer_ok now (add_node n T)" "nodes (add_node n T) = add_mset n (nodes T)" "time (add_node n T) = time T"
proof -
  let ?p = "place (unat (expire n)) (unat (time T))"
  have eq: "add_node n T = set_slot ?p (slot ?p T @ [n]) T" by (simp add: add_node_place Let_def)
  show "timer_ok now (add_node n T)" unfolding eq
    by (rule timer_ok_set [OF assms(1) valid_place]) (use assms(2) timer_okD [OF assms(1) valid_place] in auto)
  have "wheel_ok T" using assms(1) by (simp add: timer_ok_def)
  from nodes_set [OF this valid_place [of "unat (expire n)" "unat (time T)"], of "slot ?p T @ [n]"]
  show "nodes (add_node n T) = add_mset n (nodes T)" unfolding eq by simp
  show "time (add_node n T) = time T" unfolding eq by simp
qed

lemma add_nodes_ok:
  "timer_ok now T \<Longrightarrow> \<forall>n\<in>set ns. waits (unat (expire n)) (unat (time T)) \<or> now \<and> expire n = time T \<Longrightarrow>
   timer_ok now (fold add_node ns T) \<and> nodes (fold add_node ns T) = mset ns + nodes T \<and> time (fold add_node ns T) = time T"
proof (induction ns arbitrary: T)
  case (Cons n ns)
  have n: "timer_ok now (add_node n T)" "nodes (add_node n T) = add_mset n (nodes T)" "time (add_node n T) = time T"
    using add_node_ok [OF Cons.prems(1), of n] Cons.prems(2) by simp_all
  have "\<forall>n'\<in>set ns. waits (unat (expire n')) (unat (time (add_node n T))) \<or> now \<and> expire n' = time (add_node n T)"
    unfolding n(3) using Cons.prems(2) by simp
  from Cons.IH [OF n(1) this] show ?case using n by simp
qed simp

subsection \<open>Moving a list\<close>

lemma shift_loop_step:
  assumes "i < 4"
  shows "shift_loop (Suc fuel) ct (drop_bit (8 + 6 * i) ct) i (2 ^ (8 + 6 * i)) T =
    (if unat ct mod 2 ^ (8 + 6 * i) = 0 then
       if unat ct div 2 ^ (8 + 6 * i) mod 64 \<noteq> 0 then move_list i (unat ct div 2 ^ (8 + 6 * i) mod 64) T
       else shift_loop fuel ct (drop_bit (8 + 6 * (i + 1)) ct) (i + 1) (2 ^ (8 + 6 * (i + 1))) T
     else Inr T)"
proof -
  have z: "(ct AND (2 ^ (8 + 6 * i) - 1) = 0) \<longleftrightarrow> unat ct mod 2 ^ (8 + 6 * i) = 0"
    unfolding masks(5) and_mask_unat [symmetric] by (simp add: unat_eq_zero)
  have idx: "unat (drop_bit (8 + 6 * i) ct AND TIME_LEVEL_MASK) = unat ct div 2 ^ (8 + 6 * i) mod 64"
    unfolding masks(2) and_mask_unat unat_drop_bit_eq unfolding drop_bit_eq_div by simp
  have nx: "drop_bit TIME_LEVEL_SHIFT (drop_bit (8 + 6 * i) ct) = drop_bit (8 + 6 * (i + 1)) ct"
    "push_bit TIME_LEVEL_SHIFT (2 ^ (8 + 6 * i) :: u32) = 2 ^ (8 + 6 * (i + 1))"
    by (simp_all only: masks(4)) (simp_all add: TIME_LEVEL_SHIFT_def)
  show ?thesis unfolding shift_loop.simps(2) z idx nx Let_def by (rule refl)
qed

definition move :: "place option \<Rightarrow> timer \<Rightarrow> timer" where
  "move p T = (case p of None \<Rightarrow> T | Some p \<Rightarrow> fold add_node (slot p T) (set_slot p [] T))"

lemma move_list_ok: "wheel_ok T \<Longrightarrow> i < 4 \<Longrightarrow> j < 64 \<Longrightarrow> move_list i j T = Inr (move (Some (Level i j)) T)"
  by (simp add: move_list_def move_def wheel_ok_def slot_def set_slot_def)

lemma shift_loop_move:
  "wheel_ok T \<Longrightarrow> i < 4 \<Longrightarrow> 4 \<le> i + fuel \<Longrightarrow> ct \<noteq> 0 \<Longrightarrow> unat ct mod 2 ^ (8 + 6 * i) = 0 \<Longrightarrow>
   shift_loop fuel ct (drop_bit (8 + 6 * i) ct) i (2 ^ (8 + 6 * i)) T = Inr (move (moved (unat ct)) T)"
proof (induction fuel arbitrary: i)
  case (Suc fuel)
  note step = shift_loop_step [OF Suc.prems(2), of fuel ct T]
  have c: "unat ct \<noteq> 0" using Suc.prems(4) by (simp add: unat_eq_zero)
  show ?case
  proof (cases "unat ct div 2 ^ (8 + 6 * i) mod 64 = 0")
    case False
    then show ?thesis unfolding step
      using Suc.prems moved_at [OF Suc.prems(5) c False Suc.prems(2)] move_list_ok [OF Suc.prems(1,2), of "unat ct div 2 ^ (8 + 6 * i) mod 64"]
      by simp
  next
    case True
    then have z: "unat ct mod 2 ^ (8 + 6 * (i + 1)) = 0" using digit_zero [OF Suc.prems(5)] by simp
    have "i \<noteq> 3"
    proof
      assume "i = 3"
      then have "unat ct mod 2 ^ 32 = 0" using z by simp
      moreover have "unat ct < 2 ^ 32" using unsigned_less [of ct] by simp
      ultimately show False using c by (metis mod_less)
    qed
    then have "shift_loop fuel ct (drop_bit (8 + 6 * (i + 1)) ct) (i + 1) (2 ^ (8 + 6 * (i + 1))) T = Inr (move (moved (unat ct)) T)"
      using Suc.prems z by (intro Suc.IH) simp_all
    then show ?thesis unfolding step using True Suc.prems(5) by simp
  qed
qed simp

lemma timer_shift_move:
  assumes "wheel_ok T"
  shows "timer_shift T = Inr (move (moved (unat (time T + 1))) (T\<lparr>time := time T + 1\<rparr>))"
proof -
  let ?ct = "time T + 1" and ?T = "T\<lparr>time := time T + 1\<rparr>"
  have ok: "wheel_ok ?T" using assms by (simp add: wheel_ok_def)
  show ?thesis
  proof (cases "?ct = 0")
    case True
    then show ?thesis using move_list_ok [OF ok, of 3 0] by (simp add: timer_shift_def moved_def)
  next
    case False
    have start: "timer_shift T = shift_loop (Suc 4) ?ct (drop_bit (8 + 6 * 0) ?ct) 0 (2 ^ (8 + 6 * 0)) ?T"
      using False by (simp add: timer_shift_def Let_def masks(3) TIME_NEAR_SHIFT_def)
    show ?thesis
    proof (cases "unat ?ct mod 2 ^ (8 + 6 * 0) = 0")
      case True
      then show ?thesis unfolding start using shift_loop_move [OF ok _ _ False True, of "Suc 4"] by simp
    next
      case no: False
      have "moved (unat ?ct) = None" using no False by (simp add: moved_def unat_eq_zero)
      then show ?thesis unfolding start shift_loop_step [OF zero_less_numeral] using no by (simp add: move_def)
    qed
  qed
qed

lemma unat_less_32: "unat w < 2 ^ 32" for w :: u32
  using unsigned_less [of w] by simp

lemma unat_tick: "unat (w + 1 :: u32) = tick (unat w)"
proof -
  have "unat (w + 1) = (unat w + 1) mod 2 ^ 32" by (simp add: unat_word_ariths)
  then show ?thesis using unat_less_32 [of w] by (simp add: tick_def)
qed

text \<open>A tick keeps the timers and puts them in their places for the new time.\<close>

lemma timer_shift_ok:
  assumes ok: "timer_ok False T"
  shows "\<exists>T'. timer_shift T = Inr T' \<and> timer_ok True T' \<and> nodes T' = nodes T \<and> time T' = time T + 1"
proof -
  let ?c = "unat (time T)" and ?T = "T\<lparr>time := time T + 1\<rparr>" and ?m = "moved (unat (time T + 1))"
  have wh: "wheel_ok T" "wheel_ok ?T" using ok by (simp_all add: timer_ok_def wheel_ok_def)
  have sl: "slot p ?T = slot p T" for p by (cases p) (simp_all add: slot_def)
  note lt = unat_less_32
  have old: "p = place (unat (expire n)) ?c" "waits (unat (expire n)) (unat (time T + 1)) \<or> expire n = time T + 1"
    if "valid p" "n \<in> set (slot p T)" for p n
    using timer_okD [OF ok that] waits_tick [of "unat (expire n)" ?c] lt unat_tick [of "time T"] by (auto simp: word_unat_eq_iff)
  have stay: "p = place (unat (expire n)) (unat (time T + 1))" if "valid p" "n \<in> set (slot p T)" "?m \<noteq> Some p" for p n
    using place_tick [of "unat (expire n)" ?c] timer_okD [OF ok that(1,2)] that(3) lt unfolding unat_tick by auto
  have valid_m: "valid p" if "?m = Some p" for p using that by (auto simp: moved_def valid_def split: if_splits)
  show ?thesis
  proof (cases ?m)
    case None
    then have "timer_ok True ?T" using wh(2) old stay unfolding timer_ok_def by (simp add: sl)
    then show ?thesis unfolding timer_shift_move [OF wh(1)] None by (simp add: move_def nodes_def)
  next
    case (Some p)
    let ?T0 = "set_slot p [] ?T" and ?l = "slot p T"
    have p: "valid p" using valid_m [OF Some] .
    have "timer_ok True ?T0" unfolding timer_ok_def
    proof (intro conjI allI impI ballI)
      show "wheel_ok ?T0" using wh(2) by simp
      fix q n assume q: "valid q" "n \<in> set (slot q ?T0)"
      then have "q \<noteq> p" "n \<in> set (slot q T)" using slot_set [OF wh(2) q(1) p, of "[]"] by (auto simp: sl split: if_splits)
      then show "q = place (unat (expire n)) (unat (time ?T0))" "waits (unat (expire n)) (unat (time ?T0)) \<or> True \<and> expire n = time ?T0"
        using stay [of q n] old(2) [of q n] q(1) Some by auto
    qed
    moreover have "\<forall>n\<in>set ?l. waits (unat (expire n)) (unat (time ?T0)) \<or> True \<and> expire n = time ?T0" using old(2) [OF p] by simp
    ultimately have res: "timer_ok True (fold add_node ?l ?T0)" "nodes (fold add_node ?l ?T0) = mset ?l + nodes ?T0" "time (fold add_node ?l ?T0) = time ?T0"
      using add_nodes_ok by blast+
    have "nodes ?T0 + mset ?l = nodes T" using nodes_set [OF wh(2) p, of "[]"] by (simp add: sl nodes_def)
    then have "mset ?l + nodes ?T0 = nodes T" by (simp only: union_commute)
    then show ?thesis unfolding timer_shift_move [OF wh(1)] Some move_def option.case sl using res by simp
  qed
qed

section \<open>Sending what is due\<close>

definition good_adds :: "adds \<Rightarrow> bool" where
  "good_adds as \<longleftrightarrow> (\<forall>(ev, delay)\<in>set as. 0 < delay \<and> delay < 2 ^ 31)"

text \<open>The nodes of timers that are added when the time is \<open>c\<close>.\<close>

definition new_nodes :: "u32 \<Rightarrow> adds \<Rightarrow> timer_node list" where
  "new_nodes c as = map (\<lambda>(ev, delay). \<lparr>expire = word_of_int delay + c, event = ev\<rparr>) as"

lemma waits_delay:
  assumes "0 < delay" "delay < 2 ^ 31"
  shows "waits (unat (word_of_int delay + c :: u32)) (unat c)"
proof -
  obtain d where d: "delay = int d" "0 < d" "d < 2 ^ 31" using assms by (metis zero_less_imp_eq_int of_nat_less_iff of_nat_0_less_iff of_nat_power of_nat_numeral)
  have "unat (word_of_int delay + c) = (d + unat c) mod 2 ^ 32"
    using d by (simp add: unat_word_ariths unsigned_of_nat take_bit_nat_eq_self)
  also have "\<dots> = (if d + unat c < 2 ^ 32 then d + unat c else d + unat c - 2 ^ 32)"
    using d(3) unat_less_32 [of c] by (auto simp: le_mod_geq)
  finally show ?thesis using d(2,3) unat_less_32 [of c] by (auto simp: waits_def)
qed

lemma add_all_ok:
  "timer_ok now T \<Longrightarrow> good_adds as \<Longrightarrow>
   timer_ok now (add_all as T) \<and> nodes (add_all as T) = mset (new_nodes (time T) as) + nodes T \<and> time (add_all as T) = time T \<and>
   slot (Near (unat (time T) mod 256)) (add_all as T) = slot (Near (unat (time T) mod 256)) T"
proof (induction as arbitrary: T)
  case Nil
  then show ?case by (simp add: add_all_def new_nodes_def)
next
  case (Cons a as)
  obtain ev delay where a: "a = (ev, delay)" by fastforce
  let ?n = "\<lparr>expire = word_of_int delay + time T, event = ev\<rparr>" and ?j = "Near (unat (time T) mod 256)"
  have w: "waits (unat (expire ?n)) (unat (time T))" using Cons.prems(2) a by (simp add: good_adds_def waits_delay)
  note add = add_node_ok [OF Cons.prems(1), of ?n]
  have "wheel_ok T" using Cons.prems(1) by (simp add: timer_ok_def)
  moreover have "place (unat (expire ?n)) (unat (time T)) \<noteq> ?j"
  proof
    assume "place (unat (expire ?n)) (unat (time T)) = ?j"
    then have "unat (expire ?n) = unat (time T)" unfolding place_now .
    then show False using w by (simp add: waits_def)
  qed
  ultimately have sl: "slot ?j (add_node ?n T) = slot ?j T"
    unfolding add_node_place Let_def using slot_set [of T ?j, OF _ _ valid_place] by (simp add: valid_def [of ?j])
  have "good_adds as" using Cons.prems(2) by (simp add: good_adds_def)
  from Cons.IH [OF add(1) this] show ?case using w add(2,3) sl a by (simp add: add_all_def new_nodes_def timer_add_def)
qed

text \<open>The list of the current tick holds what is due now, and nothing else does.\<close>

lemma set_nodes:
  assumes "wheel_ok T"
  shows "n \<in># nodes T \<longleftrightarrow> (\<exists>p. valid p \<and> n \<in> set (slot p T))"
proof
  assume "n \<in># nodes T"
  then consider l where "l \<in> set (near T)" "n \<in> set l" | row l where "row \<in> set (levels T)" "l \<in> set row" "n \<in> set l"
    by (auto simp: nodes_def)
  then show "\<exists>p. valid p \<and> n \<in> set (slot p T)"
  proof cases
    case 1
    then obtain j where "j < 256" "near T ! j = l" using assms by (auto simp: wheel_ok_def in_set_conv_nth)
    then show ?thesis using 1 by (intro exI [of _ "Near j"]) (simp add: valid_def slot_def)
  next
    case 2
    then obtain i where i: "i < 4" "levels T ! i = row" using assms by (auto simp: wheel_ok_def in_set_conv_nth)
    moreover from this 2 obtain j where "j < 64" "row ! j = l" using assms by (auto simp: wheel_ok_def in_set_conv_nth)
    ultimately show ?thesis using 2 by (intro exI [of _ "Level i j"]) (simp add: valid_def slot_def)
  qed
next
  assume "\<exists>p. valid p \<and> n \<in> set (slot p T)"
  then obtain p where p: "valid p" "n \<in> set (slot p T)" by blast
  have "nodes (set_slot p [] T) + mset (slot p T) = nodes T" using nodes_set [OF assms p(1), of "[]"] by simp
  then show "n \<in># nodes T" using p(2) by (metis set_mset_mset union_iff)
qed

lemma due_slot:
  assumes ok: "timer_ok now T"
  defines "p \<equiv> Near (unat (time T) mod 256)"
  shows "mset (slot p T) = filter_mset (\<lambda>n. expire n = time T) (nodes T)"
    "nodes (set_slot p [] T) = filter_mset (\<lambda>n. expire n \<noteq> time T) (nodes T)"
    "timer_ok False (set_slot p [] T)"
proof -
  have wh: "wheel_ok T" "wheel_ok (set_slot p [] T)" using ok by (simp_all add: timer_ok_def)
  have p: "valid p" by (simp add: p_def valid_def)
  have now_iff: "place (unat (expire n)) (unat (time T)) = p \<longleftrightarrow> expire n = time T" for n
    unfolding p_def place_now by (simp add: word_unat_eq_iff)
  have here: "expire n = time T" if "n \<in> set (slot p T)" for n using timer_okD [OF ok p that] now_iff by metis
  have rest: "expire n \<noteq> time T" if q: "valid q" "n \<in> set (slot q (set_slot p [] T))" for q n
  proof -
    have "q \<noteq> p" "n \<in> set (slot q T)" using slot_set [OF wh(1) q(1) p, of "[]"] q(2) by (auto split: if_splits)
    then show ?thesis using timer_okD [OF ok q(1)] now_iff by metis
  qed
  have sum: "nodes T = nodes (set_slot p [] T) + mset (slot p T)" using nodes_set [OF wh(1) p, of "[]"] by simp
  have f1: "filter_mset (\<lambda>n. expire n = time T) (mset (slot p T)) = mset (slot p T)" "filter_mset (\<lambda>n. expire n \<noteq> time T) (mset (slot p T)) = {#}"
    using here by (auto simp: filter_mset_eq_conv)
  have f2: "filter_mset (\<lambda>n. expire n = time T) (nodes (set_slot p [] T)) = {#}"
      "filter_mset (\<lambda>n. expire n \<noteq> time T) (nodes (set_slot p [] T)) = nodes (set_slot p [] T)"
    using rest set_nodes [OF wh(2)] by (auto simp: filter_mset_eq_conv)
  show "mset (slot p T) = filter_mset (\<lambda>n. expire n = time T) (nodes T)"
    "nodes (set_slot p [] T) = filter_mset (\<lambda>n. expire n \<noteq> time T) (nodes T)" unfolding sum using f1 f2 by simp_all
  show "timer_ok False (set_slot p [] T)" unfolding timer_ok_def
  proof (intro conjI allI impI ballI)
    show "wheel_ok (set_slot p [] T)" by (rule wh(2))
    fix q n assume q: "valid q" "n \<in> set (slot q (set_slot p [] T))"
    have "n \<in> set (slot q T)" using slot_set [OF wh(1) q(1) p, of "[]"] q(2) by (auto split: if_splits)
    then show "q = place (unat (expire n)) (unat (time (set_slot p [] T)))"
      "waits (unat (expire n)) (unat (time (set_slot p [] T))) \<or> False \<and> expire n = time (set_slot p [] T)"
      using timer_okD [OF ok q(1)] rest [OF q] by auto
  qed
qed

lemma slot_Near: "slot (Near j) T = near T ! j" "set_slot (Near j) l T = T\<lparr>near := (near T)[j := l]\<rparr>"
  by (simp_all add: slot_def set_slot_def)

definition pushes :: "timer_node \<Rightarrow> u32 \<times> skynet_message" where
  "pushes n = (handle (event n), response (ev_session (event n)))"

text \<open>What the loop sends and what it leaves; the timers added meanwhile are not due.\<close>

lemma timer_execute_ok:
  assumes ok: "timer_ok now T" and as: "\<forall>a\<in>set as. good_adds a"
  shows "\<exists>out T'. timer_execute (Suc (Suc fuel)) as T = Inr (out, T') \<and> timer_ok False T' \<and> time T' = time T \<and>
    mset out = image_mset pushes (filter_mset (\<lambda>n. expire n = time T) (nodes T)) \<and>
    nodes T' = filter_mset (\<lambda>n. expire n \<noteq> time T) (nodes T) +
      (if filter_mset (\<lambda>n. expire n = time T) (nodes T) = {#} then {#}
       else mset (new_nodes (time T) (case as of [] \<Rightarrow> [] | a # _ \<Rightarrow> a)))"
proof -
  let ?j = "unat (time T) mod 256" and ?as = "case as of [] \<Rightarrow> [] | a # _ \<Rightarrow> a"
  have idx: "unat (time T AND TIME_NEAR_MASK) = ?j" unfolding masks(1) and_mask_unat by simp
  have len: "?j < length (near T)" using ok by (simp add: timer_ok_def wheel_ok_def)
  note due = due_slot [OF ok, unfolded slot_Near]
  show ?thesis
  proof (cases "near T ! ?j = []")
    case True
    then have e: "filter_mset (\<lambda>n. expire n = time T) (nodes T) = {#}" using due(1) by simp
    have "T\<lparr>near := (near T)[?j := []]\<rparr> = T" using True by (metis list_update_id timer.surjective timer.update_convs(1))
    then have "timer_ok False T" "nodes T = filter_mset (\<lambda>n. expire n \<noteq> time T) (nodes T)" using due(2,3) by simp_all
    then show ?thesis using True e len idx by simp
  next
    case False
    let ?T0 = "T\<lparr>near := (near T)[?j := []]\<rparr>"
    have "good_adds ?as" using as by (cases as) (auto simp: good_adds_def)
    from add_all_ok [OF due(3) this] have T1: "timer_ok False (add_all ?as ?T0)" "nodes (add_all ?as ?T0) = mset (new_nodes (time T) ?as) + nodes ?T0"
      "time (add_all ?as ?T0) = time T" "near (add_all ?as ?T0) ! ?j = []" using len by (simp_all add: slot_Near)
    have "?j < length (near (add_all ?as ?T0))" using T1(1) by (simp add: timer_ok_def wheel_ok_def)
    then have "timer_execute (Suc fuel) (tl as) (add_all ?as ?T0) = Inr ([], add_all ?as ?T0)" using T1(3,4) idx by simp
    then have run: "timer_execute (Suc (Suc fuel)) as T = Inr (dispatch_list (near T ! ?j), add_all ?as ?T0)"
      using False len idx by (simp del: timer_execute.simps add: timer_execute.simps(2) [of "Suc fuel"] Let_def)
    have "mset (dispatch_list (near T ! ?j)) = image_mset pushes (filter_mset (\<lambda>n. expire n = time T) (nodes T))"
      unfolding due(1) [symmetric] by (simp add: dispatch_list_def pushes_def [abs_def])
    moreover have "filter_mset (\<lambda>n. expire n = time T) (nodes T) \<noteq> {#}" unfolding due(1) [symmetric] using False by simp
    then have "nodes (add_all ?as ?T0) = filter_mset (\<lambda>n. expire n \<noteq> time T) (nodes T) +
        (if filter_mset (\<lambda>n. expire n = time T) (nodes T) = {#} then {#} else mset (new_nodes (time T) ?as))"
      unfolding T1(2) due(2) by (simp only: if_False union_commute)
    ultimately show ?thesis using run T1(1,3) by blast
  qed
qed

lemma timer_update_ok:
  assumes ok: "timer_ok False T" and as: "\<forall>a\<in>set (fst as @ snd as). good_adds a"
  shows "\<exists>out T' M. timer_update (Suc (Suc fuel)) as T = Inr (out, T') \<and> timer_ok False T' \<and> time T' = time T + 1 \<and>
    mset out = image_mset pushes (filter_mset (\<lambda>n. expire n = time T + 1) (nodes T)) \<and>
    nodes T' = filter_mset (\<lambda>n. expire n \<noteq> time T + 1) (nodes T) + M \<and> set_mset M \<subseteq> (\<Union>a\<in>set (snd as). set (new_nodes (time T + 1) a))"
proof -
  have wh: "wheel_ok T" using ok by (simp add: timer_ok_def)
  have nd: "expire n \<noteq> time T" if n: "n \<in># nodes T" for n
  proof -
    obtain p where p: "valid p" "n \<in> set (slot p T)" using n unfolding set_nodes [OF wh] by (elim exE conjE)
    have "waits (unat (expire n)) (unat (time T))" using timer_okD [OF ok p] by simp
    then have "unat (expire n) \<noteq> unat (time T)" by (auto simp: waits_def)
    then show ?thesis by metis
  qed
  have none: "filter_mset (\<lambda>n. expire n = time T) (nodes T) = {#}" "filter_mset (\<lambda>n. expire n \<noteq> time T) (nodes T) = nodes T"
    using nd by (auto simp: filter_mset_eq_conv)
  obtain T1 where T1: "timer_execute (Suc (Suc fuel)) (fst as) T = Inr ([], T1)" "timer_ok False T1" "time T1 = time T" "nodes T1 = nodes T"
    using timer_execute_ok [OF ok, of "fst as" fuel] as none by auto
  obtain T2 where T2: "timer_shift T1 = Inr T2" "timer_ok True T2" "nodes T2 = nodes T" "time T2 = time T + 1"
    using timer_shift_ok [OF T1(2)] T1(3,4) by auto
  let ?a = "case snd as of [] \<Rightarrow> [] | a # _ \<Rightarrow> a"
  let ?M = "if filter_mset (\<lambda>n. expire n = time T + 1) (nodes T) = {#} then {#} else mset (new_nodes (time T + 1) ?a)"
  obtain out T3 where T3: "timer_execute (Suc (Suc fuel)) (snd as) T2 = Inr (out, T3)" "timer_ok False T3" "time T3 = time T + 1"
      "mset out = image_mset pushes (filter_mset (\<lambda>n. expire n = time T + 1) (nodes T))"
      "nodes T3 = filter_mset (\<lambda>n. expire n \<noteq> time T + 1) (nodes T) + ?M"
    using timer_execute_ok [OF T2(2), of "snd as" fuel] as unfolding T2(3,4) by auto
  have "timer_update (Suc (Suc fuel)) as T = Inr (out, T3)" using T1(1) T2(1) T3(1) by (simp add: timer_update_def del: timer_execute.simps)
  moreover have "set_mset ?M \<subseteq> (\<Union>a\<in>set (snd as). set (new_nodes (time T + 1) a))" by (cases "snd as") (auto simp: new_nodes_def)
  ultimately show ?thesis using T3(2-5) by blast
qed

section \<open>Timers as a contract\<close>

text \<open>
  What a service relies on: a tick sends the messages of the timers that are due at the new time and
  keeps the others. Every timer is then sent at the tick at which it is due and is pending until then.
\<close>

locale tick_contract =
  fixes ok :: "'t \<Rightarrow> bool" and now :: "'t \<Rightarrow> u32" and pending :: "'t \<Rightarrow> 'n multiset" and due :: "'n \<Rightarrow> u32"
    and msg :: "'n \<Rightarrow> 'o" and good :: "'a \<Rightarrow> bool" and step :: "'a \<Rightarrow> 't \<Rightarrow> ('o list \<times> 't) cres"
  assumes step_law: "ok T \<Longrightarrow> good a \<Longrightarrow> \<exists>out T' M. step a T = Inr (out, T') \<and> ok T' \<and> now T' = now T + 1 \<and>
    mset out = image_mset msg (filter_mset (\<lambda>n. due n = now T + 1) (pending T)) \<and>
    pending T' = filter_mset (\<lambda>n. due n \<noteq> now T + 1) (pending T) + M"
begin

fun steps :: "'a list \<Rightarrow> 't \<Rightarrow> ('o list list \<times> 't) cres" where
  "steps [] T = Inr ([], T)"
| "steps (a # as) T = bind_res (step a T) (\<lambda>(out, T). bind_res (steps as T) (\<lambda>(outs, T). Inr (out # outs, T)))"

lemma advance:
  "ok T \<Longrightarrow> \<forall>a\<in>set as. good a \<Longrightarrow> \<exists>outs T'. steps as T = Inr (outs, T') \<and> ok T' \<and> now T' = now T + of_nat (length as) \<and> length outs = length as"
proof (induction as arbitrary: T)
  case (Cons a as)
  obtain out T1 where T1: "step a T = Inr (out, T1)" "ok T1" "now T1 = now T + 1" using step_law [OF Cons.prems(1), of a] Cons.prems(2) by auto
  from Cons.IH [OF T1(2)] Cons.prems(2) T1 show ?case by (auto simp: algebra_simps)
qed simp

lemma waiting:
  "ok T \<Longrightarrow> \<forall>a\<in>set as. good a \<Longrightarrow> n \<in># pending T \<Longrightarrow> length as < unat (due n - now T) \<Longrightarrow>
   \<exists>outs T'. steps as T = Inr (outs, T') \<and> n \<in># pending T'"
proof (induction as arbitrary: T)
  case (Cons a as)
  have "good a" using Cons.prems(2) by simp
  from step_law [OF Cons.prems(1) this] obtain out T1 M where T1: "step a T = Inr (out, T1)" "ok T1" "now T1 = now T + 1"
    "pending T1 = filter_mset (\<lambda>n. due n \<noteq> now T + 1) (pending T) + M" by (elim exE conjE)
  have d: "due n - now T1 = due n - now T - 1" unfolding T1(3) by simp
  have "1 < unat (due n - now T)" using Cons.prems(4) by simp
  then have "unat (due n - now T1) = unat (due n - now T) - 1" unfolding d by (subst unat_sub) (simp_all add: word_le_nat_alt)
  moreover have "due n \<noteq> now T + 1"
  proof
    assume "due n = now T + 1"
    then have "unat (due n - now T) = 1" by simp
    then show False using \<open>1 < unat (due n - now T)\<close> by simp
  qed
  moreover from this Cons.prems(3) have "n \<in># pending T1" unfolding T1(4) by simp
  ultimately have "length as < unat (due n - now T1)" "n \<in># pending T1" using Cons.prems(4) by simp_all
  moreover have "\<forall>a\<in>set as. good a" using Cons.prems(2) by simp
  ultimately obtain outs T' where "steps as T1 = Inr (outs, T')" "n \<in># pending T'" using Cons.IH [OF T1(2)] by blast
  then show ?case using T1(1) by simp
qed simp

lemma steps_append:
  "steps (xs @ ys) T = bind_res (steps xs T) (\<lambda>(o1, T). bind_res (steps ys T) (\<lambda>(o2, T). Inr (o1 @ o2, T)))"
proof (induction xs arbitrary: T)
  case Nil
  then show ?case by (cases "steps ys T") auto
next
  case (Cons x xs)
  then show ?case by (auto simp: bind_res_def split: sum.splits)
qed

lemma on_time:
  assumes T: "ok T" "\<forall>a\<in>set as. good a" "n \<in># pending T" and len: "length as = unat (due n - now T)" "as \<noteq> []"
  shows "(\<exists>outs T'. steps as T = Inr (outs, T') \<and> msg n \<in> set (last outs)) \<and>
    (\<forall>j<length as. \<exists>outs T'. steps (take j as) T = Inr (outs, T') \<and> n \<in># pending T')"
proof
  obtain bs a where as: "as = bs @ [a]" using len(2) by (metis append_butlast_last_id)
  have bs: "\<forall>a\<in>set bs. good a" "good a" "length bs < unat (due n - now T)" using T(2) len(1) as by auto
  obtain outs T1 where T1: "steps bs T = Inr (outs, T1)" "n \<in># pending T1" "ok T1" "now T1 = now T + of_nat (length bs)"
    using waiting [OF T(1) bs(1) T(3) bs(3)] advance [OF T(1) bs(1)] by auto
  have "due n - now T = of_nat (length as)" using len(1) by simp
  then have "due n = now T1 + 1" using T1(4) as by (simp add: algebra_simps)
  moreover obtain out T2 where "step a T1 = Inr (out, T2)" "mset out = image_mset msg (filter_mset (\<lambda>n. due n = now T1 + 1) (pending T1))"
    using step_law [OF T1(3) bs(2)] by blast
  moreover from this(2) have "set out = msg ` {m. m \<in># pending T1 \<and> due m = now T1 + 1}"
    by (metis set_image_mset set_mset_filter set_mset_mset)
  ultimately show "\<exists>outs T'. steps as T = Inr (outs, T') \<and> msg n \<in> set (last outs)"
    using T1(1,2) as by (auto simp: steps_append)
  show "\<forall>j<length as. \<exists>outs T'. steps (take j as) T = Inr (outs, T') \<and> n \<in># pending T'"
  proof (intro allI impI)
    fix j assume "j < length as"
    then show "\<exists>outs T'. steps (take j as) T = Inr (outs, T') \<and> n \<in># pending T'"
      using T(2) len(1) by (intro waiting [OF T(1) _ T(3)]) (auto dest: in_set_takeD)
  qed
qed

end

text \<open>The additions of other threads during one tick, within the range of a delay.\<close>

definition good_tick :: "adds list \<times> adds list \<Rightarrow> bool" where
  "good_tick as \<longleftrightarrow> (\<forall>a\<in>set (fst as @ snd as). good_adds a)"

interpretation wheel: tick_contract "timer_ok False" time nodes expire pushes good_tick "timer_update (Suc (Suc fuel))" for fuel
proof
  fix T as
  assume "timer_ok False T" "good_tick as"
  from timer_update_ok [OF this(1) this(2) [unfolded good_tick_def], of fuel]
  show "\<exists>out T' M. timer_update (Suc (Suc fuel)) as T = Inr (out, T') \<and> timer_ok False T' \<and> time T' = time T + 1 \<and>
    mset out = image_mset pushes (filter_mset (\<lambda>n. expire n = time T + 1) (nodes T)) \<and>
    nodes T' = filter_mset (\<lambda>n. expire n \<noteq> time T + 1) (nodes T) + M" by blast
qed

section \<open>Properties\<close>

text \<open>The states of the timer of a server.\<close>

inductive timer_reach :: "timer \<Rightarrow> bool" where
  init: "timer_reach (skynet_timer_init sec cs now)"
| timeout: "timer_reach T \<Longrightarrow> delay < 2 ^ 31 \<Longrightarrow> skynet_timeout push_ok h delay ses T = (r, out, T') \<Longrightarrow> timer_reach T'"
| tick: "timer_reach T \<Longrightarrow> good_tick as \<Longrightarrow> timer_update (Suc (Suc fuel)) as T = Inr (out, T') \<Longrightarrow> timer_reach T'"

lemma timer_add_ok:
  assumes "timer_ok False T" "0 < delay" "delay < 2 ^ 31"
  shows "timer_ok False (timer_add ev delay T)" "nodes (timer_add ev delay T) = add_mset \<lparr>expire = word_of_int delay + time T, event = ev\<rparr> (nodes T)"
    "time (timer_add ev delay T) = time T"
  using add_node_ok [OF assms(1), of "\<lparr>expire = word_of_int delay + time T, event = ev\<rparr>"] waits_delay [OF assms(2,3)]
  by (simp_all add: timer_add_def)

lemma timer_invariant: "timer_reach T \<Longrightarrow> timer_ok False T"
proof (induction rule: timer_reach.induct)
  case (init sec cs now)
  have "slot p (skynet_timer_init sec cs now) = []" if "valid p" for p
    using that by (cases p) (simp_all add: slot_def valid_def skynet_timer_init_def timer_create_timer_def)
  then show ?case by (simp add: timer_ok_def wheel_ok_def skynet_timer_init_def timer_create_timer_def)
next
  case (timeout T delay push_ok h ses r out T')
  then show ?case using timer_add_ok(1) [of T delay] by (auto simp: skynet_timeout_def split: if_splits)
next
  case (tick T as fuel out T')
  then show ?case using timer_update_ok [of T as fuel] by (auto simp: good_tick_def)
qed

text \<open>C11. A tick. From every state of the timer, a tick returns; it sends the messages of exactly those timers whose time
  is the new time, each once, and keeps all others, however they are spread over the wheels, and
  also when the 32-bit time wraps around; what is new afterwards was added while it was sending.\<close>

theorem timer_tick_exact:
  assumes "timer_reach T" "good_tick as"
  shows "\<exists>out T' M. timer_update (Suc (Suc fuel)) as T = Inr (out, T') \<and> time T' = time T + 1 \<and>
    mset out = image_mset pushes (filter_mset (\<lambda>n. expire n = time T + 1) (nodes T)) \<and>
    nodes T' = filter_mset (\<lambda>n. expire n \<noteq> time T + 1) (nodes T) + M \<and> set_mset M \<subseteq> (\<Union>a\<in>set (snd as). set (new_nodes (time T + 1) a))"
  using timer_update_ok [OF timer_invariant [OF assms(1)] assms(2) [unfolded good_tick_def], of fuel] by blast

text \<open>A pending timer is dispatched when it is due.\<close>

lemma timeout_dispatched:
  assumes "timer_reach T" "0 < delay" "delay < 2 ^ 31" "length as = nat delay" "\<forall>a\<in>set as. good_tick a"
    "skynet_timeout push_ok h delay ses T = (r, out, T0)"
  shows "r = ses \<and> out = [] \<and> (\<exists>outs T'. wheel.steps fuel as T0 = Inr (outs, T') \<and> (h, response ses) \<in> set (last outs)) \<and>
    (\<forall>j<length as. \<exists>outs T'. wheel.steps fuel (take j as) T0 = Inr (outs, T') \<and>
      \<lparr>expire = time T + word_of_int delay, event = \<lparr>handle = h, ev_session = ses\<rparr>\<rparr> \<in># nodes T')"
proof -
  let ?ev = "\<lparr>handle = h, ev_session = ses\<rparr>"
  let ?n = "\<lparr>expire = word_of_int delay + time T, event = ?ev\<rparr>"
  have T0: "r = ses" "out = []" "T0 = timer_add ?ev delay T" using assms(2,6) by (auto simp: skynet_timeout_def)
  note ok = timer_add_ok [OF timer_invariant [OF assms(1)] assms(2,3), of ?ev, folded T0(3)]
  have "unat (expire ?n - time T0) = unat (word_of_int delay :: u32)" using ok(3) by simp
  also have "\<dots> = nat delay" using assms(2,3) by (simp add: unat_eq_nat_uint uint_word_of_int)
  finally have len: "length as = unat (expire ?n - time T0)" "as \<noteq> []" using assms(2,4) by auto
  have "pushes ?n = (h, response ses)" by (simp add: pushes_def)
  moreover have "?n \<in># nodes T0" using ok(2) by simp
  ultimately show ?thesis using wheel.on_time [OF ok(1) assms(5) _ len, of fuel] T0(1,2) by (simp add: add.commute)
qed


definition demo_timer :: timer where
  "demo_timer = snd (snd (skynet_timeout (\<lambda>_. True) 9 1 77 (skynet_timer_init 0 0 0)))"

lemma demo_timer_reach: "timer_reach demo_timer"
  by (rule timer_reach.timeout [OF timer_reach.init, of 1 "\<lambda>_. True" 9 77 0 0 0 77 "[]"]) (simp_all add: demo_timer_def skynet_timeout_def)

lemma demo_timer_nodes: "nodes demo_timer = {#\<lparr>expire = 1, event = \<lparr>handle = 9, ev_session = 77\<rparr>\<rparr>#}" "time demo_timer = 0"
proof -
  let ?T = "skynet_timer_init 0 0 0"
  have "demo_timer = timer_add \<lparr>handle = 9, ev_session = 77\<rparr> 1 ?T" by (simp add: demo_timer_def skynet_timeout_def)
  moreover have "nodes ?T = {#}" "time ?T = 0"
    by (simp_all add: nodes_def skynet_timer_init_def timer_create_timer_def concat_replicate_trivial flip: concat_rows)
  ultimately show "nodes demo_timer = {#\<lparr>expire = 1, event = \<lparr>handle = 9, ev_session = 77\<rparr>\<rparr>#}" "time demo_timer = 0"
    using timer_add_ok [OF timer_invariant [OF timer_reach.init [of 0 0 0]], of 1 "\<lparr>handle = 9, ev_session = 77\<rparr>"] by simp_all
qed

theorem timer_tick_exact_witness:
  "\<exists>out T'. timer_update (Suc (Suc 0)) ([], []) demo_timer = Inr (out, T') \<and> mset out = {#(9, response 77)#} \<and> nodes T' = {#}"
proof -
  have "good_tick ([], [])" by (simp add: good_tick_def)
  from timer_tick_exact [OF demo_timer_reach this, of 0] show ?thesis
    unfolding demo_timer_nodes by (auto simp: pushes_def)
qed


text \<open>The clock is followed tick by tick; a clock that is set back changes nothing but the reference point.\<close>

lemma updatetime_ticks:
  assumes ok: "timer_ok False T" and as: "\<forall>i. good_tick (as i)"
  shows "\<exists>out T'. skynet_updatetime (Suc (Suc fuel)) cp as T = Inr (out, T') \<and> timer_ok False T' \<and>
    time T' = (if cp < current_point T then time T else time T + ucast (cp - current_point T))"
proof -
  have keep: "timer_ok False (T\<lparr>current_point := p\<rparr>)" "timer_ok False (T\<lparr>current_point := p, current := q\<rparr>)" for p q
    using ok by (auto simp: timer_ok_def wheel_ok_def slot_def split: place.splits)
  show ?thesis
  proof (cases "cp \<le> current_point T")
    case True
    then show ?thesis using ok keep by (auto simp: skynet_updatetime_def)
  next
    case False
    define diff where "diff = (ucast (cp - current_point T) :: u32)"
    let ?T = "T\<lparr>current_point := cp, current := current T + ucast diff\<rparr>"
    let ?P = "\<lambda>i (out :: (u32 \<times> skynet_message) list, T'). timer_ok False T' \<and> time T' = time T + of_nat i"
    let ?f = "\<lambda>i (out, T). bind_res (timer_update (Suc (Suc fuel)) (as i) T) (\<lambda>(o', T). Inr (out @ o', T))"
    have "\<exists>s'. for_res ?f [0..<unat diff] ([], ?T) = Inr s' \<and> ?P (unat diff) s'"
    proof (rule for_res_upt_invariant)
      show "?P 0 ([], ?T)" using keep(2) by simp
      fix i s
      assume "?P i s"
      moreover obtain out T1 where s: "s = (out, T1)" by fastforce
      ultimately have "timer_ok False T1" "time T1 = time T + of_nat i" by auto
      then show "\<exists>s'. ?f i s = Inr s' \<and> ?P (Suc i) s'"
        using wheel.step_law [of T1 "as i" fuel] as s by (auto simp: algebra_simps)
    qed simp
    then show ?thesis using False unfolding skynet_updatetime_def Let_def diff_def [symmetric] by auto
  qed
qed

end
