(* ===== verification/Skynet_Command.thy ===== *)
theory Skynet_Command
  imports Skynet_Messages Skynet_Timer
begin

text \<open>
  The commands a service gives to the engine (\<open>skynet_server.c\<close> from \<open>cmd_timeout\<close> to \<open>skynet_command\<close>): they join the
  contexts, the registry, the timer and the environment (\<open>skynet_env.c\<close>). The buffer \<open>result\<close> of a context has 32 bytes and
  is not written past its end. Modules, files and the processor time are arguments.
\<close>

section \<open>The model\<close>

record server =
  nd :: node
  tm :: timer
  env :: "string \<Rightarrow> string option"
  result :: "ctx \<Rightarrow> string"
  logfile :: "ctx \<Rightarrow> bool"

text \<open>What is outside: the code of the services, files that can be opened, and the texts of the processor times.\<close>

record outside =
  code :: service_code
  instance_signal :: "ctx \<Rightarrow> int \<Rightarrow> node \<Rightarrow> (unit \<times> node) cres"
  fopen :: "string \<Rightarrow> bool"
  cpu_text :: "ctx \<Rightarrow> string"
  time_text :: "ctx \<Rightarrow> string"

definition on_node :: "(node \<Rightarrow> ('a \<times> node) cres) \<Rightarrow> server \<Rightarrow> ('a \<times> server) cres" where
  "on_node f S = bind_res (f (nd S)) (\<lambda>(r, s). Inr (r, S\<lparr>nd := s\<rparr>))"

definition do_node :: "(node \<Rightarrow> node cres) \<Rightarrow> server \<Rightarrow> (unit \<times> server) cres" where
  "do_node f = on_node (\<lambda>s. bind_res (f s) (\<lambda>s. Inr ((), s)))"

definition arg :: "'a option \<Rightarrow> 'a cres" where
  "arg p = (case p of None \<Rightarrow> Inl NullDeref | Some p \<Rightarrow> Inr p)"

definition RESULT_SIZE :: nat where "RESULT_SIZE = 32"

definition set_result :: "ctx \<Rightarrow> string \<Rightarrow> server \<Rightarrow> (string option \<times> server) cres" where
  "set_result c t S = (if length t < RESULT_SIZE then Inr (Some t, S\<lparr>result := (result S)(c := t)\<rparr>) else Inl OutOfBounds)"

definition self :: "ctx \<Rightarrow> server \<Rightarrow> u32 cres" where
  "self c S = bind_res (ctx_at c (nd S)) (\<lambda>_. Inr (ctx_handle (reg (nd S)) c))"

definition error :: "outside \<Rightarrow> ctx \<Rightarrow> string \<Rightarrow> server \<Rightarrow> (string option \<times> server) cres" where
  "error X c txt S = bind_res (do_node (skynet_error (code X) (Some c) txt) S) (\<lambda>(_, S). Inr (None, S))"

definition first_is :: "char \<Rightarrow> string \<Rightarrow> bool" where
  "first_is a t \<longleftrightarrow> t \<noteq> [] \<and> hd t = a"

subsection \<open>Numbers\<close>

fun digits_in :: "nat \<Rightarrow> string \<Rightarrow> int \<Rightarrow> int" where
  "digits_in b [] acc = acc"
| "digits_in b (c # cs) acc =
     (case hex_value c of None \<Rightarrow> acc | Some d \<Rightarrow> if d < b then digits_in b cs (int b * acc + int d) else acc)"

text \<open>\<open>strtol\<close> with the base 10, or 0 for the base the text shows; the result is kept in the range of \<open>long\<close> and cut to \<open>int\<close>.\<close>

definition strtol :: "string \<Rightarrow> nat \<Rightarrow> int" where
  "strtol t base =
     (let t = dropWhile isspace t;
          neg = first_is (CHR ''-'') t;
          t = (if neg \<or> first_is (CHR ''+'') t then tl t else t);
          x = (base = 0 \<and> (take 2 t = ''0x'' \<or> take 2 t = ''0X'') \<and> drop 2 t \<noteq> [] \<and> hex_value (t ! 2) \<noteq> None);
          b = (if base \<noteq> 0 then base else if x then 16 else if first_is (CHR ''0'') t then 8 else 10);
          v = digits_in b (if x then drop 2 t else t) 0;
          v = (if neg then - v else v)
      in sint (word_of_int (max (- (2 ^ 63)) (min (2 ^ 63 - 1) v)) :: u32))"

definition hex_upper :: "nat \<Rightarrow> char" where
  "hex_upper n = ''0123456789ABCDEF'' ! n"

definition id_to_hex :: "u32 \<Rightarrow> string" where
  "id_to_hex h = CHR '':'' # map (\<lambda>i. hex_upper (unat (drop_bit ((7 - i) * 4) h AND 0xf))) [0..<8]"

abbreviation colon_hex :: "u32 \<Rightarrow> string" where
  "colon_hex h \<equiv> CHR '':'' # hex h"

definition print_i32 :: "nat \<Rightarrow> string" where
  "print_i32 n = print_int (sint (word_of_int (int n) :: u32))"

subsection \<open>Timers and names\<close>

text \<open>\<open>skynet_timeout\<close> on the timer and the queues of the node.\<close>

definition timeout :: "outside \<Rightarrow> u32 \<Rightarrow> int \<Rightarrow> int \<Rightarrow> server \<Rightarrow> (int \<times> server) cres" where
  "timeout X h delay ses S =
     (if delay \<le> 0 then
        bind_res (on_node (skynet_context_push (code X) h (response ses)) S) (\<lambda>(r, S). Inr (if r \<noteq> 0 then -1 else ses, S))
      else Inr (ses, S\<lparr>tm := timer_add \<lparr>handle = h, ev_session = ses\<rparr> delay (tm S)\<rparr>))"

text \<open>What \<open>dispatch_list\<close> does with the messages of the timers that are due.\<close>

definition deliver_all :: "service_code \<Rightarrow> (u32 \<times> skynet_message) list \<Rightarrow> node \<Rightarrow> node cres" where
  "deliver_all E out s = for_res (\<lambda>(h, m) s. bind_res (skynet_context_push E h m s) (\<lambda>(_, s). Inr s)) out s"

definition cmd_timeout :: "outside \<Rightarrow> ctx \<Rightarrow> string option \<Rightarrow> server \<Rightarrow> (string option \<times> server) cres" where
  "cmd_timeout X c param S =
     bind_res (arg param) (\<lambda>p.
     let ti = strtol p 10 in
     bind_res (on_node (skynet_context_newsession c) S) (\<lambda>(ses, S).
     bind_res (self c S) (\<lambda>h.
     bind_res (timeout X h ti ses S) (\<lambda>(_, S). set_result c (print_int ses) S))))"

definition name_handle :: "u32 \<Rightarrow> string \<Rightarrow> server \<Rightarrow> (string option \<times> server) cres" where
  "name_handle h name = on_node (\<lambda>s. bind_res (skynet_handle_namehandle h name (reg s)) (\<lambda>(r, t). Inr (r, s\<lparr>reg := t\<rparr>)))"

definition cmd_reg :: "outside \<Rightarrow> ctx \<Rightarrow> string option \<Rightarrow> server \<Rightarrow> (string option \<times> server) cres" where
  "cmd_reg X c param S =
     bind_res (self c S) (\<lambda>h.
       case param of
         None \<Rightarrow> set_result c (colon_hex h) S
       | Some p \<Rightarrow>
           if p = [] then set_result c (colon_hex h) S
           else if hd p = CHR ''.'' then name_handle h (tl p) S
           else error X c (''Can't register global name '' @ p @ '' in C'') S)"

definition cmd_query :: "outside \<Rightarrow> ctx \<Rightarrow> string option \<Rightarrow> server \<Rightarrow> (string option \<times> server) cres" where
  "cmd_query X c param S =
     bind_res (arg param) (\<lambda>p.
       if first_is (CHR ''.'') p then
         bind_res (skynet_handle_findname (tl p) (reg (nd S))) (\<lambda>h.
           if h \<noteq> 0 then set_result c (colon_hex h) S else Inr (None, S))
       else Inr (None, S))"

definition span :: "(char \<Rightarrow> bool) \<Rightarrow> string \<Rightarrow> string \<times> string" where
  "span P t = (takeWhile P t, dropWhile P t)"

text \<open>A word of \<open>sscanf\<close>, and what is behind it.\<close>

definition scan_word :: "string \<Rightarrow> string \<times> string" where
  "scan_word t = span (\<lambda>a. \<not> isspace a) (dropWhile isspace t)"

definition cmd_name :: "outside \<Rightarrow> ctx \<Rightarrow> string option \<Rightarrow> server \<Rightarrow> (string option \<times> server) cres" where
  "cmd_name X c param S =
     bind_res (arg param) (\<lambda>p.
     let (name, rest) = scan_word p; handle = fst (scan_word rest) in
     if handle = [] then Inl Uninit
     else if hd handle \<noteq> CHR '':'' then Inr (None, S)
     else
       let handle_id = strtoul16 (tl handle) in
       if handle_id = 0 then Inr (None, S)
       else if hd name = CHR ''.'' then name_handle handle_id (tl name) S
       else error X c (''Can't set global name '' @ name @ '' in C'') S)"

subsection \<open>Services\<close>

definition cmd_exit :: "outside \<Rightarrow> ctx \<Rightarrow> string option \<Rightarrow> server \<Rightarrow> (string option \<times> server) cres" where
  "cmd_exit X c param S = bind_res (do_node (handle_exit (code X) c 0) S) (\<lambda>(_, S). Inr (None, S))"

definition tohandle :: "outside \<Rightarrow> ctx \<Rightarrow> string \<Rightarrow> server \<Rightarrow> (u32 \<times> server) cres" where
  "tohandle X c p S =
     (if first_is (CHR '':'') p then Inr (strtoul16 (tl p), S)
      else if first_is (CHR ''.'') p then bind_res (skynet_handle_findname (tl p) (reg (nd S))) (\<lambda>h. Inr (h, S))
      else bind_res (error X c (''Can't convert '' @ p @ '' to handle'') S) (\<lambda>(_, S). Inr (0, S)))"

definition cmd_kill :: "outside \<Rightarrow> ctx \<Rightarrow> string option \<Rightarrow> server \<Rightarrow> (string option \<times> server) cres" where
  "cmd_kill X c param S =
     bind_res (arg param) (\<lambda>p.
     bind_res (tohandle X c p S) (\<lambda>(h, S).
       if h \<noteq> 0 then bind_res (do_node (handle_exit (code X) c h) S) (\<lambda>(_, S). Inr (None, S)) else Inr (None, S)))"

text \<open>\<open>strsep\<close>: the part before the first of the separators, and the part behind it.\<close>

definition strsep :: "(char \<Rightarrow> bool) \<Rightarrow> string \<Rightarrow> string \<times> string option" where
  "strsep sep t = (case span (\<lambda>a. \<not> sep a) t of (a, b) \<Rightarrow> (a, if b = [] then None else Some (tl b)))"

definition cmd_launch :: "nat \<Rightarrow> outside \<Rightarrow> ctx \<Rightarrow> string option \<Rightarrow> server \<Rightarrow> (string option \<times> server) cres" where
  "cmd_launch fuel X c param S =
     bind_res (arg param) (\<lambda>p.
     let (mod_name, rest) = strsep (\<lambda>a. a \<in> {CHR '' '', CHR 0x09, CHR 0x0D, CHR 0x0A}) p;
         args = map_option (\<lambda>r. fst (strsep (\<lambda>a. a \<in> {CHR 0x0D, CHR 0x0A}) r)) rest in
     bind_res (on_node (skynet_context_new fuel (code X) mod_name args) S) (\<lambda>(inst, S).
       case inst of
         None \<Rightarrow> Inr (None, S)
       | Some d \<Rightarrow> bind_res (self d S) (\<lambda>h. set_result c (id_to_hex h) S)))"

definition skynet_setenv :: "string \<Rightarrow> string \<Rightarrow> server \<Rightarrow> server cres" where
  "skynet_setenv key val S = (if env S key \<noteq> None then Inl AssertFail else Inr (S\<lparr>env := (env S)(key \<mapsto> val)\<rparr>))"

definition cmd_getenv :: "outside \<Rightarrow> ctx \<Rightarrow> string option \<Rightarrow> server \<Rightarrow> (string option \<times> server) cres" where
  "cmd_getenv X c param S = bind_res (arg param) (\<lambda>p. Inr (env S p, S))"

definition cmd_setenv :: "outside \<Rightarrow> ctx \<Rightarrow> string option \<Rightarrow> server \<Rightarrow> (string option \<times> server) cres" where
  "cmd_setenv X c param S =
     bind_res (arg param) (\<lambda>p.
       case strsep (\<lambda>a. a = CHR '' '') p of
         (key, None) \<Rightarrow> Inr (None, S)
       | (key, Some val) \<Rightarrow> bind_res (skynet_setenv key val S) (\<lambda>S. Inr (None, S)))"

definition cmd_starttime :: "outside \<Rightarrow> ctx \<Rightarrow> string option \<Rightarrow> server \<Rightarrow> (string option \<times> server) cres" where
  "cmd_starttime X c param S = set_result c (print_nat 10 (unat (starttime (tm S)))) S"

definition cmd_abort :: "nat \<Rightarrow> nat \<Rightarrow> outside \<Rightarrow> ctx \<Rightarrow> string option \<Rightarrow> server \<Rightarrow> (string option \<times> server) cres" where
  "cmd_abort fuel pass X c param S = bind_res (do_node (handle_retireall fuel pass (code X)) S) (\<lambda>(_, S). Inr (None, S))"

definition cmd_monitor :: "outside \<Rightarrow> ctx \<Rightarrow> string option \<Rightarrow> server \<Rightarrow> (string option \<times> server) cres" where
  "cmd_monitor X c param S =
     (if param = None \<or> param = Some [] then
        if monitor_exit (nd S) \<noteq> 0 then set_result c (colon_hex (monitor_exit (nd S))) S else Inr (None, S)
      else
        bind_res (arg param) (\<lambda>p.
        bind_res (tohandle X c p S) (\<lambda>(h, S). Inr (None, S\<lparr>nd := (nd S)\<lparr>monitor_exit := h\<rparr>\<rparr>))))"

definition cmd_stat :: "outside \<Rightarrow> ctx \<Rightarrow> string option \<Rightarrow> server \<Rightarrow> (string option \<times> server) cres" where
  "cmd_stat X c param S =
     bind_res (arg param) (\<lambda>p.
     bind_res (ctx_at c (nd S)) (\<lambda>x.
       if p = ''mqlen'' then bind_res (mq_at (mqs (nd S)) (ctx_queue x)) (\<lambda>q. set_result c (print_i32 (skynet_mq_length q)) S)
       else if p = ''endless'' then
         if ctx_endless x then set_result c ''1'' (S\<lparr>nd := ctx_put c (x\<lparr>ctx_endless := False\<rparr>) (nd S)\<rparr>)
         else set_result c ''0'' S
       else if p = ''cpu'' then set_result c (cpu_text X c) S
       else if p = ''time'' then set_result c (time_text X c) S
       else if p = ''message'' then set_result c (print_int (sint (message_count x))) S
       else set_result c [] S))"

subsection \<open>Log files and signals\<close>

definition skynet_log_open :: "outside \<Rightarrow> ctx \<Rightarrow> u32 \<Rightarrow> server \<Rightarrow> (bool \<times> server) cres" where
  "skynet_log_open X c h S =
     (case env S ''logpath'' of
        None \<Rightarrow> Inr (False, S)
      | Some path \<Rightarrow>
          let file = path @ ''/'' @ hex8 h @ ''.log'' in
          if fopen X file then bind_res (error X c (''Open log file '' @ file) S) (\<lambda>(_, S). Inr (True, S))
          else bind_res (error X c (''Open log file '' @ file @ '' fail'') S) (\<lambda>(_, S). Inr (False, S)))"

text \<open>The frame of the commands on another service: its handle, a reference to it, the work, and the reference given back.\<close>

definition with_context ::
  "outside \<Rightarrow> ctx \<Rightarrow> string option \<Rightarrow> (string \<Rightarrow> u32 \<Rightarrow> ctx \<Rightarrow> server \<Rightarrow> (unit \<times> server) cres) \<Rightarrow> server \<Rightarrow> (string option \<times> server) cres" where
  "with_context X c param work S =
     bind_res (arg param) (\<lambda>p.
     bind_res (tohandle X c p S) (\<lambda>(h, S).
       if h = 0 then Inr (None, S)
       else
         bind_res (on_node (handle_grab h) S) (\<lambda>(d, S).
           case d of
             None \<Rightarrow> Inr (None, S)
           | Some d \<Rightarrow>
               bind_res (work p h d S) (\<lambda>(_, S).
               bind_res (on_node (skynet_context_release (code X) d) S) (\<lambda>(_, S). Inr (None, S))))))"

definition cmd_logon :: "outside \<Rightarrow> ctx \<Rightarrow> string option \<Rightarrow> server \<Rightarrow> (string option \<times> server) cres" where
  "cmd_logon X c param =
     with_context X c param (\<lambda>p h d S.
       bind_res (ctx_at d (nd S)) (\<lambda>_.
       if \<not> logfile S d then
         bind_res (skynet_log_open X c h S) (\<lambda>(f, S). Inr ((), if f then S\<lparr>logfile := (logfile S)(d := True)\<rparr> else S))
       else Inr ((), S)))"

definition cmd_logoff :: "outside \<Rightarrow> ctx \<Rightarrow> string option \<Rightarrow> server \<Rightarrow> (string option \<times> server) cres" where
  "cmd_logoff X c param =
     with_context X c param (\<lambda>p h d S.
       bind_res (ctx_at d (nd S)) (\<lambda>_.
       if logfile S d then
         bind_res (error X c (''Close log file :'' @ hex8 h) (S\<lparr>logfile := (logfile S)(d := False)\<rparr>)) (\<lambda>(_, S). Inr ((), S))
       else Inr ((), S)))"

definition cmd_signal :: "outside \<Rightarrow> ctx \<Rightarrow> string option \<Rightarrow> server \<Rightarrow> (string option \<times> server) cres" where
  "cmd_signal X c param =
     with_context X c param (\<lambda>p h d S.
       bind_res (ctx_at d (nd S)) (\<lambda>_.
       let rest = dropWhile (\<lambda>a. a \<noteq> CHR '' '') p;
           sig = (if rest = [] then 0 else strtol rest 0) in
       on_node (instance_signal X d sig) S))"

subsection \<open>The table of commands\<close>

definition cmd_funcs :: "nat \<Rightarrow> (string \<times> (outside \<Rightarrow> ctx \<Rightarrow> string option \<Rightarrow> server \<Rightarrow> (string option \<times> server) cres)) list" where
  "cmd_funcs fuel =
     [(''TIMEOUT'', cmd_timeout), (''REG'', cmd_reg), (''QUERY'', cmd_query), (''NAME'', cmd_name), (''EXIT'', cmd_exit), (''KILL'', cmd_kill),
      (''LAUNCH'', cmd_launch fuel), (''GETENV'', cmd_getenv), (''SETENV'', cmd_setenv), (''STARTTIME'', cmd_starttime), (''ABORT'', cmd_abort fuel fuel),
      (''MONITOR'', cmd_monitor), (''STAT'', cmd_stat), (''LOGON'', cmd_logon), (''LOGOFF'', cmd_logoff), (''SIGNAL'', cmd_signal)]"

definition skynet_command :: "nat \<Rightarrow> outside \<Rightarrow> ctx \<Rightarrow> string \<Rightarrow> string option \<Rightarrow> server \<Rightarrow> (string option \<times> server) cres" where
  "skynet_command fuel X c cmd param S =
     (case find (\<lambda>(name, f). name = cmd) (cmd_funcs fuel) of None \<Rightarrow> Inr (None, S) | Some (name, f) \<Rightarrow> f X c param S)"

section \<open>Lengths\<close>

lemma print_nat_length: "2 \<le> b \<Longrightarrow> n < b ^ Suc k \<Longrightarrow> length (print_nat b n) \<le> Suc k"
proof (induction k arbitrary: n)
  case 0
  then show ?case by (simp add: print_nat.simps)
next
  case (Suc k)
  have "n div b < b ^ Suc k" using Suc.prems by (simp add: less_mult_imp_div_less mult.commute)
  then have "length (print_nat b (n div b)) \<le> Suc k" by (rule Suc.IH [OF Suc.prems(1)])
  then show ?case by (subst print_nat.simps) simp
qed

lemma hex_length: "length (hex h) \<le> 8"
  using print_nat_length [of 16 "unat h" 7] unsigned_less [of h, where 'a = nat] by simp

lemma print_int_length: "length (print_int (sint (w :: u32))) \<le> 11"
proof -
  have "- (2 ^ 31) \<le> sint w" "sint w < 2 ^ 31" using sint_ge [of w] sint_less [of w] by simp_all
  then have "nat (sint w) < 10 ^ Suc 9" "nat (- sint w) < 10 ^ Suc 9" by simp_all
  then have "length (print_nat 10 (nat (sint w))) \<le> Suc 9" "length (print_nat 10 (nat (- sint w))) \<le> Suc 9"
    by (intro print_nat_length, simp, simp)+
  then show ?thesis by (simp add: print_int_def)
qed

lemma print_u32_length: "length (print_nat 10 (unat (w :: u32))) \<le> 10"
  using print_nat_length [of 10 "unat w" 9] unsigned_less [of w, where 'a = nat] by simp

lemma newsession_int: "skynet_context_newsession c s = Inr (n, s') \<Longrightarrow> \<exists>w :: u32. n = sint w"
proof -
  assume "skynet_context_newsession c s = Inr (n, s')"
  then have "n = sint (1 :: u32) \<or> (\<exists>w :: u32. n = sint w)"
    by (auto simp: skynet_context_newsession_def bind_res_eq_Inr Let_def split: if_splits)
  then show ?thesis by blast
qed

section \<open>Commands keep the node consistent\<close>

definition fine :: "ghost \<Rightarrow> server \<Rightarrow> ('a \<times> server) cres \<Rightarrow> bool" where
  "fine g S r \<longleftrightarrow> (\<exists>v S'. r = Inr (v, S') \<and> node_ok g (nd S') \<and> stable g (nd S) (nd S'))"

lemma fine_ret: "node_ok g (nd S) \<Longrightarrow> fine g S (Inr (v, S))"
  by (simp add: fine_def stable_refl)

lemma fine_other: "node_ok g (nd S') \<Longrightarrow> nd S' = nd S \<Longrightarrow> fine g S (Inr (v, S'))"
  by (simp add: fine_def stable_refl)

lemma fine_bind:
  assumes "fine g S r" and "\<And>v S'. r = Inr (v, S') \<Longrightarrow> node_ok g (nd S') \<Longrightarrow> fine g S' (f (v, S'))"
  shows "fine g S (bind_res r f)"
proof -
  obtain v S' where r: "r = Inr (v, S')" "node_ok g (nd S')" "stable g (nd S) (nd S')" using assms(1) unfolding fine_def by blast
  obtain w T where "f (v, S') = Inr (w, T)" "node_ok g (nd T)" "stable g (nd S') (nd T)" using assms(2) [OF r(1,2)] unfolding fine_def by blast
  then show ?thesis using r stable_trans [OF r(3)] unfolding fine_def by auto
qed

lemma fine_on_node: "f (nd S) = Inr (v, s) \<Longrightarrow> node_ok g s \<Longrightarrow> stable g (nd S) s \<Longrightarrow> fine g S (on_node f S)"
  by (simp add: fine_def on_node_def)

lemma fine_do_node: "f (nd S) = Inr s \<Longrightarrow> node_ok g s \<Longrightarrow> stable g (nd S) s \<Longrightarrow> fine g S (do_node f S)"
  unfolding do_node_def by (rule fine_on_node [where v = "()"]) simp_all

lemma fine_result: "node_ok g (nd S) \<Longrightarrow> length t < 32 \<Longrightarrow> fine g S (set_result c t S)"
  by (simp add: set_result_def RESULT_SIZE_def fine_other)

lemma self_ok: "node_ok g (nd S) \<Longrightarrow> 0 < holds g c \<Longrightarrow> self c S = Inr (ctx_handle (reg (nd S)) c)"
  using held_alive [of g "nd S" c] by (auto simp: self_def ctx_at_def)

lemma error_fine:
  assumes "code_ok (code X)" "node_ok g (nd S)" "0 < holds g c"
  shows "fine g S (error X c txt S)"
proof -
  have "\<And>d. Some c = Some d \<Longrightarrow> ctxs (nd S) d \<noteq> None" using held_alive [OF assms(2,3)] by auto
  then obtain s where "skynet_error (code X) (Some c) txt (nd S) = Inr s" "node_ok g s" "messages_only (nd S) s"
    using error_keeps [OF assms(1,2)] by metis
  then have "fine g S (do_node (skynet_error (code X) (Some c) txt) S)" using messages_only_stable by (intro fine_do_node)
  then show ?thesis unfolding error_def by (rule fine_bind) (simp add: fine_ret)
qed

lemma exit_fine:
  assumes "code_ok (code X)" "node_ok g (nd S)" "0 < holds g c" "started g"
  shows "fine g S (bind_res (do_node (handle_exit (code X) c h) S) (\<lambda>(_, S). Inr (None :: string option, S)))"
proof -
  obtain s where "handle_exit (code X) c h (nd S) = Inr s" "node_ok g s" "stable g (nd S) s"
    using handle_exit_keeps [OF assms(1,2) held_alive [OF assms(2,3)] node_okD(8) [OF assms(2,4)]] by blast
  then have "fine g S (do_node (handle_exit (code X) c h) S)" by (rule fine_do_node)
  then show ?thesis by (rule fine_bind) (simp add: fine_ret)
qed

lemma findname_fine: "node_ok g s \<Longrightarrow> \<exists>h. skynet_handle_findname name (reg s) = Inr h"
  using findname_ok [of "reg s" name] node_okD(1) [of g s] by (simp add: registry_ok_def)

lemma tohandle_fine:
  assumes "code_ok (code X)" "node_ok g (nd S)" "0 < holds g c"
  shows "fine g S (tohandle X c p S)"
proof -
  obtain h where "skynet_handle_findname (tl p) (reg (nd S)) = Inr h" using findname_fine [OF assms(2)] by blast
  moreover have "fine g S (bind_res (error X c (''Can't convert '' @ p @ '' to handle'') S) (\<lambda>(_, S). Inr (0 :: u32, S)))"
    by (rule fine_bind [OF error_fine [OF assms]]) (simp add: fine_ret)
  ultimately show ?thesis using assms(2) by (simp add: tohandle_def fine_ret)
qed

definition names_room :: "node \<Rightarrow> bool" where
  "names_room s \<longleftrightarrow> name_count (reg s) < name_cap (reg s) \<or> name_cap (reg s) * 2 \<le> MAX_SLOT_SIZE"

lemma name_handle_fine:
  assumes ok: "node_ok g (nd S)" and room: "names_room (nd S)"
  shows "fine g S (name_handle h name S)"
proof -
  have o: "handles_ok (reg (nd S))" "names_ok (reg (nd S))" using node_okD(1) [OF ok] by (simp_all add: registry_ok_def)
  have "\<exists>r t. skynet_handle_namehandle h name (reg (nd S)) = Inr (r, t) \<and> registry_ok t \<and> services t = services (reg (nd S)) \<and>
      ctx_handle t = ctx_handle (reg (nd S)) \<and> ctx_ref t = ctx_ref (reg (nd S)) \<and> handle_index t = handle_index (reg (nd S))"
    using namehandle_ok [OF o(2) room [unfolded names_room_def], of name h]
  proof (elim disjE exE conjE)
    fix ns cap
    let ?t = "(reg (nd S))\<lparr>names := ns, name_cap := cap, name_count := name_count (reg (nd S)) + 1\<rparr>"
    assume "skynet_handle_namehandle h name (reg (nd S)) = Inr (Some name, ?t)" "names_ok ?t"
    moreover have "handles_ok ?t" "services ?t = services (reg (nd S))"
      using o(1) handles_ok_cong [of ?t "reg (nd S)"] services_cong [of ?t "reg (nd S)"] by simp_all
    ultimately show ?thesis by (intro exI [of _ "Some name"] exI [of _ ?t]) (simp add: registry_ok_def)
  qed (use node_okD(1) [OF ok] in auto)
  then obtain r t where t: "skynet_handle_namehandle h name (reg (nd S)) = Inr (r, t)" "registry_ok t" "services t = services (reg (nd S))"
      "ctx_handle t = ctx_handle (reg (nd S))" "ctx_ref t = ctx_ref (reg (nd S))" "handle_index t = handle_index (reg (nd S))" by blast
  have "node_ok g ((nd S)\<lparr>reg := t\<rparr>)" by (rule same_table_keeps [OF ok t(2-6)])
  moreover have "stable g (nd S) ((nd S)\<lparr>reg := t\<rparr>)" by (auto simp: stable_def)
  ultimately show ?thesis unfolding name_handle_def by (rule fine_on_node [rotated]) (simp add: t(1))
qed

text \<open>
  Who gives a command: a service the thread holds a reference to, in a node with a harbor. Signals keep the node consistent
  as the other code of services does, and the texts of the processor times are shorter than the buffer.
\<close>

definition signal_ok :: "outside \<Rightarrow> bool" where
  "signal_ok X \<longleftrightarrow> (\<forall>g s c sig. node_ok g s \<longrightarrow> 0 < holds g c \<longrightarrow> (\<exists>s'. instance_signal X c sig s = Inr ((), s') \<and> node_ok g s' \<and> stable g s s'))"

definition caller_ok :: "outside \<Rightarrow> ghost \<Rightarrow> ctx \<Rightarrow> bool" where
  "caller_ok X g c \<longleftrightarrow> code_ok (code X) \<and> signal_ok X \<and> 0 < holds g c \<and> started g \<and> length (cpu_text X c) < 32 \<and> length (time_text X c) < 32"

lemma caller_okD:
  assumes "caller_ok X g c"
  shows "code_ok (code X)" "signal_ok X" "0 < holds g c" "started g" "length (cpu_text X c) < 32" "length (time_text X c) < 32"
  using assms by (simp_all add: caller_ok_def)

lemma caller_hold: "caller_ok X g c \<Longrightarrow> caller_ok X (hold d g) c"
  by (simp add: caller_ok_def)

lemma timeout_fine:
  assumes X: "caller_ok X g c" and ok: "node_ok g (nd S)"
  shows "fine g S (timeout X h delay ses S)"
proof -
  obtain r s where "skynet_context_push (code X) h (response ses) (nd S) = Inr (r, s)" "node_ok g s" "messages_only (nd S) s"
    by (rule push_only [OF caller_okD(1) [OF X] ok])
  then have "fine g S (on_node (skynet_context_push (code X) h (response ses)) S)" using messages_only_stable by (intro fine_on_node)
  then have "fine g S (bind_res (on_node (skynet_context_push (code X) h (response ses)) S) (\<lambda>(r, S). Inr (if r \<noteq> 0 then -1 else ses, S)))"
    by (rule fine_bind) (simp add: fine_ret)
  then show ?thesis using ok by (simp add: timeout_def fine_other)
qed

lemma cmd_timeout_fine:
  assumes X: "caller_ok X g c" and ok: "node_ok g (nd S)" and p: "param \<noteq> None"
  shows "fine g S (cmd_timeout X c param S)"
proof -
  obtain q where q: "param = Some q" using p by blast
  obtain n s where s: "skynet_context_newsession c (nd S) = Inr (n, s)" "0 < n" "node_ok g s" "messages_only (nd S) s" "mqs s = mqs (nd S)"
    by (rule newsession_keeps [OF ok held_alive [OF ok caller_okD(3) [OF X]]])
  obtain w :: u32 where "n = sint w" using newsession_int [OF s(1)] by blast
  then have len: "length (print_int n) < 32" using print_int_length [of w] by simp
  have new: "fine g S (on_node (skynet_context_newsession c) S)" by (rule fine_on_node [where f = "skynet_context_newsession c", OF s(1,3) messages_only_stable [OF s(4)]])
  have rest: "fine g T (bind_res (self c T) (\<lambda>h. bind_res (timeout X h (strtol q 10) n T) (\<lambda>(_, S). set_result c (print_int n) S)))"
    if T: "node_ok g (nd T)" for T
    unfolding self_ok [OF T caller_okD(3) [OF X]] bind_res_simps
    by (rule fine_bind [OF timeout_fine [OF X T]]) (simp add: fine_result len)
  have "on_node (skynet_context_newsession c) S = Inr (n, S\<lparr>nd := s\<rparr>)" by (simp add: on_node_def s(1))
  then show ?thesis using rest unfolding cmd_timeout_def q arg_def option.case bind_res_simps Let_def
    by (intro fine_bind [OF new]) auto
qed

lemma cmd_reg_fine:
  assumes X: "caller_ok X g c" and ok: "node_ok g (nd S)" and room: "names_room (nd S)"
  shows "fine g S (cmd_reg X c param S)"
  using hex_length [of "ctx_handle (reg (nd S)) c"] error_fine [OF caller_okD(1) [OF X] ok caller_okD(3) [OF X]] name_handle_fine [OF ok room] ok
  by (simp add: cmd_reg_def self_ok [OF ok caller_okD(3) [OF X]] fine_result split: option.split)

lemma cmd_query_fine:
  assumes ok: "node_ok g (nd S)" and p: "param \<noteq> None"
  shows "fine g S (cmd_query X c param S)"
proof -
  obtain q where q: "param = Some q" using p by blast
  obtain h where h: "skynet_handle_findname (tl q) (reg (nd S)) = Inr h" using findname_fine [OF ok] by blast
  then show ?thesis using ok hex_length [of h] by (simp add: cmd_query_def arg_def q fine_ret fine_result)
qed

text \<open>The parameter of \<open>NAME\<close> has two words.\<close>

definition two_words :: "string \<Rightarrow> bool" where
  "two_words p \<longleftrightarrow> fst (scan_word (snd (scan_word p))) \<noteq> []"

lemma cmd_name_fine:
  assumes X: "caller_ok X g c" and ok: "node_ok g (nd S)" and room: "names_room (nd S)" and p: "param = Some q" "two_words q"
  shows "fine g S (cmd_name X c param S)"
  using p(2) name_handle_fine [OF ok room] error_fine [OF caller_okD(1) [OF X] ok caller_okD(3) [OF X]] ok
  by (simp add: cmd_name_def arg_def p(1) two_words_def Let_def case_prod_unfold fine_ret)

lemma cmd_exit_fine: "caller_ok X g c \<Longrightarrow> node_ok g (nd S) \<Longrightarrow> fine g S (cmd_exit X c param S)"
  unfolding cmd_exit_def by (intro exit_fine caller_okD)

lemma cmd_kill_fine:
  assumes X: "caller_ok X g c" and ok: "node_ok g (nd S)" and p: "param \<noteq> None"
  shows "fine g S (cmd_kill X c param S)"
proof -
  obtain q where q: "param = Some q" using p by blast
  show ?thesis unfolding cmd_kill_def q arg_def option.case bind_res_simps
    by (rule fine_bind [OF tohandle_fine [OF caller_okD(1) [OF X] ok caller_okD(3) [OF X]]])
      (simp add: fine_ret exit_fine [OF caller_okD(1) [OF X] _ caller_okD(3,4) [OF X]])
qed

lemma cmd_launch_fine:
  assumes X: "caller_ok X g c" and ok: "node_ok g (nd S)" and p: "param \<noteq> None" and room: "room (nd S)"
  shows "\<exists>n. \<forall>fuel\<ge>n. fine g S (cmd_launch fuel X c param S)"
proof -
  obtain q where q: "param = Some q" using p by blast
  obtain m r where mr: "strsep (\<lambda>a. a \<in> {CHR '' '', CHR 0x09, CHR 0x0D, CHR 0x0A}) q = (m, r)" by fastforce
  define args where "args = map_option (\<lambda>r. fst (strsep (\<lambda>a. a \<in> {CHR 0x0D, CHR 0x0A}) r)) r"
  obtain n where n: "\<forall>fuel\<ge>n. \<exists>r s'. skynet_context_new fuel (code X) m args (nd S) = Inr (r, s') \<and> node_ok g s' \<and> stable g (nd S) s' \<and>
      (\<forall>d. r = Some d \<longrightarrow> ctxs s' d \<noteq> None)" using context_new_keeps [OF caller_okD(1) [OF X] ok room caller_okD(4) [OF X]] by blast
  have "fine g S (cmd_launch fuel X c param S)" if f: "n \<le> fuel" for fuel
  proof -
    obtain v s where s: "skynet_context_new fuel (code X) m args (nd S) = Inr (v, s)" "node_ok g s" "stable g (nd S) s" "\<forall>d. v = Some d \<longrightarrow> ctxs s d \<noteq> None"
      using n f by blast
    have run: "on_node (skynet_context_new fuel (code X) m args) S = Inr (v, S\<lparr>nd := s\<rparr>)" by (simp add: on_node_def s(1))
    have new: "fine g S (on_node (skynet_context_new fuel (code X) m args) S)"
      by (rule fine_on_node [where f = "skynet_context_new fuel (code X) m args", OF s(1-3)])
    have "fine g (S\<lparr>nd := s\<rparr>) (case v of None \<Rightarrow> Inr (None, S\<lparr>nd := s\<rparr>) | Some d \<Rightarrow> bind_res (self d (S\<lparr>nd := s\<rparr>)) (\<lambda>h. set_result c (id_to_hex h) (S\<lparr>nd := s\<rparr>)))"
      using s(2,4) by (auto simp: self_def ctx_at_def fine_ret fine_result id_to_hex_def split: option.split)
    then have "fine g S (bind_res (on_node (skynet_context_new fuel (code X) m args) S) (\<lambda>(inst, S).
        case inst of None \<Rightarrow> Inr (None, S) | Some d \<Rightarrow> bind_res (self d S) (\<lambda>h. set_result c (id_to_hex h) S)))"
      by (intro fine_bind [OF new]) (auto simp: run)
    then show ?thesis unfolding cmd_launch_def q arg_def option.case bind_res_simps mr Let_def prod.case args_def .
  qed
  then show ?thesis by blast
qed

lemma cmd_getenv_fine: "node_ok g (nd S) \<Longrightarrow> param \<noteq> None \<Longrightarrow> fine g S (cmd_getenv X c param S)"
  by (auto simp: cmd_getenv_def arg_def fine_ret)

lemma cmd_setenv_fine:
  assumes ok: "node_ok g (nd S)" and p: "param = Some q" and new: "\<And>v. strsep (\<lambda>a. a = CHR '' '') q = (k, Some v) \<Longrightarrow> env S k = None"
    and k: "k = fst (strsep (\<lambda>a. a = CHR '' '') q)"
  shows "fine g S (cmd_setenv X c param S)"
  using assms by (auto simp: cmd_setenv_def arg_def skynet_setenv_def fine_ret fine_other split: prod.split option.split)

lemma cmd_starttime_fine: "node_ok g (nd S) \<Longrightarrow> fine g S (cmd_starttime X c param S)"
  using print_u32_length [of "starttime (tm S)"] by (simp add: cmd_starttime_def fine_result)

lemma cmd_monitor_fine:
  assumes X: "caller_ok X g c" and ok: "node_ok g (nd S)"
  shows "fine g S (cmd_monitor X c param S)"
proof -
  have set: "fine g T (Inr (v, T\<lparr>nd := (nd T)\<lparr>monitor_exit := h\<rparr>\<rparr>))" if "node_ok g (nd T)" for T h and v :: "string option"
  proof -
    have "node_ok g ((nd T)\<lparr>monitor_exit := h\<rparr>)" by (rule node_ok_frame [OF that]) simp_all
    moreover have "stable g (nd T) ((nd T)\<lparr>monitor_exit := h\<rparr>)" by (auto simp: stable_def)
    ultimately show ?thesis by (simp add: fine_def)
  qed
  have "fine g S (bind_res (tohandle X c p S) (\<lambda>(h, S). Inr (None :: string option, S\<lparr>nd := (nd S)\<lparr>monitor_exit := h\<rparr>\<rparr>)))" for p
    by (rule fine_bind [OF tohandle_fine [OF caller_okD(1) [OF X] ok caller_okD(3) [OF X]]]) (simp add: set)
  then show ?thesis using ok hex_length [of "monitor_exit (nd S)"]
    by (cases param) (simp_all add: cmd_monitor_def arg_def fine_ret fine_result)
qed

lemma cmd_stat_fine:
  assumes X: "caller_ok X g c" and ok: "node_ok g (nd S)" and p: "param \<noteq> None"
  shows "fine g S (cmd_stat X c param S)"
proof -
  obtain q where q: "param = Some q" using p by blast
  obtain x where x: "ctxs (nd S) c = Some x" using held_alive [OF ok caller_okD(3) [OF X]] by blast
  obtain b gs where b: "queues (mqs (nd S)) (ctx_queue x) = Some b" by (rule context_queue [OF ok x])
  have num: "length (print_i32 n) < 32" "length (print_int (sint (message_count x))) < 32" for n
    using print_int_length [of "word_of_int (int n)"] print_int_length [of "message_count x"] by (simp_all add: print_i32_def)
  define s where "s = ctx_put c (x\<lparr>ctx_endless := False\<rparr>) (nd S)"
  have s: "node_ok g s" "stable g (nd S) s"
    unfolding s_def by (rule ctx_put_keeps [OF ok x], simp_all, rule messages_only_stable [OF ctx_put_only [OF x]], simp_all)
  have put: "fine g S (set_result c ''1'' (S\<lparr>nd := s\<rparr>))" using s by (simp add: set_result_def RESULT_SIZE_def fine_def)
  show ?thesis using put caller_okD(5,6) [OF X] num fine_result [OF ok]
    by (simp add: cmd_stat_def arg_def q ctx_at_def x mq_at_def b s_def)
qed

lemma log_open_fine:
  assumes X: "caller_ok X g c" and ok: "node_ok g (nd S)"
  shows "fine g S (skynet_log_open X c h S)"
proof -
  note err = error_fine [OF caller_okD(1) [OF X] ok caller_okD(3) [OF X]]
  have "fine g S (bind_res (error X c t S) (\<lambda>(_, S). Inr (b :: bool, S)))" for t b by (rule fine_bind [OF err]) (simp add: fine_ret)
  then show ?thesis using ok by (simp add: skynet_log_open_def fine_ret Let_def split: option.split)
qed

text \<open>The work on another service runs with a reference to it in hand.\<close>

lemma with_context_fine:
  assumes X: "caller_ok X g c" and ok: "node_ok g (nd S)" and p: "param = Some q"
    and work: "\<And>h d T. node_ok (hold d g) (nd T) \<Longrightarrow> fine (hold d g) T (work q h d T)"
  shows "fine g S (with_context X c param work S)"
proof -
  have inner: "fine g T (bind_res (on_node (handle_grab h) T) (\<lambda>(d, S).
      case d of None \<Rightarrow> Inr (None :: string option, S)
      | Some d \<Rightarrow> bind_res (work q h d S) (\<lambda>(_, S). bind_res (on_node (skynet_context_release (code X) d) S) (\<lambda>(_, S). Inr (None, S)))))"
    if T: "node_ok g (nd T)" for h T
  proof (cases "services (reg (nd T)) h")
    case None
    then show ?thesis using handle_grab_ok(1) [OF T, of h] T by (simp add: on_node_def fine_other)
  next
    case (Some d)
    define s where "s = set_ref d (ctx_ref (reg (nd T)) d + 1) (nd T)"
    have s: "handle_grab h (nd T) = Inr (Some d, s)" "node_ok (hold d g) s"
      using handle_grab_ok(1) [OF T, of h] handle_grab_ok(2) [OF T Some] Some by (simp_all add: s_def)
    have st: "stable g (nd T) s" by (auto simp: stable_def s_def)
    obtain u U where U: "work q h d (T\<lparr>nd := s\<rparr>) = Inr (u, U)" "node_ok (hold d g) (nd U)" "stable (hold d g) s (nd U)"
      using work [of d "T\<lparr>nd := s\<rparr>" h] s(2) unfolding fine_def by auto
    obtain r v where v: "skynet_context_release (code X) d (nd U) = Inr (r, v)" "node_ok g v" "stable g (nd U) v"
      using release_keeps [OF caller_okD(1) [OF X] U(2)] by blast
    have "stable g s (nd U)" by (rule stable_mono [OF U(3)]) (auto simp: le_fun_def)
    then have "stable g (nd T) v" using st v(3) by (metis stable_trans)
    then show ?thesis using s(1) U(1) v(1,2) by (simp add: on_node_def fine_def)
  qed
  show ?thesis unfolding with_context_def p arg_def option.case bind_res_simps
    by (rule fine_bind [OF tohandle_fine [OF caller_okD(1) [OF X] ok caller_okD(3) [OF X]]]) (simp add: fine_ret inner)
qed

lemma cmd_logon_fine:
  assumes X: "caller_ok X g c" and ok: "node_ok g (nd S)" and p: "param \<noteq> None"
  shows "fine g S (cmd_logon X c param S)"
proof -
  obtain q where q: "param = Some q" using p by blast
  show ?thesis unfolding cmd_logon_def
  proof (rule with_context_fine [OF X ok q])
    fix h d and T :: server assume T: "node_ok (hold d g) (nd T)"
    obtain x where x: "ctxs (nd T) d = Some x" using held_alive [OF T, of d] by auto
    have "fine (hold d g) T (bind_res (skynet_log_open X c h T) (\<lambda>(f, S). Inr ((), if f then S\<lparr>logfile := (logfile S)(d := True)\<rparr> else S)))"
      by (rule fine_bind [OF log_open_fine [OF caller_hold [OF X] T]]) (simp add: fine_ret fine_other)
    then show "fine (hold d g) T (bind_res (ctx_at d (nd T)) (\<lambda>_. if \<not> logfile T d
        then bind_res (skynet_log_open X c h T) (\<lambda>(f, S). Inr ((), if f then S\<lparr>logfile := (logfile S)(d := True)\<rparr> else S)) else Inr ((), T)))"
      using T x by (simp add: ctx_at_def fine_ret)
  qed
qed

lemma cmd_logoff_fine:
  assumes X: "caller_ok X g c" and ok: "node_ok g (nd S)" and p: "param \<noteq> None"
  shows "fine g S (cmd_logoff X c param S)"
proof -
  obtain q where q: "param = Some q" using p by blast
  show ?thesis unfolding cmd_logoff_def
  proof (rule with_context_fine [OF X ok q])
    fix h d and T :: server assume T: "node_ok (hold d g) (nd T)"
    obtain x where x: "ctxs (nd T) d = Some x" using held_alive [OF T, of d] by auto
    let ?T = "T\<lparr>logfile := (logfile T)(d := False)\<rparr>"
    have "fine (hold d g) ?T (error X c (''Close log file :'' @ hex8 h) ?T)"
      by (rule error_fine [OF caller_okD(1) [OF X]]) (use T caller_okD(3) [OF caller_hold [OF X]] in simp_all)
    then have "fine (hold d g) ?T (bind_res (error X c (''Close log file :'' @ hex8 h) ?T) (\<lambda>(_, S). Inr ((), S)))"
      by (rule fine_bind) (simp add: fine_ret)
    then show "fine (hold d g) T (bind_res (ctx_at d (nd T)) (\<lambda>_. if logfile T d
        then bind_res (error X c (''Close log file :'' @ hex8 h) ?T) (\<lambda>(_, S). Inr ((), S)) else Inr ((), T)))"
      using T x by (simp add: ctx_at_def fine_ret) (simp add: fine_def)
  qed
qed

lemma cmd_signal_fine:
  assumes X: "caller_ok X g c" and ok: "node_ok g (nd S)" and p: "param \<noteq> None"
  shows "fine g S (cmd_signal X c param S)"
proof -
  obtain q where q: "param = Some q" using p by blast
  show ?thesis unfolding cmd_signal_def
  proof (rule with_context_fine [OF X ok q])
    fix h d and T :: server assume T: "node_ok (hold d g) (nd T)"
    obtain x where x: "ctxs (nd T) d = Some x" using held_alive [OF T, of d] by auto
    have "fine (hold d g) T (on_node (instance_signal X d sig) T)" for sig
    proof -
      have "0 < holds (hold d g) d" by simp
      then obtain s where "instance_signal X d sig (nd T) = Inr ((), s)" "node_ok (hold d g) s" "stable (hold d g) (nd T) s"
        using caller_okD(2) [OF X] T unfolding signal_ok_def by blast
      then show ?thesis by (rule fine_on_node)
    qed
    then show "fine (hold d g) T (bind_res (ctx_at d (nd T)) (\<lambda>_. let rest = dropWhile (\<lambda>a. a \<noteq> CHR '' '') q;
        sig = (if rest = [] then 0 else strtol rest 0) in on_node (instance_signal X d sig) T))"
      using x by (simp add: ctx_at_def Let_def)
  qed
qed

section \<open>Timers and messages\<close>

text \<open>The messages of a list of timers are pushed one after the other.\<close>

lemma deliver_inbox:
  assumes E: "code_ok E"
  shows "node_ok g s \<Longrightarrow> \<exists>s'. deliver_all E out s = Inr s' \<and> node_ok g s' \<and>
    (\<forall>c. inbox s' c = inbox s c @ map snd (filter (\<lambda>(h, m). services (reg s) h = Some c) out))"
proof (induction out arbitrary: s)
  case Nil
  then show ?case by (simp add: deliver_all_def)
next
  case (Cons e out)
  obtain h m where e: "e = (h, m)" by fastforce
  have "\<exists>r t. skynet_context_push E h m s = Inr (r, t) \<and> node_ok g t \<and> reg t = reg s \<and>
      (\<forall>c. inbox t c = inbox s c @ (if services (reg s) h = Some c then [m] else []))"
  proof (cases "services (reg s) h")
    case None
    then show ?thesis using push_handle(1) [OF E Cons.prems None, of m] Cons.prems by auto
  next
    case (Some d)
    obtain x where x: "ctxs s d = Some x" using table_alive(1) [OF Cons.prems in_tableI [OF Some]] by blast
    obtain q where q: "skynet_context_push E h m s = Inr (0, s\<lparr>mqs := q\<rparr>)" "node_ok g (s\<lparr>mqs := q\<rparr>)"
        "qview q = (qview (mqs s))(ctx_queue x \<mapsto> (h, False, inbox s d @ [m]))" using push_handle(2) [OF E Cons.prems Some x] by blast
    then show ?thesis using push_inbox [OF Cons.prems x q(3)] Some by (intro exI [of _ 0] exI [of _ "s\<lparr>mqs := q\<rparr>"]) auto
  qed
  then obtain r t where t: "skynet_context_push E h m s = Inr (r, t)" "node_ok g t" "reg t = reg s"
      "\<forall>c. inbox t c = inbox s c @ (if services (reg s) h = Some c then [m] else [])" by blast
  have "deliver_all E (e # out) s = deliver_all E out t" using t(1) by (simp add: deliver_all_def e)
  then show ?case using Cons.IH [OF t(2)] t(3,4) by (auto simp: e)
qed

lemma strtol_less: "strtol t b < 2 ^ 31"
proof -
  obtain w :: u32 where "strtol t b = sint w" unfolding strtol_def Let_def by blast
  then show ?thesis using sint_less [of w] by simp
qed

lemma timeout_set:
  assumes X: "caller_ok X g c" and ok: "node_ok g (nd S)" and h: "services (reg (nd S)) h = Some c" and d: "0 < strtol p 10"
  obtains ses S' where "0 < ses" "skynet_command fuel X c ''TIMEOUT'' (Some p) S = Inr (Some (print_int ses), S')" "node_ok g (nd S')"
    "skynet_timeout push_ok h (strtol p 10) ses (tm S) = (ses, [], tm S')"
proof -
  obtain n s where s: "skynet_context_newsession c (nd S) = Inr (n, s)" "0 < n" "node_ok g s" "messages_only (nd S) s"
    by (rule newsession_keeps [OF ok held_alive [OF ok caller_okD(3) [OF X]]])
  have reg: "reg s = reg (nd S)" using s(4) unfolding messages_only_def by (elim conjE)
  define T where "T = S\<lparr>nd := s, tm := timer_add \<lparr>handle = h, ev_session = n\<rparr> (strtol p 10) (tm S)\<rparr>"
  have T: "node_ok g (nd T)" "nd T = s" using s(3) by (simp_all add: T_def)
  obtain w :: u32 where "n = sint w" using newsession_int [OF s(1)] by blast
  then have len: "length (print_int n) < 32" using print_int_length [of w] by simp
  have self: "self c (S\<lparr>nd := s\<rparr>) = Inr h" using self_ok [of g "S\<lparr>nd := s\<rparr>" c] s(3) caller_okD(3) [OF X] services_handle [OF h] reg by simp
  have "skynet_command fuel X c ''TIMEOUT'' (Some p) S = cmd_timeout X c (Some p) S" by (simp add: skynet_command_def cmd_funcs_def)
  also have "\<dots> = set_result c (print_int n) T"
    using d s(1) self by (simp add: cmd_timeout_def arg_def on_node_def timeout_def T_def)
  finally have "skynet_command fuel X c ''TIMEOUT'' (Some p) S = Inr (Some (print_int n), T\<lparr>result := (result T)(c := print_int n)\<rparr>)"
    using len by (simp add: set_result_def RESULT_SIZE_def)
  then show ?thesis by (rule that [OF s(2)]) (use T d in \<open>simp_all add: skynet_timeout_def T_def\<close>)
qed

section \<open>Addresses as texts\<close>

lemma hex_value_digits:
  "d < 16 \<Longrightarrow> hex_value (''0123456789abcdef'' ! d) = Some d" "d < 16 \<Longrightarrow> hex_value (hex_upper d) = Some d"
proof -
  have "map (\<lambda>d. hex_value (''0123456789abcdef'' ! d)) [0..<16] = map Some [0..<16]" "map (\<lambda>d. hex_value (hex_upper d)) [0..<16] = map Some [0..<16]"
    by code_simp+
  then show "d < 16 \<Longrightarrow> hex_value (''0123456789abcdef'' ! d) = Some d" "d < 16 \<Longrightarrow> hex_value (hex_upper d) = Some d"
    by (simp_all only: map_eq_conv) simp_all
qed

abbreviation all_digits :: "string \<Rightarrow> bool" where
  "all_digits t \<equiv> \<forall>a\<in>set t. hex_value a \<noteq> None"

lemma hex_digits_snoc: "all_digits t \<Longrightarrow> hex_value a = Some d \<Longrightarrow> hex_digits (t @ [a]) acc = 16 * hex_digits t acc + d"
  by (induction t arbitrary: acc) auto

lemma print_nat_digits: "all_digits (print_nat 16 n) \<and> print_nat 16 n \<noteq> [] \<and> hex_digits (print_nat 16 n) 0 = n"
proof (induction n rule: less_induct)
  case (less n)
  have d: "hex_value (''0123456789abcdef'' ! (n mod 16)) = Some (n mod 16)" by (rule hex_value_digits(1)) simp
  show ?case
  proof (cases "16 \<le> n")
    case True
    then have p: "print_nat 16 n = print_nat 16 (n div 16) @ [''0123456789abcdef'' ! (n mod 16)]" by (subst print_nat.simps) simp
    have "n div 16 < n" using True by simp
    then show ?thesis using less.IH [of "n div 16"] d hex_digits_snoc [OF _ d, of "print_nat 16 (n div 16)" 0] unfolding p by auto
  next
    case False
    then have p: "print_nat 16 n = [''0123456789abcdef'' ! (n mod 16)]" by (subst print_nat.simps) simp
    show ?thesis unfolding p using d False by simp
  qed
qed

lemma strtoul16_digits:
  assumes t: "t \<noteq> []" "all_digits t" and v: "hex_digits t 0 < 2 ^ 64"
  shows "strtoul16 t = of_nat (hex_digits t 0)"
proof -
  obtain a r where a: "t = a # r" "hex_value a \<noteq> None" using t by (cases t) auto
  have not: "\<not> isspace a" "a \<noteq> CHR ''-''" "a \<noteq> CHR ''+''" using a(2) by (auto simp: hex_value_def isspace_def)
  have x: "hex_value (CHR ''x'') = None" "hex_value (CHR ''X'') = None" by (simp_all add: hex_value_def)
  have "take 1 r \<noteq> ''x'' \<and> take 1 r \<noteq> ''X''" using t(2) a(1) x by (cases r) auto
  then show ?thesis using v not by (simp add: strtoul16_def a(1) Let_def)
qed

lemma upper_digits: "j \<le> k \<Longrightarrow> hex_digits (map (\<lambda>i. hex_upper (n div 16 ^ (k - 1 - i) mod 16)) [0..<j]) 0 = n div 16 ^ (k - j) mod 16 ^ j"
proof (induction j)
  case (Suc j)
  let ?f = "\<lambda>i. hex_upper (n div 16 ^ (k - 1 - i) mod 16)"
  define m where "m = n div 16 ^ (k - Suc j)"
  have k: "k - j = Suc (k - Suc j)" "k - 1 - j = k - Suc j" using Suc.prems by simp_all
  have "n div 16 ^ (k - j) = m div 16" unfolding k(1) m_def power_Suc2 by (rule div_mult2_eq)
  then have IH: "hex_digits (map ?f [0..<j]) 0 = m div 16 mod 16 ^ j" using Suc by simp
  have "all_digits (map ?f [0..<j])" using hex_value_digits(2) by auto
  then have "hex_digits (map ?f [0..<j] @ [?f j]) 0 = 16 * hex_digits (map ?f [0..<j]) 0 + m mod 16"
    by (rule hex_digits_snoc) (simp add: hex_value_digits(2) k(2) m_def)
  also have "\<dots> = m mod (16 * 16 ^ j)" unfolding IH by (simp add: mod_mult2_eq)
  finally show ?case by (simp add: m_def)
qed simp

lemma id_to_hex_eq: "tl (id_to_hex h) = map (\<lambda>i. hex_upper (unat h div 16 ^ (8 - 1 - i) mod 16)) [0..<8]"
proof -
  have "unat (drop_bit ((7 - i) * 4) h AND 0xf) = unat h div 16 ^ (7 - i) mod 16" for i
  proof -
    have m: "(0xf :: u32) = mask 4" by (simp add: mask_eq_exp_minus_1)
    have "unat (drop_bit ((7 - i) * 4) h AND 0xf) = unat (take_bit 4 (drop_bit ((7 - i) * 4) h))" unfolding m take_bit_eq_mask ..
    also have "\<dots> = take_bit 4 (drop_bit ((7 - i) * 4) (unat h))"
      using unsigned_less [of h, where 'a = nat] by (simp add: unsigned_take_bit_eq unsigned_drop_bit_eq take_bit_nat_eq_self)
    also have "\<dots> = unat h div 2 ^ ((7 - i) * 4) mod 16" by (simp add: take_bit_eq_mod drop_bit_eq_div)
    also have "(2 :: nat) ^ ((7 - i) * 4) = 16 ^ (7 - i)" by (simp add: power_mult mult.commute)
    finally show ?thesis .
  qed
  then show ?thesis by (simp add: id_to_hex_def)
qed

lemma address_texts: "strtoul16 (hex h) = h" "strtoul16 (tl (id_to_hex h)) = h"
proof -
  have lt: "unat h < 2 ^ 32" using unsigned_less [of h, where 'a = nat] by simp
  then have "unat h < 2 ^ 64" by simp
  then show "strtoul16 (hex h) = h" using strtoul16_digits [of "hex h"] print_nat_digits [of "unat h"] by simp
  have v: "hex_digits (tl (id_to_hex h)) 0 = unat h" unfolding id_to_hex_eq using upper_digits [of 8 8 "unat h"] lt by simp
  have "all_digits (tl (id_to_hex h))" "tl (id_to_hex h) \<noteq> []" unfolding id_to_hex_eq using hex_value_digits(2) by auto
  then show "strtoul16 (tl (id_to_hex h)) = h" using strtoul16_digits v \<open>unat h < 2 ^ 64\<close> by simp
qed

section \<open>Properties\<close>

text \<open>
  What a command needs: the parameters that are read are there, a name has room in the array of names and a new service in the
  table, \<open>NAME\<close> gets two words, and \<open>SETENV\<close> sets a variable that was not set. For \<open>ABORT\<close> the services leave the table alone while
  they are deleted.
\<close>

definition command_pre :: "outside \<Rightarrow> string \<Rightarrow> string option \<Rightarrow> server \<Rightarrow> bool" where
  "command_pre X cmd param S \<longleftrightarrow>
     (cmd \<notin> {''REG'', ''EXIT'', ''STARTTIME'', ''ABORT'', ''MONITOR''} \<longrightarrow> param \<noteq> None) \<and>
     (cmd \<in> {''REG'', ''NAME''} \<longrightarrow> names_room (nd S)) \<and>
     (cmd = ''NAME'' \<longrightarrow> two_words (the param)) \<and>
     (cmd = ''LAUNCH'' \<longrightarrow> room (nd S)) \<and>
     (cmd = ''SETENV'' \<longrightarrow> env S (fst (strsep (\<lambda>a. a = CHR '' '') (the param))) = None) \<and>
     (cmd = ''ABORT'' \<longrightarrow> quiet (code X))"

lemma cmd_abort_fine:
  assumes X: "caller_ok X g c" "quiet (code X)" and ok: "node_ok g (nd S)"
  shows "\<exists>n. \<forall>fuel\<ge>n. fine g S (cmd_abort fuel fuel X c param S)"
proof -
  have "fine g S (cmd_abort fuel fuel X c param S)" if f: "slot_size (reg (nd S)) + 2 \<le> fuel" for fuel
  proof -
    have "Suc (Suc 0) \<le> fuel" using f by simp
    then obtain k where k: "fuel = Suc (Suc k)" by (metis le_iff_add add_Suc_shift add.commute add_0)
    have pass: "slot_size (reg (nd S)) < fuel" using f by simp
    obtain s where s: "handle_retireall fuel fuel (code X) (nd S) = Inr s" "node_ok g s" "stable g (nd S) s"
      using retireall_node [OF caller_okD(1) [OF X(1)] X(2) ok pass, of k] k by metis
    have "fine g S (do_node (handle_retireall fuel fuel (code X)) S)"
      by (rule fine_do_node [where f = "handle_retireall fuel fuel (code X)", OF s])
    then show ?thesis unfolding cmd_abort_def by (rule fine_bind) (simp add: fine_ret)
  qed
  then show ?thesis by blast
qed

lemma find_command: "cmd \<notin> fst ` set fs \<Longrightarrow> find (\<lambda>(name, f). name = cmd) fs = None"
  by (induction fs) auto

lemma command_unknown:
  assumes "cmd \<notin> {''TIMEOUT'', ''REG'', ''QUERY'', ''NAME'', ''EXIT'', ''KILL'', ''LAUNCH'', ''GETENV'', ''SETENV'', ''STARTTIME'', ''ABORT'', ''MONITOR'', ''STAT'', ''LOGON'', ''LOGOFF'', ''SIGNAL''}"
  shows "skynet_command fuel X c cmd param S = Inr (None, S)"
proof -
  have "set (map fst (cmd_funcs fuel)) = {''TIMEOUT'', ''REG'', ''QUERY'', ''NAME'', ''EXIT'', ''KILL'', ''LAUNCH'', ''GETENV'', ''SETENV'', ''STARTTIME'', ''ABORT'', ''MONITOR'', ''STAT'', ''LOGON'', ''LOGOFF'', ''SIGNAL''}" by (simp only: cmd_funcs_def list.map fst_conv list.set)
  then have "cmd \<notin> fst ` set (cmd_funcs fuel)" using assms unfolding set_map by (simp only: simp_thms)
  then have "find (\<lambda>(name, f). name = cmd) (cmd_funcs fuel) = None" by (rule find_command)
  then show ?thesis by (simp add: skynet_command_def)
qed

lemmas command_simps = skynet_command_def cmd_funcs_def command_pre_def

lemma command_fine:
  assumes X: "caller_ok X g c" and ok: "node_ok g (nd S)" and pre: "command_pre X cmd param S"
  shows "\<exists>n. \<forall>fuel\<ge>n. fine g S (skynet_command fuel X c cmd param S)"
proof (cases "cmd \<in> {''TIMEOUT'', ''REG'', ''QUERY'', ''NAME'', ''EXIT'', ''KILL'', ''LAUNCH'', ''GETENV'', ''SETENV'', ''STARTTIME'', ''ABORT'', ''MONITOR'', ''STAT'', ''LOGON'', ''LOGOFF'', ''SIGNAL''}")
  case False
  then show ?thesis using command_unknown [OF False] ok by (simp add: fine_ret)
next
  case True
  let ?P = "\<lambda>cmd. command_pre X cmd param S \<longrightarrow> (\<exists>n. \<forall>fuel\<ge>n. fine g S (skynet_command fuel X c cmd param S))"
  have c_TIMEOUT: "?P ''TIMEOUT''" using cmd_timeout_fine [OF X ok] by (simp add: command_simps)
  have c_REG: "?P ''REG''" using cmd_reg_fine [OF X ok] by (simp add: command_simps)
  have c_QUERY: "?P ''QUERY''" using cmd_query_fine [OF ok] by (simp add: command_simps)
  have c_NAME: "?P ''NAME''" using cmd_name_fine [OF X ok, of param "the param"] by (cases param) (simp_all add: command_simps)
  have c_EXIT: "?P ''EXIT''" using cmd_exit_fine [OF X ok] by (simp add: command_simps)
  have c_KILL: "?P ''KILL''" using cmd_kill_fine [OF X ok] by (simp add: command_simps)
  have c_LAUNCH: "?P ''LAUNCH''" using cmd_launch_fine [OF X ok] by (simp add: command_simps)
  have c_GETENV: "?P ''GETENV''" using cmd_getenv_fine [OF ok] by (simp add: command_simps)
  have c_SETENV: "?P ''SETENV''" using cmd_setenv_fine [OF ok, of param "the param"] by (cases param) (simp_all add: command_simps)
  have c_STARTTIME: "?P ''STARTTIME''" using cmd_starttime_fine [OF ok] by (simp add: command_simps)
  have c_ABORT: "?P ''ABORT''" using cmd_abort_fine [OF X _ ok] by (simp add: command_simps)
  have c_MONITOR: "?P ''MONITOR''" using cmd_monitor_fine [OF X ok] by (simp add: command_simps)
  have c_STAT: "?P ''STAT''" using cmd_stat_fine [OF X ok] by (simp add: command_simps)
  have c_LOGON: "?P ''LOGON''" using cmd_logon_fine [OF X ok] by (simp add: command_simps)
  have c_LOGOFF: "?P ''LOGOFF''" using cmd_logoff_fine [OF X ok] by (simp add: command_simps)
  have c_SIGNAL: "?P ''SIGNAL''" using cmd_signal_fine [OF X ok] by (simp add: command_simps)
  show ?thesis using True pre c_TIMEOUT c_REG c_QUERY c_NAME c_EXIT c_KILL c_LAUNCH c_GETENV c_SETENV c_STARTTIME c_ABORT c_MONITOR c_STAT c_LOGON c_LOGOFF c_SIGNAL
    by (elim insertE emptyE) simp_all
qed


definition demo_outside :: outside where
  "demo_outside = \<lparr>code = answer_code, instance_signal = (\<lambda>_ _ s. Inr ((), s)), fopen = (\<lambda>_. True), cpu_text = (\<lambda>_. ''0.000000''), time_text = (\<lambda>_. ''0'')\<rparr>"

definition demo_server :: server where
  "demo_server = \<lparr>nd = demo_node, tm = skynet_timer_init 0 0 0, env = (\<lambda>_. None), result = (\<lambda>_. []), logfile = (\<lambda>_. False)\<rparr>"

lemma demo_caller_ok: "caller_ok demo_outside demo_hands 0"
  using answer_code_ok demo_node_ok(2) by (auto simp: caller_ok_def demo_outside_def signal_ok_def stable_refl) (simp add: demo_hands_def)


text \<open>
  C31. Addresses. The two ways the engine writes a handle as a text, eight upper case digits after \<open>LAUNCH\<close> and the shortest lower
  case number elsewhere, are both read back as that handle by the commands that take an address.
\<close>

theorem address_roundtrip:
  "tohandle X c (id_to_hex h) S = Inr (h, S) \<and> tohandle X c (colon_hex h) S = Inr (h, S) \<and> length (id_to_hex h) = 9 \<and> length (colon_hex h) \<le> 9"
  using address_texts [of h] hex_length [of h] by (simp add: tohandle_def first_is_def id_to_hex_def)

end
