(* ===== verification/Skynet_Start.thy ===== *)
theory Skynet_Start
  imports Skynet_Server_Proofs
begin

text \<open>
  The threads of the engine (\<open>skynet_start.c\<close>): the workers with the condition variable they sleep on, the
  wake-ups by the socket and the timer thread, the end of all threads, and the check of the workers by
  the monitor thread. A critical section of the mutex is one step; \<open>pthread_cond_wait\<close> gives the mutex back
  while it waits and may return at any time.
\<close>

section \<open>The model\<close>

text \<open>Where a worker is in its loop: at the test of \<open>quit\<close>, in \<open>skynet_context_message_dispatch\<close>, before the mutex because there was no
  queue, waiting for the condition, woken up but not yet past the mutex, or at its end.\<close>

datatype worker_pc = Checking | Dispatching | Locking | Waiting | Waking | Ended

record monitor =
  m_count :: nat
  m_sleep :: int
  m_quit :: bool
  m_workers :: "worker_pc list"

definition new_monitor :: "nat \<Rightarrow> monitor" where
  "new_monitor thread = \<lparr>m_count = thread, m_sleep = 0, m_quit = False, m_workers = replicate thread Checking\<rparr>"

definition set_worker :: "nat \<Rightarrow> worker_pc \<Rightarrow> monitor \<Rightarrow> monitor" where
  "set_worker i w M = M\<lparr>m_workers := (m_workers M)[i := w]\<rparr>"

text \<open>One step of a worker; \<open>got\<close> tells whether the dispatch returned a queue.\<close>

definition thread_worker :: "nat \<Rightarrow> bool \<Rightarrow> monitor \<Rightarrow> monitor" where
  "thread_worker i got M =
     (if i < length (m_workers M) then
        case m_workers M ! i of
          Checking \<Rightarrow> set_worker i (if \<not> m_quit M then Dispatching else Ended) M
        | Dispatching \<Rightarrow> set_worker i (if got then Checking else Locking) M
        | Locking \<Rightarrow> if \<not> m_quit M then set_worker i Waiting (M\<lparr>m_sleep := m_sleep M + 1\<rparr>) else set_worker i Checking M
        | Waiting \<Rightarrow> M
        | Waking \<Rightarrow> set_worker i Checking (M\<lparr>m_sleep := m_sleep M - 1\<rparr>)
        | Ended \<Rightarrow> M
      else M)"

text \<open>A signal, or a wake-up without one, lets a waiting worker go on.\<close>

definition cond_signal :: "nat \<Rightarrow> monitor \<Rightarrow> monitor" where
  "cond_signal i M = (if i < length (m_workers M) \<and> m_workers M ! i = Waiting then set_worker i Waking M else M)"

definition wakeup :: "int \<Rightarrow> nat \<Rightarrow> monitor \<Rightarrow> monitor" where
  "wakeup busy i M = (if int (m_count M) - busy \<le> m_sleep M then cond_signal i M else M)"

text \<open>The end of the timer thread, after \<open>CHECK_ABORT\<close>.\<close>

definition timer_end :: "monitor \<Rightarrow> monitor" where
  "timer_end M = M\<lparr>m_quit := True, m_workers := map (\<lambda>w. if w = Waiting then Waking else w) (m_workers M)\<rparr>"

definition CHECK_ABORT :: "node \<Rightarrow> bool" where
  "CHECK_ABORT s \<longleftrightarrow> total s = 0"

text \<open>The pass of the monitor thread over the workers.\<close>

definition thread_monitor :: "service_code \<Rightarrow> skynet_monitor list \<times> node \<Rightarrow> (skynet_monitor list \<times> node) cres" where
  "thread_monitor E st =
     for_res (\<lambda>i (ms, s). bind_res (aget ms i) (\<lambda>m. bind_res (skynet_monitor_check E m s) (\<lambda>(m, s). Inr (ms[i := m], s)))) [0..<length (fst st)] st"

definition signal_hup :: "service_code \<Rightarrow> node \<Rightarrow> node cres" where
  "signal_hup E s =
     bind_res (skynet_handle_findname ''logger'' (reg s)) (\<lambda>h.
       if h \<noteq> 0 then
         bind_res (skynet_context_push E h \<lparr>source = 0, session = 0, msg_data = None, msg_sz = push_bit MESSAGE_TYPE_SHIFT PTYPE_SYSTEM\<rparr> s) (\<lambda>(_, s). Inr s)
       else Inr s)"

definition worker_weight :: "nat \<Rightarrow> int" where
  "worker_weight i =
     (let weight = [-1, -1, -1, -1, 0, 0, 0, 0, 1, 1, 1, 1, 1, 1, 1, 1, 2, 2, 2, 2, 2, 2, 2, 2, 3, 3, 3, 3, 3, 3, 3, 3]
      in if i < length weight then weight ! i else 0)"

section \<open>The threads as steps\<close>

text \<open>
  What can happen between two steps of a worker: a wake-up by the socket thread (\<open>busy\<close> 0) or the timer thread (\<open>busy\<close> one less than
  the workers), a spurious one, and once the end of the timer thread.
\<close>

inductive thread_step :: "monitor \<Rightarrow> monitor \<Rightarrow> bool" where
  worker: "thread_step M (thread_worker i got M)"
| socket: "thread_step M (wakeup 0 i M)"
| timer: "\<not> m_quit M \<Longrightarrow> thread_step M (wakeup (int (m_count M) - 1) i M)"
| spurious: "thread_step M (cond_signal i M)"
| ends: "\<not> m_quit M \<Longrightarrow> thread_step M (timer_end M)"

inductive thread_reach :: "monitor \<Rightarrow> bool" where
  start: "thread_reach (new_monitor n)"
| step: "thread_reach M \<Longrightarrow> thread_step M M' \<Longrightarrow> thread_reach M'"

inductive_cases thread_stepE: "thread_step M M'"

text \<open>The workers between their wait and the end of it are those that \<open>sleep\<close> counts.\<close>

definition asleep :: "worker_pc \<Rightarrow> bool" where
  "asleep w \<longleftrightarrow> w = Waiting \<or> w = Waking"

definition monitor_ok :: "monitor \<Rightarrow> bool" where
  "monitor_ok M \<longleftrightarrow> length (m_workers M) = m_count M \<and> m_sleep M = int (length (filter asleep (m_workers M))) \<and>
     (m_quit M \<longrightarrow> Waiting \<notin> set (m_workers M)) \<and> (\<not> m_quit M \<longrightarrow> Ended \<notin> set (m_workers M))"

lemma filter_update:
  "i < length ws \<Longrightarrow> int (length (filter P (ws[i := w]))) = int (length (filter P ws)) + (if P w then 1 else 0) - (if P (ws ! i) then 1 else 0)"
proof (induction ws arbitrary: i)
  case (Cons a ws)
  show ?case
  proof (cases i)
    case (Suc k)
    then have "k < length ws" using Cons.prems by simp
    from Cons.IH [OF this] show ?thesis unfolding Suc list_update_code nth_Cons_Suc filter.simps by (simp split: if_splits)
  qed simp
qed simp

lemma in_update: "x \<in> set (ws[i := w]) \<Longrightarrow> x = w \<or> x \<in> set ws"
  using set_update_subset_insert [of ws i w] by blast

lemma set_worker_ok:
  assumes ok: "monitor_ok M" and i: "i < length (m_workers M)"
    and n: "d = (if asleep w then 1 else 0) - (if asleep (m_workers M ! i) then 1 else 0)"
    and w: "m_quit M \<longrightarrow> w \<noteq> Waiting" "\<not> m_quit M \<longrightarrow> w \<noteq> Ended"
  shows "monitor_ok (set_worker i w (M\<lparr>m_sleep := m_sleep M + d\<rparr>))"
  using ok i n w filter_update [OF i, of asleep w] in_update [of _ "m_workers M" i w]
  unfolding monitor_ok_def set_worker_def by auto

lemma cond_signal_ok: "monitor_ok M \<Longrightarrow> monitor_ok (cond_signal i M)"
  using set_worker_ok [of M i 0 Waking] by (auto simp: cond_signal_def asleep_def)

lemma thread_worker_ok:
  assumes ok: "monitor_ok M"
  shows "monitor_ok (thread_worker i got M)"
proof (cases "i < length (m_workers M)")
  case True
  note s = set_worker_ok [OF ok True]
  have same: "M\<lparr>m_sleep := m_sleep M + 0\<rparr> = M" by simp
  show ?thesis
  proof (cases "m_workers M ! i")
    case Checking
    then show ?thesis using True s [of 0 Dispatching] s [of 0 Ended] same by (auto simp: thread_worker_def asleep_def)
  next
    case Dispatching
    then show ?thesis using True s [of 0 Checking] s [of 0 Locking] same by (auto simp: thread_worker_def asleep_def)
  next
    case Locking
    then show ?thesis using True s [of 1 Waiting] s [of 0 Checking] same by (auto simp: thread_worker_def asleep_def)
  next
    case Waking
    then show ?thesis using True s [of "-1" Checking] by (auto simp: thread_worker_def asleep_def)
  qed (use ok True in \<open>auto simp: thread_worker_def\<close>)
qed (simp add: thread_worker_def ok)

lemma timer_end_ok:
  assumes ok: "monitor_ok M" and q: "\<not> m_quit M"
  shows "monitor_ok (timer_end M)"
proof -
  have "filter asleep (map (\<lambda>w. if w = Waiting then Waking else w) ws) = map (\<lambda>w. if w = Waiting then Waking else w) (filter asleep ws)" for ws
    by (induction ws) (auto simp: asleep_def)
  then show ?thesis using ok q by (auto simp: monitor_ok_def timer_end_def)
qed

lemma thread_invariant: "thread_reach M \<Longrightarrow> monitor_ok M"
proof (induction rule: thread_reach.induct)
  case (start n)
  then show ?case by (auto simp: monitor_ok_def new_monitor_def asleep_def)
next
  case (step M M')
  from step.hyps(2) show ?case
    by (rule thread_stepE) (auto simp: wakeup_def thread_worker_ok cond_signal_ok timer_end_ok step.IH)
qed

section \<open>The end of the workers\<close>

text \<open>How many steps of its own a worker needs to its end, once \<open>quit\<close> is set.\<close>

fun steps_left :: "worker_pc \<Rightarrow> nat" where
  "steps_left Ended = 0"
| "steps_left Checking = 1"
| "steps_left Locking = 2"
| "steps_left Waking = 2"
| "steps_left Dispatching = 3"
| "steps_left Waiting = 3"

text \<open>A schedule: steps of workers, of the socket thread and spurious wake-ups, in any order.\<close>

datatype thread_event = Worker nat bool | Socket nat | Spurious nat

fun run_event :: "thread_event \<Rightarrow> monitor \<Rightarrow> monitor" where
  "run_event (Worker i got) M = thread_worker i got M"
| "run_event (Socket i) M = wakeup 0 i M"
| "run_event (Spurious i) M = cond_signal i M"

definition own_steps :: "nat \<Rightarrow> thread_event list \<Rightarrow> nat" where
  "own_steps i es = length (filter (\<lambda>e. case e of Worker j _ \<Rightarrow> j = i | _ \<Rightarrow> False) es)"

lemma run_event_ok: "monitor_ok M \<Longrightarrow> monitor_ok (run_event e M)"
  by (cases e) (auto simp: wakeup_def thread_worker_ok cond_signal_ok)

lemma quit_not_waiting: "monitor_ok M \<Longrightarrow> m_quit M \<Longrightarrow> i < length (m_workers M) \<Longrightarrow> m_workers M ! i \<noteq> Waiting"
  unfolding monitor_ok_def by (metis nth_mem)

lemma quit_no_signal: "monitor_ok M \<Longrightarrow> m_quit M \<Longrightarrow> cond_signal i M = M"
  using quit_not_waiting [of M i] by (auto simp: cond_signal_def)

lemma run_event_quit:
  assumes ok: "monitor_ok M" and q: "m_quit M" and i: "i < m_count M"
  shows "m_quit (run_event e M)" "m_count (run_event e M) = m_count M"
    and "steps_left (m_workers (run_event e M) ! i) \<le> steps_left (m_workers M ! i) - (case e of Worker j _ \<Rightarrow> if j = i then 1 else 0 | _ \<Rightarrow> 0)"
proof -
  have len: "length (m_workers M) = m_count M" using ok by (simp add: monitor_ok_def)
  have no: "m_workers M ! j \<noteq> Waiting" if "j < m_count M" for j using quit_not_waiting [OF ok q] that len by simp
  show "m_quit (run_event e M)" "m_count (run_event e M) = m_count M"
    using q by (cases e; auto simp: wakeup_def cond_signal_def thread_worker_def set_worker_def split: worker_pc.split)+
  show "steps_left (m_workers (run_event e M) ! i) \<le> steps_left (m_workers M ! i) - (case e of Worker j _ \<Rightarrow> if j = i then 1 else 0 | _ \<Rightarrow> 0)"
  proof (cases e)
    case (Worker j got)
    then show ?thesis using q i len no [of j]
      by (cases "j = i") (auto simp: thread_worker_def set_worker_def nth_list_update split: worker_pc.split)
  qed (simp_all add: wakeup_def quit_no_signal [OF ok q])
qed

lemma run_events_quit:
  "monitor_ok M \<Longrightarrow> m_quit M \<Longrightarrow> i < m_count M \<Longrightarrow> monitor_ok (fold run_event es M) \<and> m_count (fold run_event es M) = m_count M \<and>
    steps_left (m_workers (fold run_event es M) ! i) \<le> steps_left (m_workers M ! i) - own_steps i es"
proof (induction es arbitrary: M)
  case (Cons e es)
  note r = run_event_quit [OF Cons.prems, of e]
  have "own_steps i (e # es) = (case e of Worker j _ \<Rightarrow> if j = i then 1 else 0 | _ \<Rightarrow> 0) + own_steps i es"
    by (cases e) (auto simp: own_steps_def)
  moreover have "i < m_count (run_event e M)" using Cons.prems(3) r(2) by simp
  ultimately show ?case using Cons.IH [OF run_event_ok [OF Cons.prems(1)] r(1)] r(2,3) by fastforce
qed (simp add: own_steps_def)

section \<open>The node under the other threads\<close>

lemma monitor_check_keeps:
  assumes E: "code_ok E" and ok: "node_ok g s"
  shows "\<exists>m' s'. skynet_monitor_check E m s = Inr (m', s') \<and> node_ok g s' \<and> stable g s s'"
proof (cases "version m = check_version m \<and> mon_destination m \<noteq> 0")
  case False
  then show ?thesis using ok by (auto simp: skynet_monitor_check_def stable_refl)
next
  case True
  obtain t where t: "skynet_context_endless E (mon_destination m) s = Inr t" "node_ok g t" "stable g s t" by (rule endless_keeps [OF E ok])
  define l where "l = ''A message from [ :'' @ hex8 (mon_source m) @ '' ] to [ :'' @ hex8 (mon_destination m) @
    '' ] maybe in an endless loop (version = '' @ print_int (sint (version m)) @ '')''"
  obtain u where u: "skynet_error E None l t = Inr u" "node_ok g u" "messages_only t u" using error_keeps [OF E t(2), of None l] by blast
  have "skynet_monitor_check E m s = Inr (m, u)"
    unfolding skynet_monitor_check_def l_def [symmetric] using True t(1) u(1) by simp
  then show ?thesis using u(2) stable_trans [OF t(3) messages_only_stable [OF u(3)]] by blast
qed

lemma thread_monitor_keeps:
  assumes E: "code_ok E" and ok: "node_ok g s"
  shows "\<exists>ms' s'. thread_monitor E (ms, s) = Inr (ms', s') \<and> node_ok g s' \<and> stable g s s'"
proof -
  let ?f = "\<lambda>i (ms, s). bind_res (aget ms i) (\<lambda>m. bind_res (skynet_monitor_check E m s) (\<lambda>(m, s). Inr (ms[i := m], s)))"
  define P where "P i st \<longleftrightarrow> length (fst st) = length ms \<and> node_ok g (snd st) \<and> stable g s (snd st)" for i :: nat and st :: "skynet_monitor list \<times> node"
  have "\<exists>st. for_res ?f [0..<length ms] (ms, s) = Inr st \<and> P (length ms) st"
  proof (rule for_res_upt_invariant)
    show "P 0 (ms, s)" using ok by (simp add: P_def stable_refl)
  next
    fix i st assume i: "i < length ms" and P: "P i st"
    obtain ns t where st: "st = (ns, t)" by fastforce
    obtain m' u where "skynet_monitor_check E (ns ! i) t = Inr (m', u)" "node_ok g u" "stable g t u"
      using monitor_check_keeps [OF E, of g t "ns ! i"] P by (auto simp: P_def st)
    then show "\<exists>st'. ?f i st = Inr st' \<and> P (Suc i) st'" using P i stable_trans [of g s t u] by (auto simp: P_def st)
  qed simp
  then show ?thesis by (auto simp: thread_monitor_def P_def)
qed

lemma signal_hup_keeps:
  assumes E: "code_ok E" and ok: "node_ok g s"
  shows "\<exists>s'. signal_hup E s = Inr s' \<and> node_ok g s' \<and> stable g s s'"
proof -
  obtain h where h: "skynet_handle_findname ''logger'' (reg s) = Inr h"
    using findname_ok [of "reg s" "''logger''"] node_okD(1) [OF ok] by (simp add: registry_ok_def)
  obtain r t where "skynet_context_push E h \<lparr>source = 0, session = 0, msg_data = None, msg_sz = push_bit MESSAGE_TYPE_SHIFT PTYPE_SYSTEM\<rparr> s = Inr (r, t)"
      "node_ok g t" "messages_only s t" by (rule push_only [OF E ok])
  then show ?thesis using h ok messages_only_stable by (auto simp: signal_hup_def stable_refl)
qed

section \<open>Properties\<close>

text \<open>
  C9. The end of the workers. Once the timer thread has set \<open>quit\<close>, no worker waits or ever waits again, in whatever state
  the broadcast found them, so that there is no lost wake-up: in every schedule that gives each worker three steps of its own,
  all workers have ended.
\<close>

theorem workers_end:
  assumes "thread_reach M" "m_quit M" "\<forall>i<m_count M. 3 \<le> own_steps i es"
  shows "\<forall>i<m_count M. m_workers (fold run_event es M) ! i = Ended"
proof (intro allI impI)
  fix i assume i: "i < m_count M"
  have "steps_left (m_workers M ! i) \<le> 3" by (cases "m_workers M ! i") simp_all
  then have "steps_left (m_workers (fold run_event es M) ! i) = 0"
    using run_events_quit [OF thread_invariant [OF assms(1)] assms(2) i, of es] assms(3) i by fastforce
  then show "m_workers (fold run_event es M) ! i = Ended" by (cases "m_workers (fold run_event es M) ! i") simp_all
qed

definition demo_threads :: monitor where
  "demo_threads = timer_end (thread_worker 0 False (thread_worker 0 False (thread_worker 0 False (new_monitor 2))))"

lemma demo_threads_reach: "thread_reach demo_threads"
  unfolding demo_threads_def
  by (rule thread_reach.step [OF thread_reach.step [OF thread_reach.step [OF thread_reach.step [OF thread_reach.start]]]], (rule thread_step.worker)+, rule thread_step.ends)
    (simp add: new_monitor_def thread_worker_def set_worker_def)

theorem workers_end_witness:
  "m_workers (fold run_event [Worker 0 True, Worker 1 True, Socket 0, Worker 1 False, Worker 0 False, Worker 0 True, Worker 1 True] demo_threads) ! 0 = Ended"
proof -
  have "m_quit demo_threads" "m_count demo_threads = 2" by code_simp+
  moreover have "3 \<le> own_steps i [Worker 0 True, Worker 1 True, Socket 0, Worker 1 False, Worker 0 False, Worker 0 True, Worker 1 True]" if "i < 2" for i
    using that by (auto simp: own_steps_def less_2_cases_iff)
  ultimately show ?thesis using workers_end [OF demo_threads_reach] by (metis zero_less_numeral)
qed

text \<open>The wake-up of the timer thread reaches a worker whenever one waits, so that no message waits longer than a tick for a sleeping worker.\<close>

lemma timer_wakes:
  assumes "thread_reach M" "i < m_count M" "m_workers M ! i = Waiting"
  shows "m_workers (wakeup (int (m_count M) - 1) i M) ! i = Waking"
proof -
  have ok: "monitor_ok M" by (rule thread_invariant [OF assms(1)])
  then have len: "length (m_workers M) = m_count M" by (simp add: monitor_ok_def)
  have "m_workers M ! i \<in> set (filter asleep (m_workers M))" using assms len nth_mem [of i "m_workers M"] by (simp add: asleep_def)
  then have "0 < length (filter asleep (m_workers M))" by (metis length_pos_if_in_set)
  moreover have "m_sleep M = int (length (filter asleep (m_workers M)))" using ok by (simp add: monitor_ok_def)
  ultimately have "1 \<le> m_sleep M" by linarith
  then show ?thesis using assms(2,3) len by (simp add: wakeup_def cond_signal_def set_worker_def)
qed

end
